(* ===== verification/Prelude.thy ===== *)
theory Prelude
  imports Main "HOL-Library.Word" "HOL-Library.Monad_Syntax"
begin

text \<open>
  The shared ground of the development: machine integer types, slot addresses, the option monad
  in which undefined behaviour (a dangling or null dereference, an index outside a vector) and
  divergence are the value \<open>None\<close>, bounds-checked vector access, and generic list facts.
\<close>

section \<open>Types and automation\<close>

type_synonym u8 = "8 word"
type_synonym u16 = "16 word"
type_synonym u32 = "32 word"
type_synonym u64 = "64 word"

text \<open>A signed number is its mathematical value; this says that it is a value of \<open>int64_t\<close>.\<close>

definition int64_range :: "int \<Rightarrow> bool" where
  "int64_range x \<longleftrightarrow> - (2 ^ 63) \<le> x \<and> x < 2 ^ 63"

text \<open>A pool slot's address. C++ pointers to orders are \<open>addr option\<close>, null being \<open>None\<close>.\<close>

type_synonym addr = nat

named_theorems rep_intro \<open>introduction rules for the representation predicates\<close>
named_theorems frame_simps \<open>what an operation leaves unchanged\<close>

section \<open>The option monad\<close>

lemma bind_Some_iff [simp]:
  "Option.bind m f = Some y \<longleftrightarrow> (\<exists>x. m = Some x \<and> f x = Some y)"
  by (cases m) auto

text \<open>A C++ precondition: \<open>None\<close> (undefined behaviour) unless it holds.\<close>

definition require :: "bool \<Rightarrow> unit option" where
  "require c = (if c then Some () else None)"

lemma require_True [simp]: "require True = Some ()"
  by (simp add: require_def)

lemma require_Some [simp]: "require c = Some u \<longleftrightarrow> c"
  by (simp add: require_def)

section \<open>std::vector access\<close>

text \<open>\<open>v[i]\<close> with a signed 64-bit index: an index outside the vector is undefined behaviour.\<close>

definition vec_get :: "'a list \<Rightarrow> int \<Rightarrow> 'a option" where
  "vec_get xs i = (if 0 \<le> i \<and> nat i < length xs then Some (xs ! nat i) else None)"

definition vec_set :: "'a list \<Rightarrow> int \<Rightarrow> 'a \<Rightarrow> 'a list option" where
  "vec_set xs i x = (if 0 \<le> i \<and> nat i < length xs then Some (xs[nat i := x]) else None)"

lemma vec_get_in [simp]: "i < length xs \<Longrightarrow> vec_get xs (int i) = Some (xs ! i)"
  by (simp add: vec_get_def)

lemma vec_set_in [simp]: "i < length xs \<Longrightarrow> vec_set xs (int i) x = Some (xs[i := x])"
  by (simp add: vec_set_def)

section \<open>Lists: first and last element as an option\<close>

definition first_of :: "'a list \<Rightarrow> 'a option" where
  "first_of xs = (case xs of [] \<Rightarrow> None | x # _ \<Rightarrow> Some x)"

definition last_of :: "'a list \<Rightarrow> 'a option" where
  "last_of xs = (if xs = [] then None else Some (last xs))"

lemma first_of_simps [simp]:
  "first_of [] = None" "first_of (x # xs) = Some x"
  by (simp_all add: first_of_def)

lemma last_of_simps [simp]:
  "last_of [] = None" "last_of (xs @ [x]) = Some x" "last_of [x] = Some x"
  by (simp_all add: last_of_def)

lemma first_of_append: "first_of (xs @ ys) = (if xs = [] then first_of ys else first_of xs)"
  by (cases xs) simp_all

lemma last_of_append: "last_of (xs @ ys) = (if ys = [] then last_of xs else last_of ys)"
  by (simp add: last_of_def)

lemma last_of_Cons: "last_of (x # xs) = (if xs = [] then Some x else last_of xs)"
  by (simp add: last_of_def)

lemma first_of_None_iff [simp]: "first_of xs = None \<longleftrightarrow> xs = []"
  by (cases xs) simp_all

lemma last_of_None_iff [simp]: "last_of xs = None \<longleftrightarrow> xs = []"
  by (simp add: last_of_def)

lemma first_of_in: "first_of xs = Some x \<Longrightarrow> x \<in> set xs"
  by (cases xs) auto

lemma last_of_in: "last_of xs = Some x \<Longrightarrow> x \<in> set xs"
  by (auto simp: last_of_def split: if_splits)

lemma sum_list_change_one:
  fixes f g :: "'a \<Rightarrow> 'b::ab_group_add"
  assumes "distinct as" "a \<in> set as" "\<And>b. b \<noteq> a \<Longrightarrow> f b = g b"
  shows "sum_list (map f as) = sum_list (map g as) + (f a - g a)"
proof -
  from assms(2) obtain xs ys where as: "as = xs @ a # ys" by (meson split_list)
  have "map f xs = map g xs" "map f ys = map g ys"
    using assms(1) by (auto simp: as intro!: map_cong assms(3))
  then have "sum_list (map f xs) = sum_list (map g xs)"
      "sum_list (map f ys) = sum_list (map g ys)"
    by (simp_all only:)
  then show ?thesis by (simp add: as algebra_simps)
qed

lemma card_word_Diff: "finite S \<Longrightarrow> a \<in> S \<Longrightarrow> of_nat (card (S - {a})) = (of_nat (card S) - 1 :: u64)"
proof -
  assume S: "finite S" "a \<in> S"
  then have "card S > 0" by (auto simp: card_gt_0_iff)
  then show ?thesis using S by (simp add: Suc_leI)
qed

lemma filter_other: "a \<notin> set xs \<Longrightarrow> filter (\<lambda>c. c \<noteq> a) xs = xs"
  by (induction xs) auto

lemma map_other: "(\<forall>c. c \<noteq> a \<longrightarrow> f c = g c) \<Longrightarrow> a \<notin> set xs \<Longrightarrow> map f xs = map g xs"
  by (induction xs) auto

section \<open>Numbers and words\<close>

text \<open>Two numbers less than \<open>n\<close> apart take different places in an array of \<open>n\<close> used round.\<close>

lemma mod_distinct:
  assumes "i \<noteq> j" "i < j + n" "j < i + n"
  shows "i mod n \<noteq> j mod (n::nat)"
proof
  assume "i mod n = j mod n"
  then have "n dvd j - i" if "i \<le> j" using mod_eq_dvd_iff_nat [OF that, of n] by simp
  moreover have "n dvd i - j" if "j \<le> i" using mod_eq_dvd_iff_nat [OF that, of n] \<open>i mod n = j mod n\<close> by simp
  ultimately show False using assms by (cases "i < j") (auto dest: dvd_imp_le)
qed

lemma sint_small: "unat (x::u64) < 2 ^ 63 \<Longrightarrow> sint x = uint x \<and> 0 \<le> uint x \<and> uint x < 2 ^ 63"
proof -
  assume "unat x < 2 ^ 63"
  then have "int (unat x) < int (2 ^ 63)" by (simp only: of_nat_less_iff)
  then have "uint x < 2 ^ 63" by simp
  moreover have pos: "0 \<le> uint x" by simp
  moreover have "- (2 ^ 63) \<le> uint x" by (rule order_trans [OF _ pos]) simp
  ultimately show ?thesis unfolding sint_uint by (simp add: signed_take_bit_int_eq_self)
qed

lemma unat_u8: "unat (x::u8) < 256"
  using unsigned_less [of x] by simp

lemma unat_ucast_u8: "unat (ucast (x::u8) :: u64) = unat x"
proof -
  have "unat x < 2 ^ 64" using unat_u8 [of x] by simp
  then show ?thesis by (simp add: unsigned_ucast_eq take_bit_nat_eq_self)
qed

lemma unat_of_nat_u64: "n < 2 ^ 64 \<Longrightarrow> unat (of_nat n :: u64) = n"
  by (simp add: unat_of_nat)

lemma digit_inject: "b < B \<Longrightarrow> d < B \<Longrightarrow> a * B + b = c * B + d \<longleftrightarrow> a = c \<and> b = (d::nat)"
  by (metis div_mult_self3 div_less add_0_right less_nat_zero_code mod_mult_self3 mod_less)

lemma unat_le_small: "x \<le> y \<Longrightarrow> unat (y::u64) < n \<Longrightarrow> unat x < n"
  by (simp add: word_le_nat_alt)

end
