(* ===== verification/Object_Pool.thy ===== *)
theory Object_Pool
  imports Prelude
begin

text \<open>
  The growing fixed-size object pool of \<^verbatim>\<open>include/object_pool.hpp\<close>. A slot is a union: it holds
  either a live object or the link to the next free slot. Slots are numbered consecutively in
  the order in which their chunks were obtained; the number is the slot's address. Reading a
  slot as the wrong member of the union, or an address the pool does not own, is \<open>None\<close>.
\<close>

section \<open>Data\<close>

datatype 'a slot = Storage 'a | NextFree "addr option"

type_synonym 'a memory = "addr \<Rightarrow> 'a slot option"

record 'a object_pool =
  chunks :: "nat list"
  slots :: "'a memory"
  free_head :: "addr option"
  chunk_size :: nat
  allocated :: u64
  capacity :: u64

definition available :: "'a object_pool \<Rightarrow> u64" where
  "available p = capacity p - allocated p"

definition numChunks :: "'a object_pool \<Rightarrow> nat" where
  "numChunks p = length (chunks p)"

text \<open>The live object at an address, if there is one.\<close>

definition load :: "'a memory \<Rightarrow> addr \<Rightarrow> 'a option" where
  "load m a = (case m a of Some (Storage x) \<Rightarrow> Some x | _ \<Rightarrow> None)"

definition load_free :: "'a memory \<Rightarrow> addr \<Rightarrow> addr option option" where
  "load_free m a = (case m a of Some (NextFree n) \<Rightarrow> Some n | _ \<Rightarrow> None)"

definition put_slot :: "'a memory \<Rightarrow> addr \<Rightarrow> 'a slot \<Rightarrow> 'a memory" where
  "put_slot m a s = m(a := Some s)"

section \<open>Operations\<close>

text \<open>The loop of \<open>addChunk\<close>: slot \<open>base + i\<close> is threaded onto the front of the free list.\<close>

primrec thread_chunk :: "addr \<Rightarrow> nat \<Rightarrow> 'a memory \<Rightarrow> addr option \<Rightarrow> 'a memory \<times> addr option" where
  "thread_chunk base 0 m f = (m, f)"
| "thread_chunk base (Suc i) m f =
     (let (m', f') = thread_chunk base i m f
      in (put_slot m' (base + i) (NextFree f'), Some (base + i)))"

definition addChunk :: "'a object_pool \<Rightarrow> nat \<Rightarrow> 'a object_pool" where
  "addChunk p n =
     (let (m, f) = thread_chunk (sum_list (chunks p)) n (slots p) (free_head p)
      in p\<lparr>slots := m, free_head := f, capacity := capacity p + of_nat n,
           chunks := chunks p @ [n]\<rparr>)"

definition mk_pool :: "nat \<Rightarrow> nat \<Rightarrow> 'a object_pool" where
  "mk_pool initial_capacity chunk_sz =
     (let c = (if chunk_sz > 0 then chunk_sz else 1);
          p = \<lparr>chunks = [], slots = Map.empty, free_head = None, chunk_size = c,
               allocated = 0, capacity = 0\<rparr>
      in addChunk p (if initial_capacity > 0 then initial_capacity else c))"

definition allocate :: "'a object_pool \<Rightarrow> 'a \<Rightarrow> ('a object_pool \<times> addr) option" where
  "allocate p0 x = do {
     let p = (if free_head p0 = None then addChunk p0 (chunk_size p0) else p0);
     slot \<leftarrow> free_head p;
     nxt \<leftarrow> load_free (slots p) slot;
     Some (p\<lparr>free_head := nxt, allocated := allocated p + 1,
             slots := put_slot (slots p) slot (Storage x)\<rparr>, slot)
   }"

definition deallocate :: "'a object_pool \<Rightarrow> addr option \<Rightarrow> 'a object_pool option" where
  "deallocate p obj = (case obj of
       None \<Rightarrow> Some p
     | Some a \<Rightarrow> do {
         _ \<leftarrow> load (slots p) a;
         Some (p\<lparr>slots := put_slot (slots p) a (NextFree (free_head p)),
                 free_head := Some a, allocated := allocated p - 1\<rparr>)
       })"

section \<open>Reading memory\<close>

lemma load_upd [simp]:
  "load (put_slot m a (Storage x)) b = (if b = a then Some x else load m b)"
  "load (put_slot m a (NextFree n)) b = (if b = a then None else load m b)"
  by (simp_all add: load_def put_slot_def)

lemma load_free_upd [simp]:
  "load_free (put_slot m a (Storage x)) b = (if b = a then None else load_free m b)"
  "load_free (put_slot m a (NextFree n)) b = (if b = a then Some n else load_free m b)"
  by (simp_all add: load_free_def put_slot_def)

lemma put_slot_at: "put_slot m a s b = (if b = a then Some s else m b)"
  by (simp add: put_slot_def)

lemma dom_put_slot [simp]: "dom (put_slot m a s) = insert a (dom m)"
  by (simp add: put_slot_def)

lemma load_empty [simp]: "load Map.empty a = None" "load_free Map.empty a = None"
  by (simp_all add: load_def load_free_def)

lemma load_load_free: "load m a = Some x \<Longrightarrow> load_free m a = None"
  by (auto simp: load_def load_free_def split: option.splits slot.splits)

definition live :: "'a memory \<Rightarrow> addr set" where
  "live m = {a. load m a \<noteq> None}"

lemma live_upd [simp]:
  "live (put_slot m a (Storage x)) = insert a (live m)"
  "live (put_slot m a (NextFree n)) = live m - {a}"
  by (auto simp: live_def)

lemma in_live: "a \<in> live m \<longleftrightarrow> (\<exists>x. load m a = Some x)"
  by (auto simp: live_def)

lemma not_live [simp]: "a \<notin> live m \<longleftrightarrow> load m a = None"
  by (simp add: live_def)

section \<open>The free list\<close>

text \<open>\<open>free_list m f as\<close>: following the union's links from \<open>f\<close> visits exactly \<open>as\<close>.\<close>

fun free_list :: "'a memory \<Rightarrow> addr option \<Rightarrow> addr list \<Rightarrow> bool" where
  "free_list m f [] \<longleftrightarrow> f = None"
| "free_list m f (a # as) \<longleftrightarrow>
     f = Some a \<and> (\<exists>n. load_free m a = Some n \<and> free_list m n as)"

lemma free_list_cong:
  "(\<And>a. a \<in> set as \<Longrightarrow> load_free m' a = load_free m a) \<Longrightarrow>
     free_list m' f as = free_list m f as"
  by (induction as arbitrary: f) auto

lemma free_list_upd [simp]:
  "a \<notin> set as \<Longrightarrow> free_list (put_slot m a s) f as = free_list m f as"
  by (rule free_list_cong) (auto simp: load_free_def put_slot_at)

text \<open>The pool's invariant: the links reach every slot that holds no object, once.\<close>

definition pool_rep :: "'a object_pool \<Rightarrow> addr list \<Rightarrow> bool" where
  "pool_rep p as \<longleftrightarrow>
     free_list (slots p) (free_head p) as \<and> distinct as
   \<and> dom (slots p) = {..<sum_list (chunks p)}
   \<and> set as \<inter> live (slots p) = {} \<and> set as \<union> live (slots p) = {..<sum_list (chunks p)}
   \<and> chunk_size p > 0
   \<and> capacity p = of_nat (sum_list (chunks p))
   \<and> allocated p = of_nat (card (live (slots p)))"

definition pool_inv :: "'a object_pool \<Rightarrow> bool" where
  "pool_inv p \<longleftrightarrow> (\<exists>as. pool_rep p as)"

lemma pool_rep_finite_live: "pool_rep p as \<Longrightarrow> finite (live (slots p))"
  unfolding pool_rep_def by (metis finite_Un finite_lessThan)


lemma pool_rep_free_fresh: "pool_rep p as \<Longrightarrow> a \<in> set as \<Longrightarrow> load (slots p) a = None"
  unfolding pool_rep_def by (metis disjoint_iff not_live)

section \<open>Growing the pool\<close>

lemma thread_chunk_frame:
  "a \<notin> {base..<base + n} \<Longrightarrow> fst (thread_chunk base n m f) a = m a"
  by (induction n) (auto simp: split_beta put_slot_at)

lemma thread_chunk_free:
  "a \<in> {base..<base + n} \<Longrightarrow> load_free (fst (thread_chunk base n m f)) a \<noteq> None"
  by (induction n) (auto simp: split_beta)

lemma thread_chunk_list:
  assumes "free_list m f as" "set as \<subseteq> {..<base}"
  shows "free_list (fst (thread_chunk base n m f)) (snd (thread_chunk base n m f))
           (rev [base..<base + n] @ as)"
proof (induction n)
  case (Suc n)
  have "base + n \<notin> set (rev [base..<base + n] @ as)"
    using assms(2) by auto
  with Suc show ?case
    by (simp add: split_beta)
qed (use assms in simp)

lemma live_frame:
  assumes "\<And>a. a \<notin> S \<Longrightarrow> m' a = m a" "\<And>a. a \<in> S \<Longrightarrow> load m' a = load m a"
  shows "live m' = live m"
proof -
  have "load m' a = load m a" for a
    using assms by (cases "a \<in> S") (auto simp: load_def)
  then show ?thesis by (simp add: live_def)
qed

text \<open>A new chunk adds its slots to the front of the free list and touches no live object.\<close>

lemma addChunk_rep:
  assumes "pool_rep p as"
  shows "pool_rep (addChunk p n)
           (rev [sum_list (chunks p)..<sum_list (chunks p) + n] @ as)"
    and "load (slots (addChunk p n)) = load (slots p)"
proof -
  let ?b = "sum_list (chunks p)"
  obtain m' f' where t: "thread_chunk ?b n (slots p) (free_head p) = (m', f')" by fastforce
  from assms have fl: "free_list (slots p) (free_head p) as"
    and as: "set as \<subseteq> {..<?b}" and dom: "dom (slots p) = {..<?b}"
    and lv: "live (slots p) \<subseteq> {..<?b}"
    by (auto simp: pool_rep_def)
  note tc = thread_chunk_list [OF fl as, of n, unfolded t, simplified]
    thread_chunk_frame [of _ ?b n "slots p" "free_head p", unfolded t, simplified]
    thread_chunk_free [of _ ?b n "slots p" "free_head p", unfolded t, simplified]
  have ld: "load m' a = load (slots p) a" for a
  proof (cases "a \<in> {?b..<?b + n}")
    case True
    then have "load m' a = None" using tc(3) load_load_free by fastforce
    moreover have "a \<notin> dom (slots p)" using True unfolding dom by simp
    then have "slots p a = None" by (simp add: domIff)
    ultimately show ?thesis by (simp add: load_def)
  qed (simp add: tc(2) load_def)
  then have lv': "live m' = live (slots p)" by (simp add: live_def)
  have "dom m' = {..<?b + n}"
  proof (rule set_eqI)
    fix a
    show "a \<in> dom m' \<longleftrightarrow> a \<in> {..<?b + n}"
      using tc(2) [of a] tc(3) [of a] arg_cong [OF dom, of "\<lambda>S. a \<in> S"]
      by (cases "a \<in> {?b..<?b + n}") (auto simp: load_free_def domIff split: option.splits)
  qed
  moreover have "distinct (rev [?b..<?b + n] @ as)"
    using assms as by (auto simp: pool_rep_def)
  moreover have "set (rev [?b..<?b + n] @ as) \<inter> live m' = {}"
  proof -
    have "set as \<inter> live m' = {}" using assms unfolding lv' by (simp add: pool_rep_def)
    moreover have "{?b..<?b + n} \<inter> live m' = {}" using lv unfolding lv' by auto
    ultimately show ?thesis by (simp add: Int_Un_distrib2 del: not_live)
  qed
  moreover have "set (rev [?b..<?b + n] @ as) \<union> live m' = {..<?b + n}"
  proof -
    have "set as \<union> live m' = {..<?b}" using assms unfolding lv' by (simp add: pool_rep_def)
    then have "set (rev [?b..<?b + n] @ as) \<union> live m' = {?b..<?b + n} \<union> {..<?b}"
      by (simp add: Un_assoc)
    also have "\<dots> = {..<?b + n}" by auto
    finally show ?thesis .
  qed
  ultimately show "pool_rep (addChunk p n) (rev [?b..<?b + n] @ as)"
    using assms tc(1) lv' unfolding pool_rep_def addChunk_def t
    by (simp del: set_append set_rev set_upt)
  show "load (slots (addChunk p n)) = load (slots p)"
    by (rule ext) (simp add: addChunk_def t ld)
qed

lemma addChunk_fields [frame_simps]:
  "allocated (addChunk p n) = allocated p" "chunk_size (addChunk p n) = chunk_size p"
  "chunks (addChunk p n) = chunks p @ [n]"
  by (simp_all add: addChunk_def split: prod.split)

lemma addChunk_free_head: "n > 0 \<Longrightarrow> \<exists>a. free_head (addChunk p n) = Some a"
  by (cases n) (auto simp: addChunk_def split: prod.splits)

lemma mk_pool_props:
  "pool_inv (mk_pool i c)" "load (slots (mk_pool i c)) a = None"
proof -
  let ?p = "\<lparr>chunks = [], slots = Map.empty, free_head = None,
           chunk_size = (if c > 0 then c else 1), allocated = 0, capacity = 0\<rparr>"
  have rep: "pool_rep ?p []" by (simp add: pool_rep_def live_def)
  show "pool_inv (mk_pool i c)"
    unfolding pool_inv_def mk_pool_def Let_def using addChunk_rep(1) [OF rep] by blast
  show "load (slots (mk_pool i c)) a = None"
    unfolding mk_pool_def Let_def addChunk_rep(2) [OF rep] by simp
qed

section \<open>Handing out and taking back slots\<close>

text \<open>
  The laws a client of the pool relies on: an allocation succeeds, hands out an address that
  held no object, and changes no other object; so does a deallocation, of a live address.
\<close>

lemma allocate_works:
  assumes "pool_inv p"
  obtains p' a where "allocate p x = Some (p', a)" "pool_inv p'" "load (slots p) a = None"
    "load (slots p') = (load (slots p))(a \<mapsto> x)"
    "chunk_size p' = chunk_size p"
proof -
  define q where "q = (if free_head p = None then addChunk p (chunk_size p) else p)"
  from assms obtain as where as: "pool_rep p as" by (auto simp: pool_inv_def)
  then have "chunk_size p > 0" by (simp add: pool_rep_def)
  then obtain a where a: "free_head q = Some a"
    using addChunk_free_head [of "chunk_size p" p] by (cases "free_head p") (auto simp: q_def)
  have "\<exists>bs. pool_rep q bs"
    using as addChunk_rep(1) [OF as] by (cases "free_head p") (auto simp: q_def)
  then obtain bs where bs: "pool_rep q bs" ..
  have ld: "load (slots q) = load (slots p)" and cs: "chunk_size q = chunk_size p"
    using addChunk_rep(2) [OF as] by (auto simp: q_def frame_simps)
  from bs a obtain n cs' where n: "bs = a # cs'" "load_free (slots q) a = Some n"
      "free_list (slots q) n cs'" "a \<notin> set cs'"
    by (cases bs) (auto simp: pool_rep_def)
  let ?p' = "q\<lparr>free_head := n, allocated := allocated q + 1,
               slots := put_slot (slots q) a (Storage x)\<rparr>"
  have alloc: "allocate p x = Some (?p', a)"
    by (simp add: allocate_def q_def [symmetric] Let_def a n)
  have fresh: "load (slots q) a = None"
    using bs n(1) by (simp add: pool_rep_free_fresh)
  have fin: "finite (live (slots q))" using bs by (rule pool_rep_finite_live)
  have "a \<in> {..<sum_list (chunks q)}" using bs n(1) by (auto simp: pool_rep_def)
  then have "pool_rep ?p' cs'"
    using bs n fresh fin by (auto simp: pool_rep_def)
  then have "pool_inv ?p'" by (auto simp: pool_inv_def)
  moreover have "load (slots ?p') = (load (slots p))(a \<mapsto> x)"
    using ld by (auto simp: fun_eq_iff)
  ultimately show ?thesis
    using alloc fresh ld cs by (auto intro!: that [of ?p' a])
qed

lemma deallocate_works:
  assumes "pool_inv p" "load (slots p) a = Some x"
  obtains p' where "deallocate p (Some a) = Some p'" "pool_inv p'"
    "load (slots p') = (load (slots p))(a := None)"
    "free_head p' = Some a" "chunk_size p' = chunk_size p" "chunks p' = chunks p"
proof -
  from assms obtain as where as: "pool_rep p as" by (auto simp: pool_inv_def)
  let ?p' = "p\<lparr>slots := put_slot (slots p) a (NextFree (free_head p)),
               free_head := Some a, allocated := allocated p - 1\<rparr>"
  have "a \<in> live (slots p)" using assms(2) by (simp add: in_live)
  then have na: "a \<notin> set as" "a < sum_list (chunks p)"
    and lv: "live (slots p) \<noteq> {}"
    using as by (auto simp: pool_rep_def)
  have fin: "finite (live (slots p))" using as by (rule pool_rep_finite_live)
  then have "card (live (slots p)) > 0" using lv by (simp add: card_gt_0_iff)
  then have card: "of_nat (card (live (slots p) - {a})) = (of_nat (card (live (slots p))) - 1 :: u64)"
    using \<open>a \<in> live (slots p)\<close> fin by (simp add: Suc_leI)
  have "pool_rep ?p' (a # as)"
    using as na card \<open>a \<in> live (slots p)\<close> by (auto simp: pool_rep_def)
  then have "pool_inv ?p'" by (auto simp: pool_inv_def)
  moreover have "load (slots ?p') = (load (slots p))(a := None)"
    by (auto simp: fun_eq_iff)
  ultimately show ?thesis
    using assms by (auto simp: deallocate_def intro!: that [of ?p'])
qed

text \<open>The client may overwrite the objects in the live slots; the free list does not notice.\<close>

definition relinked :: "'a memory \<Rightarrow> 'a memory \<Rightarrow> bool" where
  "relinked m m' \<longleftrightarrow> live m' = live m \<and> (\<forall>a. load m a = None \<longrightarrow> m' a = m a)"

lemma relinked_refl [simp]: "relinked m m"
  by (simp add: relinked_def)

lemma relinked_trans: "relinked m m' \<Longrightarrow> relinked m' m'' \<Longrightarrow> relinked m m''"
  unfolding relinked_def by (metis not_live)

lemma relinked_upd: "load m a = Some x \<Longrightarrow> relinked m (put_slot m a (Storage y))"
  by (auto simp: relinked_def in_live put_slot_at)

lemma pool_inv_relinked:
  assumes "pool_inv p" "relinked (slots p) m'"
  shows "pool_inv (p\<lparr>slots := m'\<rparr>)"
proof -
  from assms(1) obtain as where as: "pool_rep p as" by (auto simp: pool_inv_def)
  have same: "m' a = slots p a" if "load (slots p) a = None" for a
    using assms(2) that by (simp add: relinked_def)
  have "free_list m' (free_head p) as"
    using as same pool_rep_free_fresh [OF as]
    by (subst free_list_cong [of as m' "slots p"]) (auto simp: pool_rep_def load_free_def)
  moreover have lv: "live m' = live (slots p)" using assms(2) by (simp add: relinked_def)
  moreover have "dom m' = dom (slots p)"
  proof (rule set_eqI)
    fix a
    have "load m' a = None \<longleftrightarrow> load (slots p) a = None"
      using lv by (metis not_live)
    then show "a \<in> dom m' \<longleftrightarrow> a \<in> dom (slots p)"
      using same [of a] by (cases "load (slots p) a") (auto simp: load_def split: option.splits)
  qed
  ultimately have "pool_rep (p\<lparr>slots := m'\<rparr>) as" using as by (simp add: pool_rep_def)
  then show ?thesis by (auto simp: pool_inv_def)
qed

end
