(* ===== verification/Order_Types.thy ===== *)
theory Order_Types
  imports Object_Pool
begin

text \<open>
  The basic types of \<^verbatim>\<open>include/types.hpp\<close> and the order of \<^verbatim>\<open>include/order.hpp\<close>. A price is a
  signed 64-bit tick count; signed overflow is undefined in C++, so a price is its mathematical
  value, and \<open>int64_range\<close> (in \<open>Prelude\<close>) states that a value is representable. Unsigned 64-bit values
  (quantities, ids, timestamps, \<open>size_t\<close> counters) are words, whose arithmetic wraps.
\<close>

datatype side = BUY | SELL

datatype order_type = LIMIT | MARKET

type_synonym price = int
type_synonym quantity = u64
type_synonym order_id = u64
type_synonym timestamp = u64

definition int64_max :: int where
  "int64_max = 2 ^ 63 - 1"

definition int64_min :: int where
  "int64_min = - (2 ^ 63)"

record order =
  o_id :: order_id
  o_price :: price
  o_quantity :: quantity
  o_next :: "addr option"
  o_prev :: "addr option"
  o_timestamp :: timestamp
  o_side :: side
  o_type :: order_type

text \<open>The constructor; \<open>OrderBook::addOrder\<close> uses the defaults \<open>ts_ = 0\<close>, \<open>LIMIT\<close>.\<close>

definition mk_order :: "order_id \<Rightarrow> side \<Rightarrow> price \<Rightarrow> quantity \<Rightarrow> timestamp \<Rightarrow> order_type \<Rightarrow> order" where
  "mk_order i s p q ts ty =
     \<lparr>o_id = i, o_price = p, o_quantity = q, o_next = None, o_prev = None,
      o_timestamp = ts, o_side = s, o_type = ty\<rparr>"

lemma mk_order_sel [simp]:
  "o_id (mk_order i s p q ts ty) = i" "o_price (mk_order i s p q ts ty) = p"
  "o_quantity (mk_order i s p q ts ty) = q" "o_side (mk_order i s p q ts ty) = s"
  "o_next (mk_order i s p q ts ty) = None" "o_prev (mk_order i s p q ts ty) = None"
  by (simp_all add: mk_order_def)

type_synonym heap = "order memory"

text \<open>\<open>o->f = v\<close> through a pointer to a live order.\<close>

definition modify :: "heap \<Rightarrow> addr \<Rightarrow> (order \<Rightarrow> order) \<Rightarrow> heap option" where
  "modify m a f = do {
     ord \<leftarrow> load m a;
     Some (put_slot m a (Storage (f ord)))
   }"

lemma modify_live [simp]: "load m a = Some x \<Longrightarrow> modify m a f = Some (put_slot m a (Storage (f x)))"
  by (simp add: modify_def)

lemma modify_relinked: "modify m a f = Some m' \<Longrightarrow> relinked m m'"
  by (auto simp: modify_def relinked_upd)

text \<open>What an order is to its owner: everything but the intrusive links.\<close>

definition payload :: "heap \<Rightarrow> addr \<Rightarrow> order option" where
  "payload m a = map_option (\<lambda>x. x\<lparr>o_next := None, o_prev := None\<rparr>) (load m a)"

lemma payload_relink [simp]:
  "load m a = Some x \<Longrightarrow> payload (put_slot m a (Storage (x\<lparr>o_next := n\<rparr>))) = payload m"
  "load m a = Some x \<Longrightarrow> payload (put_slot m a (Storage (x\<lparr>o_prev := n\<rparr>))) = payload m"
  by (auto simp: payload_def fun_eq_iff)

definition qty :: "heap \<Rightarrow> addr \<Rightarrow> quantity" where
  "qty m a = (case load m a of Some x \<Rightarrow> o_quantity x | None \<Rightarrow> 0)"

lemma qty_payload: "payload m' a = payload m a \<Longrightarrow> qty m' a = qty m a"
  by (cases "load m a"; cases "load m' a")
     (auto simp: payload_def qty_def dest: arg_cong [of _ _ o_quantity])

lemma qty_live: "load m a = Some x \<Longrightarrow> qty m a = o_quantity x"
  by (simp add: qty_def)

end
