(* ===== verification/Price_Level.thy ===== *)
theory Price_Level
  imports Order_Types
begin

text \<open>
  \<^verbatim>\<open>include/price_level.hpp\<close>: one price level, an intrusive doubly linked list of the orders
  resting at a price (oldest first) with their number and total quantity. The orders live in the
  pool's memory; the level owns only the two end pointers. Every operation takes the memory and
  returns it updated; a null or dangling dereference is \<open>None\<close>.
\<close>

section \<open>Data and operations\<close>

record price_level =
  pl_price :: price
  total_quantity :: quantity
  pl_head :: "addr option"
  pl_tail :: "addr option"
  order_count :: u64

definition mk_price_level :: "price \<Rightarrow> price_level" where
  "mk_price_level p =
     \<lparr>pl_price = p, total_quantity = 0, pl_head = None, pl_tail = None, order_count = 0\<rparr>"

definition isEmpty :: "price_level \<Rightarrow> bool" where
  "isEmpty l \<longleftrightarrow> pl_head l = None"

definition getHead :: "price_level \<Rightarrow> addr option" where
  "getHead l = pl_head l"

definition getTotalQuantity :: "price_level \<Rightarrow> quantity" where
  "getTotalQuantity l = total_quantity l"

definition setPrice :: "price_level \<Rightarrow> price \<Rightarrow> price_level" where
  "setPrice l p = l\<lparr>pl_price := p\<rparr>"

text \<open>\<open>delta\<close> is an \<open>int64_t\<close>; adding it to the unsigned total converts it modulo \<open>2 ^ 64\<close>.\<close>

definition adjustTotalQuantity :: "price_level \<Rightarrow> u64 \<Rightarrow> price_level" where
  "adjustTotalQuantity l delta = l\<lparr>total_quantity := total_quantity l + delta\<rparr>"

definition pl_addOrder :: "heap \<Rightarrow> price_level \<Rightarrow> addr option \<Rightarrow> (heap \<times> price_level) option" where
  "pl_addOrder m l order = (case order of
       None \<Rightarrow> Some (m, l)
     | Some a \<Rightarrow> do {
         m \<leftarrow> modify m a (\<lambda>x. x\<lparr>o_next := None\<rparr>);
         m \<leftarrow> modify m a (\<lambda>x. x\<lparr>o_prev := pl_tail l\<rparr>);
         (m, l) \<leftarrow> (case pl_tail l of
             Some t \<Rightarrow> do {
               m \<leftarrow> modify m t (\<lambda>x. x\<lparr>o_next := Some a\<rparr>);
               Some (m, l)
             }
           | None \<Rightarrow> Some (m, l\<lparr>pl_head := Some a\<rparr>));
         x \<leftarrow> load m a;
         Some (m, l\<lparr>pl_tail := Some a, total_quantity := total_quantity l + o_quantity x,
                    order_count := order_count l + 1\<rparr>)
       })"

definition pl_removeOrder :: "heap \<Rightarrow> price_level \<Rightarrow> addr option \<Rightarrow> (heap \<times> price_level) option" where
  "pl_removeOrder m l order = (case order of
       None \<Rightarrow> Some (m, l)
     | Some a \<Rightarrow> do {
         x \<leftarrow> load m a;
         (m, l) \<leftarrow> (case o_prev x of
             Some p \<Rightarrow> do {
               m \<leftarrow> modify m p (\<lambda>y. y\<lparr>o_next := o_next x\<rparr>);
               Some (m, l)
             }
           | None \<Rightarrow> Some (m, l\<lparr>pl_head := o_next x\<rparr>));
         x \<leftarrow> load m a;
         (m, l) \<leftarrow> (case o_next x of
             Some n \<Rightarrow> do {
               m \<leftarrow> modify m n (\<lambda>y. y\<lparr>o_prev := o_prev x\<rparr>);
               Some (m, l)
             }
           | None \<Rightarrow> Some (m, l\<lparr>pl_tail := o_prev x\<rparr>));
         x \<leftarrow> load m a;
         let l = l\<lparr>total_quantity := total_quantity l - o_quantity x,
                   order_count := order_count l - 1\<rparr>;
         m \<leftarrow> modify m a (\<lambda>y. y\<lparr>o_next := None\<rparr>);
         m \<leftarrow> modify m a (\<lambda>y. y\<lparr>o_prev := None\<rparr>);
         Some (m, l)
       })"

definition reduceHeadQuantity :: "heap \<Rightarrow> price_level \<Rightarrow> quantity \<Rightarrow> (heap \<times> price_level) option" where
  "reduceHeadQuantity m l q = (case pl_head l of
       None \<Rightarrow> Some (m, l)
     | Some h \<Rightarrow> do {
         x \<leftarrow> load m h;
         if q > o_quantity x then Some (m, l)
         else do {
           m \<leftarrow> modify m h (\<lambda>y. y\<lparr>o_quantity := o_quantity y - q\<rparr>);
           let l = l\<lparr>total_quantity := total_quantity l - q\<rparr>;
           x \<leftarrow> load m h;
           if o_quantity x = 0 then pl_removeOrder m l (Some h) else Some (m, l)
         }
       })"

section \<open>Representation\<close>

text \<open>
  \<open>dll m p as n\<close>: the live orders \<open>as\<close> are linked in this order, forwards and backwards; the
  first one's predecessor is \<open>p\<close>, the last one's successor is \<open>n\<close>.
\<close>

fun dll :: "heap \<Rightarrow> addr option \<Rightarrow> addr list \<Rightarrow> addr option \<Rightarrow> bool" where
  "dll m p [] n \<longleftrightarrow> True"
| "dll m p (a # as) n \<longleftrightarrow>
     (\<exists>x. load m a = Some x \<and> o_prev x = p \<and> o_next x = (if as = [] then n else first_of as))
   \<and> dll m (Some a) as n"

lemma dll_cong: "(\<And>a. a \<in> set as \<Longrightarrow> load m' a = load m a) \<Longrightarrow> dll m' p as n = dll m p as n"
  by (induction as arbitrary: p) auto

lemma dll_put_other [simp]: "a \<notin> set as \<Longrightarrow> dll (put_slot m a s) p as n = dll m p as n"
  by (rule dll_cong) (auto simp: load_def put_slot_at)

lemma dll_live: "dll m p as n \<Longrightarrow> a \<in> set as \<Longrightarrow> \<exists>x. load m a = Some x"
  by (induction as arbitrary: p) auto

lemma dll_append:
  "dll m p (xs @ ys) n \<longleftrightarrow>
     dll m p xs (if ys = [] then n else first_of ys)
   \<and> dll m (if xs = [] then p else last_of xs) ys n"
  by (induction xs arbitrary: p) (auto simp: first_of_append last_of_Cons)

definition level_rep :: "heap \<Rightarrow> price_level \<Rightarrow> addr list \<Rightarrow> bool" where
  "level_rep m l as \<longleftrightarrow>
     dll m None as None \<and> distinct as
   \<and> pl_head l = first_of as \<and> pl_tail l = last_of as
   \<and> order_count l = of_nat (length as)
   \<and> total_quantity l = sum_list (map (qty m) as)"

lemma level_rep_cong:
  "(\<And>a. a \<in> set as \<Longrightarrow> load m' a = load m a) \<Longrightarrow> level_rep m' l as = level_rep m l as"
  unfolding level_rep_def
  by (simp add: dll_cong [of as m' m] qty_def cong: map_cong)

lemma level_rep_live: "level_rep m l as \<Longrightarrow> a \<in> set as \<Longrightarrow> \<exists>x. load m a = Some x"
  by (auto simp: level_rep_def dest: dll_live)

lemma level_rep_new [simp]: "level_rep m (mk_price_level p) []"
  by (simp add: level_rep_def mk_price_level_def)

lemma level_rep_isEmpty: "level_rep m l as \<Longrightarrow> isEmpty l \<longleftrightarrow> as = []"
  by (simp add: level_rep_def isEmpty_def)

lemma level_rep_head: "level_rep m l as \<Longrightarrow> getHead l = first_of as"
  by (simp add: level_rep_def getHead_def)

text \<open>
  \<open>links_only m m' S\<close>: from \<open>m\<close> to \<open>m'\<close> only the links of live orders in \<open>S\<close> changed.
\<close>

definition links_only :: "heap \<Rightarrow> heap \<Rightarrow> addr set \<Rightarrow> bool" where
  "links_only m m' S \<longleftrightarrow>
     payload m' = payload m \<and> (\<forall>b. b \<notin> S \<or> load m b = None \<longrightarrow> m' b = m b)"

lemma links_only_refl [simp]: "links_only m m S"
  by (simp add: links_only_def)

lemma payload_live: "payload m a = None \<longleftrightarrow> load m a = None"
  by (simp add: payload_def)

lemma links_only_relinked:
  assumes "links_only m m' S"
  shows "relinked m m'"
proof -
  have "load m' b = None \<longleftrightarrow> load m b = None" for b
    using assms by (metis links_only_def payload_live)
  then have "live m' = live m" by (simp add: live_def)
  then show ?thesis using assms by (simp add: relinked_def links_only_def)
qed

lemma links_only_trans: "links_only m m' S \<Longrightarrow> links_only m' m'' S \<Longrightarrow> links_only m m'' S"
  unfolding links_only_def by (metis payload_live)

lemma links_only_put:
  assumes "load m a = Some x" "a \<in> S"
    "y\<lparr>o_next := None, o_prev := None\<rparr> = x\<lparr>o_next := None, o_prev := None\<rparr>"
  shows "links_only m (put_slot m a (Storage y)) S"
  using assms by (auto simp: links_only_def payload_def put_slot_at fun_eq_iff)

lemma links_only_qty: "links_only m m' S \<Longrightarrow> qty m' = qty m"
  by (auto simp: links_only_def fun_eq_iff intro: qty_payload)

lemma links_only_load:
  assumes "links_only m m' S" "load m a = Some x"
  obtains y where "load m' a = Some y"
    "y\<lparr>o_next := None, o_prev := None\<rparr> = x\<lparr>o_next := None, o_prev := None\<rparr>"
proof -
  have "payload m' a = payload m a" using assms by (simp add: links_only_def)
  then show ?thesis using assms(2) that by (cases "load m' a") (auto simp: payload_def)
qed

lemma links_only_same:
  assumes "links_only m m' S" "load m a = Some x"
  obtains y where "load m' a = Some y" "o_id y = o_id x" "o_price y = o_price x"
    "o_quantity y = o_quantity x" "o_side y = o_side x"
proof -
  obtain y where y: "load m' a = Some y"
    "y\<lparr>o_next := None, o_prev := None\<rparr> = x\<lparr>o_next := None, o_prev := None\<rparr>"
    by (rule links_only_load [OF assms])
  show ?thesis
    using arg_cong [OF y(2), of o_id] arg_cong [OF y(2), of o_price]
      arg_cong [OF y(2), of o_quantity] arg_cong [OF y(2), of o_side]
    by (intro that [OF y(1)]) simp_all
qed

lemma links_only_outside: "links_only m m' S \<Longrightarrow> b \<notin> S \<Longrightarrow> load m' b = load m b"
  by (simp add: links_only_def load_def)

section \<open>Appending and unlinking\<close>

lemma links_only_step:
  "links_only m m1 S \<Longrightarrow> load m1 a = Some x \<Longrightarrow> a \<in> S \<Longrightarrow>
     y\<lparr>o_next := None, o_prev := None\<rparr> = x\<lparr>o_next := None, o_prev := None\<rparr> \<Longrightarrow>
     links_only m (put_slot m1 a (Storage y)) S"
  by (rule links_only_trans [OF _ links_only_put])

lemma links_only_relink:
  "links_only m m1 S \<Longrightarrow> load m1 a = Some x \<Longrightarrow> a \<in> S \<Longrightarrow>
     links_only m (put_slot m1 a (Storage (x\<lparr>o_next := n\<rparr>))) S"
  "links_only m m1 S \<Longrightarrow> load m1 a = Some x \<Longrightarrow> a \<in> S \<Longrightarrow>
     links_only m (put_slot m1 a (Storage (x\<lparr>o_prev := n\<rparr>))) S"
  by (rule links_only_step; simp)+

lemma pl_addOrder_works:
  assumes rep: "level_rep m l as" and a: "load m a = Some x" "a \<notin> set as"
  obtains m' l' where "pl_addOrder m l (Some a) = Some (m', l')"
    "level_rep m' l' (as @ [a])" "links_only m m' (insert a (set as))"
    "pl_price l' = pl_price l"
proof -
  define x1 where "x1 = x\<lparr>o_next := None, o_prev := last_of as\<rparr>"
  define m1 where "m1 = put_slot (put_slot m a (Storage (x\<lparr>o_next := None\<rparr>))) a (Storage x1)"
  have tail: "pl_tail l = last_of as" using rep by (simp add: level_rep_def)
  have m1: "load m1 b = (if b = a then Some x1 else load m b)" for b
    by (simp add: m1_def)
  have lo1: "links_only m m1 (insert a (set as))"
    unfolding m1_def x1_def
    using a by (intro links_only_relink [of _ _ _ _ "x\<lparr>o_next := None\<rparr>"]
        links_only_relink [of _ _ _ _ x]) simp_all
  show ?thesis
  proof (cases as rule: rev_cases)
    case Nil
    let ?l = "l\<lparr>pl_head := Some a, pl_tail := Some a,
                 total_quantity := total_quantity l + o_quantity x,
                 order_count := order_count l + 1\<rparr>"
    have "pl_addOrder m l (Some a) = Some (m1, ?l)"
      using a Nil tail by (simp add: pl_addOrder_def m1_def x1_def)
    moreover have "level_rep m1 ?l (as @ [a])"
      using rep Nil by (simp add: level_rep_def m1 x1_def qty_def)
    ultimately show ?thesis using lo1 that by simp
  next
    case (snoc bs t)
    then have ta: "t \<noteq> a" using a by auto
    obtain y where y: "load m t = Some y" using level_rep_live [OF rep, of t] snoc by auto
    define m2 where "m2 = put_slot m1 t (Storage (y\<lparr>o_next := Some a\<rparr>))"
    have m2: "load m2 b = (if b = t then Some (y\<lparr>o_next := Some a\<rparr>) else load m1 b)" for b
      by (simp add: m2_def)
    have lo2: "links_only m m2 (insert a (set as))"
      unfolding m2_def using lo1 ta snoc
      by (intro links_only_step [of m m1 _ t y]) (auto simp: m1 y)
    let ?l = "l\<lparr>pl_tail := Some a, total_quantity := total_quantity l + o_quantity x,
                 order_count := order_count l + 1\<rparr>"
    have "pl_addOrder m l (Some a) = Some (m2, ?l)"
      using a snoc tail ta y
      by (simp add: pl_addOrder_def m1_def x1_def m2_def)
    moreover have "dll m2 None (as @ [a]) None"
      using rep a ta snoc y
      by (auto simp: level_rep_def dll_append m2 m1 x1_def m2_def m1_def last_of_def)
    then have "level_rep m2 ?l (as @ [a])"
      using rep a snoc links_only_qty [OF lo2]
      by (simp add: level_rep_def first_of_append last_of_def qty_live)
    ultimately show ?thesis using lo2 that by simp
  qed
qed


text \<open>Unlinking the order between \<open>xs\<close> and \<open>ys\<close>, wherever it is in the queue.\<close>

lemma pl_removeOrder_works:
  assumes rep: "level_rep m l (xs @ a # ys)"
  obtains m' l' where "pl_removeOrder m l (Some a) = Some (m', l')"
    "level_rep m' l' (xs @ ys)" "links_only m m' (set (xs @ a # ys))"
    "pl_price l' = pl_price l"
proof -
  let ?S = "set (xs @ a # ys)"
  from rep obtain x where x: "load m a = Some x" "o_prev x = last_of xs" "o_next x = first_of ys"
    by (auto simp: level_rep_def dll_append last_of_def split: if_splits)
  have dist: "distinct (xs @ a # ys)" using rep by (simp add: level_rep_def)
  define m1 where "m1 = (case last_of xs of None \<Rightarrow> m
    | Some p \<Rightarrow> put_slot m p (Storage ((the (load m p))\<lparr>o_next := first_of ys\<rparr>)))"
  define l1 where "l1 = (if xs = [] then l\<lparr>pl_head := first_of ys\<rparr> else l)"
  define m2 where "m2 = (case first_of ys of None \<Rightarrow> m1
    | Some n \<Rightarrow> put_slot m1 n (Storage ((the (load m1 n))\<lparr>o_prev := last_of xs\<rparr>)))"
  define l2 where "l2 = (if ys = [] then l1\<lparr>pl_tail := last_of xs\<rparr> else l1)"
  define m3 where "m3 = put_slot m2 a (Storage (x\<lparr>o_next := None\<rparr>))"
  define m4 where "m4 = put_slot m3 a (Storage (x\<lparr>o_next := None, o_prev := None\<rparr>))"
  define l3 where "l3 = l2\<lparr>total_quantity := total_quantity l - o_quantity x,
                           order_count := order_count l - 1\<rparr>"
  have lv: "\<exists>y. load m b = Some y" if "b \<in> ?S" for b
    using level_rep_live [OF rep that] .
  have lp: "last_of xs = Some p \<Longrightarrow> p \<in> ?S \<and> p \<noteq> a" for p
    using dist by (auto dest: last_of_in)
  have fn: "first_of ys = Some n \<Longrightarrow> n \<in> ?S \<and> n \<noteq> a" for n
    using dist by (auto dest: first_of_in)
  have lo1: "links_only m m1 ?S"
  proof (cases "last_of xs")
    case (Some p)
    with lp [OF Some] lv [of p] show ?thesis
      by (auto simp: m1_def intro!: links_only_relink)
  qed (simp add: m1_def)
  have a1: "load m1 a = Some x"
    using x lp by (auto simp: m1_def split: option.splits)
  have lv1: "\<exists>y. load m1 b = Some y" if "b \<in> ?S" for b
    using lv [OF that] links_only_load [OF lo1] by blast
  have lo2: "links_only m m2 ?S"
  proof (cases "first_of ys")
    case (Some n)
    with fn [OF Some] lv1 [of n] lo1 show ?thesis
      by (auto simp: m2_def intro!: links_only_relink)
  qed (use lo1 in \<open>simp add: m2_def\<close>)
  have a2: "load m2 a = Some x"
    using a1 fn by (auto simp: m2_def split: option.splits)
  have lo3: "links_only m m3 ?S"
    unfolding m3_def by (rule links_only_relink [OF lo2 a2]) simp
  have lo4: "links_only m m4 ?S"
    unfolding m4_def by (rule links_only_relink [OF lo3]) (simp_all add: m3_def)
  have "pl_removeOrder m l (Some a) = Some (m4, l3)"
  proof -
    have s1: "(case o_prev x of
             Some p \<Rightarrow> do {
               m \<leftarrow> modify m p (\<lambda>y. y\<lparr>o_next := o_next x\<rparr>);
               Some (m, l)
             }
           | None \<Rightarrow> Some (m, l\<lparr>pl_head := o_next x\<rparr>)) = Some (m1, l1)"
    proof (cases "last_of xs")
      case (Some p)
      with lp [OF Some] lv [of p] show ?thesis by (auto simp: x m1_def l1_def)
    qed (simp add: x m1_def l1_def)
    have s2: "(case o_next x of
             Some n \<Rightarrow> do {
               m \<leftarrow> modify m1 n (\<lambda>y. y\<lparr>o_prev := o_prev x\<rparr>);
               Some (m, l1)
             }
           | None \<Rightarrow> Some (m1, l1\<lparr>pl_tail := o_prev x\<rparr>)) = Some (m2, l2)"
    proof (cases "first_of ys")
      case (Some n)
      with fn [OF Some] lv1 [of n] show ?thesis by (auto simp: x m2_def l2_def)
    qed (simp add: x m2_def l2_def)
    have l2: "total_quantity l2 = total_quantity l" "order_count l2 = order_count l"
      by (simp_all add: l2_def l1_def)
    show ?thesis
      unfolding pl_removeOrder_def
      by (simp only: option.case x(1) bind.simps s1 s2 a1 a2 prod.case Let_def)
         (simp add: a2 m3_def m4_def l3_def l2)
  qed
  moreover have "level_rep m4 l3 (xs @ ys)"
  proof -
    have eq: "load m4 b = load m2 b" if "b \<noteq> a" for b using that by (simp add: m4_def m3_def)
    have "dll m2 None (xs @ ys) None"
      using rep dist
      by (cases xs rule: rev_cases; cases ys)
         (auto simp: level_rep_def dll_append m2_def m1_def last_of_def)
    moreover have "load m4 b = load m2 b" if "b \<in> set (xs @ ys)" for b
      using dist that by (intro eq) auto
    ultimately have "dll m4 None (xs @ ys) None"
      using dll_cong by blast
    then show ?thesis
      using rep x links_only_qty [OF lo4]
      by (auto simp: level_rep_def l3_def l2_def l1_def first_of_append last_of_append last_of_Cons qty_live)
  qed
  moreover have "pl_price l3 = pl_price l" by (simp add: l3_def l2_def l1_def)
  ultimately show ?thesis using lo4 that by blast
qed


section \<open>Changing a quantity in place\<close>

lemma level_requantify:
  assumes rep: "level_rep m l as" and a: "a \<in> set as" "load m a = Some x"
  shows "level_rep (put_slot m a (Storage (x\<lparr>o_quantity := q\<rparr>)))
           (l\<lparr>total_quantity := total_quantity l + (q - o_quantity x)\<rparr>) as"
proof -
  let ?m = "put_slot m a (Storage (x\<lparr>o_quantity := q\<rparr>))"
  have "dll ?m p bs n = dll m p bs n" for p bs n
    using a(2) by (induction bs arbitrary: p) auto
  moreover have "sum_list (map (qty ?m) as) = sum_list (map (qty m) as) + (qty ?m a - qty m a)"
    using rep a by (intro sum_list_change_one) (auto simp: level_rep_def qty_def)
  ultimately show ?thesis
    using rep a by (simp add: level_rep_def qty_live)
qed

text \<open>
  A partial fill of the oldest order: its quantity and the total drop by the fill; when nothing
  is left the order is unlinked.
\<close>

lemma reduceHeadQuantity_partial:
  assumes rep: "level_rep m l (h # as)" and x: "load m h = Some x" and q: "q < o_quantity x"
  shows "reduceHeadQuantity m l q =
           Some (put_slot m h (Storage (x\<lparr>o_quantity := o_quantity x - q\<rparr>)),
                 l\<lparr>total_quantity := total_quantity l - q\<rparr>)"
proof -
  have "o_quantity x - q \<noteq> 0" "\<not> o_quantity x < q" using q by auto
  then show ?thesis
    using rep x by (simp add: reduceHeadQuantity_def level_rep_def)
qed

lemma reduceHeadQuantity_too_much:
  assumes "level_rep m l (h # as)" "load m h = Some x" "o_quantity x < q"
  shows "reduceHeadQuantity m l q = Some (m, l)"
  using assms by (simp add: reduceHeadQuantity_def level_rep_def)

lemma reduceHeadQuantity_full:
  assumes rep: "level_rep m l (h # as)" and x: "load m h = Some x"
  obtains m' l' where "reduceHeadQuantity m l (o_quantity x) = Some (m', l')"
    "level_rep m' l' as"
proof -
  let ?m = "put_slot m h (Storage (x\<lparr>o_quantity := 0\<rparr>))"
  let ?l = "l\<lparr>total_quantity := total_quantity l - o_quantity x\<rparr>"
  have "level_rep ?m ?l ([] @ h # as)"
    using level_requantify [OF rep, of h x 0] x by simp
  then obtain m' l' where "pl_removeOrder ?m ?l (Some h) = Some (m', l')" "level_rep m' l' as"
    by (rule pl_removeOrder_works) simp
  then show ?thesis
    using rep x that by (simp add: reduceHeadQuantity_def level_rep_def)
qed

end
