(* ===== verification/Occupancy_Bitmap.thy ===== *)
theory Occupancy_Bitmap
  imports Prelude
begin

text \<open>
  The occupancy bitmap of \<^verbatim>\<open>include/orderbook.hpp\<close>: one bit per price level in 64-bit words, set
  and cleared by index, and scanned for the highest (bids) or lowest (asks) set bit with the
  compiler's leading and trailing zero counts.
\<close>

unbundle bit_operations_syntax

section \<open>Operations\<close>

text \<open>The number of zero bits above (below) the highest (lowest) set bit of a word.\<close>

primrec clz_from :: "nat \<Rightarrow> 'a::len word \<Rightarrow> nat" where
  "clz_from 0 w = 0"
| "clz_from (Suc n) w = (if bit w n then 0 else Suc (clz_from n w))"

definition clzll :: "u64 \<Rightarrow> nat" where
  "clzll w = clz_from 64 w"

primrec ctz_from :: "nat \<Rightarrow> u64 \<Rightarrow> nat \<Rightarrow> nat" where
  "ctz_from 0 w k = k"
| "ctz_from (Suc n) w k = (if bit w k then k else ctz_from n w (Suc k))"

definition ctzll :: "u64 \<Rightarrow> nat" where
  "ctzll w = ctz_from 64 w 0"

definition setBit :: "u64 list \<Rightarrow> int \<Rightarrow> u64 list option" where
  "setBit w i = do {
     x \<leftarrow> vec_get w (drop_bit 6 i);
     vec_set w (drop_bit 6 i) (x OR push_bit (nat (i AND 63)) 1)
   }"

definition clearBit :: "u64 list \<Rightarrow> int \<Rightarrow> u64 list option" where
  "clearBit w i = do {
     x \<leftarrow> vec_get w (drop_bit 6 i);
     vec_set w (drop_bit 6 i) (x AND NOT (push_bit (nat (i AND 63)) 1))
   }"

text \<open>The loop over the words from the last one down; \<open>n\<close> words are left.\<close>

primrec highest_from :: "u64 list \<Rightarrow> nat \<Rightarrow> int" where
  "highest_from w 0 = -1"
| "highest_from w (Suc wi) =
     (if w ! wi \<noteq> 0 then int wi * 64 + (63 - int (clzll (w ! wi))) else highest_from w wi)"

definition highestSetBit :: "u64 list \<Rightarrow> int" where
  "highestSetBit w = highest_from w (length w)"

text \<open>The loop over the words from the first one up; \<open>wi\<close> is the index of the list's head.\<close>

fun lowest_from :: "u64 list \<Rightarrow> nat \<Rightarrow> int" where
  "lowest_from [] wi = -1"
| "lowest_from (x # w) wi =
     (if x \<noteq> 0 then int wi * 64 + int (ctzll x) else lowest_from w (Suc wi))"

definition lowestSetBit :: "u64 list \<Rightarrow> int" where
  "lowestSetBit w = lowest_from w 0"

section \<open>Zero counts\<close>

lemma clz_from_bit:
  "\<exists>k<n. bit w k \<Longrightarrow>
     clz_from n w < n \<and> bit w (n - 1 - clz_from n w) \<and> (\<forall>k. n - 1 - clz_from n w < k \<and> k < n \<longrightarrow> \<not> bit w k)"
proof (induction n)
  case (Suc n)
  show ?case
  proof (cases "bit w n")
    case False
    with Suc.prems have "\<exists>k<n. bit w k" using less_Suc_eq by auto
    from Suc.IH [OF this] False show ?thesis by (auto simp: less_Suc_eq)
  qed auto
qed simp

lemma ctz_from_bit:
  "\<exists>j. k \<le> j \<and> j < k + n \<and> bit w j \<Longrightarrow>
     k \<le> ctz_from n w k \<and> ctz_from n w k < k + n \<and> bit w (ctz_from n w k)
     \<and> (\<forall>j. k \<le> j \<and> j < ctz_from n w k \<longrightarrow> \<not> bit w j)"
proof (induction n arbitrary: k)
  case (Suc n)
  show ?case
  proof (cases "bit w k")
    case False
    with Suc.prems have "\<exists>j. Suc k \<le> j \<and> j < Suc k + n \<and> bit w j"
      by (metis add_Suc_shift le_eq_less_or_eq not_less_eq_eq not_less)
    from Suc.IH [OF this] False show ?thesis
      by (auto simp: Suc_le_eq) (metis le_neq_implies_less)
  qed auto
qed auto

lemma word_nonzero_bit:
  assumes "(w::u64) \<noteq> 0"
  shows "\<exists>k<64. bit w k"
proof (rule ccontr)
  assume "\<not> ?thesis"
  then have "w = 0" by (intro bit_word_eqI) simp
  with assms show False by simp
qed

lemma bit_u64_less: "bit (w::u64) k \<Longrightarrow> k < 64"
  using bit_imp_le_length [of w k] by simp

lemma clzll_highest:
  assumes "w \<noteq> 0"
  shows "clzll w < 64" "bit w (63 - clzll w)" "bit w k \<Longrightarrow> k \<le> 63 - clzll w"
proof -
  note c = clz_from_bit [OF word_nonzero_bit [OF assms]]
  show "clzll w < 64" "bit w (63 - clzll w)"
    using c by (simp_all add: clzll_def)
  assume "bit w k"
  then show "k \<le> 63 - clzll w"
    using c bit_u64_less [of w k] unfolding clzll_def
    by (cases "63 - clz_from 64 w < k") auto
qed

lemma ctzll_lowest:
  assumes "w \<noteq> 0"
  shows "ctzll w < 64" "bit w (ctzll w)" "bit w k \<Longrightarrow> ctzll w \<le> k"
proof -
  note c = ctz_from_bit [of 0 64 w, simplified, OF word_nonzero_bit [OF assms, simplified]]
  show "ctzll w < 64" "bit w (ctzll w)"
    using c by (simp_all add: ctzll_def)
  assume "bit w k"
  then show "ctzll w \<le> k"
    using c unfolding ctzll_def by (meson not_less)
qed

section \<open>Which bits are set\<close>

definition testbit :: "u64 list \<Rightarrow> nat \<Rightarrow> bool" where
  "testbit w i \<longleftrightarrow> i div 64 < length w \<and> bit (w ! (i div 64)) (i mod 64)"

lemma index_split: "drop_bit 6 (int i) = int (i div 64)" "nat (int i AND 63) = i mod 64"
proof -
  show "drop_bit 6 (int i) = int (i div 64)"
    by (simp add: drop_bit_eq_div zdiv_int)
  have "int i AND 63 = take_bit 6 (int i)"
    by (simp add: take_bit_eq_mask mask_eq_exp_minus_1)
  also have "\<dots> = int (i mod 64)"
    by (simp add: take_bit_eq_mod zmod_int)
  finally show "nat (int i AND 63) = i mod 64" by simp
qed

lemma index_eq: "i div 64 = j div 64 \<Longrightarrow> i mod 64 = j mod 64 \<Longrightarrow> i = (j::nat)"
  by (metis div_mult_mod_eq)

lemma setBit_works:
  assumes "i div 64 < length w"
  obtains w' where "setBit w (int i) = Some w'" "length w' = length w"
    "\<And>j. testbit w' j \<longleftrightarrow> testbit w j \<or> j = i"
proof -
  let ?w = "w[i div 64 := (w ! (i div 64)) OR push_bit (i mod 64) 1]"
  have "setBit w (int i) = Some ?w"
    using assms by (simp add: setBit_def index_split)
  moreover have "testbit ?w j \<longleftrightarrow> testbit w j \<or> j = i" for j
    using assms index_eq [of j i]
    by (cases "j div 64 = i div 64")
       (auto simp: testbit_def bit_or_iff bit_exp_iff)
  ultimately show ?thesis using that by simp
qed

lemma clearBit_works:
  assumes "i div 64 < length w"
  obtains w' where "clearBit w (int i) = Some w'" "length w' = length w"
    "\<And>j. testbit w' j \<longleftrightarrow> testbit w j \<and> j \<noteq> i"
proof -
  let ?w = "w[i div 64 := (w ! (i div 64)) AND NOT (push_bit (i mod 64) 1)]"
  have "clearBit w (int i) = Some ?w"
    using assms by (simp add: clearBit_def index_split)
  moreover have "testbit ?w j \<longleftrightarrow> testbit w j \<and> j \<noteq> i" for j
    using assms index_eq [of j i] bit_u64_less
    by (cases "j div 64 = i div 64")
       (auto simp: testbit_def bit_and_iff bit_not_iff bit_exp_iff)
  ultimately show ?thesis using that by simp
qed

lemma testbit_replicate_0 [simp]: "\<not> testbit (replicate n 0) i"
  by (simp add: testbit_def)

section \<open>The scans find the extreme set bit\<close>

lemma testbit_word: "testbit w (64 * k + r) \<longleftrightarrow> k < length w \<and> bit (w ! k) r" if "r < 64"
  using that by (simp add: testbit_def)

lemma highest_from_spec:
  assumes "n \<le> length w"
  shows "(highest_from w n = -1 \<and> (\<forall>j < 64 * n. \<not> testbit w j))
       \<or> (\<exists>i. highest_from w n = int i \<and> testbit w i \<and> (\<forall>j < 64 * n. testbit w j \<longrightarrow> j \<le> i))"
  using assms
proof (induction n)
  case (Suc n)
  show ?case
  proof (cases "w ! n = 0")
    case True
    then have "\<not> testbit w j" if "64 * n \<le> j" "j < 64 * Suc n" for j
    proof -
      have "j div 64 = n" using that by (intro div_nat_eqI) auto
      then show ?thesis using True by (simp add: testbit_def)
    qed
    with Suc True show ?thesis
      by (simp add: less_Suc_eq) (metis not_le)
  next
    case False
    note c = clzll_highest [OF False]
    let ?i = "64 * n + (63 - clzll (w ! n))"
    have "highest_from w (Suc n) = int ?i"
      using False c(1) by (simp add: of_nat_diff)
    moreover have "testbit w ?i"
      using Suc.prems c(2) by (subst testbit_word) auto
    moreover have "j \<le> ?i" if "j < 64 * Suc n" "testbit w j" for j
    proof (cases "64 * n \<le> j")
      case True
      then have "j div 64 = n" using that(1) by (intro div_nat_eqI) auto
      then have "bit (w ! n) (j mod 64)" "j = 64 * n + j mod 64"
        using that(2) by (auto simp: testbit_def)
      with c(3) show ?thesis by (metis add_le_cancel_left)
    qed simp
    ultimately show ?thesis by blast
  qed
qed simp

lemma testbit_Cons:
  "testbit (x # w) j \<longleftrightarrow> (if j < 64 then bit x j else testbit w (j - 64))"
  by (auto simp: testbit_def le_div_geq le_mod_geq)

lemma lowest_from_spec:
  "(lowest_from w n = -1 \<and> (\<forall>j. \<not> testbit w j))
   \<or> (\<exists>i. lowest_from w n = int (64 * n + i) \<and> testbit w i \<and> (\<forall>j. testbit w j \<longrightarrow> i \<le> j))"
proof (induction w n rule: lowest_from.induct)
  case (2 x w n)
  show ?case
  proof (cases "x = 0")
    case True
    then have "\<not> x \<noteq> 0" by simp
    note IH = "2.IH" [OF this]
    show ?thesis
    proof (cases "lowest_from w (Suc n) = -1")
      case True
      with IH \<open>\<not> x \<noteq> 0\<close> show ?thesis by (auto simp: testbit_Cons)
    next
      case False
      with IH obtain i where i: "lowest_from w (Suc n) = int (64 * Suc n + i)"
        "testbit w i" "\<And>j. testbit w j \<Longrightarrow> i \<le> j" by blast
      have "lowest_from (x # w) n = int (64 * n + (64 + i))" using i \<open>\<not> x \<noteq> 0\<close> by simp
      moreover have "testbit (x # w) (64 + i)" using i by (simp add: testbit_Cons)
      moreover have "\<forall>j. testbit (x # w) j \<longrightarrow> 64 + i \<le> j"
        using i \<open>\<not> x \<noteq> 0\<close> by (auto simp: testbit_Cons) (metis add.commute le_diff_conv2 not_less)
      ultimately show ?thesis by blast
    qed
  next
    case False
    note c = ctzll_lowest [OF False]
    have "lowest_from (x # w) n = int (64 * n + ctzll x)" using False by simp
    moreover have "testbit (x # w) (ctzll x)" using c by (simp add: testbit_Cons)
    moreover have "\<forall>j. testbit (x # w) j \<longrightarrow> ctzll x \<le> j" using c by (auto simp: testbit_Cons)
    ultimately show ?thesis by blast
  qed
qed (simp add: testbit_def)

lemma testbit_less: "testbit w j \<Longrightarrow> j < 64 * length w"
  by (simp add: testbit_def) (metis div_less_iff_less_mult mult.commute zero_less_numeral)

lemma highestSetBit_cases:
  obtains "highestSetBit w = -1" "\<And>j. \<not> testbit w j"
  | i where "highestSetBit w = int i" "testbit w i" "\<And>j. testbit w j \<Longrightarrow> j \<le> i"
  using highest_from_spec [of "length w" w] testbit_less unfolding highestSetBit_def by blast

lemma lowestSetBit_cases:
  obtains "lowestSetBit w = -1" "\<And>j. \<not> testbit w j"
  | i where "lowestSetBit w = int i" "testbit w i" "\<And>j. testbit w j \<Longrightarrow> i \<le> j"
  using lowest_from_spec [of w 0] unfolding lowestSetBit_def by auto

end
