(* ===== verification/Ladder.thy ===== *)
theory Ladder
  imports Price_Level Occupancy_Bitmap
begin

text \<open>
  One side of the book. \<open>OrderBook\<close> keeps for bids and asks the same four members (a vector of
  levels, its occupancy words, the index of the best non-empty level or \<open>-1\<close>, the number of
  non-empty levels) and runs the same code on them, written out once per side; the sides differ
  in which index is better and which scan finds the best one. A \<open>ladder\<close> is one side's members
  and the \<open>ladder_...\<close> operations are the branches, with the side as an argument.
\<close>

section \<open>Data and operations\<close>

record ladder =
  levels :: "price_level list"
  words :: "u64 list"
  best_idx :: int
  level_count :: u64

fun better :: "side \<Rightarrow> int \<Rightarrow> int \<Rightarrow> bool" where
  "better BUY i j \<longleftrightarrow> i > j"
| "better SELL i j \<longleftrightarrow> i < j"

fun rescan :: "side \<Rightarrow> u64 list \<Rightarrow> int" where
  "rescan BUY w = highestSetBit w"
| "rescan SELL w = lowestSetBit w"

definition mk_ladder :: "price \<Rightarrow> nat \<Rightarrow> ladder" where
  "mk_ladder min_price n =
     \<lparr>levels = map (\<lambda>i. setPrice (mk_price_level 0) (min_price + int i)) [0..<n],
      words = replicate ((n + 63) div 64) 0, best_idx = -1, level_count = 0\<rparr>"

definition ladder_add :: "side \<Rightarrow> heap \<Rightarrow> ladder \<Rightarrow> int \<Rightarrow> addr \<Rightarrow> (heap \<times> ladder) option" where
  "ladder_add s m h idx a = do {
     lvl \<leftarrow> vec_get (levels h) idx;
     let wasEmpty = isEmpty lvl;
     (m, lvl) \<leftarrow> pl_addOrder m lvl (Some a);
     lvls \<leftarrow> vec_set (levels h) idx lvl;
     let h = h\<lparr>levels := lvls\<rparr>;
     if wasEmpty then do {
       w \<leftarrow> setBit (words h) idx;
       let h = h\<lparr>words := w, level_count := level_count h + 1\<rparr>;
       Some (m, if best_idx h < 0 \<or> better s idx (best_idx h) then h\<lparr>best_idx := idx\<rparr> else h)
     } else Some (m, h)
   }"

definition ladder_cancel :: "side \<Rightarrow> heap \<Rightarrow> ladder \<Rightarrow> int \<Rightarrow> addr \<Rightarrow> (heap \<times> ladder) option" where
  "ladder_cancel s m h idx a = do {
     lvl \<leftarrow> vec_get (levels h) idx;
     (m, lvl) \<leftarrow> pl_removeOrder m lvl (Some a);
     lvls \<leftarrow> vec_set (levels h) idx lvl;
     let h = h\<lparr>levels := lvls\<rparr>;
     if isEmpty lvl then do {
       w \<leftarrow> clearBit (words h) idx;
       let h = h\<lparr>words := w, level_count := level_count h - 1\<rparr>;
       Some (m, if idx = best_idx h then h\<lparr>best_idx := rescan s (words h)\<rparr> else h)
     } else Some (m, h)
   }"

definition ladder_adjust :: "ladder \<Rightarrow> int \<Rightarrow> u64 \<Rightarrow> ladder option" where
  "ladder_adjust h idx delta = do {
     lvl \<leftarrow> vec_get (levels h) idx;
     lvls \<leftarrow> vec_set (levels h) idx (adjustTotalQuantity lvl delta);
     Some (h\<lparr>levels := lvls\<rparr>)
   }"

section \<open>The interface to the bitmap\<close>

text \<open>
  What a side of the book relies on: the scan returns the best set bit under a strict linear
  order, or \<open>-1\<close>. From this follow the incremental updates the code makes.
\<close>

locale best_scan =
  fixes scan :: "u64 list \<Rightarrow> int" and before :: "int \<Rightarrow> int \<Rightarrow> bool"
  assumes scan_spec: "scan w = -1 \<and> (\<forall>j. \<not> testbit w j)
      \<or> (\<exists>i. scan w = int i \<and> testbit w i \<and> (\<forall>j. testbit w j \<and> j \<noteq> i \<longrightarrow> before (int i) (int j)))"
    and before_asym: "before i j \<Longrightarrow> \<not> before j i"
    and before_total: "i \<noteq> j \<Longrightarrow> before i j \<or> before j i"
    and before_trans: "before i j \<Longrightarrow> before j k \<Longrightarrow> before i k"
begin

lemma scan_none: "scan w = -1 \<longleftrightarrow> (\<forall>j. \<not> testbit w j)"
  using scan_spec [of w] by auto

lemma scan_neg: "scan w < 0 \<longleftrightarrow> (\<forall>j. \<not> testbit w j)"
  using scan_spec [of w] by auto

lemma scan_unique:
  assumes "testbit w i" "\<And>j. testbit w j \<Longrightarrow> j \<noteq> i \<Longrightarrow> before (int i) (int j)"
  shows "scan w = int i"
  using scan_spec [of w] assms before_asym by blast

lemma scan_some: "scan w = int i \<Longrightarrow> testbit w i \<and> (\<forall>j. testbit w j \<and> j \<noteq> i \<longrightarrow> before (int i) (int j))"
  using scan_spec [of w] by auto

lemma scan_set:
  assumes "\<And>j. testbit w' j \<longleftrightarrow> testbit w j \<or> j = i"
  shows "scan w' = (if scan w < 0 \<or> before (int i) (scan w) then int i else scan w)"
proof (cases "scan w < 0")
  case True
  then have "scan w' = int i" using assms by (intro scan_unique) (auto simp: scan_neg)
  with True show ?thesis by simp
next
  case False
  then obtain b where b: "scan w = int b" "testbit w b"
      "\<And>j. testbit w j \<Longrightarrow> j \<noteq> b \<Longrightarrow> before (int b) (int j)"
    using scan_spec [of w] by auto
  show ?thesis
  proof (cases "before (int i) (int b)")
    case True
    then have "scan w' = int i"
      using assms b(3) before_trans by (intro scan_unique) blast+
    with True b show ?thesis by simp
  next
    case nb: False
    have "i = b \<or> before (int b) (int i)" using before_total [of "int i" "int b"] nb by auto
    then have "scan w' = int b" using assms b by (intro scan_unique) auto
    with nb False b show ?thesis by simp
  qed
qed

lemma scan_clear:
  assumes "\<And>j. testbit w' j \<longleftrightarrow> testbit w j \<and> j \<noteq> i" "int i \<noteq> scan w"
  shows "scan w' = scan w"
proof (cases "scan w < 0")
  case True
  then have "scan w' = -1" "scan w = -1" using assms by (auto simp: scan_neg scan_none)
  then show ?thesis by simp
next
  case False
  then obtain b where b: "scan w = int b" "testbit w b"
      "\<And>j. testbit w j \<Longrightarrow> j \<noteq> b \<Longrightarrow> before (int b) (int j)"
    using scan_spec [of w] by auto
  then have "scan w' = int b" using assms by (intro scan_unique) auto
  with b show ?thesis by simp
qed

end

interpretation side_scan: best_scan "rescan s" "better s" for s
proof (unfold_locales, goal_cases)
  case (1 w)
  show ?case
  proof (cases s)
    case BUY
    then show ?thesis by (cases rule: highestSetBit_cases [of w]) fastforce+
  next
    case SELL
    then show ?thesis by (cases rule: lowestSetBit_cases [of w]) fastforce+
  qed
qed (cases s; auto)+

section \<open>Representation\<close>

text \<open>
  \<open>ladder_rep s m lo n h Q\<close>: level \<open>i < n\<close> holds the orders \<open>Q i\<close>, all of side \<open>s\<close> and price
  \<open>lo + i\<close>; the bitmap, the best index and the level count say which queues are non-empty.
\<close>

definition ladder_rep ::
    "side \<Rightarrow> heap \<Rightarrow> price \<Rightarrow> nat \<Rightarrow> ladder \<Rightarrow> (nat \<Rightarrow> addr list) \<Rightarrow> bool" where
  "ladder_rep s m lo n h Q \<longleftrightarrow>
     length (levels h) = n \<and> length (words h) = (n + 63) div 64
   \<and> (\<forall>i<n. level_rep m (levels h ! i) (Q i) \<and> pl_price (levels h ! i) = lo + int i)
   \<and> (\<forall>i\<ge>n. Q i = [])
   \<and> (\<forall>i. testbit (words h) i \<longleftrightarrow> Q i \<noteq> [])
   \<and> best_idx h = rescan s (words h)
   \<and> level_count h = of_nat (card {i. Q i \<noteq> []})
   \<and> (\<forall>i. \<forall>a \<in> set (Q i). \<exists>x. load m a = Some x \<and> o_side x = s \<and> o_price x = lo + int i)"

lemma ladder_rep_level:
  "ladder_rep s m lo n h Q \<Longrightarrow> i < n \<Longrightarrow> level_rep m (levels h ! i) (Q i)"
  by (simp add: ladder_rep_def)

lemma ladder_rep_order:
  "ladder_rep s m lo n h Q \<Longrightarrow> a \<in> set (Q i) \<Longrightarrow>
     \<exists>x. load m a = Some x \<and> o_side x = s \<and> o_price x = lo + int i \<and> i < n"
  unfolding ladder_rep_def by (metis empty_iff empty_set not_less)

lemma ladder_rep_same_level:
  "ladder_rep s m lo n h Q \<Longrightarrow> a \<in> set (Q i) \<Longrightarrow> a \<in> set (Q j) \<Longrightarrow> i = j"
  using ladder_rep_order [of s m lo n h Q a i] ladder_rep_order [of s m lo n h Q a j] by fastforce

lemma ladder_rep_finite: "ladder_rep s m lo n h Q \<Longrightarrow> finite {i. Q i \<noteq> []}"
  by (rule finite_subset [of _ "{..<n}"]) (auto simp: ladder_rep_def intro: ccontr)

lemma ladder_rep_new: "ladder_rep s m lo n (mk_ladder lo n) (\<lambda>_. [])"
proof -
  have "rescan s (replicate k 0) = -1" for k
    by (simp add: side_scan.scan_none)
  then show ?thesis by (simp add: ladder_rep_def mk_ladder_def setPrice_def level_rep_def mk_price_level_def)
qed

lemma ladder_rep_cong:
  assumes "ladder_rep s m lo n h Q" and same: "\<And>i a. a \<in> set (Q i) \<Longrightarrow> load m' a = load m a"
  shows "ladder_rep s m' lo n h Q"
proof -
  have "level_rep m' l (Q i) = level_rep m l (Q i)" for l i
    using same by (intro level_rep_cong)
  then show ?thesis using assms(1) same by (fastforce simp: ladder_rep_def)
qed

lemma ladder_rep_frame:
  assumes "ladder_rep s m lo n h Q" and lo: "links_only m m' S"
    and "\<And>i a. a \<in> set (Q i) \<Longrightarrow> a \<notin> S"
  shows "ladder_rep s m' lo n h Q"
  using assms(1) by (rule ladder_rep_cong) (meson assms(3) links_only_outside [OF lo])

text \<open>Replacing one level, its bit, the best index and the count.\<close>

lemma ladder_rep_replace:
  assumes rep: "ladder_rep s m lo n h Q" and i: "i < n"
    and lvl: "level_rep m' l' q'" "pl_price l' = lo + int i"
    and others: "\<And>j b. j \<noteq> i \<Longrightarrow> b \<in> set (Q j) \<Longrightarrow> load m' b = load m b"
    and own: "\<And>b. b \<in> set q' \<Longrightarrow> \<exists>y. load m' b = Some y \<and> o_side y = s \<and> o_price y = lo + int i"
    and h': "levels h' = (levels h)[i := l']" "length (words h') = length (words h)"
      "\<And>j. testbit (words h') j \<longleftrightarrow> (if j = i then q' \<noteq> [] else testbit (words h) j)"
      "best_idx h' = rescan s (words h')"
      "level_count h' = of_nat (card {j. (Q(i := q')) j \<noteq> []})"
  shows "ladder_rep s m' lo n h' (Q(i := q'))"
proof -
  have "level_rep m' (levels h' ! j) ((Q(i := q')) j) \<and> pl_price (levels h' ! j) = lo + int j"
    if "j < n" for j
  proof (cases "j = i")
    case True
    then show ?thesis using rep i lvl h'(1) by (simp add: ladder_rep_def)
  next
    case False
    then have "level_rep m' (levels h ! j) (Q j) = level_rep m (levels h ! j) (Q j)"
      using others by (intro level_rep_cong) blast
    then show ?thesis using rep that False h'(1) by (simp add: ladder_rep_def)
  qed
  moreover have "\<exists>y. load m' b = Some y \<and> o_side y = s \<and> o_price y = lo + int j"
    if "b \<in> set ((Q(i := q')) j)" for j b
    using that own others [of j b] rep
    by (cases "j = i") (auto simp: ladder_rep_def)
  ultimately show ?thesis
    using rep i h'(1,2,4,5) by (simp add: ladder_rep_def h'(3))
qed

lemma word_index: "(i::nat) < n \<Longrightarrow> i div 64 < (n + 63) div 64"
  by linarith

lemma card_nonempty_add:
  "finite {j. Q j \<noteq> []} \<Longrightarrow>
     card {j. (Q(i := Q i @ [a])) j \<noteq> []} = (if Q i = [] then Suc (card {j. Q j \<noteq> []}) else card {j. Q j \<noteq> []})"
proof -
  assume fin: "finite {j. Q j \<noteq> []}"
  have "{j. (Q(i := Q i @ [a])) j \<noteq> []} = insert i {j. Q j \<noteq> []}" by auto
  then show ?thesis using fin by (simp add: card_insert_if)
qed

lemma card_nonempty_remove:
  assumes "finite {j. Q j \<noteq> []}" "Q i \<noteq> []"
  shows "of_nat (card {j. (Q(i := q)) j \<noteq> []}) =
    (of_nat (card {j. Q j \<noteq> []}) - (if q = [] then 1 else 0) :: u64)"
proof (cases "q = []")
  case True
  have eq: "{j. (Q(i := q)) j \<noteq> []} = {j. Q j \<noteq> []} - {i}" using True by auto
  have "card {j. Q j \<noteq> []} > 0" using assms by (auto simp: card_gt_0_iff)
  then have "of_nat (card ({j. Q j \<noteq> []} - {i})) = (of_nat (card {j. Q j \<noteq> []}) - 1 :: u64)"
    using assms by (simp add: Suc_leI)
  then show ?thesis unfolding eq using True by simp
next
  case False
  have "{j. (Q(i := q)) j \<noteq> []} = {j. Q j \<noteq> []}" using False assms(2) by auto
  then show ?thesis using False by simp
qed

section \<open>The operations keep the representation\<close>

lemma ladder_add_works:
  assumes rep: "ladder_rep s m lo n h Q" and i: "i < n"
    and x: "load m a = Some x" "o_side x = s" "o_price x = lo + int i" and fresh: "a \<notin> set (Q i)"
  obtains m' h' where "ladder_add s m h (int i) a = Some (m', h')"
    "ladder_rep s m' lo n h' (Q(i := Q i @ [a]))" "links_only m m' (insert a (set (Q i)))"
proof -
  let ?l = "levels h ! i"
  have lvl: "level_rep m ?l (Q i)" "pl_price ?l = lo + int i" "length (levels h) = n"
    "length (words h) = (n + 63) div 64" "best_idx h = rescan s (words h)"
    "level_count h = of_nat (card {i. Q i \<noteq> []})"
    "\<And>i. testbit (words h) i \<longleftrightarrow> Q i \<noteq> []"
    using rep i by (simp_all add: ladder_rep_def)
  from pl_addOrder_works [OF lvl(1) x(1) fresh] obtain m' l' where
    add: "pl_addOrder m ?l (Some a) = Some (m', l')" "level_rep m' l' (Q i @ [a])"
      "links_only m m' (insert a (set (Q i)))" "pl_price l' = pl_price ?l" .
  obtain w where w: "setBit (words h) (int i) = Some w" "length w = length (words h)"
      "\<And>j. testbit w j \<longleftrightarrow> testbit (words h) j \<or> j = i"
    using setBit_works [of i "words h"] word_index [OF i] lvl(4) by metis
  define h' where "h' = (if Q i = []
    then h\<lparr>levels := (levels h)[i := l'], words := w, level_count := level_count h + 1,
           best_idx := if best_idx h < 0 \<or> better s (int i) (best_idx h) then int i else best_idx h\<rparr>
    else h\<lparr>levels := (levels h)[i := l']\<rparr>)"
  have "ladder_add s m h (int i) a = Some (m', h')"
    using i lvl add(1) w(1) level_rep_isEmpty [OF lvl(1)]
    by (simp add: ladder_add_def h'_def Let_def)
  moreover have "ladder_rep s m' lo n h' (Q(i := Q i @ [a]))"
  proof (rule ladder_rep_replace [OF rep i add(2)])
    show "pl_price l' = lo + int i" using add(4) lvl(2) by simp
    show "load m' b = load m b" if "j \<noteq> i" "b \<in> set (Q j)" for j b
    proof -
      have "b \<noteq> a" using ladder_rep_order [OF rep that(2)] x that(1) by auto
      moreover have "b \<notin> set (Q i)" using ladder_rep_same_level [OF rep that(2)] that(1) by auto
      ultimately show ?thesis using links_only_outside [OF add(3)] by simp
    qed
    show "\<exists>y. load m' b = Some y \<and> o_side y = s \<and> o_price y = lo + int i"
      if "b \<in> set (Q i @ [a])" for b
    proof -
      have "\<exists>y. load m b = Some y \<and> o_side y = s \<and> o_price y = lo + int i"
        using that x ladder_rep_order [OF rep, of b i] by auto
      then show ?thesis using links_only_same [OF add(3)] by metis
    qed
    show "levels h' = (levels h)[i := l']" by (simp add: h'_def)
    show "length (words h') = length (words h)" by (simp add: h'_def w)
    show "testbit (words h') j = (if j = i then Q i @ [a] \<noteq> [] else testbit (words h) j)" for j
      using w(3) lvl(7) by (auto simp: h'_def)
    show "best_idx h' = rescan s (words h')"
      using side_scan.scan_set [of w "words h" i s, OF w(3)] lvl(5) by (simp add: h'_def)
    show "level_count h' = of_nat (card {j. (Q(i := Q i @ [a])) j \<noteq> []})"
      using lvl(6) ladder_rep_finite [OF rep]
      by (simp add: h'_def card_nonempty_add del: fun_upd_apply)
  qed
  ultimately show ?thesis using add(3) that by blast
qed

lemma ladder_cancel_works:
  assumes rep: "ladder_rep s m lo n h Q" and Qi: "Q i = xs @ a # ys"
  obtains m' h' where "ladder_cancel s m h (int i) a = Some (m', h')"
    "ladder_rep s m' lo n h' (Q(i := xs @ ys))" "links_only m m' (set (Q i))"
proof -
  let ?l = "levels h ! i"
  have i: "i < n" using rep Qi by (auto simp: ladder_rep_def not_less [symmetric])
  have lvl: "level_rep m ?l (Q i)" "pl_price ?l = lo + int i" "length (levels h) = n"
    "length (words h) = (n + 63) div 64" "best_idx h = rescan s (words h)"
    "level_count h = of_nat (card {i. Q i \<noteq> []})"
    "\<And>i. testbit (words h) i \<longleftrightarrow> Q i \<noteq> []"
    using rep i by (simp_all add: ladder_rep_def)
  from pl_removeOrder_works [OF lvl(1) [unfolded Qi]] obtain m' l' where
    rem: "pl_removeOrder m ?l (Some a) = Some (m', l')" "level_rep m' l' (xs @ ys)"
      "links_only m m' (set (Q i))" "pl_price l' = pl_price ?l"
    using Qi by metis
  obtain w where w: "clearBit (words h) (int i) = Some w" "length w = length (words h)"
      "\<And>j. testbit w j \<longleftrightarrow> testbit (words h) j \<and> j \<noteq> i"
    using clearBit_works [of i "words h"] word_index [OF i] lvl(4) by metis
  define h' where "h' = (if xs @ ys = []
    then h\<lparr>levels := (levels h)[i := l'], words := w, level_count := level_count h - 1,
           best_idx := if int i = best_idx h then rescan s w else best_idx h\<rparr>
    else h\<lparr>levels := (levels h)[i := l']\<rparr>)"
  have "ladder_cancel s m h (int i) a = Some (m', h')"
    using i lvl rem(1) w(1) level_rep_isEmpty [OF rem(2)]
    by (simp add: ladder_cancel_def h'_def Let_def)
  moreover have "ladder_rep s m' lo n h' (Q(i := xs @ ys))"
  proof (rule ladder_rep_replace [OF rep i rem(2)])
    show "pl_price l' = lo + int i" using rem(4) lvl(2) by simp
    show "load m' b = load m b" if "j \<noteq> i" "b \<in> set (Q j)" for j b
      using ladder_rep_same_level [OF rep that(2)] that(1) links_only_outside [OF rem(3)] by blast
    show "\<exists>y. load m' b = Some y \<and> o_side y = s \<and> o_price y = lo + int i"
      if "b \<in> set (xs @ ys)" for b
    proof -
      have "b \<in> set (Q i)" using that Qi by auto
      from ladder_rep_order [OF rep this] show ?thesis using links_only_same [OF rem(3)] by metis
    qed
    show "levels h' = (levels h)[i := l']" by (simp add: h'_def)
    show "length (words h') = length (words h)" by (simp add: h'_def w)
    show "testbit (words h') j = (if j = i then xs @ ys \<noteq> [] else testbit (words h) j)" for j
      using w(3) lvl(7) Qi by (auto simp: h'_def)
    show "best_idx h' = rescan s (words h')"
      using side_scan.scan_clear [of w "words h" i s, OF w(3)] lvl(5) by (simp add: h'_def)
    show "level_count h' = of_nat (card {j. (Q(i := xs @ ys)) j \<noteq> []})"
      using lvl(6) card_nonempty_remove [OF ladder_rep_finite [OF rep], of i "xs @ ys"] Qi
      by (simp add: h'_def del: fun_upd_apply)
  qed
  ultimately show ?thesis using rem(3) that by blast
qed

text \<open>A new quantity for one resting order, and the level's total adjusted by the difference.\<close>

lemma ladder_adjust_works:
  assumes rep: "ladder_rep s m lo n h Q" and a: "a \<in> set (Q i)" "load m a = Some x"
  obtains h' where "ladder_adjust h (int i) (q - o_quantity x) = Some h'"
    "ladder_rep s (put_slot m a (Storage (x\<lparr>o_quantity := q\<rparr>))) lo n h' Q"
proof -
  let ?l = "levels h ! i" and ?m = "put_slot m a (Storage (x\<lparr>o_quantity := q\<rparr>))"
  have i: "i < n" using ladder_rep_order [OF rep a(1)] by auto
  have lvl: "level_rep m ?l (Q i)" "pl_price ?l = lo + int i" "length (levels h) = n"
    "best_idx h = rescan s (words h)" "level_count h = of_nat (card {i. Q i \<noteq> []})"
    "\<And>i. testbit (words h) i \<longleftrightarrow> Q i \<noteq> []"
    using rep i by (simp_all add: ladder_rep_def)
  let ?l' = "?l\<lparr>total_quantity := total_quantity ?l + (q - o_quantity x)\<rparr>"
  let ?h = "h\<lparr>levels := (levels h)[i := ?l']\<rparr>"
  have "ladder_adjust h (int i) (q - o_quantity x) = Some ?h"
    using i lvl by (simp add: ladder_adjust_def adjustTotalQuantity_def)
  moreover have "ladder_rep s ?m lo n ?h (Q(i := Q i))"
  proof (rule ladder_rep_replace [OF rep i level_requantify [OF lvl(1) a]])
    show "load ?m b = load m b" if "j \<noteq> i" "b \<in> set (Q j)" for j b
      using ladder_rep_same_level [OF rep that(2)] that(1) a by auto
    show "\<exists>y. load ?m b = Some y \<and> o_side y = s \<and> o_price y = lo + int i" if "b \<in> set (Q i)" for b
      using ladder_rep_order [OF rep that] a(2) by auto
  qed (use lvl a in auto)
  ultimately show ?thesis using that by simp
qed

end
