(* ===== verification/Order_Book.thy ===== *)
theory Order_Book
  imports Ladder
begin

text \<open>
  \<^verbatim>\<open>class OrderBook\<close> (\<^verbatim>\<open>include/orderbook.hpp\<close>, \<^verbatim>\<open>src/orderbook.cpp\<close>): the ladder of price levels
  per side, the map from order ids to pool slots, and the operations that store, cancel and
  modify orders. \<open>None\<close> is undefined behaviour or, for the constructor, the exception that a
  negative vector size raises. The instrumentation macro \<open>METRICS_SCOPE\<close> is not part of these
  definitions: it reads the clock and writes the metrics ring, never the book.
\<close>

section \<open>Data\<close>

record trade =
  t_price :: price
  t_quantity :: quantity
  t_makerId :: order_id
  t_takerId :: order_id
  t_takerSide :: side

record depth_level =
  dl_price :: price
  dl_qty :: quantity

record order_book =
  min_price :: price
  max_price :: price
  num_levels :: nat
  bids :: ladder
  asks :: ladder
  orders :: "order_id \<Rightarrow> addr option"
  next_order_id :: order_id
  total_orders :: u64
  order_pool :: "order object_pool"

fun ladder_of :: "side \<Rightarrow> order_book \<Rightarrow> ladder" where
  "ladder_of BUY b = bids b"
| "ladder_of SELL b = asks b"

fun set_ladder :: "side \<Rightarrow> ladder \<Rightarrow> order_book \<Rightarrow> order_book" where
  "set_ladder BUY h b = b\<lparr>bids := h\<rparr>"
| "set_ladder SELL h b = b\<lparr>asks := h\<rparr>"

abbreviation mem :: "order_book \<Rightarrow> heap" where
  "mem b \<equiv> slots (order_pool b)"

text \<open>
  The constructor. \<open>num_levels_\<close> is \<open>max_price - min_price + 1\<close>, in signed 64-bit arithmetic,
  converted to \<open>size_t\<close>; a negative value becomes a size no vector can have, and constructing the
  vectors throws.
\<close>

definition mk_book :: "price \<Rightarrow> price \<Rightarrow> nat \<Rightarrow> order_book option" where
  "mk_book mn mx pool_cap =
     (if mx - mn + 1 < 0 \<or> \<not> int64_range (mx - mn + 1) then None
      else let n = nat (mx - mn + 1) in
        Some \<lparr>min_price = mn, max_price = mx, num_levels = n,
              bids = mk_ladder mn n, asks = mk_ladder mn n, orders = Map.empty,
              next_order_id = 1, total_orders = 0, order_pool = mk_pool pool_cap 4096\<rparr>)"

section \<open>Index arithmetic and getters\<close>

definition priceToIndex :: "order_book \<Rightarrow> price \<Rightarrow> int" where
  "priceToIndex b p = p - min_price b"

definition indexToPrice :: "order_book \<Rightarrow> int \<Rightarrow> price" where
  "indexToPrice b i = min_price b + i"

definition inRange :: "order_book \<Rightarrow> price \<Rightarrow> bool" where
  "inRange b p \<longleftrightarrow> p \<ge> min_price b \<and> p \<le> max_price b"

definition getBestBid :: "order_book \<Rightarrow> price" where
  "getBestBid b = (if best_idx (bids b) < 0 then 0 else indexToPrice b (best_idx (bids b)))"

definition getBestAsk :: "order_book \<Rightarrow> price" where
  "getBestAsk b = (if best_idx (asks b) < 0 then 0 else indexToPrice b (best_idx (asks b)))"

definition getSpread :: "order_book \<Rightarrow> price" where
  "getSpread b = (if best_idx (bids b) < 0 \<or> best_idx (asks b) < 0 then 0
                  else getBestAsk b - getBestBid b)"

definition getOrder :: "order_book \<Rightarrow> order_id \<Rightarrow> addr option" where
  "getOrder b i = orders b i"

definition getTotalOrders :: "order_book \<Rightarrow> u64" where
  "getTotalOrders b = total_orders b"

definition getActiveBids :: "order_book \<Rightarrow> u64" where
  "getActiveBids b = level_count (bids b)"

definition getActiveAsks :: "order_book \<Rightarrow> u64" where
  "getActiveAsks b = level_count (asks b)"

text \<open>
  The two loops of \<open>getDepth\<close>; \<open>k\<close> is \<open>maxLevels\<close> less the number of levels written so far. The
  first runs down from index \<open>i - 1\<close>, the second up from \<open>num_levels - r\<close>.
\<close>

primrec depth_down :: "order_book \<Rightarrow> nat \<Rightarrow> int \<Rightarrow> depth_level list option" where
  "depth_down b 0 k = Some []"
| "depth_down b (Suc i) k = (if k > 0 then do {
       lvl \<leftarrow> vec_get (levels (bids b)) (int i);
       if \<not> isEmpty lvl then do {
         rest \<leftarrow> depth_down b i (k - 1);
         Some (\<lparr>dl_price = indexToPrice b (int i), dl_qty = getTotalQuantity lvl\<rparr> # rest)
       } else depth_down b i k
     } else Some [])"

primrec depth_up :: "order_book \<Rightarrow> nat \<Rightarrow> int \<Rightarrow> depth_level list option" where
  "depth_up b 0 k = Some []"
| "depth_up b (Suc r) k = (if k > 0 then do {
       let i = num_levels b - Suc r;
       lvl \<leftarrow> vec_get (levels (asks b)) (int i);
       if \<not> isEmpty lvl then do {
         rest \<leftarrow> depth_up b r (k - 1);
         Some (\<lparr>dl_price = indexToPrice b (int i), dl_qty = getTotalQuantity lvl\<rparr> # rest)
       } else depth_up b r k
     } else Some [])"

definition getDepth :: "order_book \<Rightarrow> int \<Rightarrow> (depth_level list \<times> depth_level list) option" where
  "getDepth b maxLevels = do {
     bs \<leftarrow> depth_down b (nat (best_idx (bids b) + 1)) maxLevels;
     as \<leftarrow> (if best_idx (asks b) \<ge> 0
            then depth_up b (num_levels b - nat (best_idx (asks b))) maxLevels else Some []);
     Some (bs, as)
   }"

section \<open>Storing, cancelling and modifying orders\<close>

definition addOrder ::
    "order_book \<Rightarrow> side \<Rightarrow> price \<Rightarrow> quantity \<Rightarrow> order_id \<Rightarrow> (order_book \<times> order_id) option" where
  "addOrder b s price quantity i =
     (if \<not> inRange b price then Some (b, 0)
      else do {
        let idx = priceToIndex b price;
        (pool, a) \<leftarrow> allocate (order_pool b) (mk_order i s price quantity 0 LIMIT);
        x \<leftarrow> load (slots pool) a;
        let om = (orders b)(o_id x \<mapsto> a);
        (m, h) \<leftarrow> ladder_add s (slots pool) (ladder_of s b) idx a;
        x \<leftarrow> load m a;
        Some (set_ladder s h (b\<lparr>order_pool := pool\<lparr>slots := m\<rparr>, orders := om,
                                total_orders := total_orders b + 1\<rparr>), o_id x)
      })"

text \<open>The overload that assigns the id: \<open>next_order_id_++\<close>, whether or not the order is stored.\<close>

definition addOrder_auto ::
    "order_book \<Rightarrow> side \<Rightarrow> price \<Rightarrow> quantity \<Rightarrow> (order_book \<times> order_id) option" where
  "addOrder_auto b s price quantity =
     addOrder (b\<lparr>next_order_id := next_order_id b + 1\<rparr>) s price quantity (next_order_id b)"

definition cancelOrder :: "order_book \<Rightarrow> order_id \<Rightarrow> (order_book \<times> bool) option" where
  "cancelOrder b i = (case orders b i of
       None \<Rightarrow> Some (b, False)
     | Some a \<Rightarrow> do {
         x \<leftarrow> load (mem b) a;
         let idx = priceToIndex b (o_price x);
         (m, h) \<leftarrow> ladder_cancel (o_side x) (mem b) (ladder_of (o_side x) b) idx a;
         let om = (orders b)(i := None);
         pool \<leftarrow> deallocate ((order_pool b)\<lparr>slots := m\<rparr>) (Some a);
         Some (set_ladder (o_side x) h (b\<lparr>orders := om, order_pool := pool,
                                          total_orders := total_orders b - 1\<rparr>), True)
       })"

text \<open>
  The difference of the quantities is taken in \<open>int64_t\<close>, where an overflow is undefined.
\<close>

definition modifyOrder :: "order_book \<Rightarrow> order_id \<Rightarrow> quantity \<Rightarrow> (order_book \<times> bool) option" where
  "modifyOrder b i new_quantity = (case orders b i of
       None \<Rightarrow> Some (b, False)
     | Some a \<Rightarrow> do {
         x \<leftarrow> load (mem b) a;
         let idx = priceToIndex b (o_price x);
         require (int64_range (sint new_quantity - sint (o_quantity x)));
         let delta = new_quantity - o_quantity x;
         m \<leftarrow> modify (mem b) a (\<lambda>y. y\<lparr>o_quantity := new_quantity\<rparr>);
         h \<leftarrow> ladder_adjust (ladder_of (o_side x) b) idx delta;
         Some (set_ladder (o_side x) h (b\<lparr>order_pool := (order_pool b)\<lparr>slots := m\<rparr>\<rparr>), True)
       })"

section \<open>Record plumbing\<close>

lemma set_ladder_frame [simp]:
  "min_price (set_ladder s h b) = min_price b" "max_price (set_ladder s h b) = max_price b"
  "num_levels (set_ladder s h b) = num_levels b" "orders (set_ladder s h b) = orders b"
  "next_order_id (set_ladder s h b) = next_order_id b"
  "total_orders (set_ladder s h b) = total_orders b" "order_pool (set_ladder s h b) = order_pool b"
  by (cases s; simp)+

lemma ladder_of_set [simp]:
  "ladder_of s (set_ladder s h b) = h"
  "t \<noteq> s \<Longrightarrow> ladder_of t (set_ladder s h b) = ladder_of t b"
  by (cases s; cases t; simp)+

lemma ladder_of_upd [simp]:
  "ladder_of s (b\<lparr>order_pool := p\<rparr>) = ladder_of s b"
  "ladder_of s (b\<lparr>orders := om\<rparr>) = ladder_of s b"
  "ladder_of s (b\<lparr>total_orders := t\<rparr>) = ladder_of s b"
  "ladder_of s (b\<lparr>next_order_id := i\<rparr>) = ladder_of s b"
  by (cases s; simp)+

lemma all_sides: "(\<forall>s. P s) \<longleftrightarrow> P BUY \<and> P SELL"
  by (metis side.exhaust)

end
