(* ===== verification/Book_Rep.thy ===== *)
theory Book_Rep
  imports Order_Book
begin

text \<open>
  The representation invariant of the book: which lists of orders its pointers, bitmaps,
  counters and id map stand for, and that every storing operation runs without undefined
  behaviour and keeps it.
\<close>

section \<open>Representation\<close>

text \<open>
  \<open>heap_rep b Q\<close>: \<open>Q s i\<close> are the slots queued at level \<open>i\<close> of side \<open>s\<close>, and exactly the live slots are queued.
  \<open>book_rep b Q\<close>: besides, the id map sends each live order's id to its slot and knows no other id; so no two live
  orders share an id.
\<close>

definition heap_rep :: "order_book \<Rightarrow> (side \<Rightarrow> nat \<Rightarrow> addr list) \<Rightarrow> bool" where
  "heap_rep b Q \<longleftrightarrow>
     num_levels b = nat (max_price b - min_price b + 1)
   \<and> int64_range (min_price b) \<and> int64_range (max_price b)
   \<and> (\<forall>s. ladder_rep s (mem b) (min_price b) (num_levels b) (ladder_of s b) (Q s))
   \<and> pool_inv (order_pool b)
   \<and> live (mem b) = {a. \<exists>s i. a \<in> set (Q s i)}
   \<and> total_orders b = of_nat (card (live (mem b)))"

definition book_rep :: "order_book \<Rightarrow> (side \<Rightarrow> nat \<Rightarrow> addr list) \<Rightarrow> bool" where
  "book_rep b Q \<longleftrightarrow> heap_rep b Q
     \<and> (\<forall>i a. orders b i = Some a \<longleftrightarrow> (\<exists>x. load (mem b) a = Some x \<and> o_id x = i))"

definition book_wf :: "order_book \<Rightarrow> bool" where
  "book_wf b \<longleftrightarrow> (\<exists>Q. book_rep b Q)"

lemma heap_repI:
  assumes "num_levels b = nat (max_price b - min_price b + 1)"
    and "int64_range (min_price b)" "int64_range (max_price b)"
    and "\<And>s. ladder_rep s (mem b) (min_price b) (num_levels b) (ladder_of s b) (Q s)"
    and "pool_inv (order_pool b)" "live (mem b) = {a. \<exists>s i. a \<in> set (Q s i)}"
    and "total_orders b = of_nat (card (live (mem b)))"
  shows "heap_rep b Q"
  unfolding heap_rep_def using assms by blast

lemma book_repI:
  assumes "heap_rep b Q" and "\<And>i a. orders b i = Some a \<longleftrightarrow> (\<exists>x. load (mem b) a = Some x \<and> o_id x = i)"
  shows "book_rep b Q"
  unfolding book_rep_def using assms by blast

lemma book_rep_heap: "book_rep b Q \<Longrightarrow> heap_rep b Q"
  by (simp add: book_rep_def)

lemma heap_rep_ladder:
  "heap_rep b Q \<Longrightarrow> ladder_rep s (mem b) (min_price b) (num_levels b) (ladder_of s b) (Q s)"
  unfolding heap_rep_def by blast

lemma heap_rep_parts:
  assumes "heap_rep b Q"
  shows "num_levels b = nat (max_price b - min_price b + 1)" "int64_range (min_price b)" "int64_range (max_price b)"
    "pool_inv (order_pool b)" "live (mem b) = {a. \<exists>s i. a \<in> set (Q s i)}" "total_orders b = of_nat (card (live (mem b)))"
  using assms by (simp_all add: heap_rep_def)

lemma heap_rep_queued:
  "heap_rep b Q \<Longrightarrow> a \<in> set (Q s i) \<Longrightarrow>
     \<exists>x. load (mem b) a = Some x \<and> o_side x = s \<and> o_price x = min_price b + int i \<and> i < num_levels b"
  by (rule ladder_rep_order [OF heap_rep_ladder])

lemma heap_rep_unique:
  "heap_rep b Q \<Longrightarrow> a \<in> set (Q s i) \<Longrightarrow> a \<in> set (Q t j) \<Longrightarrow> s = t \<and> i = j"
  using heap_rep_queued [of b Q a s i] heap_rep_queued [of b Q a t j] by auto

lemma heap_rep_distinct: "heap_rep b Q \<Longrightarrow> distinct (Q s i)"
  using ladder_rep_level [OF heap_rep_ladder, of b Q i s] heap_rep_ladder [of b Q s]
  by (cases "i < num_levels b") (auto simp: level_rep_def ladder_rep_def)

lemmas book_rep_ladder = heap_rep_ladder [OF book_rep_heap]
lemmas book_rep_levels = heap_rep_parts(1) [OF book_rep_heap]
lemmas book_rep_pool = heap_rep_parts(4) [OF book_rep_heap]
lemmas book_rep_in_live = heap_rep_parts(5) [OF book_rep_heap]
lemmas book_rep_total = heap_rep_parts(6) [OF book_rep_heap]
lemmas book_rep_queued = heap_rep_queued [OF book_rep_heap]
lemmas book_rep_unique = heap_rep_unique [OF book_rep_heap]
lemmas book_rep_distinct = heap_rep_distinct [OF book_rep_heap]

lemma book_rep_int64: "book_rep b Q \<Longrightarrow> int64_range (min_price b) \<and> int64_range (max_price b)"
  using heap_rep_parts(2,3) [OF book_rep_heap] by blast

lemma book_rep_orders:
  "book_rep b Q \<Longrightarrow> orders b i = Some a \<longleftrightarrow> (\<exists>x. load (mem b) a = Some x \<and> o_id x = i)"
  by (simp add: book_rep_def)

lemma book_rep_live:
  assumes "book_rep b Q" "load (mem b) a = Some x"
  obtains i where "a \<in> set (Q (o_side x) i)" "o_price x = min_price b + int i" "i < num_levels b"
proof -
  have "a \<in> live (mem b)" using assms(2) by (simp add: in_live)
  then obtain s i where si: "a \<in> set (Q s i)" using book_rep_in_live [OF assms(1)] by blast
  from book_rep_queued [OF assms(1) si] assms(2) that si show ?thesis by auto
qed

lemma book_rep_id_inj:
  "book_rep b Q \<Longrightarrow> load (mem b) a = Some x \<Longrightarrow> load (mem b) c = Some y \<Longrightarrow> o_id x = o_id y \<Longrightarrow> a = c"
  by (metis book_rep_orders option.inject)

lemma live_pool_finite: "pool_inv p \<Longrightarrow> finite (live (slots p))"
  by (auto simp: pool_inv_def dest: pool_rep_finite_live)

lemma mk_book_rep:
  assumes "mk_book mn mx cap = Some b" "int64_range mn" "int64_range mx"
  shows "book_rep b (\<lambda>_ _. [])"
proof -
  let ?p = "mk_pool cap 4096 :: order object_pool"
  have "live (slots ?p) = {}" "load (slots ?p) = (\<lambda>_. None)" "pool_inv ?p"
    by (auto simp: live_def mk_pool_props)
  moreover have "ladder_of s b = mk_ladder mn (nat (mx - mn + 1))" for s
    using assms by (cases s) (auto simp: mk_book_def Let_def split: if_splits)
  ultimately show ?thesis
    using assms by (intro book_repI heap_repI) (auto simp: mk_book_def Let_def ladder_rep_new split: if_splits)
qed

lemma id_payload:
  "(\<exists>x. load m a = Some x \<and> o_id x = i) \<longleftrightarrow> (\<exists>y. payload m a = Some y \<and> o_id y = i)"
  by (auto simp: payload_def)

section \<open>Storing an order\<close>

lemma addOrder_out_of_range: "\<not> inRange b p \<Longrightarrow> addOrder b s p q i = Some (b, 0)"
  by (simp add: addOrder_def)

lemma inRange_index:
  assumes "heap_rep b Q" "inRange b p"
  shows "priceToIndex b p = int (nat (p - min_price b))" "nat (p - min_price b) < num_levels b"
    "p = min_price b + int (nat (p - min_price b))"
  using assms by (auto simp: inRange_def priceToIndex_def heap_rep_def)

lemma heap_addOrder:
  assumes rep: "heap_rep b Q" and p: "inRange b p"
  defines "k \<equiv> nat (p - min_price b)"
  obtains b' a where "addOrder b s p q i = Some (b', i)"
    "heap_rep b' (Q(s := (Q s)(k := Q s k @ [a])))"
    "load (mem b) a = None" "\<forall>c. c \<noteq> a \<longrightarrow> payload (mem b') c = payload (mem b) c"
    "payload (mem b') a = Some (mk_order i s p q 0 LIMIT)"
    "min_price b' = min_price b" "max_price b' = max_price b" "next_order_id b' = next_order_id b"
    "orders b' = (orders b)(i \<mapsto> a)"
proof -
  let ?x = "mk_order i s p q 0 LIMIT"
  obtain pool a where al: "allocate (order_pool b) ?x = Some (pool, a)" "pool_inv pool"
      "load (mem b) a = None" "load (slots pool) = (load (mem b))(a \<mapsto> ?x)"
    using allocate_works [OF heap_rep_parts(4) [OF rep], of ?x] by metis
  have nq: "a \<notin> set (Q t j)" for t j
    using heap_rep_queued [OF rep, of a t j] al(3) by auto
  have lad: "ladder_rep t (slots pool) (min_price b) (num_levels b) (ladder_of t b) (Q t)" for t
    using heap_rep_ladder [OF rep] by (rule ladder_rep_cong) (use nq in \<open>auto simp: al(4)\<close>)
  note idx = inRange_index [OF rep p, folded k_def]
  have ldx: "load (slots pool) a = Some ?x" by (simp add: al(4))
  obtain m h where add: "ladder_add s (slots pool) (ladder_of s b) (int k) a = Some (m, h)"
      "ladder_rep s m (min_price b) (num_levels b) h ((Q s)(k := Q s k @ [a]))"
      "links_only (slots pool) m (insert a (set (Q s k)))"
    by (rule ladder_add_works [OF lad idx(2) ldx, of s]) (use nq idx(3) in simp_all)
  let ?b = "set_ladder s h (b\<lparr>order_pool := pool\<lparr>slots := m\<rparr>, orders := (orders b)(i \<mapsto> a),
                             total_orders := total_orders b + 1\<rparr>)"
  let ?Q = "Q(s := (Q s)(k := Q s k @ [a]))"
  obtain y where y: "load m a = Some y" "o_id y = i"
    by (rule links_only_same [OF add(3), of a ?x]) (auto simp: al(4))
  have exec: "addOrder b s p q i = Some (?b, i)"
    using p al(1) add(1) y by (simp add: addOrder_def idx(1) al(4))
  have pay: "payload m c = (if c = a then Some ?x else payload (mem b) c)" for c
  proof -
    have "payload m c = payload (slots pool) c"
      using add(3) by (simp add: links_only_def)
    then show ?thesis by (simp add: payload_def al(4) mk_order_def)
  qed
  have "heap_rep ?b ?Q"
  proof -
    have "ladder_rep t m (min_price b) (num_levels b) (ladder_of t ?b) (?Q t)" for t
    proof (cases "t = s")
      case False
      have "c \<notin> insert a (set (Q s k))" if "c \<in> set (Q t j)" for c j
        using that nq heap_rep_unique [OF rep that, of s k] False by auto
      with False show ?thesis by (simp add: ladder_rep_frame [OF lad add(3)])
    qed (simp add: add(2))
    moreover have rel: "relinked (slots pool) m" using add(3) by (rule links_only_relinked)
    then have lv: "live m = insert a (live (mem b))"
      unfolding relinked_def by (auto simp: live_def al(4))
    moreover have "insert a {c. \<exists>t j. c \<in> set (Q t j)} = {c. \<exists>t j. c \<in> set (?Q t j)}"
      by auto
    moreover have "card (insert a (live (mem b))) = Suc (card (live (mem b)))"
      using live_pool_finite [OF heap_rep_parts(4) [OF rep]] al(3) by simp
    ultimately show ?thesis
      using pool_inv_relinked [OF al(2) rel] heap_rep_parts [OF rep] by (intro heap_repI) simp_all
  qed
  then show ?thesis
    using exec al(3) pay by (intro that [of ?b a]) simp_all
qed

lemma addOrder_works:
  assumes rep: "book_rep b Q" and p: "inRange b p" and fresh: "orders b i = None"
  defines "k \<equiv> nat (p - min_price b)"
  obtains b' a where "addOrder b s p q i = Some (b', i)"
    "book_rep b' (Q(s := (Q s)(k := Q s k @ [a])))"
    "load (mem b) a = None" "\<forall>c. c \<noteq> a \<longrightarrow> payload (mem b') c = payload (mem b) c"
    "payload (mem b') a = Some (mk_order i s p q 0 LIMIT)"
    "min_price b' = min_price b" "max_price b' = max_price b" "next_order_id b' = next_order_id b"
    "orders b' = (orders b)(i \<mapsto> a)"
proof (rule heap_addOrder [OF book_rep_heap [OF rep] p, of s q i, folded k_def])
  fix b' a
  assume h: "addOrder b s p q i = Some (b', i)" "heap_rep b' (Q(s := (Q s)(k := Q s k @ [a])))"
    "load (mem b) a = None" "\<forall>c. c \<noteq> a \<longrightarrow> payload (mem b') c = payload (mem b) c"
    "payload (mem b') a = Some (mk_order i s p q 0 LIMIT)"
    "min_price b' = min_price b" "max_price b' = max_price b" "next_order_id b' = next_order_id b"
    "orders b' = (orders b)(i \<mapsto> a)"
  have "orders b' j = Some c \<longleftrightarrow> (\<exists>z. load (mem b') c = Some z \<and> o_id z = j)" for j c
  proof -
    have "orders b j = Some c \<longleftrightarrow> (\<exists>z. payload (mem b) c = Some z \<and> o_id z = j)"
      using book_rep_orders [OF rep] id_payload by simp
    moreover have "payload (mem b) a = None" using h(3) by (simp add: payload_live)
    moreover have "o_id (mk_order i s p q 0 LIMIT) = i" by (simp add: mk_order_def)
    ultimately show ?thesis
      using fresh h(4,5) unfolding id_payload h(9) by (cases "c = a"; cases "j = i") auto
  qed
  with h show ?thesis by (intro that [of b' a] book_repI) simp_all
qed

section \<open>Cancelling and modifying an order\<close>

lemma cancelOrder_unknown: "orders b i = None \<Longrightarrow> cancelOrder b i = Some (b, False)"
  by (simp add: cancelOrder_def)

lemma modifyOrder_unknown: "orders b i = None \<Longrightarrow> modifyOrder b i q = Some (b, False)"
  by (simp add: modifyOrder_def)

lemma queued_remove:
  assumes rep: "heap_rep b Q" and Q: "Q s k = xs @ a # ys"
  shows "{c. \<exists>t j. c \<in> set ((Q(s := (Q s)(k := xs @ ys))) t j)} = {c. \<exists>t j. c \<in> set (Q t j)} - {a}"
proof -
  have dist: "a \<notin> set (xs @ ys)" using heap_rep_distinct [OF rep, of s k] Q by simp
  have only: "t = s \<and> j = k" if "a \<in> set (Q t j)" for t j
    using heap_rep_unique [OF rep that, of s k] Q by simp
  have "c \<in> set ((Q(s := (Q s)(k := xs @ ys))) t j) \<longleftrightarrow> c \<in> set (Q t j) \<and> c \<noteq> a" for c t j
    using dist only [of t j] Q by (cases "t = s \<and> j = k") auto
  then show ?thesis by blast
qed

lemma heap_cancelOrder:
  assumes rep: "heap_rep b Q" and i: "orders b i = Some a"
    and x: "load (mem b) a = Some x" "o_side x = s" and k: "Q s k = xs @ a # ys"
  obtains b' where "cancelOrder b i = Some (b', True)"
    "heap_rep b' (Q(s := (Q s)(k := xs @ ys)))"
    "\<forall>c. payload (mem b') c = (if c = a then None else payload (mem b) c)"
    "min_price b' = min_price b" "max_price b' = max_price b" "next_order_id b' = next_order_id b"
    "orders b' = (orders b)(i := None)"
proof -
  let ?Q = "Q(s := (Q s)(k := xs @ ys))"
  have "a \<in> set (Q s k)" using k by simp
  from heap_rep_queued [OF rep this] x have px: "o_price x = min_price b + int k" by auto
  obtain m h where can: "ladder_cancel s (mem b) (ladder_of s b) (int k) a = Some (m, h)"
      "ladder_rep s m (min_price b) (num_levels b) h ((Q s)(k := xs @ ys))"
      "links_only (mem b) m (set (Q s k))"
    by (rule ladder_cancel_works [OF heap_rep_ladder [OF rep] k])
  obtain y where y: "load m a = Some y" by (rule links_only_same [OF can(3) x(1)])
  have rel: "relinked (mem b) m" using can(3) by (rule links_only_relinked)
  let ?p = "(order_pool b)\<lparr>slots := m\<rparr>"
  obtain pool where de: "deallocate ?p (Some a) = Some pool" "pool_inv pool"
      "load (slots pool) = (load m)(a := None)"
    using deallocate_works [OF pool_inv_relinked [OF heap_rep_parts(4) [OF rep] rel], of a y] y by auto
  let ?b = "set_ladder s h (b\<lparr>orders := (orders b)(i := None), order_pool := pool,
                             total_orders := total_orders b - 1\<rparr>)"
  have exec: "cancelOrder b i = Some (?b, True)"
    using i x px can(1) de(1) by (simp add: cancelOrder_def priceToIndex_def)
  have pay: "payload (slots pool) c = (if c = a then None else payload (mem b) c)" for c
    using can(3) by (simp add: payload_def de(3) links_only_def fun_eq_iff)
  have gone: "a \<notin> set (?Q t j)" for t j
    using queued_remove [of b Q s k xs a ys, OF rep k] by blast
  have "heap_rep ?b ?Q"
  proof -
    have "ladder_rep t m (min_price b) (num_levels b) (ladder_of t ?b) (?Q t)" for t
    proof (cases "t = s")
      case False
      have "c \<notin> set (Q s k)" if "c \<in> set (Q t j)" for c j
        using heap_rep_unique [OF rep that, of s k] False by auto
      with False show ?thesis
        by (simp add: ladder_rep_frame [OF heap_rep_ladder [OF rep] can(3)])
    qed (simp add: can(2))
    then have "ladder_rep t (slots pool) (min_price b) (num_levels b) (ladder_of t ?b) (?Q t)" for t
      by (rule ladder_rep_cong) (use gone in \<open>auto simp: de(3)\<close>)
    moreover have "live (slots pool) = live (mem b) - {a}"
      using rel unfolding relinked_def by (auto simp: live_def de(3))
    moreover have "of_nat (card (live (mem b) - {a})) = (of_nat (card (live (mem b))) - 1 :: u64)"
      using live_pool_finite [OF heap_rep_parts(4) [OF rep]] x
      by (intro card_word_Diff) (auto simp: in_live)
    ultimately show ?thesis
      using de(2) queued_remove [OF rep k] heap_rep_parts [OF rep] by (intro heap_repI) simp_all
  qed
  then show ?thesis using exec pay by (intro that [of ?b]) simp_all
qed

lemma cancelOrder_works:
  assumes rep: "book_rep b Q" and i: "orders b i = Some a"
    and x: "load (mem b) a = Some x" "o_side x = s" and k: "Q s k = xs @ a # ys"
  obtains b' where "cancelOrder b i = Some (b', True)"
    "book_rep b' (Q(s := (Q s)(k := xs @ ys)))"
    "\<forall>c. payload (mem b') c = (if c = a then None else payload (mem b) c)"
    "min_price b' = min_price b" "max_price b' = max_price b" "next_order_id b' = next_order_id b"
    "orders b' = (orders b)(i := None)"
proof (rule heap_cancelOrder [OF book_rep_heap [OF rep] i x k])
  fix b'
  assume h: "cancelOrder b i = Some (b', True)" "heap_rep b' (Q(s := (Q s)(k := xs @ ys)))"
    "\<forall>c. payload (mem b') c = (if c = a then None else payload (mem b) c)"
    "min_price b' = min_price b" "max_price b' = max_price b" "next_order_id b' = next_order_id b"
    "orders b' = (orders b)(i := None)"
  have "orders b' j = Some c \<longleftrightarrow> (\<exists>z. load (mem b') c = Some z \<and> o_id z = j)" for j c
  proof -
    have om: "orders b j = Some c \<longleftrightarrow> (\<exists>z. payload (mem b) c = Some z \<and> o_id z = j)" for j c
      using book_rep_orders [OF rep] id_payload by simp
    have "orders b j = Some a \<longleftrightarrow> j = i" "orders b i = Some c \<longleftrightarrow> c = a"
      using i om [of j a] om [of i a] by auto
    then show ?thesis using om [of j c] h(3) unfolding id_payload h(7) by auto
  qed
  with h show ?thesis by (intro that [of b'] book_repI) simp_all
qed

text \<open>A new quantity for a resting order: the step shared by modifying and partially filling.\<close>

lemma requantify_works:
  assumes rep: "book_rep b Q" and a: "a \<in> set (Q s k)" and x: "load (mem b) a = Some x"
  obtains h where "ladder_adjust (ladder_of s b) (int k) (q - o_quantity x) = Some h"
    "book_rep (set_ladder s h (b\<lparr>order_pool := (order_pool b)
       \<lparr>slots := put_slot (mem b) a (Storage (x\<lparr>o_quantity := q\<rparr>))\<rparr>\<rparr>)) Q"
proof -
  let ?m = "put_slot (mem b) a (Storage (x\<lparr>o_quantity := q\<rparr>))"
  obtain h where h: "ladder_adjust (ladder_of s b) (int k) (q - o_quantity x) = Some h"
      "ladder_rep s ?m (min_price b) (num_levels b) h (Q s)"
    by (rule ladder_adjust_works [OF book_rep_ladder [OF rep] a x])
  let ?b = "set_ladder s h (b\<lparr>order_pool := (order_pool b)\<lparr>slots := ?m\<rparr>\<rparr>)"
  have "ladder_rep t ?m (min_price b) (num_levels b) (ladder_of t ?b) (Q t)" for t
  proof (cases "t = s")
    case False
    have "a \<notin> set (Q t j)" for j using book_rep_unique [OF rep a, of t j] False by auto
    with False show ?thesis
      by (simp, intro ladder_rep_cong [OF book_rep_ladder [OF rep]]) auto
  qed (simp add: h(2))
  moreover have "live ?m = live (mem b)" using x by (simp add: insert_absorb in_live)
  moreover have "(\<exists>z. load ?m c = Some z \<and> o_id z = j) \<longleftrightarrow> (\<exists>z. load (mem b) c = Some z \<and> o_id z = j)" for j c
    using x by auto
  ultimately have "book_rep ?b Q"
    using pool_inv_relinked [OF book_rep_pool [OF rep] relinked_upd [OF x]]
      heap_rep_parts [OF book_rep_heap [OF rep]] book_rep_orders [OF rep]
    by (intro book_repI heap_repI) simp_all
  with h(1) that show ?thesis by blast
qed

lemma modifyOrder_works:
  assumes rep: "book_rep b Q" and i: "orders b i = Some a" and x: "load (mem b) a = Some x"
    and fits: "int64_range (sint q - sint (o_quantity x))"
  obtains b' where "modifyOrder b i q = Some (b', True)" "book_rep b' Q"
    "mem b' = put_slot (mem b) a (Storage (x\<lparr>o_quantity := q\<rparr>))"
    "min_price b' = min_price b" "max_price b' = max_price b" "next_order_id b' = next_order_id b"
    "orders b' = orders b"
proof -
  obtain k where k: "a \<in> set (Q (o_side x) k)" "o_price x = min_price b + int k"
    by (rule book_rep_live [OF rep x])
  obtain h where h: "ladder_adjust (ladder_of (o_side x) b) (int k) (q - o_quantity x) = Some h"
    "book_rep (set_ladder (o_side x) h (b\<lparr>order_pool := (order_pool b)
       \<lparr>slots := put_slot (mem b) a (Storage (x\<lparr>o_quantity := q\<rparr>))\<rparr>\<rparr>)) Q"
    by (rule requantify_works [OF rep k(1) x])
  then show ?thesis
    using i x fits k(2)
    by (intro that [of "set_ladder (o_side x) h (b\<lparr>order_pool := (order_pool b)
       \<lparr>slots := put_slot (mem b) a (Storage (x\<lparr>o_quantity := q\<rparr>))\<rparr>\<rparr>)"])
       (simp_all add: modifyOrder_def priceToIndex_def)
qed

end
