(* ===== verification/Book_Spec.thy ===== *)
theory Book_Spec
  imports Book_Rep
begin

text \<open>
  What the book promises, without pointers or bitmaps: each side is a list of resting entries in
  the order in which they trade (best price first, within a price the oldest first). The
  abstraction function walks the levels' linked lists; the lemmas say that every operation on
  the pointers is the corresponding operation on the lists.
\<close>

section \<open>The abstract book\<close>

record entry =
  e_price :: price
  e_id :: order_id
  e_qty :: quantity

definition entry_of :: "heap \<Rightarrow> addr \<Rightarrow> entry" where
  "entry_of m a = (case load m a of
       Some x \<Rightarrow> \<lparr>e_price = o_price x, e_id = o_id x, e_qty = o_quantity x\<rparr>
     | None \<Rightarrow> \<lparr>e_price = 0, e_id = 0, e_qty = 0\<rparr>)"

text \<open>The orders met when following \<open>next\<close>, for at most \<open>fuel\<close> steps.\<close>

fun walk :: "heap \<Rightarrow> nat \<Rightarrow> addr option \<Rightarrow> addr list" where
  "walk m (Suc fuel) (Some a) =
     (case load m a of Some x \<Rightarrow> a # walk m fuel (o_next x) | None \<Rightarrow> [])"
| "walk m _ _ = []"

text \<open>No queue is longer than the pool has slots, so that many steps reach a queue's end.\<close>

definition queues :: "order_book \<Rightarrow> side \<Rightarrow> nat \<Rightarrow> addr list" where
  "queues b s i = (if i < num_levels b
     then walk (mem b) (sum_list (chunks (order_pool b))) (pl_head (levels (ladder_of s b) ! i))
     else [])"

definition by_priority :: "side \<Rightarrow> nat \<Rightarrow> nat list" where
  "by_priority s n = (case s of BUY \<Rightarrow> rev [0..<n] | SELL \<Rightarrow> [0..<n])"

definition flat :: "side \<Rightarrow> nat \<Rightarrow> (addr \<Rightarrow> entry) \<Rightarrow> (nat \<Rightarrow> addr list) \<Rightarrow> entry list" where
  "flat s n E Q = concat (map (\<lambda>i. map E (Q i)) (by_priority s n))"

definition view :: "order_book \<Rightarrow> side \<Rightarrow> entry list" where
  "view b s = flat s (num_levels b) (entry_of (mem b)) (queues b s)"

subsection \<open>The operations on entries\<close>

definition insert_entry :: "side \<Rightarrow> entry \<Rightarrow> entry list \<Rightarrow> entry list" where
  "insert_entry s e es =
     takeWhile (\<lambda>x. \<not> better s (e_price e) (e_price x)) es @ e #
     dropWhile (\<lambda>x. \<not> better s (e_price e) (e_price x)) es"

definition remove_entry :: "order_id \<Rightarrow> entry list \<Rightarrow> entry list" where
  "remove_entry i es = filter (\<lambda>x. e_id x \<noteq> i) es"

definition requantify_entry :: "order_id \<Rightarrow> quantity \<Rightarrow> entry list \<Rightarrow> entry list" where
  "requantify_entry i q es = map (\<lambda>x. if e_id x = i then x\<lparr>e_qty := q\<rparr> else x) es"

text \<open>Adjacent entries of one price summed up to a depth level.\<close>

fun price_groups :: "entry list \<Rightarrow> depth_level list" where
  "price_groups [] = []"
| "price_groups (e # es) = (case price_groups es of
       d # ds \<Rightarrow> if dl_price d = e_price e then d\<lparr>dl_qty := e_qty e + dl_qty d\<rparr> # ds
                else \<lparr>dl_price = e_price e, dl_qty = e_qty e\<rparr> # d # ds
     | [] \<Rightarrow> [\<lparr>dl_price = e_price e, dl_qty = e_qty e\<rparr>])"

definition resting :: "order_book \<Rightarrow> order_id \<Rightarrow> bool" where
  "resting b i \<longleftrightarrow> orders b i \<noteq> None"

section \<open>The abstraction function finds the represented lists\<close>

lemma walk_dll: "dll m p as None \<Longrightarrow> length as \<le> n \<Longrightarrow> walk m n (first_of as) = as"
proof (induction as arbitrary: p n)
  case Nil
  then show ?case by (cases n) auto
next
  case (Cons a as)
  then obtain k where "n = Suc k" "length as \<le> k" by (cases n) auto
  moreover obtain x where "load m a = Some x" "o_next x = first_of as" "dll m (Some a) as None"
    using Cons.prems by (auto split: if_splits)
  ultimately show ?case using Cons.IH by simp
qed

lemma queue_bounded:
  assumes "book_rep b Q"
  shows "length (Q s i) \<le> sum_list (chunks (order_pool b))"
proof -
  have "set (Q s i) \<subseteq> live (mem b)" using book_rep_in_live [OF assms] by auto
  also have "\<dots> \<subseteq> {..<sum_list (chunks (order_pool b))}"
    using book_rep_pool [OF assms] by (auto simp: pool_inv_def pool_rep_def)
  finally have "card (set (Q s i)) \<le> sum_list (chunks (order_pool b))"
    using card_mono [of "{..<sum_list (chunks (order_pool b))}"] by fastforce
  then show ?thesis using book_rep_distinct [OF assms, of s i] by (simp add: distinct_card)
qed

lemma queues_rep:
  assumes "book_rep b Q"
  shows "queues b = Q"
proof (intro ext)
  fix s i
  show "queues b s i = Q s i"
  proof (cases "i < num_levels b")
    case True
    from ladder_rep_level [OF book_rep_ladder [OF assms] True, of s]
    have "dll (mem b) None (Q s i) None" "pl_head (levels (ladder_of s b) ! i) = first_of (Q s i)"
      by (simp_all add: level_rep_def)
    then show ?thesis using True queue_bounded [OF assms] by (simp add: queues_def walk_dll)
  next
    case False
    then show ?thesis
      using book_rep_ladder [OF assms, of s] by (simp add: queues_def ladder_rep_def)
  qed
qed

lemma book_wf_queues: "book_wf b \<longleftrightarrow> book_rep b (queues b)"
  unfolding book_wf_def using queues_rep by blast

lemma view_rep: "book_rep b Q \<Longrightarrow> view b s = flat s (num_levels b) (entry_of (mem b)) (Q s)"
  by (simp add: view_def queues_rep)

section \<open>The flat list level by level\<close>

definition levels_before :: "side \<Rightarrow> nat \<Rightarrow> nat \<Rightarrow> nat list" where
  "levels_before s n k = (case s of BUY \<Rightarrow> rev [Suc k..<n] | SELL \<Rightarrow> [0..<k])"

definition levels_after :: "side \<Rightarrow> nat \<Rightarrow> nat \<Rightarrow> nat list" where
  "levels_after s n k = (case s of BUY \<Rightarrow> rev [0..<k] | SELL \<Rightarrow> [Suc k..<n])"

lemma by_priority_split: "k < n \<Longrightarrow> by_priority s n = levels_before s n k @ k # levels_after s n k"
proof -
  assume "k < n"
  then have "[0..<n] = [0..<k] @ k # [Suc k..<n]"
    by (metis le_add1 less_imp_add_positive upt_add_eq_append upt_rec zero_le)
  then show ?thesis
    by (cases s) (simp_all add: by_priority_def levels_before_def levels_after_def)
qed

lemma levels_before_better: "j \<in> set (levels_before s n k) \<Longrightarrow> better s (int j) (int k) \<and> j \<noteq> k"
  by (cases s) (auto simp: levels_before_def)

lemma levels_after_worse: "j \<in> set (levels_after s n k) \<Longrightarrow> better s (int k) (int j) \<and> j \<noteq> k"
  by (cases s) (auto simp: levels_after_def)

definition part :: "(addr \<Rightarrow> entry) \<Rightarrow> (nat \<Rightarrow> addr list) \<Rightarrow> nat list \<Rightarrow> entry list" where
  "part E Q is = concat (map (\<lambda>i. map E (Q i)) is)"

lemma flat_part: "flat s n E Q = part E Q (by_priority s n)"
  by (simp add: flat_def part_def)

lemma part_simps [simp]:
  "part E Q [] = []" "part E Q (i # is) = map E (Q i) @ part E Q is"
  "part E Q (is @ js) = part E Q is @ part E Q js"
  by (simp_all add: part_def)

lemma part_cong:
  "(\<And>i. i \<in> set is \<Longrightarrow> map E' (Q' i) = map E (Q i)) \<Longrightarrow> part E' Q' is = part E Q is"
  unfolding part_def by (simp cong: map_cong)

lemma part_empty: "(\<And>i. i \<in> set is \<Longrightarrow> Q i = []) \<Longrightarrow> part E Q is = []"
  by (simp add: part_def)

lemma set_part: "set (part E Q is) = {E a |a i. i \<in> set is \<and> a \<in> set (Q i)}"
  by (auto simp: part_def)

lemma flat_split:
  "k < n \<Longrightarrow> flat s n E Q =
     part E Q (levels_before s n k) @ map E (Q k) @ part E Q (levels_after s n k)"
  by (simp add: flat_part by_priority_split)

lemma set_by_priority [simp]: "set (by_priority s n) = {..<n}"
  by (cases s) (auto simp: by_priority_def)

lemma part_filter: "filter P (part E Q is) = part E (\<lambda>i. filter (\<lambda>a. P (E a)) (Q i)) is"
  by (induction "is") (simp_all add: filter_map o_def)

lemma part_map: "map f (part E Q is) = part (f \<circ> E) Q is"
  by (induction "is") simp_all

lemma flat_cong:
  "(\<And>i. i < n \<Longrightarrow> map E' (Q' i) = map E (Q i)) \<Longrightarrow> flat s n E' Q' = flat s n E Q"
  unfolding flat_part by (rule part_cong) simp

lemma set_flat: "set (flat s n E Q) = {E a |a i. i < n \<and> a \<in> set (Q i)}"
  by (simp add: flat_part set_part)

text \<open>Entries depend on the payload only.\<close>

lemma entry_of_payload: "payload m' a = payload m a \<Longrightarrow> entry_of m' a = entry_of m a"
  unfolding payload_def entry_of_def
  by (cases "load m a"; cases "load m' a")
     (auto dest: arg_cong [of _ _ o_price] arg_cong [of _ _ o_id] arg_cong [of _ _ o_quantity])

lemma entry_of_mk_order:
  "payload m a = Some (mk_order i s p q ts ty) \<Longrightarrow> entry_of m a = \<lparr>e_price = p, e_id = i, e_qty = q\<rparr>"
  unfolding payload_def entry_of_def mk_order_def
  by (cases "load m a")
     (auto dest: arg_cong [of _ _ o_price] arg_cong [of _ _ o_id] arg_cong [of _ _ o_quantity])

lemma entry_of_live [simp]:
  "load m a = Some x \<Longrightarrow> entry_of m a = \<lparr>e_price = o_price x, e_id = o_id x, e_qty = o_quantity x\<rparr>"
  by (simp add: entry_of_def)

lemma book_rep_entry_price:
  "book_rep b Q \<Longrightarrow> a \<in> set (Q s i) \<Longrightarrow> e_price (entry_of (mem b) a) = min_price b + int i"
  by (drule (1) book_rep_queued) (auto simp: entry_of_def)

lemma better_shift [simp]: "better s (c + x) (c + y) \<longleftrightarrow> better s x y"
  by (cases s) auto

lemma better_irrefl [simp]: "\<not> better s x x"
  by (cases s) auto

lemma better_asym: "better s x y \<Longrightarrow> \<not> better s y x"
  by (cases s) auto

lemma part_prices:
  assumes "book_rep b Q" "e \<in> set (part (entry_of (mem b)) (Q s) is)"
  shows "\<exists>i \<in> set is. e_price e = min_price b + int i"
  using assms(2) book_rep_entry_price [OF assms(1)] by (auto simp: set_part)

section \<open>Adding\<close>

lemma not_before_prefix:
  assumes rep: "book_rep b Q" and k: "k < num_levels b" "p = min_price b + int k"
    and q: "\<And>e. e \<in> set q \<Longrightarrow> e_price e = p"
  shows "insert_entry s \<lparr>e_price = p, e_id = i, e_qty = n\<rparr>
      (part (entry_of (mem b)) (Q s) (levels_before s (num_levels b) k) @ q
        @ part (entry_of (mem b)) (Q s) (levels_after s (num_levels b) k))
    = part (entry_of (mem b)) (Q s) (levels_before s (num_levels b) k) @ q
        @ \<lparr>e_price = p, e_id = i, e_qty = n\<rparr>
        # part (entry_of (mem b)) (Q s) (levels_after s (num_levels b) k)"
    (is "insert_entry s ?e (?B @ q @ ?A) = _")
proof -
  let ?P = "\<lambda>x. \<not> better s (e_price ?e) (e_price x)"
  have "?P x" if "x \<in> set (?B @ q)" for x
    using that q part_prices [OF rep, of x s] levels_before_better k better_asym by fastforce
  moreover have "\<not> ?P x" if "x \<in> set ?A" for x
    using part_prices [OF rep that] levels_after_worse k by fastforce
  then have "takeWhile ?P ?A = []" "dropWhile ?P ?A = ?A"
    by (cases ?A; simp)+
  ultimately have "takeWhile ?P (?B @ q @ ?A) = ?B @ q" "dropWhile ?P (?B @ q @ ?A) = ?A"
    using takeWhile_append2 [of "?B @ q" ?P ?A] dropWhile_append2 [of "?B @ q" ?P ?A] by auto
  then show ?thesis by (simp add: insert_entry_def)
qed

lemma addOrder_view:
  assumes rep: "book_rep b Q" and p: "inRange b p" and fresh: "orders b i = None"
  obtains b' Q' where "addOrder b s p q i = Some (b', i)" "book_rep b' Q'"
    "view b' s = insert_entry s \<lparr>e_price = p, e_id = i, e_qty = q\<rparr> (view b s)"
    "\<forall>t. t \<noteq> s \<longrightarrow> view b' t = view b t"
    "min_price b' = min_price b" "max_price b' = max_price b" "next_order_id b' = next_order_id b"
    "resting b' = (resting b)(i := True)"
proof -
  define k where "k = nat (p - min_price b)"
  note idx = inRange_index [OF book_rep_heap [OF rep] p, folded k_def]
  obtain b' a where add: "addOrder b s p q i = Some (b', i)"
    "book_rep b' (Q(s := (Q s)(k := Q s k @ [a])))"
    "load (mem b) a = None" "\<forall>c. c \<noteq> a \<longrightarrow> payload (mem b') c = payload (mem b) c"
    "payload (mem b') a = Some (mk_order i s p q 0 LIMIT)"
    "min_price b' = min_price b" "max_price b' = max_price b" "next_order_id b' = next_order_id b"
    "orders b' = (orders b)(i \<mapsto> a)"
    by (rule addOrder_works [OF rep p fresh, of s q, folded k_def])
  have nl: "num_levels b' = num_levels b"
    using book_rep_levels [OF rep] book_rep_levels [OF add(2)] add(6,7) by simp
  have "a \<notin> set (Q t j)" for t j using book_rep_queued [OF rep, of a t j] add(3) by auto
  then have same: "map (entry_of (mem b')) (Q t j) = map (entry_of (mem b)) (Q t j)" for t j
  proof (intro map_cong refl entry_of_payload)
    fix c assume "c \<in> set (Q t j)"
    then have "c \<noteq> a" using \<open>\<And>t j. a \<notin> set (Q t j)\<close> by metis
    then show "payload (mem b') c = payload (mem b) c" using add(4) by simp
  qed
  have "view b' t = view b t" if "t \<noteq> s" for t
    unfolding view_rep [OF rep] view_rep [OF add(2)] nl
    using that same by (intro flat_cong) simp
  moreover have "view b' s = insert_entry s \<lparr>e_price = p, e_id = i, e_qty = q\<rparr> (view b s)"
  proof -
    have b: "k \<notin> set (levels_before s (num_levels b) k)" "k \<notin> set (levels_after s (num_levels b) k)"
      using levels_before_better levels_after_worse by blast+
    have prt: "part (entry_of (mem b')) ((Q s)(k := Q s k @ [a])) js = part (entry_of (mem b)) (Q s) js"
      if "k \<notin> set js" for js
      using that same by (intro part_cong) auto
    show ?thesis
      unfolding view_rep [OF rep] view_rep [OF add(2)] nl flat_split [OF idx(2)]
      using same entry_of_mk_order [OF add(5)] book_rep_entry_price [OF rep] idx(3)
      by (subst not_before_prefix [OF rep idx(2,3)]) (auto simp: prt b)
  qed
  moreover have "resting b' = (resting b)(i := True)"
    by (rule ext) (simp add: resting_def add(9))
  ultimately show ?thesis using add that by simp
qed

section \<open>Cancelling and modifying\<close>

lemma id_of_queued:
  assumes rep: "book_rep b Q" and c: "c \<in> set (Q t j)"
  shows "e_id (entry_of (mem b) c) = i \<longleftrightarrow> orders b i = Some c"
  using book_rep_queued [OF rep c] book_rep_orders [OF rep] by (auto simp: entry_of_def)

lemma view_ids:
  assumes "book_rep b Q"
  shows "e_id ` (set (view b BUY) \<union> set (view b SELL)) = {i. resting b i}"
proof -
  have "i \<in> e_id ` (set (view b BUY) \<union> set (view b SELL)) \<longleftrightarrow> resting b i" for i
  proof
    assume "i \<in> e_id ` (set (view b BUY) \<union> set (view b SELL))"
    then show "resting b i"
      using id_of_queued [OF assms] unfolding view_rep [OF assms] set_flat resting_def
      by fastforce
  next
    assume "resting b i"
    then obtain a x where a: "orders b i = Some a" "load (mem b) a = Some x" "o_id x = i"
      using book_rep_orders [OF assms] by (auto simp: resting_def)
    obtain k where "a \<in> set (Q (o_side x) k)" "k < num_levels b"
      by (rule book_rep_live [OF assms a(2)])
    then have "entry_of (mem b) a \<in> set (view b (o_side x))"
      unfolding view_rep [OF assms] set_flat by blast
    then show "i \<in> e_id ` (set (view b BUY) \<union> set (view b SELL))"
      using a by (cases "o_side x") force+
  qed
  then show ?thesis by blast
qed

lemma cancelOrder_view:
  assumes rep: "book_rep b Q" and i: "orders b i = Some a"
    and a: "a \<in> set (Q s k)"
  obtains b' where "cancelOrder b i = Some (b', True)"
    "book_rep b' (Q(s := (Q s)(k := remove1 a (Q s k))))"
    "\<forall>t. view b' t = remove_entry i (view b t)"
    "\<forall>c. c \<noteq> a \<longrightarrow> entry_of (mem b') c = entry_of (mem b) c"
    "min_price b' = min_price b" "max_price b' = max_price b" "next_order_id b' = next_order_id b"
    "orders b' = (orders b)(i := None)"
proof -
  from book_rep_queued [OF rep a] obtain x where x: "load (mem b) a = Some x" "o_side x = s" by auto
  from a obtain xs ys where xy: "Q s k = xs @ a # ys" by (meson split_list)
  have "a \<notin> set xs" using book_rep_distinct [OF rep, of s k] xy by simp
  then have rm: "remove1 a (Q s k) = xs @ ys" by (simp add: xy remove1_append)
  obtain b' where can: "cancelOrder b i = Some (b', True)"
    "book_rep b' (Q(s := (Q s)(k := xs @ ys)))"
    "\<forall>c. payload (mem b') c = (if c = a then None else payload (mem b) c)"
    "min_price b' = min_price b" "max_price b' = max_price b" "next_order_id b' = next_order_id b"
    "orders b' = (orders b)(i := None)"
    by (rule cancelOrder_works [OF rep i x xy])
  have nl: "num_levels b' = num_levels b"
    using book_rep_levels [OF rep] book_rep_levels [OF can(2)] can(4,5) by simp
  have ent: "entry_of (mem b') c = entry_of (mem b) c" if "c \<noteq> a" for c
    using can(3) that by (intro entry_of_payload) simp
  have only: "t = s \<and> j = k" if "a \<in> set (Q t j)" for t j
    using book_rep_unique [OF rep that a] .
  have "view b' t = remove_entry i (view b t)" for t
  proof -
    have "map (entry_of (mem b')) ((Q(s := (Q s)(k := xs @ ys))) t j)
        = map (entry_of (mem b)) (filter (\<lambda>c. e_id (entry_of (mem b) c) \<noteq> i) (Q t j))" for j
    proof -
      have "filter (\<lambda>c. e_id (entry_of (mem b) c) \<noteq> i) (Q t j) = filter (\<lambda>c. c \<noteq> a) (Q t j)"
        using id_of_queued [OF rep] i by (intro filter_cong) auto
      also have "\<dots> = (Q(s := (Q s)(k := xs @ ys))) t j"
      proof (cases "t = s \<and> j = k")
        case True
        moreover have "a \<notin> set xs \<union> set ys" using book_rep_distinct [OF rep, of s k] xy by simp
        ultimately show ?thesis using xy by (simp add: filter_other)
      next
        case False
        then have "a \<notin> set (Q t j)" using only by blast
        then show ?thesis using False by (simp add: filter_other)
      qed
      finally have eq: "filter (\<lambda>c. e_id (entry_of (mem b) c) \<noteq> i) (Q t j)
          = (Q(s := (Q s)(k := xs @ ys))) t j" .
      have "c \<noteq> a" if "c \<in> set ((Q(s := (Q s)(k := xs @ ys))) t j)" for c
        using that i id_of_queued [OF rep, of c t j i] unfolding eq [symmetric] by auto
      then show ?thesis unfolding eq by (intro map_cong ent) auto
    qed
    then show ?thesis
      unfolding view_rep [OF rep] view_rep [OF can(2)] nl remove_entry_def flat_part part_filter
      by (intro part_cong) simp
  qed
  then show ?thesis using can ent that rm by simp
qed

lemma orders_queued:
  assumes "book_rep b Q" "orders b i = Some a"
  obtains s k where "a \<in> set (Q s k)"
proof -
  from assms obtain x where "load (mem b) a = Some x" by (auto simp: book_rep_orders)
  from book_rep_live [OF assms(1) this] that show ?thesis by metis
qed

lemma requantify_view:
  assumes rep: "book_rep b Q" "book_rep b' Q" and i: "orders b i = Some a" "load (mem b) a = Some x"
    and m: "mem b' = put_slot (mem b) a (Storage (x\<lparr>o_quantity := q\<rparr>))"
    and nl: "num_levels b' = num_levels b"
  shows "view b' t = requantify_entry i q (view b t)"
proof -
  have "entry_of (mem b') c = (let e = entry_of (mem b) c in if e_id e = i then e\<lparr>e_qty := q\<rparr> else e)"
    if "c \<in> set (Q t j)" for c t j
    using id_of_queued [OF rep(1) that, of i] i unfolding m
    by (cases "c = a") (auto simp: entry_of_def)
  then show ?thesis
    unfolding view_rep [OF rep(1)] view_rep [OF rep(2)] nl requantify_entry_def flat_part part_map
    by (intro part_cong) (simp add: Let_def)
qed

lemma modifyOrder_view:
  assumes rep: "book_rep b Q" and i: "orders b i = Some a" and x: "load (mem b) a = Some x"
    and fits: "int64_range (sint q - sint (o_quantity x))"
  obtains b' where "modifyOrder b i q = Some (b', True)" "book_rep b' Q"
    "\<forall>t. view b' t = requantify_entry i q (view b t)"
    "min_price b' = min_price b" "max_price b' = max_price b" "next_order_id b' = next_order_id b"
    "orders b' = orders b"
proof -
  obtain b' where m: "modifyOrder b i q = Some (b', True)" "book_rep b' Q"
    "mem b' = put_slot (mem b) a (Storage (x\<lparr>o_quantity := q\<rparr>))"
    "min_price b' = min_price b" "max_price b' = max_price b" "next_order_id b' = next_order_id b"
    "orders b' = orders b"
    by (rule modifyOrder_works [OF rep i x fits])
  moreover have "num_levels b' = num_levels b"
    using book_rep_levels [OF rep] book_rep_levels [OF m(2)] m(4,5) by simp
  ultimately show ?thesis using requantify_view [OF rep m(2) i x m(3)] that by blast
qed

section \<open>Best prices\<close>

lemma best_idx_view:
  assumes rep: "book_rep b Q"
  shows "best_idx (ladder_of s b) = -1 \<and> (\<forall>j. Q s j = [])
    \<or> (\<exists>k. best_idx (ladder_of s b) = int k \<and> k < num_levels b \<and> Q s k \<noteq> []
          \<and> (\<forall>j \<in> set (levels_before s (num_levels b) k). Q s j = []))"
proof -
  from book_rep_ladder [OF rep, of s]
  have h: "best_idx (ladder_of s b) = rescan s (words (ladder_of s b))"
    "\<And>i. testbit (words (ladder_of s b)) i \<longleftrightarrow> Q s i \<noteq> []" "\<And>i. num_levels b \<le> i \<Longrightarrow> Q s i = []"
    by (simp_all add: ladder_rep_def)
  show ?thesis
    using side_scan.scan_spec [of s "words (ladder_of s b)"]
  proof (elim disjE exE conjE)
    fix k
    assume k: "rescan s (words (ladder_of s b)) = int k" "testbit (words (ladder_of s b)) k"
      "\<forall>j. testbit (words (ladder_of s b)) j \<and> j \<noteq> k \<longrightarrow> better s (int k) (int j)"
    have Qk: "Q s k \<noteq> []" using k(2) h(2) [of k] by (rule iffD1 [rotated])
    then have "k < num_levels b" using h(3) [of k] by (meson not_less)
    moreover have "Q s j = []" if "j \<in> set (levels_before s (num_levels b) k)" for j
    proof (rule ccontr)
      assume "Q s j \<noteq> []"
      then have "testbit (words (ladder_of s b)) j" by (simp add: h(2))
      then have "better s (int k) (int j)" using k(3) levels_before_better [OF that] by blast
      then show False using levels_before_better [OF that] better_asym by blast
    qed
    ultimately show ?thesis
      using k(1) h(1) Qk by (intro disjI2 exI [of _ k]) simp
  qed (simp add: h)
qed

lemma view_best:
  assumes rep: "book_rep b Q" and k: "best_idx (ladder_of s b) = int k"
  shows "k < num_levels b" "Q s k \<noteq> []"
    "view b s = map (entry_of (mem b)) (Q s k)
       @ part (entry_of (mem b)) (Q s) (levels_after s (num_levels b) k)"
proof -
  show kn: "k < num_levels b" and "Q s k \<noteq> []"
    using best_idx_view [OF rep, of s] k by auto
  have "part (entry_of (mem b)) (Q s) (levels_before s (num_levels b) k) = []"
    using best_idx_view [OF rep, of s] k by (intro part_empty) auto
  then show "view b s = map (entry_of (mem b)) (Q s k)
       @ part (entry_of (mem b)) (Q s) (levels_after s (num_levels b) k)"
    unfolding view_rep [OF rep] flat_split [OF kn] by simp
qed

lemma view_empty:
  assumes rep: "book_rep b Q"
  shows "best_idx (ladder_of s b) < 0 \<longleftrightarrow> view b s = []"
proof (cases "best_idx (ladder_of s b) < 0")
  case True
  then have "\<forall>j. Q s j = []" using best_idx_view [OF rep, of s] by auto
  then show ?thesis using True unfolding view_rep [OF rep] flat_part by (simp add: part_empty)
next
  case False
  then obtain k where "best_idx (ladder_of s b) = int k" using best_idx_view [OF rep, of s] by auto
  with view_best [OF rep this] False show ?thesis by simp
qed

lemma best_price_view:
  assumes rep: "book_rep b Q" and s: "best_idx (ladder_of s b) \<ge> 0"
  shows "view b s \<noteq> []" "indexToPrice b (best_idx (ladder_of s b)) = e_price (hd (view b s))"
proof -
  obtain k where k: "best_idx (ladder_of s b) = int k"
    using s nonneg_int_cases by metis
  note v = view_best [OF rep k]
  then show "view b s \<noteq> []" by simp
  have "hd (Q s k) \<in> set (Q s k)" using v by simp
  from book_rep_entry_price [OF rep this]
  show "indexToPrice b (best_idx (ladder_of s b)) = e_price (hd (view b s))"
    using v k by (simp add: indexToPrice_def hd_map)
qed

lemma sorted_wrt_equal:
  "(\<And>x. x \<in> set xs \<Longrightarrow> e_price x = p) \<Longrightarrow> sorted_wrt (\<lambda>x y. \<not> better s (e_price y) (e_price x)) xs"
  by (induction xs) simp_all

lemma view_sorted:
  assumes rep: "book_rep b Q"
  shows "sorted_wrt (\<lambda>x y. \<not> better s (e_price y) (e_price x)) (view b s)"
proof -
  have "sorted_wrt (\<lambda>i j. better s (int i) (int j)) (by_priority s n)" for n
    by (cases s) (auto simp: by_priority_def sorted_wrt_rev sorted_wrt_upt)
  moreover have "sorted_wrt (\<lambda>x y. \<not> better s (e_price y) (e_price x)) (part (entry_of (mem b)) (Q s) is)"
    if "sorted_wrt (\<lambda>i j. better s (int i) (int j)) is" for "is"
    using that
  proof (induction "is")
    case (Cons i "is")
    have "\<not> better s (e_price y) (e_price x)"
      if x: "x \<in> set (map (entry_of (mem b)) (Q s i))" and y: "y \<in> set (part (entry_of (mem b)) (Q s) is)" for x y
    proof -
      have "e_price x = min_price b + int i" using x book_rep_entry_price [OF rep] by auto
      moreover obtain j where "j \<in> set is" "e_price y = min_price b + int j"
        using part_prices [OF rep y] by auto
      ultimately show ?thesis using Cons.prems better_asym by simp
    qed
    moreover have "sorted_wrt (\<lambda>x y. \<not> better s (e_price y) (e_price x)) (map (entry_of (mem b)) (Q s i))"
      using book_rep_entry_price [OF rep, of _ s i]
      by (intro sorted_wrt_equal [of _ "min_price b + int i"]) auto
    ultimately show ?case using Cons by (auto simp: sorted_wrt_append)
  qed simp
  ultimately show ?thesis unfolding view_rep [OF rep] flat_part by blast
qed

end
