(* ===== verification/Market_Depth.thy ===== *)
theory Market_Depth
  imports Book_Spec
begin

text \<open>
  \<open>getDepth\<close> and the best-price getters, read off the abstract lists: depth is the first levels of
  the side's entries grouped by price.
\<close>

lemma price_groups_empty [simp]: "price_groups es = [] \<longleftrightarrow> es = []"
  by (cases es) (auto split: list.splits)

lemma price_groups_hd: "es \<noteq> [] \<Longrightarrow> dl_price (hd (price_groups es)) = e_price (hd es)"
  by (cases es) (auto split: list.splits)

lemma price_groups_level:
  assumes "q \<noteq> []" "\<And>e. e \<in> set q \<Longrightarrow> e_price e = p" "\<And>e. e \<in> set rest \<Longrightarrow> e_price e \<noteq> p"
  shows "price_groups (q @ rest) = \<lparr>dl_price = p, dl_qty = sum_list (map e_qty q)\<rparr> # price_groups rest"
  using assms(1,2)
proof (induction q rule: list_nonempty_induct)
  case (single x)
  have "dl_price d \<noteq> p" if "price_groups rest = d # ds" for d ds
    using price_groups_hd [of rest] assms(3) [of "hd rest"] that by (cases rest) auto
  then show ?case using single by (auto split: list.splits)
next
  case (cons x q)
  then show ?case by simp
qed

lemma e_qty_entry: "e_qty (entry_of m a) = qty m a"
  by (simp add: entry_of_def qty_def split: option.split)

lemma price_groups_part:
  assumes rep: "book_rep b Q" and i: "i \<notin> set is"
  shows "price_groups (part (entry_of (mem b)) (Q s) (i # is)) =
    (if Q s i = [] then [] else [\<lparr>dl_price = min_price b + int i, dl_qty = sum_list (map (qty (mem b)) (Q s i))\<rparr>])
    @ price_groups (part (entry_of (mem b)) (Q s) is)"
proof -
  have "e_price e \<noteq> min_price b + int i" if "e \<in> set (part (entry_of (mem b)) (Q s) is)" for e
    using part_prices [OF rep that] i by auto
  then have "price_groups (map (entry_of (mem b)) (Q s i) @ part (entry_of (mem b)) (Q s) is)
     = \<lparr>dl_price = min_price b + int i, dl_qty = sum_list (map e_qty (map (entry_of (mem b)) (Q s i)))\<rparr>
       # price_groups (part (entry_of (mem b)) (Q s) is)" if "Q s i \<noteq> []"
    using that book_rep_entry_price [OF rep] by (intro price_groups_level) auto
  then show ?thesis by (cases "Q s i = []") (simp_all add: o_def e_qty_entry)
qed

lemma level_of:
  assumes "book_rep b Q" "i < num_levels b"
  shows "vec_get (levels (ladder_of s b)) (int i) = Some (levels (ladder_of s b) ! i)"
    "isEmpty (levels (ladder_of s b) ! i) \<longleftrightarrow> Q s i = []"
    "getTotalQuantity (levels (ladder_of s b) ! i) = sum_list (map (qty (mem b)) (Q s i))"
    "getHead (levels (ladder_of s b) ! i) = first_of (Q s i)"
proof -
  have "i < length (levels (ladder_of s b))"
    using book_rep_ladder [OF assms(1), of s] assms(2) by (simp add: ladder_rep_def)
  then show "vec_get (levels (ladder_of s b)) (int i) = Some (levels (ladder_of s b) ! i)" by simp
  note l = ladder_rep_level [OF book_rep_ladder [OF assms(1)] assms(2), of s]
  show "isEmpty (levels (ladder_of s b) ! i) \<longleftrightarrow> Q s i = []"
    "getTotalQuantity (levels (ladder_of s b) ! i) = sum_list (map (qty (mem b)) (Q s i))"
    "getHead (levels (ladder_of s b) ! i) = first_of (Q s i)"
    using level_rep_isEmpty [OF l] l level_rep_head [OF l] by (simp_all add: level_rep_def getTotalQuantity_def)
qed

lemma depth_down_works:
  assumes rep: "book_rep b Q"
  shows "i \<le> num_levels b \<Longrightarrow>
    depth_down b i k = Some (take (nat k) (price_groups (part (entry_of (mem b)) (Q BUY) (rev [0..<i]))))"
proof (induction i arbitrary: k)
  case (Suc i)
  then have i: "i < num_levels b" by simp
  note lv = level_of [OF rep i, of BUY, simplified]
  have "nat k = Suc (nat (k - 1))" if "k > 0" using that by simp
  then show ?case
    using Suc lv price_groups_part [OF rep, of i "rev [0..<i]" BUY]
    by (simp add: indexToPrice_def)
qed simp

lemma depth_up_works:
  assumes rep: "book_rep b Q"
  shows "r \<le> num_levels b \<Longrightarrow>
    depth_up b r k = Some (take (nat k) (price_groups (part (entry_of (mem b)) (Q SELL)
      [num_levels b - r..<num_levels b])))"
proof (induction r arbitrary: k)
  case (Suc r)
  let ?i = "num_levels b - Suc r"
  have i: "?i < num_levels b" "Suc ?i = num_levels b - r" using Suc.prems by auto
  note lv = level_of [OF rep i(1), of SELL, simplified]
  have "[?i..<num_levels b] = ?i # [num_levels b - r..<num_levels b]"
    using i by (simp add: upt_conv_Cons)
  moreover have "nat k = Suc (nat (k - 1))" if "k > 0" using that by simp
  ultimately show ?case
    using Suc lv price_groups_part [OF rep, of ?i "[num_levels b - r..<num_levels b]" SELL] i
    by (simp add: indexToPrice_def Let_def del: upt.simps)
qed simp

lemma getDepth_view:
  assumes rep: "book_rep b Q"
  shows "getDepth b k = Some (take (nat k) (price_groups (view b BUY)), take (nat k) (price_groups (view b SELL)))"
proof -
  have dn: "depth_down b (nat (best_idx (bids b) + 1)) k = Some (take (nat k) (price_groups (view b BUY)))"
  proof (cases "best_idx (bids b) < 0")
    case True
    then show ?thesis
      using view_empty [OF rep, of BUY] best_idx_view [OF rep, of BUY]
        depth_down_works [OF rep, of 0 k] by (auto simp: part_empty)
  next
    case False
    define i where "i = nat (best_idx (bids b))"
    have i: "best_idx (ladder_of BUY b) = int i" using False by (simp add: i_def)
    note v = view_best [OF rep i]
    have "nat (best_idx (bids b) + 1) = Suc i" using i by simp
    then show ?thesis
      using depth_down_works [OF rep, of "Suc i" k] v by (simp add: levels_after_def Suc_leI)
  qed
  have up: "(if best_idx (asks b) \<ge> 0 then depth_up b (num_levels b - nat (best_idx (asks b))) k else Some [])
    = Some (take (nat k) (price_groups (view b SELL)))"
  proof (cases "best_idx (asks b) < 0")
    case True
    then show ?thesis using view_empty [OF rep, of SELL] by simp
  next
    case False
    define i where "i = nat (best_idx (asks b))"
    have i: "best_idx (ladder_of SELL b) = int i" using False by (simp add: i_def)
    note v = view_best [OF rep i]
    have "num_levels b - (num_levels b - i) = i" using v(1) by simp
    then show ?thesis
      using depth_up_works [OF rep, of "num_levels b - i" k] v i
      by (simp add: levels_after_def upt_conv_Cons del: upt.simps)
  qed
  show ?thesis by (simp add: getDepth_def dn up)
qed

lemma getBestBid_view:
  "book_rep b Q \<Longrightarrow> getBestBid b = (case view b BUY of [] \<Rightarrow> 0 | e # _ \<Rightarrow> e_price e)"
  using view_empty [of b Q BUY] best_price_view [of b Q BUY]
  by (cases "view b BUY") (auto simp: getBestBid_def)

lemma getBestAsk_view:
  "book_rep b Q \<Longrightarrow> getBestAsk b = (case view b SELL of [] \<Rightarrow> 0 | e # _ \<Rightarrow> e_price e)"
  using view_empty [of b Q SELL] best_price_view [of b Q SELL]
  by (cases "view b SELL") (auto simp: getBestAsk_def)

end
