(* ===== verification/Matching.thy ===== *)
theory Matching
  imports Market_Depth
begin

text \<open>
  The matching engine (\<^verbatim>\<open>OrderBook::match\<close>, \<^verbatim>\<open>submitLimit\<close>, \<^verbatim>\<open>submitMarket\<close>): an aggressive order
  trades against the resting orders of the other side, best price first and oldest first within a
  price. The source's two branches differ in the side they read and in the direction of the price
  comparison and are one definition here, the maker side being \<open>opp s\<close>. The loops are
  \<open>partial_function\<close>s, so a loop that did not end would be \<open>None\<close>.
\<close>

section \<open>The code\<close>

fun opp :: "side \<Rightarrow> side" where
  "opp BUY = SELL"
| "opp SELL = BUY"

text \<open>
  The inner loop, over the orders of the level \<open>idx\<close> whose price is \<open>p\<close>. Negating \<open>(int64_t)fill\<close>
  is undefined for the one value whose negation does not fit.
\<close>

partial_function (option) match_level ::
    "side \<Rightarrow> int \<Rightarrow> price \<Rightarrow> order_id \<Rightarrow> order_book \<Rightarrow> quantity \<Rightarrow> trade list
     \<Rightarrow> (order_book \<times> quantity \<times> trade list) option" where
  "match_level s idx p takerId b rem trades =
     (if rem > 0 then do {
        lvl \<leftarrow> vec_get (levels (ladder_of (opp s) b)) idx;
        case getHead lvl of
          None \<Rightarrow> Some (b, rem, trades)
        | Some a \<Rightarrow> do {
            x \<leftarrow> load (mem b) a;
            let fill = min rem (o_quantity x);
            let trades = trades @ [\<lparr>t_price = p, t_quantity = fill, t_makerId = o_id x,
                                    t_takerId = takerId, t_takerSide = s\<rparr>];
            let rem = rem - fill;
            if fill = o_quantity x then do {
              (b, _) \<leftarrow> cancelOrder b (o_id x);
              match_level s idx p takerId b rem trades
            } else do {
              m \<leftarrow> modify (mem b) a (\<lambda>y. y\<lparr>o_quantity := o_quantity y - fill\<rparr>);
              require (int64_range (- sint fill));
              h \<leftarrow> ladder_adjust (ladder_of (opp s) b) idx (- fill);
              match_level s idx p takerId
                (set_ladder (opp s) h (b\<lparr>order_pool := (order_pool b)\<lparr>slots := m\<rparr>\<rparr>)) rem trades
            }
          }
      } else Some (b, rem, trades))"

partial_function (option) match_levels ::
    "side \<Rightarrow> price \<Rightarrow> order_id \<Rightarrow> order_book \<Rightarrow> quantity \<Rightarrow> trade list
     \<Rightarrow> (order_book \<times> quantity \<times> trade list) option" where
  "match_levels s limit takerId b rem trades =
     (if rem > 0 \<and> best_idx (ladder_of (opp s) b) \<ge> 0 then do {
        let idx = best_idx (ladder_of (opp s) b);
        let p = indexToPrice b idx;
        if better s p limit then Some (b, rem, trades)
        else do {
          (b, rem, trades) \<leftarrow> match_level s idx p takerId b rem trades;
          match_levels s limit takerId b rem trades
        }
      } else Some (b, rem, trades))"

declare match_level.simps [code] match_levels.simps [code]

definition match_order ::
    "order_book \<Rightarrow> side \<Rightarrow> price \<Rightarrow> quantity \<Rightarrow> order_id \<Rightarrow> trade list
     \<Rightarrow> (order_book \<times> quantity \<times> trade list) option" where
  "match_order b s limit quantity takerId trades = match_levels s limit takerId b quantity trades"

definition submitLimit ::
    "order_book \<Rightarrow> side \<Rightarrow> price \<Rightarrow> quantity \<Rightarrow> order_id \<Rightarrow> (order_book \<times> trade list) option" where
  "submitLimit b s price quantity takerId = do {
     (b, rem, trades) \<leftarrow> match_order b s price quantity takerId [];
     if rem > 0 then do {
       (b, _) \<leftarrow> addOrder b s price rem takerId;
       Some (b, trades)
     } else Some (b, trades)
   }"

definition submitMarket ::
    "order_book \<Rightarrow> side \<Rightarrow> quantity \<Rightarrow> order_id \<Rightarrow> (order_book \<times> trade list) option" where
  "submitMarket b s quantity takerId = do {
     let limit = (case s of BUY \<Rightarrow> int64_max | SELL \<Rightarrow> int64_min);
     (b, rem, trades) \<leftarrow> match_order b s limit quantity takerId [];
     Some (b, trades)
   }"

section \<open>What matching does to the list of resting entries\<close>

text \<open>
  \<open>fill s cross t rem es\<close>: the maker side's entries after an order for \<open>rem\<close> has traded with
  every entry it may cross, in order, the quantity it is left with, and its trades.
\<close>

fun fill_entries :: "side \<Rightarrow> (price \<Rightarrow> bool) \<Rightarrow> order_id \<Rightarrow> quantity \<Rightarrow> entry list
    \<Rightarrow> entry list \<times> quantity \<times> trade list" where
  "fill_entries s cross t rem [] = ([], rem, [])"
| "fill_entries s cross t rem (e # es) =
     (if rem = 0 \<or> \<not> cross (e_price e) then (e # es, rem, [])
      else let f = min rem (e_qty e);
               tr = \<lparr>t_price = e_price e, t_quantity = f, t_makerId = e_id e,
                     t_takerId = t, t_takerSide = s\<rparr>
           in if f = e_qty e
              then let (es', rem', trs) = fill_entries s cross t (rem - f) es in (es', rem', tr # trs)
              else (e\<lparr>e_qty := e_qty e - f\<rparr> # es, rem - f, [tr]))"

lemma fill_entries_zero [simp]: "fill_entries s cross t 0 es = (es, 0, [])"
  by (cases es) simp_all

lemma fill_entries_append:
  "(\<And>e. e \<in> set es \<Longrightarrow> cross (e_price e)) \<Longrightarrow>
   fill_entries s cross t rem (es @ fs) =
     (let (es', rem', tr) = fill_entries s cross t rem es;
          (fs', rem'', tr') = fill_entries s cross t rem' fs in (es' @ fs', rem'', tr @ tr'))"
proof (induction es arbitrary: rem)
  case (Cons e es)
  have "fill_entries s cross t 0 fs = (fs, 0, [])" by simp
  with Cons show ?case by (auto simp: Let_def min_def split: prod.split)
qed simp

lemma fill_entries_cong:
  "(\<And>e. e \<in> set es \<Longrightarrow> cross (e_price e) = cross' (e_price e)) \<Longrightarrow>
   fill_entries s cross t rem es = fill_entries s cross' t rem es"
  by (induction es arbitrary: rem) (auto simp: Let_def)

lemma fill_entries_drained:
  "(\<And>e. e \<in> set es \<Longrightarrow> cross (e_price e)) \<Longrightarrow> fill_entries s cross t rem es = (es', rem', tr) \<Longrightarrow>
   rem' \<noteq> 0 \<Longrightarrow> es' = []"
proof (induction es arbitrary: rem es' tr)
  case (Cons e es)
  then show ?case
    by (auto simp: Let_def min_def split: prod.splits if_splits)
qed simp

section \<open>One maker\<close>

lemma opp_neq [simp]: "opp s \<noteq> s" "s \<noteq> opp s" "opp (opp s) = s"
  by (cases s; simp)+

lemma other_side: "t \<noteq> opp s \<longleftrightarrow> t = s"
  by (cases s; cases t) auto

text \<open>
  What matching keeps on the way from \<open>(b, Q)\<close> to \<open>(b', Q')\<close> while it works on level \<open>k\<close> of side
  \<open>s\<close>: the representation, every other queue with its entries, and the book's parameters.
\<close>

definition worked_level ::
    "side \<Rightarrow> nat \<Rightarrow> order_book \<Rightarrow> (side \<Rightarrow> nat \<Rightarrow> addr list) \<Rightarrow> order_book \<Rightarrow> (side \<Rightarrow> nat \<Rightarrow> addr list) \<Rightarrow> bool" where
  "worked_level s k b Q b' Q' \<longleftrightarrow>
     book_rep b' Q' \<and> (\<forall>t j. \<not> (t = s \<and> j = k) \<longrightarrow> Q' t j = Q t j)
   \<and> (\<forall>c. c \<notin> set (Q s k) \<longrightarrow> entry_of (mem b') c = entry_of (mem b) c)
   \<and> set (Q' s k) \<subseteq> set (Q s k)
   \<and> min_price b' = min_price b \<and> max_price b' = max_price b \<and> next_order_id b' = next_order_id b"

lemma worked_level_refl: "book_rep b Q \<Longrightarrow> worked_level s k b Q b Q"
  by (simp add: worked_level_def)

lemma worked_level_trans:
  "worked_level s k b Q b1 Q1 \<Longrightarrow> worked_level s k b1 Q1 b2 Q2 \<Longrightarrow> worked_level s k b Q b2 Q2"
  unfolding worked_level_def by (elim conjE) (intro conjI allI impI; force)

lemma cancel_head_works:
  assumes rep: "book_rep b Q" and Q: "Q s k = a # as" and x: "load (mem b) a = Some x"
  obtains b' Q' where "cancelOrder b (o_id x) = Some (b', True)" "worked_level s k b Q b' Q'"
    "Q' s k = as" "map (entry_of (mem b')) as = map (entry_of (mem b)) as"
proof -
  have i: "orders b (o_id x) = Some a" using x book_rep_orders [OF rep] by blast
  have a: "a \<in> set (Q s k)" using Q by simp
  obtain b' where can: "cancelOrder b (o_id x) = Some (b', True)"
    "book_rep b' (Q(s := (Q s)(k := remove1 a (Q s k))))"
    "\<forall>t. view b' t = remove_entry (o_id x) (view b t)"
    "\<forall>c. c \<noteq> a \<longrightarrow> entry_of (mem b') c = entry_of (mem b) c"
    "min_price b' = min_price b" "max_price b' = max_price b" "next_order_id b' = next_order_id b"
    by (rule cancelOrder_view [OF rep i a])
  have "a \<notin> set as" using book_rep_distinct [OF rep, of s k] Q by simp
  then have "map (entry_of (mem b')) as = map (entry_of (mem b)) as"
    by (rule map_other [OF can(4)])
  moreover have "worked_level s k b Q b' (Q(s := (Q s)(k := remove1 a (Q s k))))"
    using can Q by (auto simp: worked_level_def)
  ultimately show ?thesis using can(1) Q that by simp
qed

lemma reduce_head_works:
  assumes rep: "book_rep b Q" and Q: "Q s k = a # as" and x: "load (mem b) a = Some x"
  obtains h where "ladder_adjust (ladder_of s b) (int k) (- f) = Some h"
    "worked_level s k b Q (set_ladder s h (b\<lparr>order_pool := (order_pool b)
       \<lparr>slots := put_slot (mem b) a (Storage (x\<lparr>o_quantity := o_quantity x - f\<rparr>))\<rparr>\<rparr>)) Q"
proof -
  have a: "a \<in> set (Q s k)" using Q by simp
  obtain h where "ladder_adjust (ladder_of s b) (int k) (o_quantity x - f - o_quantity x) = Some h"
    "book_rep (set_ladder s h (b\<lparr>order_pool := (order_pool b)
       \<lparr>slots := put_slot (mem b) a (Storage (x\<lparr>o_quantity := o_quantity x - f\<rparr>))\<rparr>\<rparr>)) Q"
    by (rule requantify_works [OF rep a x])
  moreover have "entry_of (put_slot (mem b) a (Storage (x\<lparr>o_quantity := o_quantity x - f\<rparr>))) c = entry_of (mem b) c"
    if "c \<noteq> a" for c
    using that by (simp add: entry_of_def)
  ultimately show ?thesis using a that by (fastforce simp: worked_level_def)
qed

section \<open>The inner loop\<close>

lemma match_level_works:
  assumes rep: "book_rep b Q" and k: "k < num_levels b"
    and p: "p = min_price b + int k" and cr: "cross p" and small: "unat rem < 2 ^ 63"
  shows "\<exists>b' Q' rem' trs. match_level s (int k) p t b rem trades = Some (b', rem', trades @ trs)
    \<and> worked_level (opp s) k b Q b' Q' \<and> rem' \<le> rem
    \<and> fill_entries s cross t rem (map (entry_of (mem b)) (Q (opp s) k))
        = (map (entry_of (mem b')) (Q' (opp s) k), rem', trs)"
  using assms
proof (induction "Q (opp s) k" arbitrary: b Q rem trades)
  case Nil
  note lv = level_of [OF Nil.prems(1,2), of "opp s"]
  show ?case
    using Nil lv by (subst match_level.simps) (auto intro!: worked_level_refl exI [of _ Q] simp: word_gt_0)
next
  case (Cons a as)
  note rep = Cons.prems(1)
  have Q: "Q (opp s) k = a # as" using Cons.hyps by simp
  note lv = level_of [OF Cons.prems(1,2), of "opp s"]
  obtain x where x: "load (mem b) a = Some x" "o_price x = p"
    using book_rep_queued [OF rep, of a "opp s" k] Q Cons.prems(3) by auto
  show ?case
  proof (cases "rem = 0")
    case True
    then show ?thesis
      using rep by (subst match_level.simps) (auto intro!: worked_level_refl exI [of _ Q])
  next
    case nz: False
    let ?f = "min rem (o_quantity x)"
    let ?tr = "\<lparr>t_price = p, t_quantity = ?f, t_makerId = o_id x, t_takerId = t, t_takerSide = s\<rparr>"
    show ?thesis
    proof (cases "o_quantity x \<le> rem")
      case True
      then have f: "?f = o_quantity x" by (simp add: min_def)
      obtain b1 Q1 where one: "cancelOrder b (o_id x) = Some (b1, True)"
        "worked_level (opp s) k b Q b1 Q1" "Q1 (opp s) k = as"
        "map (entry_of (mem b1)) as = map (entry_of (mem b)) as"
        by (rule cancel_head_works [OF rep Q x(1)])
      have b1: "book_rep b1 Q1" "min_price b1 = min_price b" "num_levels b1 = num_levels b"
        using one(2) book_rep_levels [OF rep] book_rep_levels [of b1 Q1] by (simp_all add: worked_level_def)
      have "rem - o_quantity x \<le> rem" using True by (simp add: word_sub_le)
      moreover have "unat (rem - o_quantity x) < 2 ^ 63"
        using unat_le_small [OF calculation Cons.prems(5)] .
      moreover obtain b' Q' rem' trs where ih:
        "match_level s (int k) p t b1 (rem - o_quantity x) (trades @ [?tr]) = Some (b', rem', (trades @ [?tr]) @ trs)"
        "worked_level (opp s) k b1 Q1 b' Q'" "rem' \<le> rem - o_quantity x"
        "fill_entries s cross t (rem - o_quantity x) (map (entry_of (mem b1)) (Q1 (opp s) k))
          = (map (entry_of (mem b')) (Q' (opp s) k), rem', trs)"
        using Cons.hyps(1) [of Q1 b1 "rem - o_quantity x" "trades @ [?tr]"] b1 one(3) Cons.prems calculation by auto
      moreover have "match_level s (int k) p t b rem trades = Some (b', rem', trades @ ?tr # trs)"
        using nz lv(1,4) Q x one(1) f ih(1)
        by (subst match_level.simps) (simp add: Let_def word_gt_0)
      ultimately show ?thesis
        using worked_level_trans [OF one(2) ih(2)] nz Q x one(3,4) f Cons.prems(4)
        by (intro exI [of _ b'] exI [of _ Q'] exI [of _ rem'] exI [of _ "?tr # trs"]) auto
    next
      case False
      then have f: "?f = rem" "rem \<noteq> o_quantity x" by (auto simp: min_def)
      let ?m = "put_slot (mem b) a (Storage (x\<lparr>o_quantity := o_quantity x - rem\<rparr>))"
      obtain h where h: "ladder_adjust (ladder_of (opp s) b) (int k) (- rem) = Some h"
        "worked_level (opp s) k b Q (set_ladder (opp s) h (b\<lparr>order_pool := (order_pool b)\<lparr>slots := ?m\<rparr>\<rparr>)) Q"
        by (rule reduce_head_works [OF rep Q x(1)])
      let ?b = "set_ladder (opp s) h (b\<lparr>order_pool := (order_pool b)\<lparr>slots := ?m\<rparr>\<rparr>)"
      have fits: "int64_range (- sint rem)"
        using sint_small [OF Cons.prems(5)] unfolding int64_range_def by linarith
      have "match_level s (int k) p t ?b 0 (trades @ [?tr]) = Some (?b, 0, trades @ [?tr])"
        by (subst match_level.simps) simp
      then have "match_level s (int k) p t b rem trades = Some (?b, 0, trades @ [?tr])"
        using nz lv(1,4) Q x f h(1) fits
        by (subst match_level.simps) (simp add: Let_def word_gt_0)
      moreover have "map (entry_of ?m) as = map (entry_of (mem b)) as"
        using book_rep_distinct [OF rep, of "opp s" k] Q by (auto simp: entry_of_def)
      ultimately show ?thesis
        using h(2) nz Q x f Cons.prems(4)
        by (intro exI [of _ ?b] exI [of _ Q] exI [of _ 0] exI [of _ "[?tr]"]) auto
    qed
  qed
qed

section \<open>The outer loop\<close>

lemma worked_level_rep:
  assumes "worked_level s k b Q b' Q'" "book_rep b Q"
  shows "book_rep b' Q'" "num_levels b' = num_levels b"
  using assms book_rep_levels [of b Q] book_rep_levels [of b' Q'] by (auto simp: worked_level_def)

lemma worked_level_part:
  assumes w: "worked_level s k b Q b' Q'" and rep: "book_rep b Q" and k: "t = s \<Longrightarrow> k \<notin> set is"
  shows "part (entry_of (mem b')) (Q' t) is = part (entry_of (mem b)) (Q t) is"
proof (rule part_cong)
  fix i assume i: "i \<in> set is"
  then have ne: "\<not> (t = s \<and> i = k)" using k by auto
  then have q: "Q' t i = Q t i" using w by (auto simp: worked_level_def)
  have "c \<notin> set (Q s k)" if "c \<in> set (Q t i)" for c
    using book_rep_unique [OF rep that, of s k] ne by blast
  then have "entry_of (mem b') c = entry_of (mem b) c" if "c \<in> set (Q t i)" for c
    using w that by (simp add: worked_level_def)
  then show "map (entry_of (mem b')) (Q' t i) = map (entry_of (mem b)) (Q t i)"
    unfolding q by (intro map_cong refl)
qed

lemma worked_level_view:
  assumes w: "worked_level s k b Q b' Q'" and rep: "book_rep b Q"
    and k: "best_idx (ladder_of s b) = int k"
  shows "view b' s = map (entry_of (mem b')) (Q' s k)
           @ part (entry_of (mem b)) (Q s) (levels_after s (num_levels b) k)"
    "t \<noteq> s \<Longrightarrow> view b' t = view b t"
proof -
  note w' = worked_level_rep [OF w rep]
  have kn: "k < num_levels b" by (rule view_best [OF rep k])
  have before: "Q s j = []" if "j \<in> set (levels_before s (num_levels b) k)" for j
    using best_idx_view [OF rep, of s] k that by auto
  have nk: "k \<notin> set (levels_before s (num_levels b) k)" "k \<notin> set (levels_after s (num_levels b) k)"
    using levels_before_better levels_after_worse by blast+
  show "view b' s = map (entry_of (mem b')) (Q' s k)
           @ part (entry_of (mem b)) (Q s) (levels_after s (num_levels b) k)"
    unfolding view_rep [OF w'(1)] w'(2) flat_split [OF kn]
    using worked_level_part [OF w rep] nk before by (simp add: part_empty)
  show "view b' t = view b t" if "t \<noteq> s"
    unfolding view_rep [OF w'(1)] view_rep [OF rep] w'(2) flat_part
    using that by (intro worked_level_part [OF w rep]) simp
qed

text \<open>The book after matching differs from the one before on the maker side only.\<close>

definition matched_side :: "side \<Rightarrow> order_book \<Rightarrow> order_book \<Rightarrow> bool" where
  "matched_side s b b' \<longleftrightarrow>
     book_wf b' \<and> (\<forall>t. t \<noteq> s \<longrightarrow> view b' t = view b t)
   \<and> min_price b' = min_price b \<and> max_price b' = max_price b \<and> next_order_id b' = next_order_id b"

lemma matched_side_refl: "book_rep b Q \<Longrightarrow> matched_side s b b"
  by (auto simp: matched_side_def book_wf_def)

lemma worked_level_matched:
  assumes "worked_level s k b Q b' Q'" "book_rep b Q" "best_idx (ladder_of s b) = int k"
  shows "matched_side s b b'"
  using assms(1) worked_level_view(2) [OF assms]
  by (auto simp: matched_side_def worked_level_def book_wf_def)

lemma match_levels_works:
  assumes "book_rep b Q" "unat rem < 2 ^ 63"
  shows "\<exists>b' rem' trs. match_levels s limit t b rem trades = Some (b', rem', trades @ trs)
    \<and> matched_side (opp s) b b' \<and> rem' \<le> rem
    \<and> fill_entries s (\<lambda>p. \<not> better s p limit) t rem (view b (opp s)) = (view b' (opp s), rem', trs)"
  using assms
proof (induction "length (view b (opp s))" arbitrary: b Q rem trades rule: less_induct)
  case less
  note rep = less.prems(1)
  let ?o = "opp s" and ?cross = "\<lambda>p. \<not> better s p limit"
  have stop: ?case if "match_levels s limit t b rem trades = Some (b, rem, trades)"
    "fill_entries s ?cross t rem (view b ?o) = (view b ?o, rem, [])"
    using that matched_side_refl [OF rep]
    by (intro exI [of _ b] exI [of _ rem] exI [of _ "[]"]) simp
  show ?case
  proof (cases "rem = 0 \<or> best_idx (ladder_of ?o b) < 0")
    case True
    then have "fill_entries s ?cross t rem (view b ?o) = (view b ?o, rem, [])"
      using view_empty [OF rep, of ?o] by auto
    with True show ?thesis by (intro stop) (subst match_levels.simps, auto)
  next
    case False
    define k where "k = nat (best_idx (ladder_of ?o b))"
    have k: "best_idx (ladder_of ?o b) = int k" using False by (simp add: k_def)
    note v = view_best [OF rep k]
    let ?p = "indexToPrice b (int k)"
    have p: "?p = min_price b + int k" by (simp add: indexToPrice_def)
    have pe: "e_price e = ?p" if "e \<in> set (map (entry_of (mem b)) (Q ?o k))" for e
      using that book_rep_entry_price [OF rep] p by auto
    show ?thesis
    proof (cases "better s ?p limit")
      case True
      have "fill_entries s ?cross t rem (view b ?o) = (view b ?o, rem, [])"
      proof (cases "Q ?o k")
        case (Cons a as)
        then have "e_price (entry_of (mem b) a) = ?p" by (intro pe) simp
        with Cons v(3) True show ?thesis by simp
      qed (use v(2) in simp)
      with True False k show ?thesis
        by (intro stop) (subst match_levels.simps, auto simp: Let_def)
    next
      case cr: False
      from match_level_works [OF rep v(1) p, of ?cross rem s t trades, OF cr less.prems(2)]
      obtain b1 Q1 rem1 trs1 where one:
        "match_level s (int k) ?p t b rem trades = Some (b1, rem1, trades @ trs1)"
        "worked_level ?o k b Q b1 Q1" "rem1 \<le> rem"
        "fill_entries s ?cross t rem (map (entry_of (mem b)) (Q ?o k))
          = (map (entry_of (mem b1)) (Q1 ?o k), rem1, trs1)"
        by (elim exE conjE) (rule that)
      note w1 = worked_level_rep [OF one(2) rep]
      let ?rest = "part (entry_of (mem b)) (Q ?o) (levels_after ?o (num_levels b) k)"
      note v1 = worked_level_view(1) [OF one(2) rep k]
      have m1: "matched_side ?o b b1" by (rule worked_level_matched [OF one(2) rep k])
      obtain b2 rem2 trs2 where two:
        "match_levels s limit t b1 rem1 (trades @ trs1) = Some (b2, rem2, (trades @ trs1) @ trs2)"
        "matched_side ?o b1 b2" "rem2 \<le> rem1"
        "fill_entries s ?cross t rem1 ?rest = (drop (length (Q1 ?o k)) (view b2 ?o), rem2, trs2)"
        "map (entry_of (mem b1)) (Q1 ?o k) = take (length (Q1 ?o k)) (view b2 ?o)"
      proof (cases "rem1 = 0")
        case True
        have "match_levels s limit t b1 rem1 (trades @ trs1) = Some (b1, rem1, trades @ trs1)"
          using True by (subst match_levels.simps) simp
        then show thesis
          using True matched_side_refl [OF w1(1)] by (intro that [of b1 0 "[]"]) (simp_all add: v1)
      next
        case False
        have "map (entry_of (mem b1)) (Q1 ?o k) = []"
          by (rule fill_entries_drained [OF _ one(4) False]) (simp only: pe cr not_False_eq_True)
        then have e: "Q1 ?o k = []" by simp
        have "length (view b1 ?o) < length (view b ?o)" unfolding v1 v(3) e using v(2) by simp
        from less.hyps [OF this w1(1), of rem1 "trades @ trs1"] unat_le_small [OF one(3) less.prems(2)]
        obtain b' rem' trs where
          "match_levels s limit t b1 rem1 (trades @ trs1) = Some (b', rem', (trades @ trs1) @ trs)"
          "matched_side ?o b1 b'" "rem' \<le> rem1"
          "fill_entries s ?cross t rem1 (view b1 ?o) = (view b' ?o, rem', trs)"
          by blast
        then show thesis using e v1 by (intro that [of b' rem' trs]) simp_all
      qed
      have "match_levels s limit t b rem trades = Some (b2, rem2, trades @ trs1 @ trs2)"
        using False cr k one(1) two(1) by (subst match_levels.simps) (simp add: Let_def word_gt_0)
      moreover have "fill_entries s ?cross t rem (view b ?o) = (view b2 ?o, rem2, trs1 @ trs2)"
        unfolding v(3)
      proof (subst fill_entries_append)
        show "?cross (e_price e)" if "e \<in> set (map (entry_of (mem b)) (Q ?o k))" for e
          using pe [OF that] cr by simp
        have "take (length (Q1 ?o k)) (view b2 ?o) @ drop (length (Q1 ?o k)) (view b2 ?o) = view b2 ?o"
          by (rule append_take_drop_id)
        then show "(let (es', rem', tr) = fill_entries s ?cross t rem (map (entry_of (mem b)) (Q ?o k));
              (fs', rem'', tr') = fill_entries s ?cross t rem' ?rest in (es' @ fs', rem'', tr @ tr'))
            = (view b2 ?o, rem2, trs1 @ trs2)"
          unfolding one(4) by (simp only: Let_def prod.case two(4,5))
      qed
      moreover have "matched_side ?o b b2" using m1 two(2) by (auto simp: matched_side_def)
      ultimately show ?thesis using one(3) two(3) by (intro exI conjI) auto
    qed
  qed
qed

end
