(* ===== verification/Submission.thy ===== *)
theory Submission
  imports Matching
begin

text \<open>
  \<open>submitLimit\<close> and \<open>submitMarket\<close> as operations on the abstract book, and what the fills satisfy:
  conservation of quantity, price-time priority, and a book that is not crossed afterwards.
\<close>

section \<open>Fills\<close>

definition total_qty :: "entry list \<Rightarrow> nat" where
  "total_qty es = sum_list (map (unat \<circ> e_qty) es)"

definition traded_qty :: "trade list \<Rightarrow> nat" where
  "traded_qty trs = sum_list (map (unat \<circ> t_quantity) trs)"

lemma qty_simps [simp]:
  "total_qty [] = 0" "total_qty (e # es) = unat (e_qty e) + total_qty es"
  "traded_qty [] = 0" "traded_qty (tr # trs) = unat (t_quantity tr) + traded_qty trs"
  by (simp_all add: total_qty_def traded_qty_def)

lemma unat_diff: "y \<le> (x::u64) \<Longrightarrow> unat (x - y) = unat x - unat y \<and> unat y \<le> unat x"
  by (simp add: unat_sub word_le_nat_alt)

lemma fill_entries_conserves:
  "fill_entries s cross t rem es = (es', rem', trs) \<Longrightarrow>
     unat rem = unat rem' + traded_qty trs \<and> total_qty es = total_qty es' + traded_qty trs"
proof (induction es arbitrary: rem es' rem' trs)
  case (Cons e es)
  show ?case
  proof (cases "rem = 0 \<or> \<not> cross (e_price e)")
    case False
    show ?thesis
    proof (cases "e_qty e \<le> rem")
      case True
      then have "min rem (e_qty e) = e_qty e" by (simp add: min_def)
      with Cons.prems False obtain trs1 where
        "fill_entries s cross t (rem - e_qty e) es = (es', rem', trs1)" "traded_qty trs = unat (e_qty e) + traded_qty trs1"
        by (auto simp: Let_def split: prod.splits)
      with Cons.IH unat_diff [OF True] show ?thesis by fastforce
    next
      case less: False
      then have "min rem (e_qty e) = rem" "rem \<noteq> e_qty e" by (auto simp: min_def)
      moreover have "rem \<le> e_qty e" using less by simp
      ultimately show ?thesis
        using Cons.prems False unat_diff [of rem "e_qty e"] by (auto simp: Let_def)
    qed
  qed (use Cons.prems in auto)
qed simp

text \<open>
  Priority: the trades are with the entries at the front of the list, in their order; every one
  but the last is consumed, and the last one keeps its place if it is not.
\<close>

lemma fill_entries_priority:
  "fill_entries s cross t rem es = (es', rem', trs) \<Longrightarrow>
     map t_makerId trs = map e_id (take (length trs) es)
   \<and> map t_price trs = map e_price (take (length trs) es)
   \<and> (es' = drop (length trs) es
      \<or> (\<exists>q. trs \<noteq> [] \<and> es' = (last (take (length trs) es))\<lparr>e_qty := q\<rparr> # drop (length trs) es))"
proof (induction es arbitrary: rem es' rem' trs)
  case (Cons e es)
  show ?case
  proof (cases "rem = 0 \<or> \<not> cross (e_price e)")
    case False
    show ?thesis
    proof (cases "min rem (e_qty e) = e_qty e")
      case True
      with Cons.prems False obtain trs1 tr where
        f: "fill_entries s cross t (rem - e_qty e) es = (es', rem', trs1)" "trs = tr # trs1"
          "t_makerId tr = e_id e" "t_price tr = e_price e"
        by (auto simp: Let_def split: prod.splits)
      from Cons.IH [OF f(1)] f show ?thesis by (cases trs1; cases es) auto
    next
      case less: False
      with Cons.prems False show ?thesis by (auto simp: Let_def)
    qed
  qed (use Cons.prems in auto)
qed simp

lemma fill_entries_trades:
  "fill_entries s cross t rem es = (es', rem', trs) \<Longrightarrow> tr \<in> set trs \<Longrightarrow>
     cross (t_price tr) \<and> t_takerId tr = t \<and> t_takerSide tr = s"
  by (induction es arbitrary: rem es' rem' trs)
     (auto simp: Let_def split: prod.splits if_splits)

text \<open>Matching never adds an entry and only lowers the quantity of one.\<close>

definition shrink_closed :: "(entry \<Rightarrow> bool) \<Rightarrow> bool" where
  "shrink_closed P \<longleftrightarrow> (\<forall>e q. P e \<longrightarrow> q \<le> e_qty e \<longrightarrow> P (e\<lparr>e_qty := q\<rparr>))"

lemma fill_entries_keeps:
  "fill_entries s cross t rem es = (es', rem', trs) \<Longrightarrow> shrink_closed P \<Longrightarrow>
     \<forall>e \<in> set es. P e \<Longrightarrow> \<forall>e \<in> set es'. P e"
proof (induction es arbitrary: rem es' rem' trs)
  case (Cons e es)
  show ?case
  proof (cases "rem \<noteq> 0 \<and> cross (e_price e) \<and> min rem (e_qty e) = e_qty e")
    case True
    with Cons.prems obtain trs1 where "fill_entries s cross t (rem - e_qty e) es = (es', rem', trs1)"
      by (auto simp: Let_def split: prod.splits)
    from Cons.IH [OF this] Cons.prems show ?thesis by simp
  next
    case False
    then have "es' = e # es \<or> (rem \<le> e_qty e \<and> es' = e\<lparr>e_qty := e_qty e - rem\<rparr> # es)"
      using Cons.prems(1) by (auto simp: Let_def min_def split: if_splits)
    moreover have "rem \<le> e_qty e \<Longrightarrow> e_qty e - rem \<le> e_qty e" by (rule word_sub_le)
    ultimately show ?thesis using Cons.prems(2,3) by (auto simp: shrink_closed_def)
  qed
qed simp

lemma shrink_closed_simps [simp, intro]:
  "shrink_closed (\<lambda>e. e_price e \<in> S)" "shrink_closed (\<lambda>e. e_id e \<in> T)"
  "shrink_closed (\<lambda>e. unat (e_qty e) < n)"
  by (auto simp: shrink_closed_def word_le_nat_alt)

lemma fill_entries_subset:
  assumes "fill_entries s cross t rem es = (es', rem', trs)"
  shows "e_price ` set es' \<subseteq> e_price ` set es \<and> e_id ` set es' \<subseteq> e_id ` set es"
  using fill_entries_keeps [OF assms, of "\<lambda>e. e_price e \<in> e_price ` set es"]
    fill_entries_keeps [OF assms, of "\<lambda>e. e_id e \<in> e_id ` set es"] by auto

lemma fill_entries_stops:
  "fill_entries s cross t rem es = (es', rem', trs) \<Longrightarrow> rem' \<noteq> 0 \<Longrightarrow>
     es' = [] \<or> \<not> cross (e_price (hd es'))"
  by (induction es arbitrary: rem es' rem' trs)
     (auto simp: Let_def min_def split: prod.splits if_splits)

section \<open>The submissions\<close>

lemma match_order_view:
  assumes "book_rep b Q" "unat q < 2 ^ 63"
  obtains b' rem trs where "match_order b s limit q t trades = Some (b', rem, trades @ trs)"
    "matched_side (opp s) b b'" "rem \<le> q"
    "fill_entries s (\<lambda>p. \<not> better s p limit) t q (view b (opp s)) = (view b' (opp s), rem, trs)"
  using match_levels_works [OF assms, of s limit t trades] unfolding match_order_def by blast

lemma sides_of: "{s, opp s} = UNIV"
  by (cases s) (auto intro: side.exhaust)

lemma view_ids_sides:
  "book_rep b Q \<Longrightarrow> resting b i \<longleftrightarrow> i \<in> e_id ` (set (view b s) \<union> set (view b (opp s)))"
proof -
  have sides: "set (view b s) \<union> set (view b (opp s)) = set (view b BUY) \<union> set (view b SELL)"
    by (cases s) auto
  assume "book_rep b Q"
  then show ?thesis unfolding sides view_ids [OF \<open>book_rep b Q\<close>] by simp
qed

lemma matched_resting:
  assumes rep: "book_rep b Q" and m: "matched_side (opp s) b b'"
    and f: "fill_entries s cross t q (view b (opp s)) = (view b' (opp s), rem, trs)"
    and i: "\<not> resting b i"
  shows "\<not> resting b' i"
proof -
  from m obtain Q' where rep': "book_rep b' Q'" by (auto simp: matched_side_def book_wf_def)
  have same: "view b' s = view b s" using m by (simp add: matched_side_def)
  have "e_id ` set (view b' (opp s)) \<subseteq> e_id ` set (view b (opp s))"
    using fill_entries_subset [OF f] by (rule conjunct2)
  then show ?thesis
    using i unfolding view_ids_sides [OF rep, of i s] view_ids_sides [OF rep', of i s] same image_Un
    by blast
qed

lemma submitLimit_view:
  assumes rep: "book_rep b Q" and q: "unat q < 2 ^ 63" and fresh: "\<not> resting b t"
  obtains b' rem trs es where "submitLimit b s p q t = Some (b', trs)" "book_wf b'" "rem \<le> q"
    "fill_entries s (\<lambda>p'. \<not> better s p' p) t q (view b (opp s)) = (view b' (opp s), rem, trs)"
    "view b' s = (if rem > 0 \<and> inRange b p
       then insert_entry s \<lparr>e_price = p, e_id = t, e_qty = rem\<rparr> (view b s) else view b s)"
    "min_price b' = min_price b" "max_price b' = max_price b" "next_order_id b' = next_order_id b"
proof -
  obtain b1 rem trs where m: "match_order b s p q t [] = Some (b1, rem, [] @ trs)"
    "matched_side (opp s) b b1" "rem \<le> q"
    "fill_entries s (\<lambda>p'. \<not> better s p' p) t q (view b (opp s)) = (view b1 (opp s), rem, trs)"
    by (rule match_order_view [OF rep q, of s p t "[]"])
  from m(2) obtain Q1 where rep1: "book_rep b1 Q1" by (auto simp: matched_side_def book_wf_def)
  have same: "view b1 s = view b s" "min_price b1 = min_price b" "max_price b1 = max_price b"
    "next_order_id b1 = next_order_id b" "inRange b1 p = inRange b p"
    using m(2) by (simp_all add: matched_side_def inRange_def)
  show ?thesis
  proof (cases "rem > 0 \<and> inRange b p")
    case True
    have "orders b1 t = None" using matched_resting [OF rep m(2,4) fresh] by (simp add: resting_def)
    note fresh1 = this
    have in1: "inRange b1 p" using True same by simp
    obtain b2 Q2 where add: "addOrder b1 s p rem t = Some (b2, t)" "book_rep b2 Q2"
      "view b2 s = insert_entry s \<lparr>e_price = p, e_id = t, e_qty = rem\<rparr> (view b1 s)"
      "\<forall>u. u \<noteq> s \<longrightarrow> view b2 u = view b1 u"
      "min_price b2 = min_price b1" "max_price b2 = max_price b1" "next_order_id b2 = next_order_id b1"
      by (rule addOrder_view [OF rep1 in1 fresh1, of s rem])
    have "submitLimit b s p q t = Some (b2, trs)"
      using m(1) True add(1) by (simp add: submitLimit_def)
    then show ?thesis
      using add m(3,4) same True by (intro that [of b2 trs rem]) (auto simp: book_wf_def)
  next
    case False
    then have "submitLimit b s p q t = Some (b1, trs)"
      using m(1) addOrder_out_of_range [of b1 p s rem t] same by (simp add: submitLimit_def)
    then show ?thesis using m(3,4) same rep1 False by (intro that [of b1 trs rem]) (auto simp: book_wf_def)
  qed
qed

lemma view_in_range:
  assumes rep: "book_rep b Q" and e: "e \<in> set (view b s)"
  shows "inRange b (e_price e)"
proof -
  obtain i where "i < num_levels b" "e_price e = min_price b + int i"
    using e part_prices [OF rep] unfolding view_rep [OF rep] flat_part by fastforce
  then show ?thesis using book_rep_levels [OF rep] by (auto simp: inRange_def)
qed

lemma book_price_int64: "book_rep b Q \<Longrightarrow> e \<in> set (view b s) \<Longrightarrow> int64_range (e_price e)"
  using view_in_range [of b Q e s] book_rep_int64 [of b Q] by (auto simp: inRange_def int64_range_def)

lemma submitMarket_view:
  assumes rep: "book_rep b Q" and q: "unat q < 2 ^ 63"
  obtains b' rem trs where "submitMarket b s q t = Some (b', trs)" "matched_side (opp s) b b'" "rem \<le> q"
    "fill_entries s (\<lambda>_. True) t q (view b (opp s)) = (view b' (opp s), rem, trs)"
proof -
  let ?limit = "case s of BUY \<Rightarrow> int64_max | SELL \<Rightarrow> int64_min"
  obtain b' rem trs where m: "match_order b s ?limit q t [] = Some (b', rem, [] @ trs)"
    "matched_side (opp s) b b'" "rem \<le> q"
    "fill_entries s (\<lambda>p'. \<not> better s p' ?limit) t q (view b (opp s)) = (view b' (opp s), rem, trs)"
    by (rule match_order_view [OF rep q])
  have "\<not> better s (e_price e) ?limit" if "e \<in> set (view b (opp s))" for e
    using book_price_int64 [OF rep that]
    by (cases s) (auto simp: int64_range_def int64_max_def int64_min_def)
  then have "fill_entries s (\<lambda>_. True) t q (view b (opp s)) = (view b' (opp s), rem, trs)"
    using m(4) fill_entries_cong [of "view b (opp s)" "\<lambda>p'. \<not> better s p' ?limit" "\<lambda>_. True"] by simp
  then show ?thesis using m that by (simp add: submitMarket_def Let_def)
qed

section \<open>Crossing\<close>

definition uncrossed :: "order_book \<Rightarrow> bool" where
  "uncrossed b \<longleftrightarrow> (\<forall>x \<in> set (view b BUY). \<forall>y \<in> set (view b SELL). e_price x < e_price y)"

lemma uncrossed_sides:
  "uncrossed b \<longleftrightarrow> (\<forall>x \<in> set (view b s). \<forall>y \<in> set (view b (opp s)). better s (e_price y) (e_price x))"
  by (cases s) (auto simp: uncrossed_def)

lemma set_insert_entry: "set (insert_entry s e es) = insert e (set es)"
  by (metis (no_types, lifting) insert_entry_def list.simps(15) set_append Un_insert_right
      takeWhile_dropWhile_id)

lemma submitLimit_uncrossed:
  assumes "book_wf b" "unat q < 2 ^ 63" "\<not> resting b t" and un: "uncrossed b"
    and sub: "submitLimit b s p q t = Some (b', trs)"
  shows "uncrossed b'"
proof -
  obtain Q where rep: "book_rep b Q" using assms(1) by (auto simp: book_wf_def)
  obtain rem where b': "book_wf b'"
    "fill_entries s (\<lambda>p'. \<not> better s p' p) t q (view b (opp s)) = (view b' (opp s), rem, trs)"
    "view b' s = (if rem > 0 \<and> inRange b p
       then insert_entry s \<lparr>e_price = p, e_id = t, e_qty = rem\<rparr> (view b s) else view b s)"
    by (rule submitLimit_view [OF rep assms(2,3), of s p]) (use sub in auto)
  obtain Q' where rep': "book_rep b' Q'" using b'(1) by (auto simp: book_wf_def)
  have old: "better s (e_price y) (e_price x)" if "x \<in> set (view b s)" "y \<in> set (view b' (opp s))" for x y
  proof -
    have "e_price y \<in> e_price ` set (view b (opp s))"
      using fill_entries_subset [OF b'(2)] that(2) by blast
    then show ?thesis using un that(1) by (auto simp: uncrossed_sides [of b s])
  qed
  have new: "better s (e_price y) p" if "rem \<noteq> 0" "y \<in> set (view b' (opp s))" for y
  proof -
    have "view b' (opp s) \<noteq> []" using that(2) by auto
    moreover have "better s (e_price (hd (view b' (opp s)))) p"
      using fill_entries_stops [OF b'(2) that(1)] calculation by simp
    moreover have "\<not> better (opp s) (e_price y) (e_price (hd (view b' (opp s))))"
      using view_sorted [OF rep', of "opp s"] that(2) by (cases "view b' (opp s)") auto
    ultimately show ?thesis by (cases s) auto
  qed
  show ?thesis
    unfolding uncrossed_sides [of b' s] using old new b'(3)
    by (auto simp: set_insert_entry word_gt_0 split: if_splits)
qed

end
