(* ===== verification/Market_Execution.thy ===== *)
theory Market_Execution
  imports Submission
begin

text \<open>
  \<^verbatim>\<open>OrderBook::executeMarketOrder\<close>, the older way to take liquidity: it sizes each level's fill by
  the level's total quantity and reports no trades. It always returns on a well-formed book; it
  does what a market submission does when no resting order has quantity zero and the side's
  quantity fits in 64 bits.
\<close>

section \<open>The code\<close>

partial_function (option) exec_level ::
    "side \<Rightarrow> int \<Rightarrow> quantity \<Rightarrow> order_book \<Rightarrow> quantity \<Rightarrow> (order_book \<times> quantity) option" where
  "exec_level s idx fill b filled =
     (if filled < fill then do {
        lvl \<leftarrow> vec_get (levels (ladder_of (opp s) b)) idx;
        case getHead lvl of
          None \<Rightarrow> Some (b, filled)
        | Some a \<Rightarrow> do {
            x \<leftarrow> load (mem b) a;
            let tf = min (o_quantity x) (fill - filled);
            if tf = o_quantity x then do {
              (b, _) \<leftarrow> cancelOrder b (o_id x);
              exec_level s idx fill b (filled + tf)
            } else do {
              (m, lvl) \<leftarrow> reduceHeadQuantity (mem b) lvl tf;
              lvls \<leftarrow> vec_set (levels (ladder_of (opp s) b)) idx lvl;
              exec_level s idx fill
                (set_ladder (opp s) ((ladder_of (opp s) b)\<lparr>levels := lvls\<rparr>)
                   (b\<lparr>order_pool := (order_pool b)\<lparr>slots := m\<rparr>\<rparr>)) (filled + tf)
            }
          }
      } else Some (b, filled))"

partial_function (option) exec_levels ::
    "side \<Rightarrow> order_book \<Rightarrow> quantity \<Rightarrow> (order_book \<times> quantity) option" where
  "exec_levels s b remaining =
     (if remaining > 0 \<and> best_idx (ladder_of (opp s) b) \<ge> 0 then do {
        let idx = best_idx (ladder_of (opp s) b);
        lvl \<leftarrow> vec_get (levels (ladder_of (opp s) b)) idx;
        let fill = min remaining (getTotalQuantity lvl);
        (b, filled) \<leftarrow> exec_level s idx fill b 0;
        let remaining = remaining - filled;
        if filled = 0 then Some (b, remaining) else exec_levels s b remaining
      } else Some (b, remaining))"

declare exec_level.simps [code] exec_levels.simps [code]

definition executeMarketOrder ::
    "order_book \<Rightarrow> side \<Rightarrow> quantity \<Rightarrow> (order_book \<times> quantity) option" where
  "executeMarketOrder b s quantity = do {
     (b, remaining) \<leftarrow> exec_levels s b quantity;
     Some (b, quantity - remaining)
   }"

section \<open>The inner loop\<close>

lemma add_within: "filled < fill \<Longrightarrow> q \<le> fill - filled \<Longrightarrow>
    filled \<le> filled + q \<and> filled + q \<le> (fill::u64) \<and> fill - (filled + q) = fill - filled - q"
proof -
  assume a: "filled < fill" "q \<le> fill - filled"
  then have "unat q \<le> unat fill - unat filled" "unat filled < unat fill" "unat fill < 2 ^ 64"
    using unat_diff [of filled fill] unsigned_less [of fill]
    by (auto simp: word_le_nat_alt word_less_nat_alt)
  then have "unat (filled + q) = unat filled + unat q"
    by (simp add: unat_word_ariths)
  then show ?thesis using \<open>unat q \<le> unat fill - unat filled\<close> \<open>unat filled < unat fill\<close>
    by (simp add: word_le_nat_alt algebra_simps)
qed

lemma exec_level_works:
  assumes "book_rep b Q" "k < num_levels b" "filled \<le> fill"
  shows "\<exists>b' Q' filled' trs. exec_level s (int k) fill b filled = Some (b', filled')
    \<and> worked_level (opp s) k b Q b' Q' \<and> filled \<le> filled' \<and> filled' \<le> fill
    \<and> fill_entries s (\<lambda>_. True) t (fill - filled) (map (entry_of (mem b)) (Q (opp s) k))
        = (map (entry_of (mem b')) (Q' (opp s) k), fill - filled', trs)"
  using assms
proof (induction "Q (opp s) k" arbitrary: b Q filled)
  case Nil
  note lv = level_of [OF Nil.prems(1,2), of "opp s"]
  show ?case
    using Nil lv by (subst exec_level.simps) (auto intro!: worked_level_refl exI [of _ Q])
next
  case (Cons a as)
  note rep = Cons.prems(1)
  have Q: "Q (opp s) k = a # as" using Cons.hyps by simp
  note lv = level_of [OF Cons.prems(1,2), of "opp s"]
  obtain x where x: "load (mem b) a = Some x"
    using book_rep_queued [OF rep, of a "opp s" k] Q by auto
  show ?case
  proof (cases "filled = fill")
    case True
    then show ?thesis
      using rep by (subst exec_level.simps) (auto intro!: worked_level_refl exI [of _ Q])
  next
    case False
    then have lt: "filled < fill" using Cons.prems(3) by simp
    have nz: "fill - filled \<noteq> 0" using False by simp
    let ?E = "entry_of (mem b)"
    show ?thesis
    proof (cases "o_quantity x \<le> fill - filled")
      case True
      then have f: "min (fill - filled) (o_quantity x) = o_quantity x"
          "min (o_quantity x) (fill - filled) = o_quantity x" by (auto simp: min_def)
      note ad = add_within [OF lt True]
      obtain b1 Q1 where one: "cancelOrder b (o_id x) = Some (b1, True)"
        "worked_level (opp s) k b Q b1 Q1" "Q1 (opp s) k = as"
        "map (entry_of (mem b1)) as = map (entry_of (mem b)) as"
        by (rule cancel_head_works [OF rep Q x])
      note b1 = worked_level_rep [OF one(2) rep]
      from Cons.hyps(1) [of Q1 b1 "filled + o_quantity x"] one(3) b1 Cons.prems(2) ad
      obtain b' Q' filled' trs where ih:
        "exec_level s (int k) fill b1 (filled + o_quantity x) = Some (b', filled')"
        "worked_level (opp s) k b1 Q1 b' Q'" "filled + o_quantity x \<le> filled'" "filled' \<le> fill"
        "fill_entries s (\<lambda>_. True) t (fill - (filled + o_quantity x)) (map (entry_of (mem b1)) (Q1 (opp s) k))
          = (map (entry_of (mem b')) (Q' (opp s) k), fill - filled', trs)"
        by auto
      let ?tr = "\<lparr>t_price = o_price x, t_quantity = o_quantity x, t_makerId = o_id x, t_takerId = t, t_takerSide = s\<rparr>"
      have "exec_level s (int k) fill b filled = Some (b', filled')"
        using lt lv(1,4) Q x one(1) f ih(1) by (subst exec_level.simps) (simp add: Let_def)
      moreover have "fill_entries s (\<lambda>_. True) t (fill - filled) (map ?E (Q (opp s) k))
          = (map (entry_of (mem b')) (Q' (opp s) k), fill - filled', ?tr # trs)"
      proof -
        have "fill_entries s (\<lambda>_. True) t (fill - filled - o_quantity x) (map ?E as)
            = (map (entry_of (mem b')) (Q' (opp s) k), fill - filled', trs)"
          using ih(5) ad by (simp only: one(3,4))
        then show ?thesis using nz Q x f by (simp add: Let_def)
      qed
      ultimately show ?thesis
        using worked_level_trans [OF one(2) ih(2)] ih(3,4) ad order_trans by blast
    next
      case False
      then have f: "min (o_quantity x) (fill - filled) = fill - filled" "fill - filled < o_quantity x"
          "min (fill - filled) (o_quantity x) = fill - filled" "fill - filled \<noteq> o_quantity x"
        by (auto simp: min_def)
      let ?f = "fill - filled"
      let ?m = "put_slot (mem b) a (Storage (x\<lparr>o_quantity := o_quantity x - ?f\<rparr>))"
      obtain h where h: "ladder_adjust (ladder_of (opp s) b) (int k) (- ?f) = Some h"
        "worked_level (opp s) k b Q (set_ladder (opp s) h (b\<lparr>order_pool := (order_pool b)\<lparr>slots := ?m\<rparr>\<rparr>)) Q"
        by (rule reduce_head_works [OF rep Q x])
      let ?b = "set_ladder (opp s) h (b\<lparr>order_pool := (order_pool b)\<lparr>slots := ?m\<rparr>\<rparr>)"
      let ?l = "levels (ladder_of (opp s) b) ! k"
      have red: "reduceHeadQuantity (mem b) ?l ?f = Some (?m, ?l\<lparr>total_quantity := total_quantity ?l - ?f\<rparr>)"
        using ladder_rep_level [OF book_rep_ladder [OF rep] Cons.prems(2), of "opp s"] Q x f(2)
        by (intro reduceHeadQuantity_partial) auto
      have kl: "k < length (levels (ladder_of (opp s) b))"
        using book_rep_ladder [OF rep, of "opp s"] Cons.prems(2) by (simp add: ladder_rep_def)
      have hl: "h = (ladder_of (opp s) b)\<lparr>levels := (levels (ladder_of (opp s) b))
            [k := ?l\<lparr>total_quantity := total_quantity ?l - ?f\<rparr>]\<rparr>"
        using h(1) kl by (auto simp: ladder_adjust_def adjustTotalQuantity_def algebra_simps)
      have "exec_level s (int k) fill ?b fill = Some (?b, fill)"
        by (subst exec_level.simps) simp
      then have "exec_level s (int k) fill b filled = Some (?b, fill)"
        using lt lv(1,4) Q x f red kl by (subst exec_level.simps) (simp add: Let_def hl)
      moreover have "map (entry_of ?m) as = map ?E as"
        using book_rep_distinct [OF rep, of "opp s" k] Q by (auto simp: entry_of_def)
      then have "fill_entries s (\<lambda>_. True) t ?f (map ?E (Q (opp s) k)) = (map (entry_of ?m) (Q (opp s) k), 0,
          [\<lparr>t_price = o_price x, t_quantity = ?f, t_makerId = o_id x, t_takerId = t, t_takerSide = s\<rparr>])"
        using nz Q x f by (simp add: Let_def)
      ultimately show ?thesis
        using h(2) lt by (intro exI [of _ ?b] exI [of _ Q] exI [of _ fill]) auto
    qed
  qed
qed

section \<open>The outer loop\<close>

text \<open>It returns on every well-formed book, and keeps it well formed.\<close>

lemma exec_levels_safe:
  assumes "book_rep b Q"
  shows "\<exists>b' rem'. exec_levels s b rem = Some (b', rem') \<and> matched_side (opp s) b b' \<and> rem' \<le> rem
    \<and> (\<forall>P. shrink_closed P \<longrightarrow> (\<forall>e \<in> set (view b (opp s)). P e) \<longrightarrow> (\<forall>e \<in> set (view b' (opp s)). P e))"
  using assms
proof (induction "unat rem" arbitrary: b Q rem rule: less_induct)
  case less
  note rep = less.prems
  let ?o = "opp s"
  show ?case
  proof (cases "rem = 0 \<or> best_idx (ladder_of ?o b) < 0")
    case True
    then have "exec_levels s b rem = Some (b, rem)" by (subst exec_levels.simps) auto
    then show ?thesis using matched_side_refl [OF rep] by blast
  next
    case False
    define k where "k = nat (best_idx (ladder_of ?o b))"
    have k: "best_idx (ladder_of ?o b) = int k" using False by (simp add: k_def)
    note v = view_best [OF rep k]
    note lv = level_of [OF rep v(1), of ?o]
    let ?fill = "min rem (getTotalQuantity (levels (ladder_of ?o b) ! k))"
    from exec_level_works [OF rep v(1), of 0 ?fill s 0]
    obtain b1 Q1 filled where one: "exec_level s (int k) ?fill b 0 = Some (b1, filled)"
      "worked_level ?o k b Q b1 Q1" "filled \<le> ?fill"
      "\<exists>r trs. fill_entries s (\<lambda>_. True) 0 ?fill (map (entry_of (mem b)) (Q ?o k))
        = (map (entry_of (mem b1)) (Q1 ?o k), r, trs)" by auto
    note rep1 = worked_level_rep [OF one(2) rep]
    have m1: "matched_side ?o b b1" by (rule worked_level_matched [OF one(2) rep k])
    have le: "filled \<le> rem" using one(3) by simp
    have small: "\<forall>e \<in> set (view b1 ?o). P e"
      if "shrink_closed P" "\<forall>e \<in> set (view b ?o). P e" for P
      using one(4) fill_entries_keeps [of s "\<lambda>_. True" 0 ?fill "map (entry_of (mem b)) (Q ?o k)" _ _ _ P] that
      unfolding worked_level_view(1) [OF one(2) rep k] v(3) set_append ball_Un by blast
    have step: "exec_levels s b rem = (if filled = 0 then Some (b1, rem) else exec_levels s b1 (rem - filled))"
      using False k lv(1) one(1) by (subst exec_levels.simps) (simp add: Let_def word_gt_0)
    show ?thesis
    proof (cases "filled = 0")
      case True
      then show ?thesis using step m1 small by auto
    next
      case nz: False
      then have "unat filled \<noteq> 0" using unat_eq_zero by blast
      then have "unat (rem - filled) < unat rem" using unat_diff [OF le] by linarith
      from less.hyps [OF this rep1(1)] obtain b' rem' where two:
        "exec_levels s b1 (rem - filled) = Some (b', rem')" "matched_side ?o b1 b'" "rem' \<le> rem - filled"
        "\<forall>P. shrink_closed P \<longrightarrow> (\<forall>e \<in> set (view b1 ?o). P e) \<longrightarrow> (\<forall>e \<in> set (view b' ?o). P e)"
        by blast
      have "exec_levels s b rem = Some (b', rem')" using step nz two(1) by simp
      moreover have "rem' \<le> rem" using two(3) le by (meson order_trans word_sub_le)
      moreover have "matched_side ?o b b'" using m1 two(2) by (auto simp: matched_side_def)
      moreover have "\<forall>P. shrink_closed P \<longrightarrow> (\<forall>e \<in> set (view b ?o). P e) \<longrightarrow>
          (\<forall>e \<in> set (view b' ?o). P e)"
      proof (intro allI impI)
        fix P assume P: "shrink_closed P" "\<forall>e \<in> set (view b ?o). P e"
        show "\<forall>e \<in> set (view b' ?o). P e" using spec [OF two(4), of P] small [OF P] P(1) by simp
      qed
      ultimately show ?thesis by blast
    qed
  qed
qed

section \<open>When it agrees with a market submission\<close>

lemma fill_entries_more:
  "fill_entries s cross t r es = ([], 0, trs) \<Longrightarrow> r \<le> r + d \<Longrightarrow>
     fill_entries s cross t (r + d) es = ([], d, trs)"
proof (induction es arbitrary: r trs)
  case (Cons e es)
  have r: "r \<noteq> 0" "cross (e_price e)" "e_qty e \<le> r"
    using Cons.prems(1) by (auto simp: Let_def min_def split: if_splits prod.splits)
  have rd: "r + d \<noteq> 0" using r(1) Cons.prems(2) by auto
  have "e_qty e \<le> r + d" by (rule order_trans [OF r(3) Cons.prems(2)])
  then have m: "min r (e_qty e) = e_qty e" "min (r + d) (e_qty e) = e_qty e"
    using r(3) by (simp_all add: min.absorb2)
  have "r - e_qty e \<le> r - e_qty e + d"
    using Cons.prems(2) unat_diff [OF r(3)] by (simp add: no_olen_add_nat)
  moreover obtain trs1 where "fill_entries s cross t (r - e_qty e) es = ([], 0, trs1)"
    "trs = \<lparr>t_price = e_price e, t_quantity = e_qty e, t_makerId = e_id e, t_takerId = t, t_takerSide = s\<rparr> # trs1"
    using Cons.prems(1) r m(1) by (auto simp: Let_def split: prod.splits)
  ultimately show ?case
    using Cons.IH [of "r - e_qty e" trs1] r(2) rd m(2) by (simp add: Let_def algebra_simps)
qed simp

lemma fill_entries_exact:
  assumes f: "fill_entries s (\<lambda>_. True) t r es = (es', r', trs)" and le: "unat r \<le> total_qty es"
  shows "r' = 0"
proof (rule ccontr)
  assume nz: "r' \<noteq> 0"
  then have "es' = []" using fill_entries_drained [OF _ f] by simp
  with fill_entries_conserves [OF f] le have "unat r' = 0" by simp
  with nz show False using unat_eq_zero by blast
qed

lemma fill_entries_nonzero:
  "fill_entries s cross t r es = (es', r', trs) \<Longrightarrow> \<forall>e \<in> set es. e_qty e \<noteq> 0 \<Longrightarrow> \<forall>e \<in> set es'. e_qty e \<noteq> 0"
proof (induction es arbitrary: r es' r' trs)
  case (Cons e es)
  show ?case
  proof (cases "r \<noteq> 0 \<and> cross (e_price e) \<and> min r (e_qty e) = e_qty e")
    case True
    with Cons.prems(1) obtain trs1 where "fill_entries s cross t (r - e_qty e) es = (es', r', trs1)"
      by (auto simp: Let_def split: prod.splits)
    from Cons.IH [OF this] Cons.prems(2) show ?thesis by simp
  next
    case False
    then show ?thesis using Cons.prems by (auto simp: Let_def min_def split: if_splits)
  qed
qed simp

lemma total_qty_append [simp]: "total_qty (xs @ ys) = total_qty xs + total_qty ys"
  by (simp add: total_qty_def)

lemma total_qty_zero: "total_qty es = 0 \<Longrightarrow> \<forall>e \<in> set es. e_qty e \<noteq> 0 \<Longrightarrow> es = []"
  by (cases es) (auto simp: unat_eq_zero)

lemma unat_sum_qty:
  "total_qty (map (entry_of m) as) < 2 ^ 64 \<Longrightarrow>
     unat (sum_list (map (qty m) as)) = total_qty (map (entry_of m) as)"
proof (induction as)
  case (Cons a as)
  then show ?case by (simp add: e_qty_entry unat_word_ariths)
qed simp

lemma exec_levels_fills:
  assumes "book_rep b Q" "\<forall>e \<in> set (view b (opp s)). e_qty e \<noteq> 0" "total_qty (view b (opp s)) < 2 ^ 64"
  shows "\<exists>b' rem' trs. exec_levels s b rem = Some (b', rem') \<and> matched_side (opp s) b b'
    \<and> fill_entries s (\<lambda>_. True) t rem (view b (opp s)) = (view b' (opp s), rem', trs)"
  using assms
proof (induction "unat rem" arbitrary: b Q rem rule: less_induct)
  case less
  note rep = less.prems(1)
  let ?o = "opp s" and ?fill_entries = "fill_entries s (\<lambda>_. True) t"
  show ?case
  proof (cases "rem = 0 \<or> best_idx (ladder_of ?o b) < 0")
    case True
    then have "exec_levels s b rem = Some (b, rem)" by (subst exec_levels.simps) auto
    moreover have "?fill_entries rem (view b ?o) = (view b ?o, rem, [])"
      using True view_empty [OF rep, of ?o] by auto
    ultimately show ?thesis using matched_side_refl [OF rep] by blast
  next
    case False
    define k where "k = nat (best_idx (ladder_of ?o b))"
    have k: "best_idx (ladder_of ?o b) = int k" using False by (simp add: k_def)
    note v = view_best [OF rep k]
    note lv = level_of [OF rep v(1), of ?o]
    let ?es = "map (entry_of (mem b)) (Q ?o k)"
    let ?rest = "part (entry_of (mem b)) (Q ?o) (levels_after ?o (num_levels b) k)"
    let ?tot = "getTotalQuantity (levels (ladder_of ?o b) ! k)"
    let ?fill = "min rem ?tot"
    have nz: "\<forall>e \<in> set ?es. e_qty e \<noteq> 0" and small: "total_qty ?es + total_qty ?rest < 2 ^ 64"
      using less.prems(2,3) unfolding v(3) by simp_all
    have tot: "unat ?tot = total_qty ?es" using lv(3) unat_sum_qty [of "mem b" "Q ?o k"] small by simp
    obtain b1 Q1 filled trs1 where one: "exec_level s (int k) ?fill b 0 = Some (b1, filled)"
      "worked_level ?o k b Q b1 Q1" "filled \<le> ?fill"
      "?fill_entries ?fill ?es = (map (entry_of (mem b1)) (Q1 ?o k), ?fill - filled, trs1)"
      using exec_level_works [OF rep v(1), of 0 ?fill s t] by auto
    note rep1 = worked_level_rep [OF one(2) rep]
    have m1: "matched_side ?o b b1" by (rule worked_level_matched [OF one(2) rep k])
    note v1 = worked_level_view(1) [OF one(2) rep k]
    have "unat ?fill \<le> total_qty ?es" using tot by (metis min.cobounded2 word_le_nat_alt)
    then have "?fill - filled = 0" by (rule fill_entries_exact [OF one(4)])
    then have filled: "filled = ?fill" by simp
    let ?es' = "map (entry_of (mem b1)) (Q1 ?o k)"
    have f: "?fill_entries ?fill ?es = (?es', 0, trs1)" using one(4) filled by simp
    note cons = fill_entries_conserves [OF f] and nz' = fill_entries_nonzero [OF f nz]
    have "?tot \<noteq> 0" using tot total_qty_zero [OF _ nz] v(2) by auto
    then have fnz: "?fill \<noteq> 0" "unat ?fill \<noteq> 0" using False by (auto simp: min_def unat_eq_zero)
    have step: "exec_levels s b rem = exec_levels s b1 (rem - ?fill)"
      using False k lv(1) one(1) filled fnz by (subst exec_levels.simps) (simp add: Let_def word_gt_0)
    have "unat (rem - ?fill) < unat rem" using unat_diff [of ?fill rem] fnz by simp
    moreover have "\<forall>e \<in> set (view b1 ?o). e_qty e \<noteq> 0"
      using less.prems(2) nz' unfolding v1 v(3) set_append ball_Un by blast
    moreover have "total_qty (view b1 ?o) < 2 ^ 64"
      using cons small unfolding v1 by simp
    ultimately obtain b' rem' trs2 where two:
      "exec_levels s b1 (rem - ?fill) = Some (b', rem')" "matched_side ?o b1 b'"
      "?fill_entries (rem - ?fill) (view b1 ?o) = (view b' ?o, rem', trs2)"
      using less.hyps [OF _ rep1(1)] by blast
    have "?fill_entries rem (?es @ ?rest) = (view b' ?o, rem', trs1 @ trs2)"
    proof (cases "?fill = rem")
      case True
      then show ?thesis using f two(3) v1 by (subst fill_entries_append) auto
    next
      case less: False
      then have ft: "?fill = ?tot" by (auto simp: min_def)
      then have "total_qty ?es' = 0" using cons tot by simp
      then have e: "?es' = []" using total_qty_zero nz' by blast
      have "?fill + (rem - ?fill) = rem" by simp
      then have "?fill_entries rem ?es = ([], rem - ?fill, trs1)"
        using fill_entries_more [of s "\<lambda>_. True" t ?fill ?es trs1 "rem - ?fill"] f e by simp
      moreover have "view b1 ?o = ?rest" using v1 e by simp
      ultimately show ?thesis using two(3) by (subst fill_entries_append) auto
    qed
    moreover have "matched_side ?o b b'" using m1 two(2) by (auto simp: matched_side_def)
    ultimately show ?thesis using step two(1) unfolding v(3) by auto
  qed
qed

end
