(* ===== verification/Book_Api.thy ===== *)
theory Book_Api
  imports Market_Execution
begin

text \<open>
  The book as a state machine: the public calls of \<open>OrderBook\<close> that change state, the conditions
  under which a client may make them, and the books reachable by such calls.
\<close>

section \<open>Calls\<close>

datatype call =
    Add side price quantity order_id
  | Add_Auto side price quantity
  | Cancel order_id
  | Modify order_id quantity
  | Submit_Limit side price quantity order_id
  | Submit_Market side quantity order_id
  | Execute side quantity

fun step :: "call \<Rightarrow> order_book \<Rightarrow> order_book option" where
  "step (Add s p q i) b = map_option fst (addOrder b s p q i)"
| "step (Add_Auto s p q) b = map_option fst (addOrder_auto b s p q)"
| "step (Cancel i) b = map_option fst (cancelOrder b i)"
| "step (Modify i q) b = map_option fst (modifyOrder b i q)"
| "step (Submit_Limit s p q i) b = map_option fst (submitLimit b s p q i)"
| "step (Submit_Market s q i) b = map_option fst (submitMarket b s q i)"
| "step (Execute s q) b = map_option fst (executeMarketOrder b s q)"

text \<open>
  What the code relies on without checking it: the id of an order that may rest is not in use, and
  quantities are below \<open>2 ^ 63\<close>, since the code passes through \<open>int64_t\<close>.
\<close>

fun admissible :: "order_book \<Rightarrow> call \<Rightarrow> bool" where
  "admissible b (Add s p q i) \<longleftrightarrow> unat q < 2 ^ 63 \<and> \<not> resting b i"
| "admissible b (Add_Auto s p q) \<longleftrightarrow> unat q < 2 ^ 63 \<and> \<not> resting b (next_order_id b)"
| "admissible b (Cancel i) \<longleftrightarrow> True"
| "admissible b (Modify i q) \<longleftrightarrow> unat q < 2 ^ 63"
| "admissible b (Submit_Limit s p q i) \<longleftrightarrow> unat q < 2 ^ 63 \<and> \<not> resting b i"
| "admissible b (Submit_Market s q i) \<longleftrightarrow> unat q < 2 ^ 63"
| "admissible b (Execute s q) \<longleftrightarrow> True"

inductive reachable :: "order_book \<Rightarrow> bool" where
  new: "mk_book mn mx cap = Some b \<Longrightarrow> int64_range mn \<Longrightarrow> int64_range mx \<Longrightarrow> reachable b"
| call: "reachable b \<Longrightarrow> admissible b c \<Longrightarrow> step c b = Some b' \<Longrightarrow> reachable b'"

text \<open>A sequence of calls, each made only where it is admissible.\<close>

fun run :: "call list \<Rightarrow> order_book \<Rightarrow> order_book option" where
  "run [] b = Some b"
| "run (c # cs) b = do {
     require (admissible b c);
     b \<leftarrow> step c b;
     run cs b
   }"

lemma run_reachable: "run cs b = Some b' \<Longrightarrow> reachable b \<Longrightarrow> reachable b'"
  by (induction cs arbitrary: b) (auto intro: reachable.call)

section \<open>The invariant\<close>

definition small_quantities :: "order_book \<Rightarrow> bool" where
  "small_quantities b \<longleftrightarrow> (\<forall>s. \<forall>e \<in> set (view b s). unat (e_qty e) < 2 ^ 63)"

definition api_inv :: "order_book \<Rightarrow> bool" where
  "api_inv b \<longleftrightarrow> book_wf b \<and> small_quantities b"

lemma small_matched:
  assumes "small_quantities b" "matched_side (opp s) b b'"
    "fill_entries s cross t r (view b (opp s)) = (view b' (opp s), r', trs)"
  shows "small_quantities b'"
proof -
  have "unat (e_qty e) < 2 ^ 63" if "e \<in> set (view b' u)" for e u
  proof (cases "u = opp s")
    case True
    then show ?thesis
      using fill_entries_keeps [OF assms(3), of "\<lambda>e. unat (e_qty e) < 2 ^ 63"] assms(1) that by (auto simp: small_quantities_def)
  next
    case False
    then show ?thesis using assms(1,2) that by (auto simp: small_quantities_def matched_side_def)
  qed
  then show ?thesis by (simp add: small_quantities_def)
qed

lemma addOrder_api:
  assumes "api_inv b" "unat q < 2 ^ 63" "\<not> resting b i"
  shows "\<exists>b' r. addOrder b s p q i = Some (b', r) \<and> api_inv b'"
proof (cases "inRange b p")
  case True
  from assms(1) obtain Q where rep: "book_rep b Q" by (auto simp: api_inv_def book_wf_def)
  have "orders b i = None" using assms(3) by (simp add: resting_def)
  then obtain b' Q' where b': "addOrder b s p q i = Some (b', i)" "book_rep b' Q'"
    "view b' s = insert_entry s \<lparr>e_price = p, e_id = i, e_qty = q\<rparr> (view b s)"
    "\<forall>t. t \<noteq> s \<longrightarrow> view b' t = view b t"
    using addOrder_view [OF rep True, of i s q] by metis
  have "unat (e_qty e) < 2 ^ 63" if "e \<in> set (view b' t)" for e t
    using that assms(1,2) b'(3,4) by (cases "t = s") (auto simp: api_inv_def small_quantities_def set_insert_entry)
  then show ?thesis using b' by (auto simp: api_inv_def small_quantities_def book_wf_def)
qed (use assms addOrder_out_of_range in auto)

lemma next_id_upd [simp]:
  "book_rep (b\<lparr>next_order_id := n\<rparr>) Q \<longleftrightarrow> book_rep b Q"
  "view (b\<lparr>next_order_id := n\<rparr>) s = view b s" "resting (b\<lparr>next_order_id := n\<rparr>) = resting b"
proof -
  have "queues (b\<lparr>next_order_id := n\<rparr>) = queues b" by (simp add: queues_def fun_eq_iff)
  then show "view (b\<lparr>next_order_id := n\<rparr>) s = view b s" by (simp add: view_def)
  show "book_rep (b\<lparr>next_order_id := n\<rparr>) Q \<longleftrightarrow> book_rep b Q" by (simp add: book_rep_def heap_rep_def)
  show "resting (b\<lparr>next_order_id := n\<rparr>) = resting b" by (simp add: resting_def fun_eq_iff)
qed

lemma api_inv_next [simp]: "api_inv (b\<lparr>next_order_id := n\<rparr>) = api_inv b"
  by (simp add: api_inv_def book_wf_def small_quantities_def)

lemma cancelOrder_api:
  assumes "api_inv b"
  shows "\<exists>b' r. cancelOrder b i = Some (b', r) \<and> api_inv b'"
proof (cases "orders b i")
  case None
  then show ?thesis using cancelOrder_unknown [OF None] assms by blast
next
  case (Some a)
  from assms obtain Q where rep: "book_rep b Q" by (auto simp: api_inv_def book_wf_def)
  obtain s k where a: "a \<in> set (Q s k)" by (rule orders_queued [OF rep Some])
  obtain b' where "cancelOrder b i = Some (b', True)"
    "book_rep b' (Q(s := (Q s)(k := remove1 a (Q s k))))"
    "\<forall>t. view b' t = remove_entry i (view b t)"
    using cancelOrder_view [OF rep Some a] by metis
  then show ?thesis using assms by (auto simp: api_inv_def small_quantities_def book_wf_def remove_entry_def)
qed

lemma small_difference:
  "unat (x::u64) < 2 ^ 63 \<Longrightarrow> unat (y::u64) < 2 ^ 63 \<Longrightarrow> int64_range (sint x - sint y)"
  using sint_small [of x] sint_small [of y] unfolding int64_range_def by linarith

lemma modifyOrder_api:
  assumes "api_inv b" "unat q < 2 ^ 63"
  shows "\<exists>b' r. modifyOrder b i q = Some (b', r) \<and> api_inv b'"
proof (cases "orders b i")
  case None
  then show ?thesis using modifyOrder_unknown [OF None] assms by blast
next
  case (Some a)
  from assms obtain Q where rep: "book_rep b Q" by (auto simp: api_inv_def book_wf_def)
  obtain s k where a: "a \<in> set (Q s k)" by (rule orders_queued [OF rep Some])
  then obtain x where x: "load (mem b) a = Some x" "k < num_levels b"
    using book_rep_queued [OF rep] by blast
  then have "entry_of (mem b) a \<in> set (view b s)"
    unfolding view_rep [OF rep] set_flat using a by blast
  then have "unat (e_qty (entry_of (mem b) a)) < 2 ^ 63"
    using assms(1) unfolding api_inv_def small_quantities_def by blast
  then have "int64_range (sint q - sint (o_quantity x))"
    using assms(2) x(1) by (intro small_difference) auto
  then obtain b' where "modifyOrder b i q = Some (b', True)" "book_rep b' Q"
    "\<forall>t. view b' t = requantify_entry i q (view b t)"
    using modifyOrder_view [OF rep Some x(1)] by metis
  then show ?thesis
    using assms by (auto simp: api_inv_def small_quantities_def book_wf_def requantify_entry_def)
qed

lemma submitLimit_api:
  assumes "api_inv b" "unat q < 2 ^ 63" "\<not> resting b i"
  shows "\<exists>b' trs. submitLimit b s p q i = Some (b', trs) \<and> api_inv b'"
proof -
  from assms obtain Q where rep: "book_rep b Q" by (auto simp: api_inv_def book_wf_def)
  obtain b' rem trs where b': "submitLimit b s p q i = Some (b', trs)" "book_wf b'" "rem \<le> q"
    "fill_entries s (\<lambda>p'. \<not> better s p' p) i q (view b (opp s)) = (view b' (opp s), rem, trs)"
    "view b' s = (if rem > 0 \<and> inRange b p
       then insert_entry s \<lparr>e_price = p, e_id = i, e_qty = rem\<rparr> (view b s) else view b s)"
    by (rule submitLimit_view [OF rep assms(2,3)])
  have old: "\<forall>e \<in> set (view b u). unat (e_qty e) < 2 ^ 63" for u
    using assms(1) by (simp add: api_inv_def small_quantities_def)
  have "unat (e_qty e) < 2 ^ 63" if "e \<in> set (view b' u)" for e u
  proof (cases "u = opp s")
    case True
    then show ?thesis using fill_entries_keeps [OF b'(4) shrink_closed_simps(3) old] that by auto
  next
    case False
    then have "u = s" by (simp add: other_side)
    then show ?thesis
      using that old b'(5) unat_le_small [OF b'(3) assms(2)]
      by (auto simp: set_insert_entry split: if_splits)
  qed
  then show ?thesis using b'(1,2) by (auto simp: api_inv_def small_quantities_def)
qed

lemma submitMarket_api:
  assumes "api_inv b" "unat q < 2 ^ 63"
  shows "\<exists>b' trs. submitMarket b s q i = Some (b', trs) \<and> api_inv b'"
proof -
  from assms obtain Q where rep: "book_rep b Q" by (auto simp: api_inv_def book_wf_def)
  obtain b' rem trs where b': "submitMarket b s q i = Some (b', trs)" "matched_side (opp s) b b'"
    "fill_entries s (\<lambda>_. True) i q (view b (opp s)) = (view b' (opp s), rem, trs)"
    by (rule submitMarket_view [OF rep assms(2)])
  then show ?thesis
    using assms small_matched [of b s b'] by (auto simp: api_inv_def matched_side_def)
qed

lemma executeMarketOrder_api:
  assumes "api_inv b"
  shows "\<exists>b' r. executeMarketOrder b s q = Some (b', r) \<and> api_inv b'"
proof -
  from assms obtain Q where rep: "book_rep b Q" by (auto simp: api_inv_def book_wf_def)
  from exec_levels_safe [OF rep, of s q] obtain b' rem' where
    b': "exec_levels s b q = Some (b', rem')" "matched_side (opp s) b b'"
    "\<forall>P. shrink_closed P \<longrightarrow> (\<forall>e \<in> set (view b (opp s)). P e) \<longrightarrow> (\<forall>e \<in> set (view b' (opp s)). P e)"
    by blast
  have "unat (e_qty e) < 2 ^ 63" if "e \<in> set (view b' u)" for e u
  proof (cases "u = opp s")
    case True
    then show ?thesis
      using mp [OF spec [OF b'(3)] shrink_closed_simps(3) [of "2 ^ 63"]] that assms
      by (auto simp: api_inv_def small_quantities_def)
  next
    case False
    then show ?thesis
      using b'(2) that assms by (auto simp: api_inv_def small_quantities_def matched_side_def)
  qed
  then show ?thesis
    using b'(1,2) by (auto simp: api_inv_def small_quantities_def matched_side_def executeMarketOrder_def)
qed

lemmas api_steps = addOrder_api cancelOrder_api modifyOrder_api submitLimit_api submitMarket_api
  executeMarketOrder_api

text \<open>Every admissible call returns, and keeps the invariant.\<close>

lemma step_api:
  assumes "api_inv b" "admissible b c"
  shows "\<exists>b'. step c b = Some b' \<and> api_inv b'"
proof (cases c)
  case (Add s p q i)
  with assms addOrder_api [of b q i s p] show ?thesis by auto
next
  case (Add_Auto s p q)
  with assms addOrder_api [of "b\<lparr>next_order_id := next_order_id b + 1\<rparr>" q "next_order_id b" s p]
  show ?thesis by (auto simp: addOrder_auto_def)
next
  case (Cancel i)
  with assms cancelOrder_api [of b i] show ?thesis by auto
next
  case (Modify i q)
  with assms modifyOrder_api [of b q i] show ?thesis by auto
next
  case (Submit_Limit s p q i)
  with assms submitLimit_api [of b q i s p] show ?thesis by auto
next
  case (Submit_Market s q i)
  with assms submitMarket_api [of b q s i] show ?thesis by auto
next
  case (Execute s q)
  with assms executeMarketOrder_api [of b s q] show ?thesis by auto
qed

lemma reachable_inv: "reachable b \<Longrightarrow> api_inv b"
proof (induction rule: reachable.induct)
  case (new mn mx cap b)
  note rep = mk_book_rep [OF new]
  have "view b s = []" for s
    unfolding view_rep [OF rep] flat_part by (simp add: part_empty)
  then show ?case using rep by (auto simp: api_inv_def book_wf_def small_quantities_def)
next
  case (call b c b')
  then show ?case using step_api [of b c] by auto
qed

lemma reachable_wf: "reachable b \<Longrightarrow> book_wf b"
  using reachable_inv by (simp add: api_inv_def)

section \<open>Books that are never crossed\<close>

lemma uncrossed_subset:
  assumes "uncrossed b" "\<And>s. e_price ` set (view b' s) \<subseteq> e_price ` set (view b s)"
  shows "uncrossed b'"
  unfolding uncrossed_def
proof (intro ballI)
  fix x y assume "x \<in> set (view b' BUY)" "y \<in> set (view b' SELL)"
  then have "e_price x \<in> e_price ` set (view b BUY)" "e_price y \<in> e_price ` set (view b SELL)"
    using assms(2) by blast+
  then show "e_price x < e_price y" using assms(1) by (auto simp: uncrossed_def)
qed

lemma matched_uncrossed:
  assumes "uncrossed b" "matched_side (opp s) b b'"
    "e_price ` set (view b' (opp s)) \<subseteq> e_price ` set (view b (opp s))"
  shows "uncrossed b'"
proof (rule uncrossed_subset [OF assms(1)])
  fix u
  show "e_price ` set (view b' u) \<subseteq> e_price ` set (view b u)"
    using assms(2,3) by (cases "u = opp s") (auto simp: matched_side_def)
qed

lemma insert_remove_price:
  "e_price ` set (remove_entry i es) \<subseteq> e_price ` set es"
  "e_price ` set (requantify_entry i q es) \<subseteq> e_price ` set es"
  by (auto simp: remove_entry_def requantify_entry_def)

fun stores_unmatched :: "call \<Rightarrow> bool" where
  "stores_unmatched (Add s p q i) \<longleftrightarrow> True"
| "stores_unmatched (Add_Auto s p q) \<longleftrightarrow> True"
| "stores_unmatched _ \<longleftrightarrow> False"

lemma step_uncrossed:
  assumes inv: "api_inv b" and ok: "admissible b c" "\<not> stores_unmatched c" and un: "uncrossed b"
    and st: "step c b = Some b'"
  shows "uncrossed b'"
proof -
  from inv obtain Q where rep: "book_rep b Q" by (auto simp: api_inv_def book_wf_def)
  show ?thesis
  proof (cases c)
    case (Cancel i)
    show ?thesis
    proof (cases "orders b i")
      case None
      then show ?thesis using st un cancelOrder_unknown [OF None] Cancel by simp
    next
      case (Some a)
      obtain s k where a: "a \<in> set (Q s k)" by (rule orders_queued [OF rep Some])
      obtain b1 where "cancelOrder b i = Some (b1, True)" "\<forall>t. view b1 t = remove_entry i (view b t)"
        using cancelOrder_view [OF rep Some a] by metis
      then show ?thesis
        using st Cancel insert_remove_price by (intro uncrossed_subset [OF un]) simp
    qed
  next
    case (Modify i q)
    show ?thesis
    proof (cases "orders b i")
      case None
      then show ?thesis using st un modifyOrder_unknown [OF None] Modify by simp
    next
      case (Some a)
      obtain s k where a: "a \<in> set (Q s k)" by (rule orders_queued [OF rep Some])
      obtain x where x: "load (mem b) a = Some x" using book_rep_queued [OF rep a] by auto
      have "int64_range (sint q - sint (o_quantity x))"
        using st Modify Some x by (auto simp: modifyOrder_def)
      then obtain b1 where "modifyOrder b i q = Some (b1, True)" "\<forall>t. view b1 t = requantify_entry i q (view b t)"
        using modifyOrder_view [OF rep Some x] by metis
      then show ?thesis
        using st Modify insert_remove_price by (intro uncrossed_subset [OF un]) simp
    qed
  next
    case (Submit_Limit s p q i)
    with ok have q: "unat q < 2 ^ 63" "\<not> resting b i" by auto
    from st Submit_Limit obtain trs where "submitLimit b s p q i = Some (b', trs)" by auto
    moreover have "book_wf b" using inv by (simp add: api_inv_def)
    ultimately show ?thesis by (intro submitLimit_uncrossed [OF _ q un])
  next
    case (Submit_Market s q i)
    with ok have q: "unat q < 2 ^ 63" by simp
    obtain b1 rem trs where b1: "submitMarket b s q i = Some (b1, trs)" "matched_side (opp s) b b1"
      "fill_entries s (\<lambda>_. True) i q (view b (opp s)) = (view b1 (opp s), rem, trs)"
      by (rule submitMarket_view [OF rep q])
    have "b' = b1" using st Submit_Market b1(1) by simp
    then show ?thesis
      using matched_uncrossed [OF un b1(2)] fill_entries_subset [OF b1(3)] by simp
  next
    case (Execute s q)
    from exec_levels_safe [OF rep, of s q] obtain b1 rem where b1:
      "exec_levels s b q = Some (b1, rem)" "matched_side (opp s) b b1"
      "\<forall>P. shrink_closed P \<longrightarrow> (\<forall>e \<in> set (view b (opp s)). P e) \<longrightarrow> (\<forall>e \<in> set (view b1 (opp s)). P e)"
      by blast
    have "\<forall>e \<in> set (view b1 (opp s)). e_price e \<in> e_price ` set (view b (opp s))"
      by (rule mp [OF mp [OF spec [OF b1(3)] shrink_closed_simps(1)]]) simp
    then have "e_price ` set (view b1 (opp s)) \<subseteq> e_price ` set (view b (opp s))" by blast
    then show ?thesis
      using st Execute b1(1,2) by (intro matched_uncrossed [OF un]) (auto simp: executeMarketOrder_def)
  qed (use ok in auto)
qed

section \<open>The counters\<close>

lemma card_entries:
  assumes rep: "book_rep b Q"
  shows "card (live (mem b)) = length (view b BUY) + length (view b SELL)"
proof -
  let ?L = "\<lambda>s. concat (map (Q s) (by_priority s (num_levels b)))"
  have len: "length (view b s) = length (?L s)" for s
    unfolding view_rep [OF rep] flat_def by (simp add: length_concat o_def)
  have dist: "distinct (?L s)" for s
  proof -
    have "distinct (concat (map (Q s) is))" if "distinct is" for "is"
      using that
    proof (induction "is")
      case (Cons i "is")
      have "set (Q s i) \<inter> set (Q s j) = {}" if "j \<in> set is" for j
        using book_rep_unique [OF rep, of _ s i s j] that Cons.prems by fastforce
      then show ?case using Cons book_rep_distinct [OF rep] by auto
    qed simp
    moreover have "distinct (by_priority s n)" for n by (cases s) (simp_all add: by_priority_def)
    ultimately show ?thesis by blast
  qed
  have "live (mem b) = set (?L BUY) \<union> set (?L SELL)"
  proof -
    have "a \<in> set (?L s) \<longleftrightarrow> (\<exists>i. a \<in> set (Q s i))" for a s
      using book_rep_queued [OF rep] by (auto simp: Bex_def)
    moreover have "(\<exists>s i. a \<in> set (Q s i)) \<longleftrightarrow> (\<exists>i. a \<in> set (Q BUY i)) \<or> (\<exists>i. a \<in> set (Q SELL i))" for a
      by (metis side.exhaust)
    ultimately show ?thesis unfolding book_rep_in_live [OF rep] by auto
  qed
  moreover have "set (?L BUY) \<inter> set (?L SELL) = {}"
    using book_rep_unique [OF rep, of _ BUY _ SELL] by fastforce
  ultimately have "card (live (mem b)) = card (set (?L BUY)) + card (set (?L SELL))"
    by (simp only: card_Un_disjoint finite_set)
  then show ?thesis unfolding len distinct_card [OF dist] .
qed

lemma level_count_view:
  assumes rep: "book_rep b Q"
  shows "level_count (ladder_of s b) = of_nat (card (e_price ` set (view b s)))"
proof -
  have "e_price ` set (view b s) = (\<lambda>i. min_price b + int i) ` {i. Q s i \<noteq> []}"
  proof (intro set_eqI iffI)
    fix p assume "p \<in> e_price ` set (view b s)"
    then obtain a i where ai: "a \<in> set (Q s i)" "p = e_price (entry_of (mem b) a)"
      unfolding view_rep [OF rep] set_flat by blast
    then have "Q s i \<noteq> []" by auto
    with ai show "p \<in> (\<lambda>i. min_price b + int i) ` {i. Q s i \<noteq> []}"
      using book_rep_entry_price [OF rep ai(1)] by blast
  next
    fix p assume "p \<in> (\<lambda>i. min_price b + int i) ` {i. Q s i \<noteq> []}"
    then obtain i where i: "Q s i \<noteq> []" "p = min_price b + int i" by blast
    then obtain a where a: "a \<in> set (Q s i)" by (meson list.set_sel(1))
    then have "entry_of (mem b) a \<in> set (view b s)"
      unfolding view_rep [OF rep] set_flat using book_rep_queued [OF rep a] by blast
    then show "p \<in> e_price ` set (view b s)"
      using i(2) book_rep_entry_price [OF rep a] by (metis image_eqI)
  qed
  moreover have "card ((\<lambda>i. min_price b + int i) ` {i. Q s i \<noteq> []}) = card {i. Q s i \<noteq> []}"
    by (intro card_image inj_onI) simp
  moreover have "level_count (ladder_of s b) = of_nat (card {i. Q s i \<noteq> []})"
    using book_rep_ladder [OF rep, of s] by (simp add: ladder_rep_def)
  ultimately show ?thesis by simp
qed

end
