(* ===== verification/Sample_Books.thy ===== *)
theory Sample_Books
  imports Book_Api
begin

text \<open>
  Small concrete books, built with the model's own operations, on which the properties of the book
  are instantiated.
\<close>

definition book_0 :: order_book where
  "book_0 = the (mk_book 1 3 4)"

definition book_1 :: order_book where
  "book_1 = fst (the (addOrder book_0 SELL 2 5 10))"

definition book_2 :: order_book where
  "book_2 = fst (the (addOrder book_1 SELL 2 7 11))"

text \<open>Two asks at 2 (quantities 5 and 7) and one bid at 1 (quantity 4).\<close>

definition sample_book :: order_book where
  "sample_book = fst (the (addOrder book_2 BUY 1 4 20))"

lemma reachable_add:
  assumes "reachable b" "unat q < 2 ^ 63" "\<not> resting b i"
  shows "reachable (fst (the (addOrder b s p q i)))"
proof -
  obtain b' r where "addOrder b s p q i = Some (b', r)"
    using addOrder_api [OF reachable_inv [OF assms(1)] assms(2,3)] by blast
  then have "step (Add s p q i) b = Some (fst (the (addOrder b s p q i)))" by simp
  moreover have "admissible b (Add s p q i)" using assms by simp
  ultimately show ?thesis by (rule reachable.call [OF assms(1), rotated])
qed

lemma book_0_reachable: "reachable book_0"
proof (rule reachable.new)
  have "\<not> Option.is_none (mk_book 1 3 4)" by code_simp
  then show "mk_book 1 3 4 = Some book_0"
    unfolding book_0_def by (cases "mk_book 1 3 4") simp_all
  show "int64_range 1" "int64_range 3" by code_simp+
qed

lemma book_1_reachable: "reachable book_1"
proof -
  have "\<not> resting book_0 10" by code_simp
  then show ?thesis unfolding book_1_def by (intro reachable_add book_0_reachable) simp_all
qed

lemma book_2_reachable: "reachable book_2"
proof -
  have "\<not> resting book_1 11" by code_simp
  then show ?thesis unfolding book_2_def by (intro reachable_add book_1_reachable) simp_all
qed

lemma sample_reachable: "reachable sample_book"
proof -
  have "\<not> resting book_2 20" by code_simp
  then show ?thesis unfolding sample_book_def by (intro reachable_add book_2_reachable) simp_all
qed

lemma sample_wf: "book_wf sample_book"
  by (rule reachable_wf [OF sample_reachable])

lemma sample_view:
  "view sample_book BUY = [\<lparr>e_price = 1, e_id = 20, e_qty = 4\<rparr>]"
  "view sample_book SELL = [\<lparr>e_price = 2, e_id = 10, e_qty = 5\<rparr>, \<lparr>e_price = 2, e_id = 11, e_qty = 7\<rparr>]"
  by code_simp+

lemma sample_uncrossed: "uncrossed sample_book"
  by (simp add: uncrossed_def sample_view)

lemma sample_fresh: "\<not> resting sample_book 12"
  by code_simp

lemma sample_resting: "resting sample_book 10"
  by code_simp

lemma sample_in_range: "inRange sample_book 2" "inRange sample_book 1"
  by code_simp+

section \<open>Books outside the contract\<close>

text \<open>An ask of quantity zero at price 2 in front of an ask of quantity 5 at price 3.\<close>

definition zero_book :: order_book where
  "zero_book = fst (the (addOrder (fst (the (addOrder book_0 SELL 2 0 7))) SELL 3 5 8))"

lemma zero_book_wf: "book_wf zero_book"
proof -
  have "\<not> resting book_0 7" "\<not> resting (fst (the (addOrder book_0 SELL 2 0 7))) 8" by code_simp+
  then have "reachable zero_book" unfolding zero_book_def by (intro reachable_add book_0_reachable) simp_all
  then show ?thesis by (rule reachable_wf)
qed

lemma zero_view:
  "view zero_book SELL = [\<lparr>e_price = 2, e_id = 7, e_qty = 0\<rparr>, \<lparr>e_price = 3, e_id = 8, e_qty = 5\<rparr>]"
  by code_simp

end
