(* ===== verification/Order_Store.thy ===== *)
theory Order_Store
  imports Book_Api
begin

text \<open>
  The book as its market-data client sees it: a store of orders by id. The locale states what such
  a client relies on; the interpretation discharges it for \<open>OrderBook\<close>.
\<close>

section \<open>The interface\<close>

type_synonym resting_order = "side \<times> price \<times> quantity"

locale order_store =
  fixes inv :: "'b \<Rightarrow> bool"
    and contents :: "'b \<Rightarrow> order_id \<Rightarrow> resting_order option"
    and in_range :: "'b \<Rightarrow> price \<Rightarrow> bool"
    and add :: "'b \<Rightarrow> side \<Rightarrow> price \<Rightarrow> quantity \<Rightarrow> order_id \<Rightarrow> ('b \<times> order_id) option"
    and cancel :: "'b \<Rightarrow> order_id \<Rightarrow> ('b \<times> bool) option"
    and requantify :: "'b \<Rightarrow> order_id \<Rightarrow> quantity \<Rightarrow> ('b \<times> bool) option"
  assumes add_stores: "inv b \<Longrightarrow> unat q < 2 ^ 63 \<Longrightarrow> contents b i = None \<Longrightarrow> in_range b p \<Longrightarrow>
      \<exists>b'. add b s p q i = Some (b', i) \<and> inv b' \<and> contents b' = (contents b)(i \<mapsto> (s, p, q))
         \<and> in_range b' = in_range b"
    and add_rejects: "\<not> in_range b p \<Longrightarrow> add b s p q i = Some (b, 0)"
    and cancel_removes: "inv b \<Longrightarrow>
      \<exists>b'. cancel b i = Some (b', contents b i \<noteq> None) \<and> inv b' \<and> contents b' = (contents b)(i := None)
         \<and> in_range b' = in_range b"
    and requantify_sets: "inv b \<Longrightarrow> unat q < 2 ^ 63 \<Longrightarrow> contents b i = Some (s, p, q0) \<Longrightarrow>
      \<exists>b'. requantify b i q = Some (b', True) \<and> inv b' \<and> contents b' = (contents b)(i \<mapsto> (s, p, q))
         \<and> in_range b' = in_range b"
begin

lemma add_returns:
  "inv b \<Longrightarrow> unat q < 2 ^ 63 \<Longrightarrow> contents b i = None \<Longrightarrow>
     \<exists>b'. add b s p q i = Some (b', if in_range b p then i else 0) \<and> inv b'
       \<and> contents b' = (if in_range b p then (contents b)(i \<mapsto> (s, p, q)) else contents b)
       \<and> in_range b' = in_range b"
  using add_stores [of b q i p s] add_rejects [of b p s q i] by (cases "in_range b p") auto

text \<open>A reduction by \<open>d\<close>: a smaller quantity while more than \<open>d\<close> is left, a cancel otherwise.\<close>

lemma reduce_works:
  assumes "inv b" "contents b i = Some (s, p, q)" "unat q < 2 ^ 63"
  shows "\<exists>b' r. (if q > d then requantify b i (q - d) else cancel b i) = Some (b', r) \<and> inv b'
    \<and> contents b' = (contents b)(i := (if q > d then Some (s, p, q - d) else None))
    \<and> in_range b' = in_range b"
proof (cases "q > d")
  case True
  then have "unat (q - d) \<le> unat q" using unat_diff [of d q] by simp
  then show ?thesis using True assms requantify_sets [of b "q - d" i s p q] by auto
next
  case False
  then show ?thesis using cancel_removes [OF assms(1), of i] by auto
qed

text \<open>A replacement: a cancel, then an add under another id.\<close>

lemma replace_works:
  assumes "inv b" "contents b i = Some (s, p0, q0)" "unat q < 2 ^ 63" "contents b j = None \<or> j = i"
  shows "\<exists>b1 r1 b2. cancel b i = Some (b1, r1)
    \<and> add b1 s p q j = Some (b2, if in_range b p then j else 0) \<and> inv b2
    \<and> contents b2 = (if in_range b p then ((contents b)(i := None))(j \<mapsto> (s, p, q)) else (contents b)(i := None))
    \<and> in_range b2 = in_range b"
proof -
  obtain b1 where b1: "cancel b i = Some (b1, contents b i \<noteq> None)" "inv b1"
    "contents b1 = (contents b)(i := None)" "in_range b1 = in_range b"
    using cancel_removes [OF assms(1)] by blast
  have "contents b1 j = None" using assms(4) b1(3) by auto
  from add_returns [OF b1(2) assms(3) this, of s p] b1 show ?thesis by auto
qed

end

section \<open>The order book provides it\<close>

definition order_map :: "order_book \<Rightarrow> order_id \<Rightarrow> resting_order option" where
  "order_map b i = (case orders b i of None \<Rightarrow> None
     | Some a \<Rightarrow> map_option (\<lambda>x. (o_side x, o_price x, o_quantity x)) (load (mem b) a))"

lemma order_map_payload:
  "order_map b i = (case orders b i of None \<Rightarrow> None
     | Some a \<Rightarrow> map_option (\<lambda>x. (o_side x, o_price x, o_quantity x)) (payload (mem b) a))"
  by (simp add: order_map_def payload_def option.map_comp o_def split: option.split)

lemma order_map_None: "book_rep b Q \<Longrightarrow> order_map b i = None \<longleftrightarrow> orders b i = None"
proof (cases "orders b i")
  case (Some a)
  assume "book_rep b Q"
  then obtain x where "load (mem b) a = Some x" using Some book_rep_orders [of b Q i a] by blast
  then show ?thesis using Some by (simp add: order_map_def)
qed (simp add: order_map_def)

lemma order_map_same:
  "orders b' j = orders b j \<Longrightarrow> (\<And>a. orders b j = Some a \<Longrightarrow> payload (mem b') a = payload (mem b) a) \<Longrightarrow>
     order_map b' j = order_map b j"
  by (simp add: order_map_payload split: option.split)

lemma order_map_small:
  assumes "api_inv b" "order_map b i = Some (s, p, q)"
  shows "unat q < 2 ^ 63"
proof -
  from assms(1) obtain Q where rep: "book_rep b Q" by (auto simp: api_inv_def book_wf_def)
  from assms(2) obtain a x where x: "load (mem b) a = Some x" "q = o_quantity x"
    by (auto simp: order_map_def split: option.splits)
  obtain k where k: "a \<in> set (Q (o_side x) k)" "k < num_levels b" by (rule book_rep_live [OF rep x(1)])
  then have "entry_of (mem b) a \<in> set (view b (o_side x))" unfolding view_rep [OF rep] set_flat by blast
  then have "unat (e_qty (entry_of (mem b) a)) < 2 ^ 63"
    using assms(1) unfolding api_inv_def small_quantities_def by blast
  then show ?thesis using x by simp
qed

lemma addOrder_map:
  assumes inv: "api_inv b" and q: "unat q < 2 ^ 63" and i: "order_map b i = None" and p: "inRange b p"
  shows "\<exists>b'. addOrder b s p q i = Some (b', i) \<and> api_inv b' \<and> order_map b' = (order_map b)(i \<mapsto> (s, p, q))
    \<and> inRange b' = inRange b"
proof -
  from inv obtain Q where rep: "book_rep b Q" by (auto simp: api_inv_def book_wf_def)
  have fresh: "orders b i = None" using i order_map_None [OF rep] by simp
  obtain b' a where b': "addOrder b s p q i = Some (b', i)" "load (mem b) a = None"
    "\<forall>c. c \<noteq> a \<longrightarrow> payload (mem b') c = payload (mem b) c"
    "payload (mem b') a = Some (mk_order i s p q 0 LIMIT)"
    "min_price b' = min_price b" "max_price b' = max_price b" "orders b' = (orders b)(i \<mapsto> a)"
    by (rule addOrder_works [OF rep p fresh, of s q]) blast
  have "api_inv b'"
    using addOrder_api [OF inv q, of i s p] fresh b'(1) by (auto simp: resting_def)
  moreover have free: "orders b j \<noteq> Some a" for j using b'(2) book_rep_orders [OF rep] by auto
  have "order_map b' = (order_map b)(i \<mapsto> (s, p, q))"
  proof (intro ext)
    fix j
    show "order_map b' j = ((order_map b)(i \<mapsto> (s, p, q))) j"
    proof (cases "j = i")
      case True
      then show ?thesis using b'(4) by (simp add: order_map_payload b'(7))
    next
      case False
      have "order_map b' j = order_map b j"
        using False b'(3) free [of j] by (intro order_map_same) (auto simp: b'(7))
      then show ?thesis using False by simp
    qed
  qed
  moreover have "inRange b' = inRange b" using b'(5,6) by (simp add: inRange_def fun_eq_iff)
  ultimately show ?thesis using b'(1) by blast
qed

lemma cancelOrder_map:
  assumes inv: "api_inv b"
  shows "\<exists>b'. cancelOrder b i = Some (b', order_map b i \<noteq> None) \<and> api_inv b'
    \<and> order_map b' = (order_map b)(i := None) \<and> inRange b' = inRange b"
proof -
  from inv obtain Q where rep: "book_rep b Q" by (auto simp: api_inv_def book_wf_def)
  show ?thesis
  proof (cases "orders b i")
    case None
    then have "order_map b i = None" using order_map_None [OF rep] by simp
    then show ?thesis using cancelOrder_unknown [OF None] inv by (auto simp: fun_upd_idem)
  next
    case (Some a)
    then obtain x where x: "load (mem b) a = Some x" "o_id x = i" using book_rep_orders [OF rep] by blast
    obtain k where k: "a \<in> set (Q (o_side x) k)" by (rule book_rep_live [OF rep x(1)])
    then obtain xs ys where "Q (o_side x) k = xs @ a # ys" by (meson split_list)
    then obtain b' where b': "cancelOrder b i = Some (b', True)"
      "\<forall>c. payload (mem b') c = (if c = a then None else payload (mem b) c)"
      "min_price b' = min_price b" "max_price b' = max_price b" "orders b' = (orders b)(i := None)"
      using cancelOrder_works [OF rep Some x(1) refl] by metis
    have "api_inv b'" using cancelOrder_api [OF inv, of i] b'(1) by auto
    moreover have only: "orders b j = Some a \<Longrightarrow> j = i" for j using x book_rep_orders [OF rep, of j a] by auto
    have "order_map b' = (order_map b)(i := None)"
    proof (intro ext)
      fix j
      show "order_map b' j = ((order_map b)(i := None)) j"
      proof (cases "j = i")
        case True
        then show ?thesis by (simp add: order_map_def b'(5))
      next
        case False
        then have "order_map b' j = order_map b j"
          using b'(2) only [of j] by (intro order_map_same) (auto simp: b'(5))
        then show ?thesis using False by simp
      qed
    qed
    moreover have "inRange b' = inRange b" using b'(3,4) by (simp add: inRange_def fun_eq_iff)
    moreover have "order_map b i \<noteq> None" using Some order_map_None [OF rep] by simp
    ultimately show ?thesis using b'(1) by auto
  qed
qed

lemma modifyOrder_map:
  assumes inv: "api_inv b" and q: "unat q < 2 ^ 63" and i: "order_map b i = Some (s, p, q0)"
  shows "\<exists>b'. modifyOrder b i q = Some (b', True) \<and> api_inv b' \<and> order_map b' = (order_map b)(i \<mapsto> (s, p, q))
    \<and> inRange b' = inRange b"
proof -
  from inv obtain Q where rep: "book_rep b Q" by (auto simp: api_inv_def book_wf_def)
  from i obtain a x where a: "orders b i = Some a" "load (mem b) a = Some x" "o_side x = s" "o_price x = p"
      "o_quantity x = q0"
    by (auto simp: order_map_def split: option.splits)
  have fits: "int64_range (sint q - sint (o_quantity x))"
    using small_difference [OF q order_map_small [OF inv i]] a(5) by simp
  obtain b' where b': "modifyOrder b i q = Some (b', True)"
    "mem b' = put_slot (mem b) a (Storage (x\<lparr>o_quantity := q\<rparr>))"
    "min_price b' = min_price b" "max_price b' = max_price b" "orders b' = orders b"
    by (rule modifyOrder_works [OF rep a(1,2) fits]) blast
  have "api_inv b'" using modifyOrder_api [OF inv q, of i] b'(1) by auto
  moreover have only: "orders b j = Some a \<Longrightarrow> j = i" for j
    using a book_rep_orders [OF rep, of j a] book_rep_orders [OF rep, of i a] by auto
  have "order_map b' = (order_map b)(i \<mapsto> (s, p, q))"
  proof (intro ext)
    fix j
    show "order_map b' j = ((order_map b)(i \<mapsto> (s, p, q))) j"
    proof (cases "j = i")
      case True
      then show ?thesis using a by (simp add: order_map_def b'(2,5))
    next
      case False
      then have "order_map b' j = order_map b j"
        using only [of j] by (intro order_map_same) (auto simp: b'(2,5) payload_def)
      then show ?thesis using False by simp
    qed
  qed
  moreover have "inRange b' = inRange b" using b'(3,4) by (simp add: inRange_def fun_eq_iff)
  ultimately show ?thesis using b'(1) by blast
qed

interpretation book: order_store api_inv order_map inRange addOrder cancelOrder modifyOrder
  by unfold_locales
    (simp_all only: addOrder_map cancelOrder_map modifyOrder_map addOrder_out_of_range not_False_eq_True)

end
