(* ===== verification/Itch_Parser.thy ===== *)
theory Itch_Parser
  imports Prelude
begin

text \<open>
  The NASDAQ ITCH 5.0 parser of \<^verbatim>\<open>include/itch_parser.hpp\<close>. Memory from a pointer on is the list of
  the bytes that may be read there; a read past its end is \<open>None\<close>. A \<open>char\<close> is its byte.
\<close>

unbundle bit_operations_syntax

section \<open>Field readers\<close>

type_synonym bytes = "u8 list"

definition byte_at :: "bytes \<Rightarrow> nat \<Rightarrow> u8 option" where
  "byte_at p i = vec_get p (int i)"

definition rdU16 :: "bytes \<Rightarrow> u16 option" where
  "rdU16 p = do {
     x0 \<leftarrow> byte_at p 0;
     x1 \<leftarrow> byte_at p 1;
     Some (push_bit 8 (ucast x0) OR ucast x1)
   }"

definition rdU32 :: "bytes \<Rightarrow> u32 option" where
  "rdU32 p = do {
     x0 \<leftarrow> byte_at p 0;
     x1 \<leftarrow> byte_at p 1;
     x2 \<leftarrow> byte_at p 2;
     x3 \<leftarrow> byte_at p 3;
     Some (push_bit 24 (ucast x0) OR push_bit 16 (ucast x1) OR push_bit 8 (ucast x2) OR ucast x3)
   }"

text \<open>The loop of the wider readers, with \<open>n\<close> bytes left.\<close>

primrec rd_loop :: "bytes \<Rightarrow> nat \<Rightarrow> nat \<Rightarrow> u64 \<Rightarrow> u64 option" where
  "rd_loop p 0 i v = Some v"
| "rd_loop p (Suc n) i v = do {
     x \<leftarrow> byte_at p i;
     rd_loop p n (Suc i) (push_bit 8 v OR ucast x)
   }"

definition rdU48 :: "bytes \<Rightarrow> u64 option" where
  "rdU48 p = rd_loop p 6 0 0"

definition rdU64 :: "bytes \<Rightarrow> u64 option" where
  "rdU64 p = rd_loop p 8 0 0"

section \<open>Messages\<close>

record message =
  m_type :: u8
  m_timestamp :: u64
  m_orderRef :: u64
  m_newOrderRef :: u64
  m_side :: u8
  m_shares :: u32
  m_price :: u32
  m_stock :: bytes
  m_rawStock :: bytes

definition new_message :: message where
  "new_message =
     \<lparr>m_type = 63, m_timestamp = 0, m_orderRef = 0, m_newOrderRef = 0, m_side = 0, m_shares = 0,
      m_price = 0, m_stock = replicate 9 0, m_rawStock = replicate 8 0\<rparr>"

text \<open>Trailing spaces of the 8 characters become terminators; the loop runs down and stops early.\<close>

primrec trim_from :: "nat \<Rightarrow> bytes \<Rightarrow> bytes" where
  "trim_from 0 s = s"
| "trim_from (Suc i) s = (if s ! i = 32 then trim_from i (s[i := 0]) else s)"

definition trimStock :: "bytes \<Rightarrow> bytes" where
  "trimStock s = trim_from 8 s"

text \<open>\<open>memcpy(dst, src, n)\<close> to the front of an array.\<close>

definition copy_bytes :: "bytes \<Rightarrow> bytes \<Rightarrow> nat \<Rightarrow> bytes option" where
  "copy_bytes dst src n = (if n \<le> length src \<and> n \<le> length dst then Some (take n src @ drop n dst) else None)"

text \<open>The fields of an add message, which the cases 'A' and 'F' read alike.\<close>

definition decode_add :: "bytes \<Rightarrow> message \<Rightarrow> message option" where
  "decode_add b m = do {
     ts \<leftarrow> rdU48 (drop 5 b);
     ref \<leftarrow> rdU64 (drop 11 b);
     sd \<leftarrow> byte_at b 19;
     sh \<leftarrow> rdU32 (drop 20 b);
     raw \<leftarrow> copy_bytes (m_rawStock m) (drop 24 b) 8;
     st \<leftarrow> copy_bytes (m_stock m) (drop 24 b) 8;
     px \<leftarrow> rdU32 (drop 32 b);
     Some (m\<lparr>m_timestamp := ts, m_orderRef := ref, m_side := sd, m_shares := sh,
             m_rawStock := raw, m_stock := trimStock st, m_price := px\<rparr>)
   }"

text \<open>
  The switch on the first byte: 'A' 65, 'F' 70, 'E' 69, 'C' 67, 'X' 88, 'D' 68, 'U' 85.
  Returns whether the message is a modelled one, and the message as it was filled in.
\<close>

definition decode :: "bytes \<Rightarrow> nat \<Rightarrow> message \<Rightarrow> (bool \<times> message) option" where
  "decode b len m =
     (if len < 1 then Some (False, m)
      else do {
        ty \<leftarrow> byte_at b 0;
        let m = new_message\<lparr>m_type := ty\<rparr>;
        if ty = 65 then
          (if len < 36 then Some (False, m) else do { m \<leftarrow> decode_add b m; Some (True, m) })
        else if ty = 70 then
          (if len < 40 then Some (False, m) else do { m \<leftarrow> decode_add b m; Some (True, m) })
        else if ty = 69 then
          (if len < 31 then Some (False, m) else do {
             ts \<leftarrow> rdU48 (drop 5 b); ref \<leftarrow> rdU64 (drop 11 b); sh \<leftarrow> rdU32 (drop 19 b);
             Some (True, m\<lparr>m_timestamp := ts, m_orderRef := ref, m_shares := sh\<rparr>) })
        else if ty = 67 then
          (if len < 36 then Some (False, m) else do {
             ts \<leftarrow> rdU48 (drop 5 b); ref \<leftarrow> rdU64 (drop 11 b); sh \<leftarrow> rdU32 (drop 19 b);
             px \<leftarrow> rdU32 (drop 32 b);
             Some (True, m\<lparr>m_timestamp := ts, m_orderRef := ref, m_shares := sh, m_price := px\<rparr>) })
        else if ty = 88 then
          (if len < 23 then Some (False, m) else do {
             ts \<leftarrow> rdU48 (drop 5 b); ref \<leftarrow> rdU64 (drop 11 b); sh \<leftarrow> rdU32 (drop 19 b);
             Some (True, m\<lparr>m_timestamp := ts, m_orderRef := ref, m_shares := sh\<rparr>) })
        else if ty = 68 then
          (if len < 19 then Some (False, m) else do {
             ts \<leftarrow> rdU48 (drop 5 b); ref \<leftarrow> rdU64 (drop 11 b);
             Some (True, m\<lparr>m_timestamp := ts, m_orderRef := ref\<rparr>) })
        else if ty = 85 then
          (if len < 35 then Some (False, m) else do {
             ts \<leftarrow> rdU48 (drop 5 b); ref \<leftarrow> rdU64 (drop 11 b); nref \<leftarrow> rdU64 (drop 19 b);
             sh \<leftarrow> rdU32 (drop 27 b); px \<leftarrow> rdU32 (drop 31 b);
             Some (True, m\<lparr>m_timestamp := ts, m_orderRef := ref, m_newOrderRef := nref,
                           m_shares := sh, m_price := px\<rparr>) })
        else if len \<ge> 11 then do {
          ts \<leftarrow> rdU48 (drop 5 b);
          Some (False, m\<lparr>m_timestamp := ts\<rparr>)
        } else Some (False, m)
      })"

text \<open>
  \<open>parseBuffer\<close> with the callback \<open>fn\<close> threading a state; the result is the count of modelled
  messages and the final state.
\<close>

function parse_from ::
    "bytes \<Rightarrow> nat \<Rightarrow> (message \<Rightarrow> 's \<Rightarrow> 's option) \<Rightarrow> nat \<Rightarrow> nat \<Rightarrow> 's \<Rightarrow> (nat \<times> 's) option" where
  "parse_from data sz fn off count s =
     (if off + 2 \<le> sz then do {
        len \<leftarrow> rdU16 (drop off data);
        if len = 0 then Some (count, s)
        else if off + 2 + unat len > sz then Some (count, s)
        else do {
          (ok, m) \<leftarrow> decode (drop (off + 2) data) (unat len) new_message;
          (count, s) \<leftarrow> (if ok then do { s \<leftarrow> fn m s; Some (count + 1, s) } else Some (count, s));
          parse_from data sz fn (off + (2 + unat len)) count s
        }
      } else Some (count, s))"
  by pat_completeness auto
termination
  by (relation "measure (\<lambda>(data, sz, fn, off, count, s). sz - off)") auto

definition parseBuffer :: "bytes \<Rightarrow> nat \<Rightarrow> (message \<Rightarrow> 's \<Rightarrow> 's option) \<Rightarrow> 's \<Rightarrow> (nat \<times> 's) option" where
  "parseBuffer data sz fn s = parse_from data sz fn 0 0 s"

section \<open>Big-endian values\<close>

definition be_val :: "bytes \<Rightarrow> nat" where
  "be_val xs = foldl (\<lambda>v x. v * 256 + unat x) 0 xs"

primrec be_bytes :: "nat \<Rightarrow> nat \<Rightarrow> bytes" where
  "be_bytes 0 v = []"
| "be_bytes (Suc n) v = be_bytes n (v div 256) @ [of_nat v]"

lemma be_val_snoc [simp]: "be_val [] = 0" "be_val (xs @ [x]) = be_val xs * 256 + unat x"
  by (simp_all add: be_val_def)

lemma length_be_bytes [simp]: "length (be_bytes n v) = n"
  by (induction n arbitrary: v) simp_all

lemma be_val_be_bytes: "be_val (be_bytes n v) = v mod 256 ^ n"
proof (induction n arbitrary: v)
  case (Suc n)
  have "unat (of_nat v :: u8) = v mod 256" by (simp add: unat_of_nat)
  then show ?case using Suc by (simp add: mod_mult2_eq)
qed simp

lemma be_val_be_bytes_id [simp]: "v < 256 ^ n \<Longrightarrow> be_val (be_bytes n v) = v"
  by (simp add: be_val_be_bytes)

lemma shift_or: "push_bit 8 v OR ucast (x::u8) = v * 256 + (ucast x :: 'a::len word)"
proof -
  have "push_bit 8 v + ucast x = push_bit 8 v OR (ucast x :: 'a word)"
    by (rule disjunctive_add) (auto simp: bit_push_bit_iff bit_ucast_iff dest: bit_imp_le_length)
  then show ?thesis by (simp add: push_bit_eq_mult)
qed

lemma byte_at_in: "i < length p \<Longrightarrow> byte_at p i = Some (p ! i)"
  by (simp add: byte_at_def)

lemma rd_loop_val:
  "i + n \<le> length p \<Longrightarrow>
     rd_loop p n i (of_nat v) = Some (of_nat (foldl (\<lambda>v x. v * 256 + unat x) v (take n (drop i p))))"
proof (induction n arbitrary: i v)
  case (Suc n)
  have "take (Suc n) (drop i p) = p ! i # take n (drop (Suc i) p)"
    using Suc.prems by (simp add: Cons_nth_drop_Suc [symmetric])
  moreover have step: "push_bit 8 (of_nat v) OR ucast (p ! i) = (of_nat (v * 256 + unat (p ! i)) :: u64)"
    unfolding shift_or by simp
  have "byte_at p i = Some (p ! i)" using Suc.prems by (simp add: byte_at_in)
  then have "rd_loop p (Suc n) i (of_nat v) = rd_loop p n (Suc i) (of_nat (v * 256 + unat (p ! i)))"
    by (simp only: rd_loop.simps step Option.bind.simps)
  ultimately show ?case
    using Suc.IH [of "Suc i" "v * 256 + unat (p ! i)"] Suc.prems by simp
qed simp

lemma rdU48_val: "6 \<le> length p \<Longrightarrow> rdU48 p = Some (of_nat (be_val (take 6 p)))"
  using rd_loop_val [of 0 6 p 0] by (simp add: rdU48_def be_val_def)

lemma rdU64_val: "8 \<le> length p \<Longrightarrow> rdU64 p = Some (of_nat (be_val (take 8 p)))"
  using rd_loop_val [of 0 8 p 0] by (simp add: rdU64_def be_val_def)

lemma rdU16_val:
  assumes "2 \<le> length p"
  shows "rdU16 p = Some (of_nat (be_val (take 2 p)))"
proof -
  from assms obtain a b q where p: "p = a # b # q"
    by (auto simp: numeral_eq_Suc Suc_le_length_iff)
  have "push_bit 8 (ucast a) OR ucast b = (of_nat (unat a * 256 + unat b) :: u16)"
    unfolding shift_or by simp
  then show ?thesis by (simp add: rdU16_def byte_at_def vec_get_def p be_val_def)
qed

lemma rdU32_val:
  assumes "4 \<le> length p"
  shows "rdU32 p = Some (of_nat (be_val (take 4 p)))"
proof -
  from assms obtain a b c d q where p: "p = a # b # c # d # q"
    by (auto simp: numeral_eq_Suc Suc_le_length_iff)
  have "push_bit 24 (ucast a) OR push_bit 16 (ucast b) OR push_bit 8 (ucast c) OR ucast d
      = (push_bit 8 (push_bit 8 (push_bit 8 (ucast a) OR ucast b) OR ucast c) OR ucast d :: u32)"
    by (simp add: push_bit_or or.assoc)
  also have "\<dots> = of_nat (((unat a * 256 + unat b) * 256 + unat c) * 256 + unat d)"
    unfolding shift_or by simp
  finally show ?thesis by (simp add: rdU32_def byte_at_def vec_get_def p be_val_def)
qed

lemmas rd_val = rdU16_val rdU32_val rdU48_val rdU64_val

section \<open>Decoding reads the message and nothing else\<close>

lemma copy_bytes_in: "n \<le> length src \<Longrightarrow> n \<le> length dst \<Longrightarrow> copy_bytes dst src n = Some (take n src @ drop n dst)"
  by (simp add: copy_bytes_def)

lemma new_message_arrays [simp]: "length (m_stock new_message) = 9" "length (m_rawStock new_message) = 8"
  by (simp_all add: new_message_def)

lemma decode_add_in:
  assumes "36 \<le> length b" "length (m_rawStock m) = 8" "length (m_stock m) = 9"
  shows "decode_add b m = Some (m\<lparr>m_timestamp := of_nat (be_val (take 6 (drop 5 b))),
    m_orderRef := of_nat (be_val (take 8 (drop 11 b))), m_side := b ! 19,
    m_shares := of_nat (be_val (take 4 (drop 20 b))), m_rawStock := take 8 (drop 24 b),
    m_stock := trimStock (take 8 (drop 24 b) @ drop 8 (m_stock m)),
    m_price := of_nat (be_val (take 4 (drop 32 b)))\<rparr>)"
  using assms by (simp add: decode_add_def rd_val byte_at_in copy_bytes_in)

text \<open>
  The layout of the modelled messages, as a total function of the message body: minimal lengths and
  the fields' offsets and widths.
\<close>

definition field :: "bytes \<Rightarrow> nat \<Rightarrow> nat \<Rightarrow> 'a::len word" where
  "field body off n = of_nat (be_val (take n (drop off body)))"

fun min_length :: "nat \<Rightarrow> nat" where
  "min_length ty = (if ty = 65 then 36 else if ty = 70 then 40 else if ty = 69 then 31
     else if ty = 67 then 36 else if ty = 88 then 23 else if ty = 68 then 19 else 35)"

definition modelled_types :: "u8 set" where
  "modelled_types = {65, 70, 69, 67, 88, 68, 85}"

definition layout :: "u8 \<Rightarrow> bytes \<Rightarrow> message" where
  "layout ty body =
     (let m = new_message\<lparr>m_type := ty, m_timestamp := field body 5 6, m_orderRef := field body 11 8\<rparr>
      in if ty \<in> {65, 70} then
           m\<lparr>m_side := body ! 19, m_shares := field body 20 4, m_rawStock := take 8 (drop 24 body),
             m_stock := trimStock (take 8 (drop 24 body) @ [0]), m_price := field body 32 4\<rparr>
         else if ty \<in> {69, 88} then m\<lparr>m_shares := field body 19 4\<rparr>
         else if ty = 67 then m\<lparr>m_shares := field body 19 4, m_price := field body 32 4\<rparr>
         else if ty = 68 then m
         else m\<lparr>m_newOrderRef := field body 19 8, m_shares := field body 27 4, m_price := field body 31 4\<rparr>)"

definition decode_layout :: "bytes \<Rightarrow> message \<Rightarrow> bool \<times> message" where
  "decode_layout body m =
     (if body = [] then (False, m)
      else let ty = body ! 0
           in if ty \<in> modelled_types then
                (if length body < min_length (unat ty) then (False, new_message\<lparr>m_type := ty\<rparr>)
                 else (True, layout ty body))
              else (False, new_message\<lparr>m_type := ty, m_timestamp := (if length body \<ge> 11 then field body 5 6 else 0)\<rparr>))"

lemma take_window: "off + n \<le> len \<Longrightarrow> take n (drop off (take len b)) = take n (drop off b)"
  by (simp add: drop_take min_def)

lemma field_take: "off + n \<le> len \<Longrightarrow> field (take len b) off n = field b off n"
  by (simp add: field_def take_window)

lemma stock_tail: "drop 8 (m_stock new_message) = [0]" "m_timestamp new_message = 0"
  by (simp_all add: new_message_def numeral_eq_Suc)

lemma arrays_of_type [simp]:
  "length (m_stock (new_message\<lparr>m_type := ty\<rparr>)) = 9" "length (m_rawStock (new_message\<lparr>m_type := ty\<rparr>)) = 8"
  by (simp_all add: new_message_def)

lemma rd_field:
  "off + 6 \<le> length b \<Longrightarrow> rdU48 (drop off b) = Some (field b off 6)"
  "off + 8 \<le> length b \<Longrightarrow> rdU64 (drop off b) = Some (field b off 8)"
  "off + 4 \<le> length b \<Longrightarrow> rdU32 (drop off b) = Some (field b off 4)"
  by (simp_all add: rd_val field_def)

lemma decode_add_layout:
  assumes "36 \<le> len" "len \<le> length b" "ty \<in> {65, 70}"
  shows "decode_add b (new_message\<lparr>m_type := ty\<rparr>) = Some (layout ty (take len b))"
  using assms
  by (simp add: decode_add_def rd_field byte_at_in copy_bytes_in layout_def Let_def field_take take_window stock_tail)

lemma decode_as_layout:
  assumes "len \<le> length b"
  shows "decode b len m = Some (decode_layout (take len b) m)"
proof (cases "len = 0")
  case True
  then show ?thesis by (simp add: decode_def decode_layout_def)
next
  case False
  then have b0: "byte_at b 0 = Some (b ! 0)" "take len b ! 0 = b ! 0" "take len b \<noteq> []" "length (take len b) = len" "b \<noteq> []"
    using assms by (auto intro: byte_at_in)
  note defs = decode_def decode_layout_def modelled_types_def Let_def b0 rd_field field_take
    decode_add_layout layout_def
  consider "b ! 0 = 65" | "b ! 0 = 70" | "b ! 0 = 69" | "b ! 0 = 67" | "b ! 0 = 88" | "b ! 0 = 68"
    | "b ! 0 = 85" | "b ! 0 \<notin> modelled_types"
    by (auto simp: modelled_types_def)
  then show ?thesis
  proof cases
    case 1 then show ?thesis using assms False by (simp add: decode_def decode_layout_def modelled_types_def Let_def b0 decode_add_layout)
  next
    case 2 then show ?thesis using assms False by (simp add: decode_def decode_layout_def modelled_types_def Let_def b0 decode_add_layout)
  next
    case 3 then show ?thesis using assms False by (simp add: defs)
  next
    case 4 then show ?thesis using assms False by (simp add: defs)
  next
    case 5 then show ?thesis using assms False by (simp add: defs)
  next
    case 6 then show ?thesis using assms False by (simp add: defs)
  next
    case 7 then show ?thesis using assms False by (simp add: defs)
  next
    case 8 then show ?thesis using assms False by (simp add: defs stock_tail)
  qed
qed

lemma decode_defined: "len \<le> length b \<Longrightarrow> \<exists>r. decode b len m = Some r"
  by (simp add: decode_as_layout)

section \<open>Framing\<close>

definition frame :: "bytes \<Rightarrow> bytes" where
  "frame body = be_bytes 2 (length body) @ body"

text \<open>The callback on the modelled ones of a list of message bodies, in order.\<close>

fun deliver :: "(message \<Rightarrow> 's \<Rightarrow> 's option) \<Rightarrow> bytes list \<Rightarrow> nat \<Rightarrow> 's \<Rightarrow> (nat \<times> 's) option" where
  "deliver fn [] count s = Some (count, s)"
| "deliver fn (body # bodies) count s =
     (case decode_layout body new_message of
        (True, m) \<Rightarrow> do { s \<leftarrow> fn m s; deliver fn bodies (count + 1) s }
      | (False, _) \<Rightarrow> deliver fn bodies count s)"

declare parse_from.simps [simp del]

lemma parse_frame:
  assumes body: "0 < length body" "length body < 65536"
    and data: "drop off data = frame body @ rest" "off < length data"
  shows "parse_from data (length data) fn off count s =
    (case decode_layout body new_message of
        (True, m) \<Rightarrow> do { s \<leftarrow> fn m s; parse_from data (length data) fn (off + (2 + length body)) (count + 1) s }
      | (False, _) \<Rightarrow> parse_from data (length data) fn (off + (2 + length body)) count s)"
proof -
  have len: "length data = off + (2 + length body + length rest)"
    using arg_cong [OF data(1), of length] data(2) by (simp add: frame_def)
  have "rdU16 (drop off data) = Some (of_nat (length body))"
    unfolding data(1) using body by (simp add: rdU16_val frame_def)
  moreover have "drop (off + 2) data = body @ rest"
    using arg_cong [OF data(1), of "drop 2"] by (simp add: frame_def add.commute)
  moreover have "unat (of_nat (length body) :: u16) = length body" "of_nat (length body) \<noteq> (0::u16)"
    using body by (simp_all add: unat_of_nat word_of_nat_eq_0_iff nat_dvd_not_less)
  ultimately show ?thesis
    using len by (subst parse_from.simps) (simp add: decode_as_layout split: prod.splits bool.splits)
qed

lemma parse_frames:
  assumes "\<And>body. body \<in> set bodies \<Longrightarrow> 0 < length body \<and> length body < 65536"
    and "drop off data = concat (map frame bodies)" "off \<le> length data"
  shows "parse_from data (length data) fn off count s = deliver fn bodies count s"
  using assms
proof (induction bodies arbitrary: off count s)
  case Nil
  then show ?case by (subst parse_from.simps) simp
next
  case (Cons body bodies)
  have d: "drop off data = frame body @ concat (map frame bodies)" using Cons.prems(2) by simp
  have "length data - off = length (frame body @ concat (map frame bodies))"
    using arg_cong [OF d, of length] by simp
  then have off: "off < length data" by (simp add: frame_def)
  have "drop (off + (2 + length body)) data = concat (map frame bodies)"
    using arg_cong [OF d, of "drop (2 + length body)"] by (simp add: frame_def add.commute)
  moreover have "off + (2 + length body) \<le> length data"
    using arg_cong [OF d, of length] off by (simp add: frame_def)
  ultimately have eq: "parse_from data (length data) fn (off + (2 + length body)) = deliver fn bodies"
    using Cons.prems(1) by (intro ext Cons.IH) auto
  have "0 < length body" "length body < 65536" using Cons.prems(1) by auto
  from parse_frame [OF this d off, of fn count s] show ?case unfolding eq by simp
qed

text \<open>On arbitrary bytes the parser returns, reads only the buffer, and needs at least
  21 bytes for a modelled message.\<close>

lemma decode_length: "len \<le> length b \<Longrightarrow> decode b len m = Some (True, m') \<Longrightarrow> 19 \<le> len"
  by (auto simp: decode_as_layout decode_layout_def Let_def split: if_splits)

lemma parse_from_safe:
  assumes "sz \<le> length data" "\<And>m s. I s \<Longrightarrow> \<exists>s'. fn m s = Some s' \<and> I s'" "I s" "off \<le> sz"
  shows "\<exists>n s'. parse_from data sz fn off count s = Some (count + n, s') \<and> I s' \<and> 21 * n \<le> sz - off"
  using assms(3,4)
proof (induction "sz - off" arbitrary: off count s rule: less_induct)
  case less
  show ?case
  proof (cases "off + 2 \<le> sz")
    case False
    then show ?thesis using less.prems by (subst parse_from.simps) simp
  next
    case True
    obtain len where len: "rdU16 (drop off data) = Some len"
      using True assms(1) by (auto simp: rdU16_val)
    show ?thesis
    proof (cases "len = 0 \<or> off + 2 + unat len > sz")
      case True
      then show ?thesis
        using less.prems len \<open>off + 2 \<le> sz\<close> by (subst parse_from.simps) auto
    next
      case False
      then have pos: "unat len > 0" by (simp add: unat_gt_0)
      from False assms(1) obtain ok m where d: "decode (drop (off + 2) data) (unat len) new_message = Some (ok, m)"
        using decode_defined [of "unat len" "drop (off + 2) data"] by fastforce
      obtain s1 where s1: "fn m s = Some s1" "I s1" using assms(2) less.prems(1) by blast
      let ?off = "off + (2 + unat len)"
      have ih: "\<exists>n s'. parse_from data sz fn ?off c t = Some (c + n, s') \<and> I s' \<and> 21 * n \<le> sz - ?off"
        if "I t" for c t
        using less.hyps [of ?off t c] that False True pos by auto
      show ?thesis
      proof (cases ok)
        case t: True
        have "19 \<le> unat len" using d t False assms(1) by (intro decode_length) auto
        from ih [OF s1(2), of "count + 1"] obtain n s' where
          "parse_from data sz fn ?off (count + 1) s1 = Some (count + 1 + n, s')" "I s'" "21 * n \<le> sz - ?off"
          by blast
        then show ?thesis
          using t True False \<open>19 \<le> unat len\<close> len d s1
          by (subst parse_from.simps) (auto intro!: exI [of _ "Suc n"])
      next
        case f: False
        from ih [OF less.prems(1), of count] obtain n s' where
          "parse_from data sz fn ?off count s = Some (count + n, s')" "I s'" "21 * n \<le> sz - ?off"
          by blast
        then show ?thesis
          using f True False pos len d
          by (subst parse_from.simps) (auto intro!: exI [of _ n])
      qed
    qed
  qed
qed

section \<open>Encoding\<close>

text \<open>
  The sender's side of the layout: \<open>loc\<close> is the stock locate and tracking number, \<open>ext\<close> the fields
  the parser skips (MPID, match number, printable flag).
\<close>

definition encode_tail :: "bytes \<Rightarrow> message \<Rightarrow> bytes" where
  "encode_tail ext m =
     (if m_type m \<in> {65, 70} then
        [m_side m] @ be_bytes 4 (unat (m_shares m)) @ m_rawStock m @ be_bytes 4 (unat (m_price m)) @ ext
      else if m_type m = 69 then be_bytes 4 (unat (m_shares m)) @ ext
      else if m_type m = 67 then be_bytes 4 (unat (m_shares m)) @ ext @ be_bytes 4 (unat (m_price m))
      else if m_type m = 88 then be_bytes 4 (unat (m_shares m))
      else if m_type m = 68 then []
      else be_bytes 8 (unat (m_newOrderRef m)) @ be_bytes 4 (unat (m_shares m)) @ be_bytes 4 (unat (m_price m)))"

definition encode :: "bytes \<Rightarrow> bytes \<Rightarrow> message \<Rightarrow> bytes" where
  "encode loc ext m =
     [m_type m] @ loc @ be_bytes 6 (unat (m_timestamp m)) @ be_bytes 8 (unat (m_orderRef m)) @ encode_tail ext m"

definition ext_length :: "u8 \<Rightarrow> nat" where
  "ext_length ty = (if ty = 70 then 4 else if ty = 69 then 8 else if ty = 67 then 9 else 0)"

text \<open>The messages a decoder can produce: 48-bit timestamps, defaults where the type has no field.\<close>

definition canonical :: "message \<Rightarrow> bool" where
  "canonical m \<longleftrightarrow> m_type m \<in> modelled_types \<and> unat (m_timestamp m) < 2 ^ 48
   \<and> (if m_type m \<in> {65, 70}
      then length (m_rawStock m) = 8 \<and> m_stock m = trimStock (m_rawStock m @ [0])
      else m_rawStock m = replicate 8 0 \<and> m_stock m = replicate 9 0 \<and> m_side m = 0)
   \<and> (m_type m \<noteq> 85 \<longrightarrow> m_newOrderRef m = 0) \<and> (m_type m = 68 \<longrightarrow> m_shares m = 0)
   \<and> (m_type m \<in> {69, 88, 68} \<longrightarrow> m_price m = 0)"

lemma field_be:
  "unat w < 256 ^ n \<Longrightarrow> drop off b = be_bytes n (unat w) @ post \<Longrightarrow> field b off n = (w :: 'a::len word)"
  by (simp add: field_def)

lemma unat_fits: "unat (x::u64) < 256 ^ 8" "unat (y::u32) < 256 ^ 4"
  using unsigned_less [of x] unsigned_less [of y] by simp_all

lemmas field64 = field_be [OF unat_fits(1)] and field32 = field_be [OF unat_fits(2)]

lemma decode_encode:
  assumes "canonical m" "length loc = 4" "length ext = ext_length (m_type m)"
  shows "decode (encode loc ext m) (length (encode loc ext m)) m0 = Some (True, m)"
proof -
  let ?b = "encode loc ext m"
  note can = assms(1) [unfolded canonical_def]
  have ty: "m_type m \<in> modelled_types" and ts: "unat (m_timestamp m) < 256 ^ 6" using can by simp_all
  have tail: "drop (19 + k) ?b = drop k (encode_tail ext m)" for k
  proof -
    have "drop 19 ?b = encode_tail ext m" using assms(2) by (simp add: encode_def)
    then show ?thesis by (metis add.commute drop_drop)
  qed
  have common: "field ?b 5 6 = m_timestamp m" "field ?b 11 8 = m_orderRef m" "?b ! 0 = m_type m" "?b \<noteq> []"
    by ((rule field_be [OF ts])?, (rule field64)?, simp add: encode_def assms(2))+
  have len: "\<not> length ?b < min_length (unat (m_type m))"
    using ty assms by (auto simp: encode_def encode_tail_def ext_length_def canonical_def modelled_types_def)
  have "layout (m_type m) ?b = m"
  proof -
    consider (add) "m_type m \<in> {65, 70}" | (e) "m_type m = 69" | (c) "m_type m = 67" | (x) "m_type m = 88"
      | (d) "m_type m = 68" | (u) "m_type m = 85"
      using ty by (auto simp: modelled_types_def)
    then show ?thesis
    proof cases
      case add
      then have t: "encode_tail ext m = [m_side m] @ be_bytes 4 (unat (m_shares m)) @ m_rawStock m
          @ be_bytes 4 (unat (m_price m)) @ ext" and raw: "length (m_rawStock m) = 8"
        using can by (auto simp: encode_tail_def)
      have "field ?b 20 4 = m_shares m" by (rule field32) (use tail [of 1] t in simp)
      moreover have "field ?b 32 4 = m_price m" by (rule field32) (use tail [of 13] t raw in simp)
      moreover have "take 8 (drop 24 ?b) = m_rawStock m" using tail [of 5] t raw by simp
      moreover have "?b ! 19 = m_side m" using tail [of 0] t by (metis add_0_right append_Cons drop_0 nth_via_drop)
      ultimately show ?thesis using add can common
        by (intro message.equality) (auto simp: layout_def new_message_def)
    next
      case e
      then have "field ?b 19 4 = m_shares m"
        using tail [of 0] by (intro field32) (simp add: encode_tail_def)
      then show ?thesis using e can common
        by (intro message.equality) (simp_all add: layout_def new_message_def)
    next
      case c
      then have t: "encode_tail ext m = be_bytes 4 (unat (m_shares m)) @ ext @ be_bytes 4 (unat (m_price m))"
        and ext: "length ext = 9" using assms(3) by (simp_all add: encode_tail_def ext_length_def)
      have "field ?b 19 4 = m_shares m" by (rule field32) (use tail [of 0] t in simp)
      moreover have "field ?b 32 4 = m_price m"
        by (rule field32 [where post = "[]"]) (use tail [of 13] t ext in simp)
      ultimately show ?thesis using c can common
        by (intro message.equality) (simp_all add: layout_def new_message_def)
    next
      case x
      then have "field ?b 19 4 = m_shares m"
        using tail [of 0] by (intro field32 [where post = "[]"]) (simp add: encode_tail_def)
      then show ?thesis using x can common
        by (intro message.equality) (simp_all add: layout_def new_message_def)
    next
      case d
      then show ?thesis using can common
        by (intro message.equality) (simp_all add: layout_def new_message_def)
    next
      case u
      then have t: "encode_tail ext m = be_bytes 8 (unat (m_newOrderRef m)) @ be_bytes 4 (unat (m_shares m))
          @ be_bytes 4 (unat (m_price m))" by (simp add: encode_tail_def)
      have "field ?b 19 8 = m_newOrderRef m" by (rule field64) (use tail [of 0] t in simp)
      moreover have "field ?b 27 4 = m_shares m" by (rule field32) (use tail [of 8] t in simp)
      moreover have "field ?b 31 4 = m_price m"
        by (rule field32 [where post = "[]"]) (use tail [of 12] t in simp)
      ultimately show ?thesis using u can common
        by (intro message.equality) (simp_all add: layout_def new_message_def)
    qed
  qed
  then show ?thesis
    using common ty len by (simp add: decode_as_layout decode_layout_def)
qed

text \<open>The whole buffer, framed or not.\<close>

lemma parseBuffer_framed:
  assumes "\<forall>body \<in> set bodies. 0 < length body \<and> length body < 65536"
  shows "parseBuffer (concat (map frame bodies)) (length (concat (map frame bodies))) fn s = deliver fn bodies 0 s"
  unfolding parseBuffer_def using assms by (intro parse_frames) auto

lemma parseBuffer_safe:
  assumes "sz \<le> length data" "\<And>m s. I s \<Longrightarrow> \<exists>s'. fn m s = Some s' \<and> I s'" "I s"
  shows "\<exists>n s'. parseBuffer data sz fn s = Some (n, s') \<and> I s' \<and> 21 * n \<le> sz"
  unfolding parseBuffer_def using parse_from_safe [of sz data I fn s 0 0] assms by simp

end
