(* ===== verification/Book_Replay.thy ===== *)
theory Book_Replay
  imports Order_Store Itch_Parser
begin

text \<open>
  \<^verbatim>\<open>include/book_replay.hpp\<close>: an ITCH message stream drives the book of one symbol. The packed symbol
  is the little-endian value of its eight bytes, as on the x86 machines the project targets.
\<close>

section \<open>The code\<close>

record replay =
  r_book :: order_book
  r_target :: u64
  r_seen :: u64
  r_added :: u64
  r_deleted :: u64
  r_reduced :: u64
  r_replaced :: u64

text \<open>\<open>memcpy(&x, s, 8)\<close> into a \<open>uint64_t\<close>.\<close>

definition pack8 :: "bytes \<Rightarrow> u64" where
  "pack8 s = foldr (\<lambda>x v. push_bit 8 v OR ucast x) s 0"

text \<open>The symbol is the bytes of a C string, without its terminator.\<close>

definition mk_replay :: "order_book \<Rightarrow> bytes \<Rightarrow> replay" where
  "mk_replay b symbol =
     (let len = (if length symbol > 8 then 8 else length symbol);
          s = take len symbol @ replicate (8 - len) 32
      in \<lparr>r_book = b, r_target = pack8 s, r_seen = 0, r_added = 0, r_deleted = 0, r_reduced = 0,
          r_replaced = 0\<rparr>)"

definition toCents :: "u32 \<Rightarrow> price" where
  "toCents itchPrice = uint (itchPrice div 100)"

definition isTarget :: "replay \<Rightarrow> message \<Rightarrow> bool" where
  "isTarget r m \<longleftrightarrow> pack8 (m_rawStock m) = r_target r"

definition onAdd :: "message \<Rightarrow> replay \<Rightarrow> replay option" where
  "onAdd m r =
     (if \<not> isTarget r m then Some r
      else do {
        let sd = (if m_side m = 66 then BUY else SELL);
        (b, i) \<leftarrow> addOrder (r_book r) sd (toCents (m_price m)) (ucast (m_shares m)) (m_orderRef m);
        let r = r\<lparr>r_book := b\<rparr>;
        Some (if i \<noteq> 0 then r\<lparr>r_added := r_added r + 1\<rparr> else r)
      })"

definition onDelete :: "order_id \<Rightarrow> replay \<Rightarrow> replay option" where
  "onDelete ref r =
     (if getOrder (r_book r) ref \<noteq> None then do {
        (b, _) \<leftarrow> cancelOrder (r_book r) ref;
        Some (r\<lparr>r_book := b, r_deleted := r_deleted r + 1\<rparr>)
      } else Some r)"

definition onReduce :: "order_id \<Rightarrow> u32 \<Rightarrow> replay \<Rightarrow> replay option" where
  "onReduce ref shares r = (case getOrder (r_book r) ref of
       None \<Rightarrow> Some r
     | Some a \<Rightarrow> do {
         x \<leftarrow> load (mem (r_book r)) a;
         (b, _) \<leftarrow> (if o_quantity x > ucast shares
                    then modifyOrder (r_book r) ref (o_quantity x - ucast shares)
                    else cancelOrder (r_book r) ref);
         Some (r\<lparr>r_book := b, r_reduced := r_reduced r + 1\<rparr>)
       })"

definition onReplace :: "message \<Rightarrow> replay \<Rightarrow> replay option" where
  "onReplace m r = (case getOrder (r_book r) (m_orderRef m) of
       None \<Rightarrow> Some r
     | Some a \<Rightarrow> do {
         x \<leftarrow> load (mem (r_book r)) a;
         let sd = o_side x;
         (b, _) \<leftarrow> cancelOrder (r_book r) (m_orderRef m);
         (b, i) \<leftarrow> addOrder b sd (toCents (m_price m)) (ucast (m_shares m)) (m_newOrderRef m);
         let r = r\<lparr>r_book := b\<rparr>;
         Some (if i \<noteq> 0 then r\<lparr>r_replaced := r_replaced r + 1\<rparr> else r)
       })"

text \<open>The switch on the type: 'A' 65, 'F' 70, 'D' 68, 'X' 88, 'E' 69, 'C' 67, 'U' 85.\<close>

definition onMessage :: "message \<Rightarrow> replay \<Rightarrow> replay option" where
  "onMessage m r = do {
     r \<leftarrow> (if m_type m = 65 \<or> m_type m = 70 then onAdd m r
          else if m_type m = 68 then onDelete (m_orderRef m) r
          else if m_type m = 88 then onReduce (m_orderRef m) (m_shares m) r
          else if m_type m = 69 \<or> m_type m = 67 then onReduce (m_orderRef m) (m_shares m) r
          else if m_type m = 85 then onReplace m r
          else Some r);
     Some (r\<lparr>r_seen := r_seen r + 1\<rparr>)
   }"

section \<open>What a message does to the orders of the symbol\<close>

type_synonym order_store = "order_id \<Rightarrow> resting_order option"

text \<open>
  \<open>apply_message target in_range m om\<close>: the live orders after the message, as a map from ids.
\<close>

definition apply_message :: "u64 \<Rightarrow> (price \<Rightarrow> bool) \<Rightarrow> message \<Rightarrow> order_store \<Rightarrow> order_store" where
  "apply_message target in_range m om =
     (let i = m_orderRef m; p = toCents (m_price m); q = ucast (m_shares m)
      in if m_type m \<in> {65, 70} then
           (if pack8 (m_rawStock m) = target \<and> in_range p
            then om(i \<mapsto> (if m_side m = 66 then BUY else SELL, p, q)) else om)
         else if m_type m = 68 then om(i := None)
         else if m_type m \<in> {88, 69, 67} then
           (case om i of None \<Rightarrow> om
            | Some (s, p0, q0) \<Rightarrow> om(i := (if q0 > q then Some (s, p0, q0 - q) else None)))
         else if m_type m = 85 then
           (case om i of None \<Rightarrow> om
            | Some (s, p0, q0) \<Rightarrow>
                (if in_range p then (om(i := None))(m_newOrderRef m \<mapsto> (s, p, q)) else om(i := None)))
         else om)"

text \<open>What the exchange guarantees: a new order's reference is not in use.\<close>

definition fresh_refs :: "message \<Rightarrow> order_store \<Rightarrow> bool" where
  "fresh_refs m om \<longleftrightarrow>
     (m_type m \<in> {65, 70} \<longrightarrow> om (m_orderRef m) = None)
   \<and> (m_type m = 85 \<longrightarrow> om (m_newOrderRef m) = None \<or> m_newOrderRef m = m_orderRef m)"

lemma shares_small: "unat (ucast (x::u32) :: u64) < 2 ^ 63"
proof -
  have "unat (ucast x :: u64) \<le> unat x" by (simp add: unsigned_ucast_eq take_bit_nat_less_eq_self)
  also have "\<dots> < 2 ^ 32" using unsigned_less [of x] by simp
  finally show ?thesis by simp
qed

lemma getOrder_map:
  assumes "api_inv b"
  shows "getOrder b i = None \<longleftrightarrow> order_map b i = None"
    "getOrder b i = Some a \<Longrightarrow> \<exists>x. load (mem b) a = Some x \<and> order_map b i = Some (o_side x, o_price x, o_quantity x)"
proof -
  from assms obtain Q where rep: "book_rep b Q" by (auto simp: api_inv_def book_wf_def)
  show "getOrder b i = None \<longleftrightarrow> order_map b i = None" using order_map_None [OF rep] by (simp add: getOrder_def)
  assume a: "getOrder b i = Some a"
  then obtain x where "load (mem b) a = Some x" using book_rep_orders [OF rep] by (auto simp: getOrder_def)
  then show "\<exists>x. load (mem b) a = Some x \<and> order_map b i = Some (o_side x, o_price x, o_quantity x)"
    using a by (simp add: order_map_def getOrder_def)
qed

definition replay_ok :: "replay \<Rightarrow> order_store \<Rightarrow> bool" where
  "replay_ok r om \<longleftrightarrow> api_inv (r_book r) \<and> order_map (r_book r) = om"

text \<open>Each handler does to the book what the message says.\<close>

definition handled :: "(replay \<Rightarrow> replay option) \<Rightarrow> replay \<Rightarrow> order_store \<Rightarrow> bool" where
  "handled h r om \<longleftrightarrow> (\<exists>r'. h r = Some r' \<and> replay_ok r' om \<and> r_target r' = r_target r
     \<and> inRange (r_book r') = inRange (r_book r) \<and> r_seen r' = r_seen r)"

lemma onAdd_handled:
  assumes inv: "api_inv (r_book r)" and fresh: "order_map (r_book r) (m_orderRef m) = None"
  shows "handled (onAdd m) r
    (if isTarget r m \<and> inRange (r_book r) (toCents (m_price m))
     then (order_map (r_book r))(m_orderRef m \<mapsto>
        (if m_side m = 66 then BUY else SELL, toCents (m_price m), ucast (m_shares m)))
     else order_map (r_book r))"
proof (cases "isTarget r m")
  case True
  let ?s = "if m_side m = 66 then BUY else SELL"
  from book.add_returns [OF inv shares_small fresh, of ?s "toCents (m_price m)"]
  obtain b' where "addOrder (r_book r) ?s (toCents (m_price m)) (ucast (m_shares m)) (m_orderRef m)
      = Some (b', if inRange (r_book r) (toCents (m_price m)) then m_orderRef m else 0)"
    "api_inv b'" "inRange b' = inRange (r_book r)"
    "order_map b' = (if inRange (r_book r) (toCents (m_price m))
      then (order_map (r_book r))(m_orderRef m \<mapsto> (?s, toCents (m_price m), ucast (m_shares m)))
      else order_map (r_book r))"
    by blast
  then show ?thesis
    using True by (simp add: handled_def onAdd_def replay_ok_def Let_def)
qed (use inv in \<open>simp add: handled_def onAdd_def replay_ok_def\<close>)

lemma onDelete_handled:
  assumes inv: "api_inv (r_book r)"
  shows "handled (onDelete i) r ((order_map (r_book r))(i := None))"
proof (cases "order_map (r_book r) i = None")
  case True
  then show ?thesis
    using inv getOrder_map(1) [OF inv, of i]
    by (simp add: handled_def onDelete_def replay_ok_def fun_upd_idem)
next
  case False
  from book.cancel_removes [OF inv, of i] obtain b' where
    "cancelOrder (r_book r) i = Some (b', order_map (r_book r) i \<noteq> None)" "api_inv b'"
    "order_map b' = (order_map (r_book r))(i := None)" "inRange b' = inRange (r_book r)" by blast
  then show ?thesis
    using False getOrder_map(1) [OF inv, of i] by (simp add: handled_def onDelete_def replay_ok_def)
qed

lemma onReduce_handled:
  assumes inv: "api_inv (r_book r)"
  shows "handled (onReduce i d) r (case order_map (r_book r) i of None \<Rightarrow> order_map (r_book r)
     | Some (s, p, q) \<Rightarrow> (order_map (r_book r))(i := (if q > ucast d then Some (s, p, q - ucast d) else None)))"
proof (cases "getOrder (r_book r) i")
  case None
  then show ?thesis
    using inv getOrder_map(1) [OF inv, of i] by (simp add: handled_def onReduce_def replay_ok_def)
next
  case (Some a)
  from getOrder_map(2) [OF inv Some] obtain x where
    x: "load (mem (r_book r)) a = Some x" "order_map (r_book r) i = Some (o_side x, o_price x, o_quantity x)" by blast
  from book.reduce_works [OF inv x(2) order_map_small [OF inv x(2)], of "ucast d"]
  obtain b' t where "(if o_quantity x > ucast d then modifyOrder (r_book r) i (o_quantity x - ucast d)
       else cancelOrder (r_book r) i) = Some (b', t)" "api_inv b'"
    "order_map b' = (order_map (r_book r))
       (i := (if o_quantity x > ucast d then Some (o_side x, o_price x, o_quantity x - ucast d) else None))"
    "inRange b' = inRange (r_book r)" by blast
  then show ?thesis using Some x by (simp add: handled_def onReduce_def replay_ok_def)
qed

lemma onReplace_handled:
  assumes inv: "api_inv (r_book r)"
    and fresh: "order_map (r_book r) (m_newOrderRef m) = None \<or> m_newOrderRef m = m_orderRef m"
  shows "handled (onReplace m) r (case order_map (r_book r) (m_orderRef m) of None \<Rightarrow> order_map (r_book r)
     | Some (s, p0, q0) \<Rightarrow>
         (if inRange (r_book r) (toCents (m_price m))
          then ((order_map (r_book r))(m_orderRef m := None))(m_newOrderRef m \<mapsto> (s, toCents (m_price m), ucast (m_shares m)))
          else (order_map (r_book r))(m_orderRef m := None)))"
proof (cases "getOrder (r_book r) (m_orderRef m)")
  case None
  then show ?thesis
    using inv getOrder_map(1) [OF inv, of "m_orderRef m"] by (simp add: handled_def onReplace_def replay_ok_def)
next
  case (Some a)
  from getOrder_map(2) [OF inv Some] obtain x where
    x: "load (mem (r_book r)) a = Some x"
      "order_map (r_book r) (m_orderRef m) = Some (o_side x, o_price x, o_quantity x)" by blast
  from book.replace_works [OF inv x(2) shares_small fresh, of "toCents (m_price m)" "m_shares m"]
  obtain b1 t b2 where "cancelOrder (r_book r) (m_orderRef m) = Some (b1, t)"
    "addOrder b1 (o_side x) (toCents (m_price m)) (ucast (m_shares m)) (m_newOrderRef m)
      = Some (b2, if inRange (r_book r) (toCents (m_price m)) then m_newOrderRef m else 0)" "api_inv b2"
    "order_map b2 = (if inRange (r_book r) (toCents (m_price m))
      then ((order_map (r_book r))(m_orderRef m := None))
        (m_newOrderRef m \<mapsto> (o_side x, toCents (m_price m), ucast (m_shares m)))
      else (order_map (r_book r))(m_orderRef m := None))"
    "inRange b2 = inRange (r_book r)" by blast
  then show ?thesis using Some x by (simp add: handled_def onReplace_def replay_ok_def Let_def)
qed

lemma onMessage_refines:
  assumes inv: "api_inv (r_book r)" and fresh: "fresh_refs m (order_map (r_book r))"
  shows "\<exists>r'. onMessage m r = Some r'
    \<and> replay_ok r' (apply_message (r_target r) (inRange (r_book r)) m (order_map (r_book r)))
    \<and> r_target r' = r_target r \<and> inRange (r_book r') = inRange (r_book r) \<and> r_seen r' = r_seen r + 1"
proof -
  note H = handled_def onMessage_def apply_message_def Let_def replay_ok_def
  consider (a) "m_type m \<in> {65, 70}" | (d) "m_type m = 68" | (x) "m_type m \<in> {88, 69, 67}" | (u) "m_type m = 85"
    | (other) "m_type m \<notin> modelled_types"
    by (auto simp: modelled_types_def)
  then show ?thesis
  proof cases
    case a
    then have "order_map (r_book r) (m_orderRef m) = None" using fresh by (auto simp: fresh_refs_def)
    from onAdd_handled [OF inv this] a show ?thesis by (auto simp: H isTarget_def)
  next
    case d
    with onDelete_handled [OF inv, of "m_orderRef m"] show ?thesis by (auto simp: H)
  next
    case x
    with onReduce_handled [OF inv, of "m_orderRef m" "m_shares m"] show ?thesis by (auto simp: H)
  next
    case u
    then have "order_map (r_book r) (m_newOrderRef m) = None \<or> m_newOrderRef m = m_orderRef m"
      using fresh by (simp add: fresh_refs_def)
    from onReplace_handled [OF inv this] u show ?thesis by (auto simp: H)
  next
    case other
    then show ?thesis using inv by (auto simp: H modelled_types_def)
  qed
qed

section \<open>A whole stream\<close>

text \<open>The modelled messages among the message bodies of a stream.\<close>

definition modelled_messages :: "bytes list \<Rightarrow> message list" where
  "modelled_messages bodies = map snd (filter fst (map (\<lambda>body. decode_layout body new_message) bodies))"

primrec fresh_stream :: "u64 \<Rightarrow> (price \<Rightarrow> bool) \<Rightarrow> message list \<Rightarrow> order_store \<Rightarrow> bool" where
  "fresh_stream target in_range [] om \<longleftrightarrow> True"
| "fresh_stream target in_range (m # ms) om \<longleftrightarrow>
     fresh_refs m om \<and> fresh_stream target in_range ms (apply_message target in_range m om)"

lemma deliver_onMessage:
  assumes "api_inv (r_book r)"
    and "fresh_stream (r_target r) (inRange (r_book r)) (modelled_messages bodies) (order_map (r_book r))"
  shows "\<exists>r'. deliver onMessage bodies count r = Some (count + length (modelled_messages bodies), r')
    \<and> replay_ok r' (fold (apply_message (r_target r) (inRange (r_book r))) (modelled_messages bodies)
        (order_map (r_book r)))
    \<and> r_seen r' = r_seen r + of_nat (length (modelled_messages bodies))"
  using assms
proof (induction bodies arbitrary: r count)
  case Nil
  then show ?case by (simp add: modelled_messages_def replay_ok_def)
next
  case (Cons body bodies)
  obtain ok m where d: "decode_layout body new_message = (ok, m)" by (cases "decode_layout body new_message")
  show ?case
  proof (cases ok)
    case False
    then have "modelled_messages (body # bodies) = modelled_messages bodies"
      by (simp add: modelled_messages_def d)
    then show ?thesis using Cons False by (simp add: d)
  next
    case True
    then have ms: "modelled_messages (body # bodies) = m # modelled_messages bodies"
      by (simp add: modelled_messages_def d)
    from Cons.prems(2) have fresh: "fresh_refs m (order_map (r_book r))" by (simp add: ms)
    obtain r1 where r1: "onMessage m r = Some r1"
      "replay_ok r1 (apply_message (r_target r) (inRange (r_book r)) m (order_map (r_book r)))"
      "r_target r1 = r_target r" "inRange (r_book r1) = inRange (r_book r)" "r_seen r1 = r_seen r + 1"
      using onMessage_refines [OF Cons.prems(1) fresh] by blast
    have "\<exists>r'. deliver onMessage bodies (count + 1) r1 = Some (count + 1 + length (modelled_messages bodies), r')
      \<and> replay_ok r' (fold (apply_message (r_target r1) (inRange (r_book r1))) (modelled_messages bodies)
          (order_map (r_book r1)))
      \<and> r_seen r' = r_seen r1 + of_nat (length (modelled_messages bodies))"
      using r1(2) Cons.prems(2) by (intro Cons.IH) (simp_all add: ms r1(3,4) replay_ok_def)
    then show ?thesis using True r1 by (simp add: d ms replay_ok_def add.assoc)
  qed
qed

section \<open>The packed symbol\<close>

lemma pack8_Cons: "pack8 (x # s) = pack8 s * 256 + ucast x"
  by (simp add: pack8_def shift_or)

lemma unat_pack8: "length s \<le> 8 \<Longrightarrow> unat (pack8 s) < 256 ^ length s
   \<and> (s \<noteq> [] \<longrightarrow> unat (pack8 s) = unat (pack8 (tl s)) * 256 + unat (hd s))"
proof (induction s)
  case (Cons x s)
  then have ih: "unat (pack8 s) < 256 ^ length s" by simp
  have x: "unat x < 256" "unat (ucast x :: u64) = unat x"
    by (rule unat_u8 unat_ucast_u8)+
  have "unat (pack8 s) * 256 + unat x < 256 ^ Suc (length s)" using ih x(1) by simp
  moreover have "(256::nat) ^ Suc (length s) \<le> 256 ^ 8" using Cons.prems by (intro power_increasing) auto
  ultimately have small: "unat (pack8 s) * 256 + unat x < 2 ^ 64" by simp
  have "unat (pack8 (x # s)) = unat (of_nat (unat (pack8 s) * 256 + unat x) :: u64)"
    by (simp add: pack8_Cons)
  also have "\<dots> = unat (pack8 s) * 256 + unat x" by (rule unat_of_nat_u64 [OF small])
  finally show ?case using ih x(1) by simp
qed (simp add: pack8_def)

lemma pack8_inject: "length s = length t \<Longrightarrow> length s \<le> 8 \<Longrightarrow> pack8 s = pack8 t \<longleftrightarrow> s = t"
proof (induction s t rule: list_induct2)
  case (Cons x s y t)
  have u: "unat (pack8 (x # s)) = unat (pack8 s) * 256 + unat x"
    "unat (pack8 (y # t)) = unat (pack8 t) * 256 + unat y"
    using unat_pack8 [of "x # s"] unat_pack8 [of "y # t"] Cons by simp_all
  have b: "unat x < 256" "unat y < 256" by (rule unat_u8)+
  have "pack8 (x # s) = pack8 (y # t) \<longleftrightarrow> unat (pack8 s) * 256 + unat x = unat (pack8 t) * 256 + unat y"
    by (simp add: u word_unat_eq_iff)
  also have "\<dots> \<longleftrightarrow> unat (pack8 s) = unat (pack8 t) \<and> unat x = unat y" by (rule digit_inject [OF b])
  also have "\<dots> \<longleftrightarrow> pack8 s = pack8 t \<and> x = y" by (simp only: word_unat_eq_iff)
  also have "\<dots> \<longleftrightarrow> x # s = y # t" using Cons by auto
  finally show ?case .
qed simp

definition padded :: "bytes \<Rightarrow> bytes" where
  "padded symbol = take 8 (symbol @ replicate 8 32)"

lemma mk_replay_target: "r_target (mk_replay b symbol) = pack8 (padded symbol)"
proof (cases "length symbol > 8")
  case False
  then show ?thesis by (simp add: mk_replay_def padded_def min_def)
qed (simp add: mk_replay_def padded_def)

lemma length_padded [simp]: "length (padded symbol) = 8"
  by (simp add: padded_def)

lemma isTarget_padded:
  "length (m_rawStock m) = 8 \<Longrightarrow> r_target r = r_target (mk_replay b symbol) \<Longrightarrow>
     isTarget r m \<longleftrightarrow> m_rawStock m = padded symbol"
  by (simp add: isTarget_def mk_replay_target pack8_inject)

end
