(* ===== verification/Sample_Feed.thy ===== *)
theory Sample_Feed
  imports Sample_Books Book_Replay
begin

text \<open>
  A small feed for the symbol AB: an add, a system event the parser does not model, an execution and
  a replacement, and the replay of an empty book on which the feed's properties are instantiated.
\<close>

definition sample_add :: message where
  "sample_add = new_message\<lparr>m_type := 65, m_timestamp := 1, m_orderRef := 10, m_side := 66, m_shares := 5,
     m_price := 200, m_rawStock := [65, 66, 32, 32, 32, 32, 32, 32], m_stock := [65, 66, 0, 0, 0, 0, 0, 0, 0]\<rparr>"

definition sample_execute :: message where
  "sample_execute = new_message\<lparr>m_type := 69, m_timestamp := 2, m_orderRef := 10, m_shares := 2\<rparr>"

definition sample_move :: message where
  "sample_move = new_message\<lparr>m_type := 85, m_timestamp := 3, m_orderRef := 10, m_newOrderRef := 11,
     m_shares := 4, m_price := 100\<rparr>"

definition sample_bodies :: "bytes list" where
  "sample_bodies = [encode [0, 0, 0, 0] [] sample_add, [83, 0, 0],
     encode [0, 0, 0, 0] (replicate 8 0) sample_execute, encode [0, 0, 0, 0] [] sample_move]"

definition sample_symbol :: bytes where
  "sample_symbol = [65, 66]"

definition sample_replay :: replay where
  "sample_replay = mk_replay book_0 sample_symbol"

lemmas sample_defs = sample_add_def sample_execute_def sample_move_def new_message_def

lemma sample_add_canonical: "canonical sample_add"
proof -
  have "trimStock [65, 66, 32, 32, 32, 32, 32, 32, 0] = [65, 66, 0, 0, 0, 0, 0, 0, 0]" by code_simp
  then show ?thesis by (simp add: canonical_def sample_defs modelled_types_def)
qed

lemma sample_bodies_framed: "\<forall>body \<in> set sample_bodies. 0 < length body \<and> length body < 65536"
  by (simp add: sample_bodies_def encode_def encode_tail_def sample_defs)

lemma sample_replay_inv: "api_inv (r_book sample_replay)"
  by (simp add: sample_replay_def mk_replay_def Let_def reachable_inv [OF book_0_reachable])

lemma sample_book_empty: "order_map (r_book sample_replay) = (\<lambda>i. None)"
proof
  fix i
  have "orders book_0 = (\<lambda>i. None)" by (simp add: book_0_def mk_book_def int64_range_def)
  then show "order_map (r_book sample_replay) i = None"
    by (simp add: sample_replay_def mk_replay_def order_map_def Let_def)
qed

lemma sample_add_fresh: "fresh_refs sample_add (order_map (r_book sample_replay))"
  unfolding sample_book_empty by (simp add: fresh_refs_def)

lemma sample_messages: "modelled_messages sample_bodies = [sample_add, sample_execute, sample_move]"
  by code_simp

lemma sample_stream_fresh:
  "fresh_stream (r_target sample_replay) (inRange (r_book sample_replay)) (modelled_messages sample_bodies)
     (order_map (r_book sample_replay))"
  unfolding sample_messages sample_book_empty by code_simp

lemma sample_stream_from_empty:
  "fresh_stream (pack8 (padded sample_symbol)) (\<lambda>p. 1 \<le> p \<and> p \<le> 500000) (modelled_messages sample_bodies) Map.empty"
  unfolding sample_messages by code_simp

end
