(* ===== verification/Event_Queue.thy ===== *)
theory Event_Queue
  imports Prelude
begin

text \<open>
  What the two ends of the metrics pipeline rely on: a bounded first-in first-out queue whose push
  reports a full queue and whose pop reports an empty one. The recorder pushes, the aggregator pops.
\<close>

section \<open>Clients of a queue\<close>

text \<open>Pushing a list of events one after the other: what fits is stored, the rest is refused.\<close>

primrec push_all :: "('e \<Rightarrow> 'q \<Rightarrow> ('q \<times> bool) option) \<Rightarrow> 'e list \<Rightarrow> 'q \<Rightarrow> ('q \<times> nat) option" where
  "push_all push [] q = Some (q, 0)"
| "push_all push (v # vs) q = do {
     (q, ok) \<leftarrow> push v q;
     (q, n) \<leftarrow> push_all push vs q;
     Some (q, if ok then n else Suc n)
   }"

text \<open>Popping into a fold until the queue is empty; a queue of \<open>n\<close> events needs \<open>n + 1\<close> pops.\<close>

primrec drain :: "('q \<Rightarrow> ('q \<times> 'e option) option) \<Rightarrow> nat \<Rightarrow> ('e \<Rightarrow> 's \<Rightarrow> 's option) \<Rightarrow> 'q \<Rightarrow> 's \<Rightarrow> ('q \<times> 's) option" where
  "drain pop 0 f q s = None"
| "drain pop (Suc n) f q s = do {
     (q, e) \<leftarrow> pop q;
     case e of None \<Rightarrow> Some (q, s) | Some e \<Rightarrow> do { s \<leftarrow> f e s; drain pop n f q s }
   }"

primrec fold_opt :: "('e \<Rightarrow> 's \<Rightarrow> 's option) \<Rightarrow> 'e list \<Rightarrow> 's \<Rightarrow> 's option" where
  "fold_opt f [] s = Some s"
| "fold_opt f (e # es) s = do { s \<leftarrow> f e s; fold_opt f es s }"

section \<open>The interface\<close>

locale event_queue =
  fixes inv :: "'q \<Rightarrow> bool"
    and contents :: "'q \<Rightarrow> 'e list"
    and cap :: nat
    and push :: "'e \<Rightarrow> 'q \<Rightarrow> ('q \<times> bool) option"
    and pop :: "'q \<Rightarrow> ('q \<times> 'e option) option"
  assumes bounded: "inv q \<Longrightarrow> length (contents q) \<le> cap"
    and push_stores: "inv q \<Longrightarrow> length (contents q) < cap \<Longrightarrow>
      \<exists>q'. push v q = Some (q', True) \<and> inv q' \<and> contents q' = contents q @ [v]"
    and push_full: "inv q \<Longrightarrow> length (contents q) = cap \<Longrightarrow>
      \<exists>q'. push v q = Some (q', False) \<and> inv q' \<and> contents q' = contents q"
    and pop_takes: "inv q \<Longrightarrow> contents q = v # vs \<Longrightarrow> \<exists>q'. pop q = Some (q', Some v) \<and> inv q' \<and> contents q' = vs"
    and pop_empty: "inv q \<Longrightarrow> contents q = [] \<Longrightarrow> \<exists>q'. pop q = Some (q', None) \<and> inv q' \<and> contents q' = []"
begin

lemma push_cases:
  assumes "inv q"
  shows "\<exists>q' ok. push v q = Some (q', ok) \<and> inv q' \<and> ok = (length (contents q) < cap)
    \<and> contents q' = contents q @ (if ok then [v] else [])"
proof (cases "length (contents q) < cap")
  case True
  then show ?thesis using push_stores [OF assms True, of v] by auto
next
  case False
  then have "length (contents q) = cap" using bounded [OF assms] by simp
  then show ?thesis using push_full [OF assms, of v] by auto
qed

lemma pop_cases:
  assumes "inv q"
  shows "\<exists>q'. pop q = Some (q', first_of (contents q)) \<and> inv q' \<and> contents q' = tl (contents q)"
  using pop_takes [OF assms] pop_empty [OF assms] by (cases "contents q") auto

lemma push_all_accounting:
  "inv q \<Longrightarrow> \<exists>q' n. push_all push vs q = Some (q', n) \<and> inv q'
     \<and> contents q' = contents q @ take (cap - length (contents q)) vs
     \<and> n = length vs - (cap - length (contents q))"
proof (induction vs arbitrary: q)
  case (Cons v vs)
  from push_cases [OF Cons.prems, of v] obtain q1 ok where
    q1: "push v q = Some (q1, ok)" "inv q1" "ok = (length (contents q) < cap)"
      "contents q1 = contents q @ (if ok then [v] else [])" by blast
  from Cons.IH [OF q1(2)] obtain q2 n where
    q2: "push_all push vs q1 = Some (q2, n)" "inv q2" "contents q2 = contents q1 @ take (cap - length (contents q1)) vs"
      "n = length vs - (cap - length (contents q1))" by blast
  show ?case
  proof (cases ok)
    case True
    then have "cap - length (contents q) = Suc (cap - length (contents q1))" using q1(3,4) by simp
    then show ?thesis using True q1 q2 by simp
  next
    case False
    then have "cap - length (contents q) = 0" "cap - length (contents q1) = 0" using q1(3,4) by simp_all
    then show ?thesis using False q1 q2 by simp
  qed
qed simp

lemma drain_fold:
  "inv q \<Longrightarrow> n > length (contents q) \<Longrightarrow> fold_opt f (contents q) s = Some s' \<Longrightarrow>
     \<exists>q'. drain pop n f q s = Some (q', s') \<and> inv q' \<and> contents q' = []"
proof (induction n arbitrary: q s)
  case (Suc n)
  show ?case
  proof (cases "contents q")
    case Nil
    then show ?thesis using Suc.prems pop_empty [OF Suc.prems(1)] by auto
  next
    case (Cons e es)
    then obtain q1 where q1: "pop q = Some (q1, Some e)" "inv q1" "contents q1 = es"
      using pop_takes [OF Suc.prems(1)] by blast
    from Suc.prems(3) Cons obtain s1 where s1: "f e s = Some s1" "fold_opt f es s1 = Some s'" by auto
    then show ?thesis using Suc.IH [of q1 s1] Suc.prems q1 Cons by simp
  qed
qed simp

end

end
