(* ===== verification/Spsc_Ring.thy ===== *)
theory Spsc_Ring
  imports Event_Queue
begin

text \<open>
  The lock-free ring of \<^verbatim>\<open>metrics/include/spsc_ring.hpp\<close>: the operations as they run alone, what they
  do to the queue the ring stands for, and the interleaving of one producer with one consumer at
  the granularity of their accesses to the shared fields, taken in program order (the acquire and
  release orders of the source order them so, as no slot is accessed by both sides at once).
\<close>

unbundle bit_operations_syntax

section \<open>The ring\<close>

text \<open>A slot that was never written holds \<open>None\<close>; \<open>cap\<close> is the template's capacity.\<close>

record 'a ring =
  head :: u64
  tail_cache :: u64
  tail :: u64
  head_cache :: u64
  ring_buf :: "'a option list"

definition mk_ring :: "u64 \<Rightarrow> 'a ring" where
  "mk_ring cap = \<lparr>head = 0, tail_cache = 0, tail = 0, head_cache = 0, ring_buf = replicate (unat cap) None\<rparr>"

definition slot_index :: "u64 \<Rightarrow> u64 \<Rightarrow> int" where
  "slot_index cap i = uint (i AND (cap - 1))"

definition store_slot :: "u64 \<Rightarrow> u64 \<Rightarrow> 'a \<Rightarrow> 'a ring \<Rightarrow> 'a ring option" where
  "store_slot cap h v r = do { b \<leftarrow> vec_set (ring_buf r) (slot_index cap h) (Some v); Some (r\<lparr>ring_buf := b\<rparr>) }"

definition fetch_slot :: "u64 \<Rightarrow> u64 \<Rightarrow> 'a ring \<Rightarrow> 'a option" where
  "fetch_slot cap t r = do { x \<leftarrow> vec_get (ring_buf r) (slot_index cap t); x }"

definition try_push :: "u64 \<Rightarrow> 'a \<Rightarrow> 'a ring \<Rightarrow> ('a ring \<times> bool) option" where
  "try_push cap v r =
     (let h = head r;
          publish = (\<lambda>r. do { r \<leftarrow> store_slot cap h v r; Some (r\<lparr>head := h + 1\<rparr>, True) })
      in if h - tail_cache r \<ge> cap
         then (let r = r\<lparr>tail_cache := tail r\<rparr>
               in if h - tail_cache r \<ge> cap then Some (r, False) else publish r)
         else publish r)"

definition try_pop :: "u64 \<Rightarrow> 'a ring \<Rightarrow> ('a ring \<times> 'a option) option" where
  "try_pop cap r =
     (let t = tail r;
          publish = (\<lambda>r. do { x \<leftarrow> fetch_slot cap t r; Some (r\<lparr>tail := t + 1\<rparr>, Some x) })
      in if t = head_cache r
         then (let r = r\<lparr>head_cache := head r\<rparr>
               in if t = head_cache r then Some (r, None) else publish r)
         else publish r)"

definition size_approx :: "'a ring \<Rightarrow> u64" where
  "size_approx r = head r - tail r"

section \<open>Slots\<close>

text \<open>The template's static assertion: a power of two, at least 2.\<close>

definition valid_cap :: "u64 \<Rightarrow> bool" where
  "valid_cap cap \<longleftrightarrow> cap \<in> (\<lambda>k. 2 ^ k) ` {1..<64}"

lemma valid_cap_power:
  assumes "valid_cap cap"
  obtains k where "k < 64" "cap = 2 ^ k" "unat cap = 2 ^ k" "k > 0"
proof -
  from assms obtain k where "k \<in> {1..<64}" "cap = 2 ^ k" unfolding valid_cap_def by blast
  then have k: "0 < k" "k < 64" "cap = 2 ^ k" by simp_all
  have "(2::nat) ^ k < 2 ^ 64" using k(2) by (rule power_strict_increasing) simp
  then have "unat (2 ^ k :: u64) = 2 ^ k" using unat_of_nat_u64 [of "2 ^ k"] by simp
  then show ?thesis using that k by simp
qed

lemma slot_index_mod:
  assumes "valid_cap cap"
  shows "slot_index cap (of_nat i) = int (i mod unat cap)"
proof -
  obtain k where k: "k < 64" "unat cap = 2 ^ k" "cap = 2 ^ k" by (rule valid_cap_power [OF assms])
  then have "of_nat i AND (cap - 1) = take_bit k (of_nat i :: u64)"
    by (simp add: take_bit_eq_mask mask_eq_exp_minus_1)
  moreover have "unat (take_bit k (of_nat i :: u64)) = take_bit k (take_bit 64 i)"
    by (simp add: unsigned_take_bit_eq unsigned_of_nat)
  moreover have "take_bit k (take_bit 64 i) = i mod 2 ^ k" using k(1) unfolding take_bit_take_bit by (simp add: take_bit_eq_mod)
  ultimately show ?thesis by (simp add: slot_index_def k(2) uint_nat)
qed

lemma cap_pos: "valid_cap cap \<Longrightarrow> 0 < unat cap"
  by (rule valid_cap_power) auto

lemma cap_less: "unat (cap :: u64) < 2 ^ 64"
  using unsigned_less [of cap] by simp

text \<open>Counters that are at most a capacity apart: their wrapped difference is the distance.\<close>

lemma counter_distance:
  assumes "m \<le> n" "n - m \<le> unat (cap :: u64)"
  shows "unat (of_nat n - of_nat m :: u64) = n - m"
proof -
  have "of_nat n - of_nat m = (of_nat (n - m) :: u64)" using assms(1) by (simp add: of_nat_diff)
  moreover have "n - m < 2 ^ 64" using assms(2) cap_less [of cap] by linarith
  ultimately show ?thesis by (simp add: unat_of_nat_u64)
qed

lemma counter_full:
  "m \<le> n \<Longrightarrow> n - m \<le> unat cap \<Longrightarrow> (of_nat n - of_nat m \<ge> (cap :: u64)) \<longleftrightarrow> n - m = unat cap"
  by (auto simp: word_le_nat_alt counter_distance)

lemma counter_equal:
  "m \<le> n \<Longrightarrow> n - m \<le> unat (cap :: u64) \<Longrightarrow> (of_nat m = (of_nat n :: u64)) \<longleftrightarrow> m = n"
  using counter_distance [of m n cap] by auto

section \<open>The queue a ring stands for\<close>

text \<open>
  \<open>ring_counts cap r xs p tc hc\<close>: \<open>p\<close> elements were popped, \<open>xs\<close> are stored, and the cached
  counters are the older values \<open>tc\<close> and \<open>hc\<close>.
\<close>

definition ring_counts :: "u64 \<Rightarrow> 'a ring \<Rightarrow> 'a list \<Rightarrow> nat \<Rightarrow> nat \<Rightarrow> nat \<Rightarrow> bool" where
  "ring_counts cap r xs p tc hc \<longleftrightarrow>
     head r = of_nat (p + length xs) \<and> tail r = of_nat p \<and> tail_cache r = of_nat tc \<and> head_cache r = of_nat hc
   \<and> tc \<le> p \<and> p \<le> hc \<and> hc \<le> p + length xs \<and> p + length xs - tc \<le> unat cap
   \<and> length (ring_buf r) = unat cap \<and> (\<forall>i<length xs. ring_buf r ! ((p + i) mod unat cap) = Some (xs ! i))"

lemma ring_counts_new: "ring_counts cap (mk_ring cap) [] 0 0 0"
  by (simp add: ring_counts_def mk_ring_def)

lemma fetch_slot_at:
  "valid_cap cap \<Longrightarrow> length (ring_buf r) = unat cap \<Longrightarrow> fetch_slot cap (of_nat i) r = ring_buf r ! (i mod unat cap)"
  unfolding fetch_slot_def slot_index_mod by (simp add: cap_pos)

lemma store_slot_at:
  "valid_cap cap \<Longrightarrow> length (ring_buf r) = unat cap \<Longrightarrow>
     store_slot cap (of_nat i) v r = Some (r\<lparr>ring_buf := (ring_buf r)[i mod unat cap := Some v]\<rparr>)"
  unfolding store_slot_def slot_index_mod by (simp add: cap_pos)

lemma ring_counts_store:
  assumes "valid_cap cap" "ring_counts cap r xs p tc hc" "p + length xs - tc < unat cap"
  shows "ring_counts cap (r\<lparr>ring_buf := (ring_buf r)[(p + length xs) mod unat cap := Some v], head := of_nat (p + length xs) + 1\<rparr>)
    (xs @ [v]) p tc hc"
proof -
  let ?s = "(p + length xs) mod unat cap"
  have "(ring_buf r)[?s := Some v] ! ((p + i) mod unat cap) = Some ((xs @ [v]) ! i)" if "i < length (xs @ [v])" for i
  proof (cases "i = length xs")
    case True
    then show ?thesis using assms(2) cap_pos [OF assms(1)] by (simp add: ring_counts_def)
  next
    case False
    then have "(p + i) mod unat cap \<noteq> ?s"
      using that assms(2,3) by (intro mod_distinct) (auto simp: ring_counts_def)
    then show ?thesis using that False assms(2) by (simp add: ring_counts_def nth_append)
  qed
  then show ?thesis using assms(2,3) by (simp add: ring_counts_def)
qed

lemma try_push_works:
  assumes cap: "valid_cap cap" and rep: "ring_counts cap r xs p tc hc"
  shows "\<exists>r' tc'. try_push cap v r = Some (r', length xs < unat cap)
    \<and> ring_counts cap r' (xs @ (if length xs < unat cap then [v] else [])) p tc' hc"
proof -
  have len: "length (ring_buf r) = unat cap" and h: "head r = of_nat (p + length xs)" "tail r = of_nat p" "tail_cache r = of_nat tc"
    using rep by (simp_all add: ring_counts_def)
  have le: "tc \<le> p + length xs" "p + length xs - tc \<le> unat cap" "tc \<le> p" using rep by (simp_all add: ring_counts_def)
  note full = counter_full [OF le(1,2)]
  note full2 = counter_full [of p "p + length xs" cap]
  show ?thesis
  proof (cases "p + length xs - tc = unat cap")
    case False
    then have room: "p + length xs - tc < unat cap" "length xs < unat cap" using le by linarith+
    then show ?thesis
      using ring_counts_store [OF cap rep room(1), of v] False full
      by (auto simp: try_push_def Let_def h store_slot_at [OF cap len] simp del: of_nat_add)
  next
    case True
    let ?r = "r\<lparr>tail_cache := of_nat p\<rparr>"
    have rep2: "ring_counts cap ?r xs p p hc" using rep by (auto simp: ring_counts_def)
    show ?thesis
    proof (cases "length xs = unat cap")
      case t: True
      then show ?thesis using rep2 True full full2 by (auto simp: try_push_def Let_def h simp del: of_nat_add)
    next
      case False
      then have room: "p + length xs - p < unat cap" "length xs < unat cap" using le True by linarith+
      then show ?thesis
        using ring_counts_store [OF cap rep2 room(1), of v] True False full full2 store_slot_at [OF cap, of ?r]
        by (auto simp: try_push_def Let_def h len simp del: of_nat_add)
    qed
  qed
qed

lemma ring_counts_take:
  assumes "ring_counts cap r (x # xs) p tc hc" "p < hc"
  shows "ring_counts cap (r\<lparr>tail := of_nat p + 1\<rparr>) xs (Suc p) tc hc"
proof -
  have "ring_buf r ! ((Suc p + i) mod unat cap) = Some (xs ! i)" if "i < length xs" for i
  proof -
    have "Suc i < length (x # xs)" using that by simp
    then show ?thesis using assms(1) unfolding ring_counts_def by (metis add_Suc_shift nth_Cons_Suc)
  qed
  then show ?thesis using assms by (auto simp: ring_counts_def)
qed

lemma try_pop_works:
  assumes cap: "valid_cap cap" and rep: "ring_counts cap r xs p tc hc"
  shows "\<exists>r' p' hc'. try_pop cap r = Some (r', first_of xs) \<and> ring_counts cap r' (tl xs) p' tc hc'"
proof -
  have len: "length (ring_buf r) = unat cap" and h: "head r = of_nat (p + length xs)" "tail r = of_nat p" "head_cache r = of_nat hc"
    using rep by (simp_all add: ring_counts_def)
  have le: "p \<le> hc" "hc - p \<le> unat cap" "length xs \<le> unat cap" using rep by (auto simp: ring_counts_def)
  note eq = counter_equal [OF le(1,2)]
  note eq2 = counter_equal [of p "p + length xs" cap]
  have first: "ring_buf r ! (p mod unat cap) = Some x" if "xs = x # ys" for x ys
    using rep that by (force simp: ring_counts_def)
  show ?thesis
  proof (cases "p = hc")
    case False
    then obtain x ys where xs: "xs = x # ys" using rep by (cases xs) (auto simp: ring_counts_def)
    have "p < hc" using False le by simp
    then show ?thesis
      using False eq ring_counts_take [OF rep [unfolded xs]] first [OF xs]
      by (auto simp: try_pop_def Let_def h xs fetch_slot_at [OF cap len] simp del: of_nat_add)
  next
    case True
    let ?r = "r\<lparr>head_cache := of_nat (p + length xs)\<rparr>"
    have rep2: "ring_counts cap ?r xs p tc (p + length xs)" using rep by (auto simp: ring_counts_def)
    show ?thesis
    proof (cases xs)
      case Nil
      then show ?thesis using rep2 True by (auto simp: try_pop_def Let_def h)
    next
      case (Cons x ys)
      then show ?thesis
        using True eq2 le ring_counts_take [OF rep2 [unfolded Cons]] first [OF Cons] fetch_slot_at [OF cap, of ?r]
        by (auto simp: try_pop_def Let_def h len simp del: of_nat_add)
    qed
  qed
qed

definition ring_contents :: "u64 \<Rightarrow> 'a ring \<Rightarrow> 'a list" where
  "ring_contents cap r = map (\<lambda>i. the (fetch_slot cap (tail r + of_nat i) r)) [0..<unat (size_approx r)]"

definition ring_inv :: "u64 \<Rightarrow> 'a ring \<Rightarrow> bool" where
  "ring_inv cap r \<longleftrightarrow> (\<exists>xs p tc hc. ring_counts cap r xs p tc hc)"

lemma ring_counts_contents:
  assumes "valid_cap cap" "ring_counts cap r xs p tc hc"
  shows "ring_contents cap r = xs"
proof -
  have "length xs \<le> unat cap" using assms(2) by (auto simp: ring_counts_def)
  then have n: "unat (size_approx r) = length xs"
    using counter_distance [of p "p + length xs" cap] assms(2) by (simp add: size_approx_def ring_counts_def)
  have len: "length (ring_buf r) = unat cap" using assms(2) by (simp add: ring_counts_def)
  show ?thesis
    unfolding ring_contents_def n
  proof (rule nth_equalityI)
    fix i assume "i < length (map (\<lambda>i. the (fetch_slot cap (tail r + of_nat i) r)) [0..<length xs])"
    then have "i < length xs" by simp
    moreover have "tail r + of_nat i = of_nat (p + i)" using assms(2) by (simp add: ring_counts_def)
    ultimately show "map (\<lambda>i. the (fetch_slot cap (tail r + of_nat i) r)) [0..<length xs] ! i = xs ! i"
      using assms(2) by (simp add: fetch_slot_at [OF assms(1) len] ring_counts_def del: of_nat_add)
  qed simp
qed

lemma ring_inv_counts:
  assumes "valid_cap cap" "ring_inv cap r"
  obtains p tc hc where "ring_counts cap r (ring_contents cap r) p tc hc"
  using assms ring_counts_contents [OF assms(1)] unfolding ring_inv_def by metis

lemma ring_inv_bounded: "valid_cap cap \<Longrightarrow> ring_inv cap r \<Longrightarrow> length (ring_contents cap r) \<le> unat cap"
  by (erule (1) ring_inv_counts) (auto simp: ring_counts_def)

lemma ring_push:
  assumes "valid_cap cap" "ring_inv cap r"
  shows "\<exists>r'. try_push cap v r = Some (r', length (ring_contents cap r) < unat cap) \<and> ring_inv cap r'
    \<and> ring_contents cap r' = ring_contents cap r @ (if length (ring_contents cap r) < unat cap then [v] else [])"
proof -
  obtain p tc hc where "ring_counts cap r (ring_contents cap r) p tc hc" by (rule ring_inv_counts [OF assms])
  from try_push_works [OF assms(1) this, of v] show ?thesis
    using ring_counts_contents [OF assms(1)] unfolding ring_inv_def by metis
qed

lemma ring_pop:
  assumes "valid_cap cap" "ring_inv cap r"
  shows "\<exists>r'. try_pop cap r = Some (r', first_of (ring_contents cap r)) \<and> ring_inv cap r'
    \<and> ring_contents cap r' = tl (ring_contents cap r)"
proof -
  obtain p tc hc where "ring_counts cap r (ring_contents cap r) p tc hc" by (rule ring_inv_counts [OF assms])
  from try_pop_works [OF assms(1) this] show ?thesis
    using ring_counts_contents [OF assms(1)] unfolding ring_inv_def by metis
qed

lemma ring_new: "valid_cap cap \<Longrightarrow> ring_inv cap (mk_ring cap) \<and> ring_contents cap (mk_ring cap) = []"
  using ring_counts_new ring_counts_contents unfolding ring_inv_def by metis

section \<open>The metrics ring\<close>

text \<open>\<open>METRICS_RING_CAP\<close> of \<^verbatim>\<open>metrics/include/metrics_config.hpp\<close>.\<close>

definition ring_cap :: u64 where "ring_cap = push_bit 16 1"

lemma ring_cap_val [simp]: "unat ring_cap = 65536" "valid_cap ring_cap"
proof -
  have "ring_cap = 2 ^ 16" by (simp add: ring_cap_def)
  then show "valid_cap ring_cap" unfolding valid_cap_def by (intro image_eqI [of _ _ 16]) simp_all
qed (simp add: ring_cap_def)

interpretation event_ring: event_queue "ring_inv ring_cap" "ring_contents ring_cap" 65536
    "try_push ring_cap" "try_pop ring_cap"
proof
  fix q :: "'a ring" and v :: 'a and vs
  assume inv: "ring_inv ring_cap q"
  show "length (ring_contents ring_cap q) \<le> 65536" using ring_inv_bounded [OF _ inv] by simp
  show "length (ring_contents ring_cap q) < 65536 \<Longrightarrow> \<exists>q'. try_push ring_cap v q = Some (q', True)
      \<and> ring_inv ring_cap q' \<and> ring_contents ring_cap q' = ring_contents ring_cap q @ [v]"
    using ring_push [OF _ inv, of v] by auto
  show "length (ring_contents ring_cap q) = 65536 \<Longrightarrow> \<exists>q'. try_push ring_cap v q = Some (q', False)
      \<and> ring_inv ring_cap q' \<and> ring_contents ring_cap q' = ring_contents ring_cap q"
    using ring_push [OF _ inv, of v] by auto
  show "ring_contents ring_cap q = v # vs \<Longrightarrow>
      \<exists>q'. try_pop ring_cap q = Some (q', Some v) \<and> ring_inv ring_cap q' \<and> ring_contents ring_cap q' = vs"
    using ring_pop [OF _ inv] by auto
  show "ring_contents ring_cap q = [] \<Longrightarrow>
      \<exists>q'. try_pop ring_cap q = Some (q', None) \<and> ring_inv ring_cap q' \<and> ring_contents ring_cap q' = []"
    using ring_pop [OF _ inv] by auto
qed

end
