(* ===== verification/Ring_Interleaving.thy ===== *)
theory Ring_Interleaving
  imports Spsc_Ring
begin

text \<open>
  One producer thread and one consumer thread on one ring. A step is one access to a shared field by
  one side, in the order in which \<open>try_push\<close> and \<open>try_pop\<close> make them; the schedule is arbitrary. The
  history fields \<open>pushed\<close> and \<open>popped\<close> record the elements of the calls that returned true.
\<close>

section \<open>The two threads\<close>

text \<open>Where a thread is in its call, with the locals it holds there.\<close>

datatype 'a producer =
    P_Idle
  | P_Check 'a u64
  | P_Recheck 'a u64
  | P_Write 'a u64
  | P_Publish 'a u64

datatype 'a consumer =
    C_Idle
  | C_Check u64
  | C_Recheck u64
  | C_Read u64
  | C_Publish u64 'a

record 'a threads =
  shared :: "'a ring"
  producer :: "'a producer"
  consumer :: "'a consumer"
  pushed :: "'a list"
  popped :: "'a list"

definition start :: "u64 \<Rightarrow> 'a threads" where
  "start cap = \<lparr>shared = mk_ring cap, producer = P_Idle, consumer = C_Idle, pushed = [], popped = []\<rparr>"

inductive ring_step :: "u64 \<Rightarrow> 'a threads \<Rightarrow> 'a threads \<Rightarrow> bool" for cap where
  push_call: "producer s = P_Idle \<Longrightarrow> ring_step cap s (s\<lparr>producer := P_Check v (head (shared s))\<rparr>)"
| push_check: "producer s = P_Check v h \<Longrightarrow> \<not> h - tail_cache (shared s) \<ge> cap \<Longrightarrow>
    ring_step cap s (s\<lparr>producer := P_Write v h\<rparr>)"
| push_refresh: "producer s = P_Check v h \<Longrightarrow> h - tail_cache (shared s) \<ge> cap \<Longrightarrow>
    ring_step cap s (s\<lparr>shared := (shared s)\<lparr>tail_cache := tail (shared s)\<rparr>, producer := P_Recheck v h\<rparr>)"
| push_full: "producer s = P_Recheck v h \<Longrightarrow> h - tail_cache (shared s) \<ge> cap \<Longrightarrow>
    ring_step cap s (s\<lparr>producer := P_Idle\<rparr>)"
| push_room: "producer s = P_Recheck v h \<Longrightarrow> \<not> h - tail_cache (shared s) \<ge> cap \<Longrightarrow>
    ring_step cap s (s\<lparr>producer := P_Write v h\<rparr>)"
| push_write: "producer s = P_Write v h \<Longrightarrow> store_slot cap h v (shared s) = Some r \<Longrightarrow>
    ring_step cap s (s\<lparr>shared := r, producer := P_Publish v h\<rparr>)"
| push_publish: "producer s = P_Publish v h \<Longrightarrow>
    ring_step cap s (s\<lparr>shared := (shared s)\<lparr>head := h + 1\<rparr>, producer := P_Idle, pushed := pushed s @ [v]\<rparr>)"
| pop_call: "consumer s = C_Idle \<Longrightarrow> ring_step cap s (s\<lparr>consumer := C_Check (tail (shared s))\<rparr>)"
| pop_check: "consumer s = C_Check t \<Longrightarrow> t \<noteq> head_cache (shared s) \<Longrightarrow> ring_step cap s (s\<lparr>consumer := C_Read t\<rparr>)"
| pop_refresh: "consumer s = C_Check t \<Longrightarrow> t = head_cache (shared s) \<Longrightarrow>
    ring_step cap s (s\<lparr>shared := (shared s)\<lparr>head_cache := head (shared s)\<rparr>, consumer := C_Recheck t\<rparr>)"
| pop_none: "consumer s = C_Recheck t \<Longrightarrow> t = head_cache (shared s) \<Longrightarrow> ring_step cap s (s\<lparr>consumer := C_Idle\<rparr>)"
| pop_some: "consumer s = C_Recheck t \<Longrightarrow> t \<noteq> head_cache (shared s) \<Longrightarrow> ring_step cap s (s\<lparr>consumer := C_Read t\<rparr>)"
| pop_read: "consumer s = C_Read t \<Longrightarrow> fetch_slot cap t (shared s) = Some x \<Longrightarrow>
    ring_step cap s (s\<lparr>consumer := C_Publish t x\<rparr>)"
| pop_publish: "consumer s = C_Publish t x \<Longrightarrow>
    ring_step cap s (s\<lparr>shared := (shared s)\<lparr>tail := t + 1\<rparr>, consumer := C_Idle, popped := popped s @ [x]\<rparr>)"

inductive ring_reachable :: "u64 \<Rightarrow> 'a threads \<Rightarrow> bool" for cap where
  start: "ring_reachable cap (start cap)"
| step: "ring_reachable cap s \<Longrightarrow> ring_step cap s s' \<Longrightarrow> ring_reachable cap s'"

section \<open>The invariant\<close>

text \<open>
  The counters count the history; the cached counters are older values of theirs; the stored elements
  are the pushed ones not yet popped; and what each thread knows at its place in the code.
\<close>

definition counters_ok :: "u64 \<Rightarrow> 'a threads \<Rightarrow> nat \<Rightarrow> nat \<Rightarrow> bool" where
  "counters_ok cap s tc hc \<longleftrightarrow>
     take (length (popped s)) (pushed s) = popped s
   \<and> ring_counts cap (shared s) (drop (length (popped s)) (pushed s)) (length (popped s)) tc hc"

fun producer_ok :: "u64 \<Rightarrow> 'a threads \<Rightarrow> nat \<Rightarrow> 'a producer \<Rightarrow> bool" where
  "producer_ok cap s tc P_Idle \<longleftrightarrow> True"
| "producer_ok cap s tc (P_Check v h) \<longleftrightarrow> h = of_nat (length (pushed s))"
| "producer_ok cap s tc (P_Recheck v h) \<longleftrightarrow> h = of_nat (length (pushed s))"
| "producer_ok cap s tc (P_Write v h) \<longleftrightarrow> h = of_nat (length (pushed s)) \<and> length (pushed s) - tc < unat cap"
| "producer_ok cap s tc (P_Publish v h) \<longleftrightarrow> h = of_nat (length (pushed s)) \<and> length (pushed s) - tc < unat cap
     \<and> ring_buf (shared s) ! (length (pushed s) mod unat cap) = Some v"

fun consumer_ok :: "'a threads \<Rightarrow> nat \<Rightarrow> 'a consumer \<Rightarrow> bool" where
  "consumer_ok s hc C_Idle \<longleftrightarrow> True"
| "consumer_ok s hc (C_Check t) \<longleftrightarrow> t = of_nat (length (popped s))"
| "consumer_ok s hc (C_Recheck t) \<longleftrightarrow> t = of_nat (length (popped s))"
| "consumer_ok s hc (C_Read t) \<longleftrightarrow> t = of_nat (length (popped s)) \<and> length (popped s) < hc"
| "consumer_ok s hc (C_Publish t x) \<longleftrightarrow> t = of_nat (length (popped s)) \<and> length (popped s) < hc
     \<and> x = pushed s ! length (popped s)"

definition threads_ok :: "u64 \<Rightarrow> 'a threads \<Rightarrow> bool" where
  "threads_ok cap s \<longleftrightarrow> (\<exists>tc hc. counters_ok cap s tc hc \<and> producer_ok cap s tc (producer s)
     \<and> consumer_ok s hc (consumer s))"

lemma popped_le: "counters_ok cap s tc hc \<Longrightarrow> length (popped s) \<le> length (pushed s)"
  unfolding counters_ok_def by (metis length_take min.cobounded1)

lemma counters_flat:
  "counters_ok cap s tc hc \<longleftrightarrow>
     take (length (popped s)) (pushed s) = popped s
   \<and> head (shared s) = of_nat (length (pushed s)) \<and> tail (shared s) = of_nat (length (popped s))
   \<and> tail_cache (shared s) = of_nat tc \<and> head_cache (shared s) = of_nat hc
   \<and> tc \<le> length (popped s) \<and> length (popped s) \<le> hc \<and> hc \<le> length (pushed s) \<and> length (pushed s) - tc \<le> unat cap
   \<and> length (ring_buf (shared s)) = unat cap
   \<and> (\<forall>i. length (popped s) \<le> i \<and> i < length (pushed s) \<longrightarrow> ring_buf (shared s) ! (i mod unat cap) = Some (pushed s ! i))"
proof (cases "length (popped s) \<le> length (pushed s)")
  case True
  have "(\<forall>i < length (pushed s) - length (popped s). P (length (popped s) + i))
      \<longleftrightarrow> (\<forall>i. length (popped s) \<le> i \<and> i < length (pushed s) \<longrightarrow> P i)" for P
    by (auto dest: le_Suc_ex)
  from this [of "\<lambda>i. ring_buf (shared s) ! (i mod unat cap) = Some (pushed s ! i)"] True
  show ?thesis by (auto simp: counters_ok_def ring_counts_def)
next
  case False
  then show ?thesis using popped_le [of cap s tc hc] by auto
qed

lemma threads_ok_start: "threads_ok cap (start cap)"
proof -
  have "counters_ok cap (start cap) 0 0" by (simp add: counters_flat start_def mk_ring_def)
  then show ?thesis unfolding threads_ok_def by (auto simp: start_def)
qed

text \<open>The producer's tests decide whether there is room behind the cached counter.\<close>

lemma producer_full:
  assumes "counters_ok cap s tc hc" "h = of_nat (length (pushed s))"
  shows "h - tail_cache (shared s) \<ge> cap \<longleftrightarrow> length (pushed s) - tc = unat cap"
  using assms counter_full [of tc "length (pushed s)" cap] by (auto simp: counters_flat)

lemma consumer_empty:
  assumes "counters_ok cap s tc hc" "t = of_nat (length (popped s))"
  shows "t = head_cache (shared s) \<longleftrightarrow> length (popped s) = hc"
  using assms counter_equal [of "length (popped s)" hc cap] by (auto simp: counters_flat)

lemma producer_ok_cong:
  "pushed s' = pushed s \<Longrightarrow> ring_buf (shared s') = ring_buf (shared s) \<Longrightarrow> producer_ok cap s' tc p = producer_ok cap s tc p"
  by (cases p) simp_all

lemma consumer_ok_cong:
  "pushed s' = pushed s \<Longrightarrow> popped s' = popped s \<Longrightarrow> consumer_ok s' hc c = consumer_ok s hc c"
  by (cases c) simp_all

lemma step_write_ok:
  assumes cap: "valid_cap cap" and ok: "counters_ok cap s tc hc" and room: "length (pushed s) - tc < unat cap"
  shows "store_slot cap (of_nat (length (pushed s))) v (shared s)
      = Some ((shared s)\<lparr>ring_buf := (ring_buf (shared s))[length (pushed s) mod unat cap := Some v]\<rparr>)"
    and "counters_ok cap (s\<lparr>shared := (shared s)\<lparr>ring_buf := (ring_buf (shared s))[length (pushed s) mod unat cap := Some v]\<rparr>,
      producer := q\<rparr>) tc hc"
proof -
  show "store_slot cap (of_nat (length (pushed s))) v (shared s)
      = Some ((shared s)\<lparr>ring_buf := (ring_buf (shared s))[length (pushed s) mod unat cap := Some v]\<rparr>)"
    using ok by (intro store_slot_at [OF cap]) (simp add: counters_flat)
  have "length (pushed s) mod unat cap \<noteq> i mod unat cap" if "length (popped s) \<le> i" "i < length (pushed s)" for i
    using that ok room by (intro mod_distinct) (auto simp: counters_flat)
  then show "counters_ok cap (s\<lparr>shared := (shared s)\<lparr>ring_buf := (ring_buf (shared s))[length (pushed s) mod unat cap := Some v]\<rparr>,
      producer := q\<rparr>) tc hc"
    using ok by (simp add: counters_flat)
qed

lemma step_publish_ok:
  assumes "counters_ok cap s tc hc" "producer_ok cap s tc (P_Publish v h)"
  shows "counters_ok cap (s\<lparr>shared := (shared s)\<lparr>head := h + 1\<rparr>, producer := P_Idle, pushed := pushed s @ [v]\<rparr>) tc hc"
  using assms popped_le [OF assms(1)] by (auto simp: counters_flat nth_append less_Suc_eq)

lemma step_read_ok:
  assumes cap: "valid_cap cap" and ok: "counters_ok cap s tc hc" and c: "consumer_ok s hc (C_Read t)"
  shows "fetch_slot cap t (shared s) = Some (pushed s ! length (popped s))"
  using ok c by (auto simp: counters_flat fetch_slot_at [OF cap])

lemma step_consume_ok:
  assumes "counters_ok cap s tc hc" "consumer_ok s hc (C_Publish t x)"
  shows "counters_ok cap (s\<lparr>shared := (shared s)\<lparr>tail := t + 1\<rparr>, consumer := C_Idle, popped := popped s @ [x]\<rparr>) tc hc"
proof -
  have n: "x = pushed s ! length (popped s)" "t = of_nat (length (popped s))" "length (popped s) < length (pushed s)"
    using assms by (simp_all add: counters_flat)
  then have "take (Suc (length (popped s))) (pushed s) = popped s @ [x]"
    using assms(1) by (simp add: take_Suc_conv_app_nth counters_flat)
  then show ?thesis using assms n unfolding counters_flat by simp
qed

lemma threads_ok_step:
  assumes cap: "valid_cap cap" and "ring_step cap s s'" and "threads_ok cap s"
  shows "threads_ok cap s'"
proof -
  obtain tc hc where ok: "counters_ok cap s tc hc" and p: "producer_ok cap s tc (producer s)"
    and c: "consumer_ok s hc (consumer s)" using assms(3) by (auto simp: threads_ok_def)
  have le: "tc \<le> length (popped s)" "length (popped s) \<le> hc" "hc \<le> length (pushed s)" "length (pushed s) - tc \<le> unat cap"
    using ok by (simp_all add: counters_flat)
  have keepP: "producer_ok cap t tc (producer t)"
    if "pushed t = pushed s" "ring_buf (shared t) = ring_buf (shared s)" "producer t = producer s" for t
    using p producer_ok_cong [OF that(1,2)] that(3) by simp
  have keepC: "consumer_ok t hc (consumer t)"
    if "pushed t = pushed s" "popped t = popped s" "consumer t = consumer s" for t
    using c consumer_ok_cong [OF that(1,2)] that(3) by simp
  have I: "threads_ok cap t" if "counters_ok cap t tc' hc'" "producer_ok cap t tc' (producer t)"
    "consumer_ok t hc' (consumer t)" for t tc' hc'
    using that by (auto simp: threads_ok_def)
  from assms(2) show ?thesis
  proof cases
    case (push_call v)
    then show ?thesis using ok c by (intro I [of _ tc hc] keepC) (auto simp: counters_flat)
  next
    case (push_check v h)
    then show ?thesis using ok c p producer_full [OF ok, of h] le
      by (intro I [of _ tc hc] keepC) (auto simp: counters_flat)
  next
    case (push_refresh v h)
    have "counters_ok cap s' (length (popped s)) hc" using ok le push_refresh by (auto simp: counters_flat)
    then show ?thesis using push_refresh c p
      by (intro I [of _ "length (popped s)" hc] keepC) auto
  next
    case (push_full v h)
    then show ?thesis using ok c by (intro I [of _ tc hc] keepC) (auto simp: counters_flat)
  next
    case (push_room v h)
    then show ?thesis using ok c p producer_full [OF ok, of h] le
      by (intro I [of _ tc hc] keepC) (auto simp: counters_flat)
  next
    case (push_write v h r)
    then have h: "h = of_nat (length (pushed s))" and room: "length (pushed s) - tc < unat cap" using p by simp_all
    note w = step_write_ok(1) [OF cap ok room, where v = v] step_write_ok(2) [OF cap ok room, where v = v and q = "P_Publish v h"]
    have "length (pushed s) mod unat cap < length (ring_buf (shared s))"
      using ok cap_pos [OF cap] by (simp add: counters_flat)
    then show ?thesis using push_write w c room unfolding h
      by (intro I [of _ tc hc] keepC) auto
  next
    case (push_publish v h)
    have "consumer_ok (s\<lparr>shared := (shared s)\<lparr>head := h + 1\<rparr>, producer := P_Idle, pushed := pushed s @ [v]\<rparr>) hc (consumer s)"
      using c le by (cases "consumer s") (auto simp: nth_append)
    then show ?thesis using push_publish p step_publish_ok [OF ok] by (intro I [of _ tc hc]) auto
  next
    case pop_call
    then show ?thesis using ok p by (intro I [of _ tc hc] keepP) (auto simp: counters_flat)
  next
    case (pop_check t)
    then show ?thesis using ok c p consumer_empty [OF ok, of t] le
      by (intro I [of _ tc hc] keepP) (auto simp: counters_flat)
  next
    case (pop_refresh t)
    have "counters_ok cap s' tc (length (pushed s))" using ok le pop_refresh by (auto simp: counters_flat)
    then show ?thesis using pop_refresh c p
      by (intro I [of _ tc "length (pushed s)"] keepP) auto
  next
    case (pop_none t)
    then show ?thesis using ok p by (intro I [of _ tc hc] keepP) (auto simp: counters_flat)
  next
    case (pop_some t)
    then show ?thesis using ok c p consumer_empty [OF ok, of t] le
      by (intro I [of _ tc hc] keepP) (auto simp: counters_flat)
  next
    case (pop_read t x)
    then show ?thesis using ok c p step_read_ok [OF cap ok, of t]
      by (intro I [of _ tc hc] keepP) (auto simp: counters_flat)
  next
    case (pop_publish t x)
    then show ?thesis using c p step_consume_ok [OF ok, of t x]
      by (intro I [of _ tc hc] keepP) auto
  qed
qed

lemma reachable_ok: "valid_cap cap \<Longrightarrow> ring_reachable cap s \<Longrightarrow> threads_ok cap s"
  by (erule ring_reachable.induct) (auto intro: threads_ok_start threads_ok_step)

section \<open>What the invariant gives\<close>

lemma reachable_fifo:
  assumes "valid_cap cap" "ring_reachable cap s"
  shows "\<exists>rest. pushed s = popped s @ rest \<and> length rest \<le> unat cap"
proof -
  obtain tc hc where ok: "counters_ok cap s tc hc"
    using reachable_ok [OF assms] by (auto simp: threads_ok_def)
  then have "pushed s = popped s @ drop (length (popped s)) (pushed s)"
    unfolding counters_ok_def by (metis append_take_drop_id)
  moreover have "length (drop (length (popped s)) (pushed s)) \<le> unat cap"
    using ok by (auto simp: counters_flat)
  ultimately show ?thesis by blast
qed

lemma reachable_race_free:
  assumes cap: "valid_cap cap" and "ring_reachable cap s" "producer s = P_Write v h" "consumer s = C_Read t"
  shows "slot_index cap h \<noteq> slot_index cap t"
proof -
  obtain tc hc where ok: "counters_ok cap s tc hc" "producer_ok cap s tc (producer s)" "consumer_ok s hc (consumer s)"
    using reachable_ok [OF assms(1,2)] by (auto simp: threads_ok_def)
  then have "length (pushed s) mod unat cap \<noteq> length (popped s) mod unat cap"
    using assms(3,4) by (intro mod_distinct) (auto simp: counters_flat)
  then show ?thesis using ok assms(3,4) by (simp add: slot_index_mod [OF cap])
qed

lemma reachable_accesses:
  assumes cap: "valid_cap cap" and "ring_reachable cap s"
  shows "producer s = P_Write v h \<Longrightarrow> \<exists>r. store_slot cap h v (shared s) = Some r"
    and "consumer s = C_Read t \<Longrightarrow> \<exists>x. fetch_slot cap t (shared s) = Some x"
proof -
  obtain tc hc where ok: "counters_ok cap s tc hc" "producer_ok cap s tc (producer s)" "consumer_ok s hc (consumer s)"
    using reachable_ok [OF assms] by (auto simp: threads_ok_def)
  show "producer s = P_Write v h \<Longrightarrow> \<exists>r. store_slot cap h v (shared s) = Some r"
    using ok step_write_ok(1) [OF cap ok(1)] by auto
  show "consumer s = C_Read t \<Longrightarrow> \<exists>x. fetch_slot cap t (shared s) = Some x"
    using ok step_read_ok [OF cap ok(1)] by simp
qed

text \<open>The accesses a call has still to make; neither side ever waits for the other.\<close>

fun push_left :: "'a producer \<Rightarrow> nat" where
  "push_left P_Idle = 0"
| "push_left (P_Publish v h) = 1"
| "push_left (P_Write v h) = 2"
| "push_left (P_Recheck v h) = 3"
| "push_left (P_Check v h) = 4"

fun pop_left :: "'a consumer \<Rightarrow> nat" where
  "pop_left C_Idle = 0"
| "pop_left (C_Publish t x) = 1"
| "pop_left (C_Read t) = 2"
| "pop_left (C_Recheck t) = 3"
| "pop_left (C_Check t) = 4"

lemma reachable_push_progress:
  assumes "valid_cap cap" "ring_reachable cap s" "producer s \<noteq> P_Idle"
  shows "\<exists>s'. ring_step cap s s' \<and> push_left (producer s') < push_left (producer s) \<and> consumer s' = consumer s"
proof (cases "producer s")
  case (P_Check v h)
  then show ?thesis
    using push_check [of s v h cap] push_refresh [of s v h cap] by (cases "h - tail_cache (shared s) \<ge> cap") fastforce+
next
  case (P_Recheck v h)
  then show ?thesis
    using push_full [of s v h cap] push_room [of s v h cap] by (cases "h - tail_cache (shared s) \<ge> cap") fastforce+
next
  case (P_Write v h)
  then obtain r where "store_slot cap h v (shared s) = Some r" using reachable_accesses(1) [OF assms(1,2)] by blast
  then show ?thesis using push_write [OF P_Write, of cap r] P_Write by fastforce
next
  case (P_Publish v h)
  then show ?thesis using push_publish [OF P_Publish, of cap] by fastforce
qed (use assms in simp)

lemma reachable_pop_progress:
  assumes "valid_cap cap" "ring_reachable cap s" "consumer s \<noteq> C_Idle"
  shows "\<exists>s'. ring_step cap s s' \<and> pop_left (consumer s') < pop_left (consumer s) \<and> producer s' = producer s"
proof (cases "consumer s")
  case (C_Check t)
  then show ?thesis
    using pop_check [of s t cap] pop_refresh [of s t cap] by (cases "t = head_cache (shared s)") fastforce+
next
  case (C_Recheck t)
  then show ?thesis
    using pop_none [of s t cap] pop_some [of s t cap] by (cases "t = head_cache (shared s)") fastforce+
next
  case (C_Read t)
  then obtain x where "fetch_slot cap t (shared s) = Some x" using reachable_accesses(2) [OF assms(1,2)] by blast
  then show ?thesis using pop_read [OF C_Read, of cap x] C_Read by fastforce
next
  case (C_Publish t x)
  then show ?thesis using pop_publish [OF C_Publish, of cap] by fastforce
qed (use assms in simp)

text \<open>
  In a run of both threads, a step is the producer's own when it changes \<open>producer\<close>, and the consumer's own when it
  changes \<open>consumer\<close>; it is never both.
\<close>

fun own_steps :: "('s \<Rightarrow> 'c) \<Rightarrow> 's list \<Rightarrow> nat" where
  "own_steps f (s # t # ss) = (if f s = f t then 0 else 1) + own_steps f (t # ss)"
| "own_steps f ss = 0"

lemma step_push_left: "ring_step cap s t \<Longrightarrow> producer s \<noteq> P_Idle \<Longrightarrow>
    producer t = producer s \<or> push_left (producer t) < push_left (producer s) \<and> consumer t = consumer s"
  by (erule ring_step.cases) auto

lemma step_pop_left: "ring_step cap s t \<Longrightarrow> consumer s \<noteq> C_Idle \<Longrightarrow>
    consumer t = consumer s \<or> pop_left (consumer t) < pop_left (consumer s) \<and> producer t = producer s"
  by (erule ring_step.cases) auto

text \<open>What a thread has left bounds its own steps in any run in which it does not return, whatever the other does.\<close>

lemma own_steps_bound:
  assumes "\<And>s t. R s t \<Longrightarrow> f s \<noteq> z \<Longrightarrow> f t = f s \<or> m (f t) < m (f s)" "\<And>c. c \<noteq> z \<Longrightarrow> 0 < (m c :: nat)"
  shows "successively R (s # ss) \<Longrightarrow> z \<notin> f ` set (s # ss) \<Longrightarrow> own_steps f (s # ss) < m (f s)"
proof (induction ss arbitrary: s)
  case (Cons t ss)
  then have "own_steps f (t # ss) < m (f t)" "f t = f s \<or> m (f t) < m (f s)" using assms(1) [of s t] by auto
  then show ?case by auto
qed (simp add: assms(2))

lemma push_left_bounds: "push_left p \<le> 4" "p \<noteq> P_Idle \<Longrightarrow> 0 < push_left p"
  by (cases p; simp)+

lemma pop_left_bounds: "pop_left c \<le> 4" "c \<noteq> C_Idle \<Longrightarrow> 0 < pop_left c"
  by (cases c; simp)+

lemma push_returns:
  assumes "successively (ring_step cap) (s # ss)" "4 \<le> own_steps producer (s # ss)"
  shows "P_Idle \<in> producer ` set (s # ss)"
  using own_steps_bound [of "ring_step cap" producer P_Idle push_left s ss] step_push_left push_left_bounds assms
  by (meson leD le_trans less_le_trans)

lemma pop_returns:
  assumes "successively (ring_step cap) (s # ss)" "4 \<le> own_steps consumer (s # ss)"
  shows "C_Idle \<in> consumer ` set (s # ss)"
  using own_steps_bound [of "ring_step cap" consumer C_Idle pop_left s ss] step_pop_left pop_left_bounds assms
  by (meson leD le_trans less_le_trans)

lemma ring_run_reachable: "ring_reachable cap s \<Longrightarrow> successively (ring_step cap) (s # ss) \<Longrightarrow> t \<in> set (s # ss) \<Longrightarrow> ring_reachable cap t"
proof (induction ss arbitrary: s)
  case (Cons u ss)
  then show ?case using ring_reachable.step [of cap s u] by auto
qed simp

text \<open>Inside a call a thread can always make its next step.\<close>

lemma never_blocked:
  assumes "valid_cap cap" "ring_reachable cap s"
  shows "producer s \<noteq> P_Idle \<Longrightarrow> \<exists>t. ring_step cap s t \<and> producer t \<noteq> producer s \<and> consumer t = consumer s"
    and "consumer s \<noteq> C_Idle \<Longrightarrow> \<exists>t. ring_step cap s t \<and> consumer t \<noteq> consumer s \<and> producer t = producer s"
  using reachable_push_progress [OF assms] reachable_pop_progress [OF assms] by fastforce+

text \<open>A thread that runs alone does what the sequential operation does.\<close>

lemma try_push_steps:
  assumes "producer s = P_Idle" "try_push cap v (shared s) = Some (r, ok)"
  shows "(ring_step cap)\<^sup>*\<^sup>* s (s\<lparr>shared := r, pushed := pushed s @ (if ok then [v] else [])\<rparr>)"
proof -
  let ?h = "head (shared s)"
  let ?c = "s\<lparr>producer := P_Check v ?h\<rparr>"
  have call: "ring_step cap s ?c" by (rule push_call) fact
  have idle: "s\<lparr>shared := r, producer := P_Idle, pushed := ps\<rparr> = s\<lparr>shared := r, pushed := ps\<rparr>" for ps
    using assms(1) by (intro threads.equality) simp_all
  have fin: "(ring_step cap)\<^sup>*\<^sup>* (t\<lparr>producer := P_Write v ?h\<rparr>)
      (t\<lparr>shared := r'\<lparr>head := ?h + 1\<rparr>, producer := P_Idle, pushed := pushed t @ [v]\<rparr>)"
    if "store_slot cap ?h v (shared t) = Some r'" for t r'
  proof -
    have "ring_step cap (t\<lparr>producer := P_Write v ?h\<rparr>) (t\<lparr>producer := P_Write v ?h, shared := r', producer := P_Publish v ?h\<rparr>)"
      using that by (intro push_write) simp_all
    moreover have "ring_step cap (t\<lparr>producer := P_Write v ?h, shared := r', producer := P_Publish v ?h\<rparr>)
      (t\<lparr>shared := r'\<lparr>head := ?h + 1\<rparr>, producer := P_Idle, pushed := pushed t @ [v]\<rparr>)"
      using push_publish [of "t\<lparr>producer := P_Write v ?h, shared := r', producer := P_Publish v ?h\<rparr>" v ?h cap] by simp
    ultimately show ?thesis by (meson converse_rtranclp_into_rtranclp r_into_rtranclp)
  qed
  show ?thesis
  proof (cases "?h - tail_cache (shared s) \<ge> cap")
    case False
    then obtain r' where r': "store_slot cap ?h v (shared s) = Some r'" "r = r'\<lparr>head := ?h + 1\<rparr>" "ok"
      using assms(2) by (auto simp: try_push_def Let_def)
    have "ring_step cap ?c (?c\<lparr>producer := P_Write v ?h\<rparr>)" using False by (intro push_check) simp_all
    moreover have "?c\<lparr>producer := P_Write v ?h\<rparr> = s\<lparr>producer := P_Write v ?h\<rparr>" by simp
    ultimately have "(ring_step cap)\<^sup>*\<^sup>* s (s\<lparr>shared := r, producer := P_Idle, pushed := pushed s @ [v]\<rparr>)"
      using call fin [OF r'(1)] r'(2) by (metis converse_rtranclp_into_rtranclp)
    then show ?thesis using r'(3) unfolding idle by simp
  next
    case True
    let ?t = "s\<lparr>shared := (shared s)\<lparr>tail_cache := tail (shared s)\<rparr>\<rparr>"
    have refresh: "ring_step cap ?c (?t\<lparr>producer := P_Recheck v ?h\<rparr>)"
      using push_refresh [of ?c v ?h cap] True by simp
    show ?thesis
    proof (cases "?h - tail (shared s) \<ge> cap")
      case full: True
      have "ring_step cap (?t\<lparr>producer := P_Recheck v ?h\<rparr>) (?t\<lparr>producer := P_Idle\<rparr>)"
        using push_full [of "?t\<lparr>producer := P_Recheck v ?h\<rparr>" v ?h cap] full by simp
      moreover have "r = shared ?t" "\<not> ok" using assms(2) True full by (auto simp: try_push_def Let_def)
      moreover have "?t\<lparr>producer := P_Idle\<rparr> = ?t" using assms(1) by (simp add: threads.equality)
      ultimately show ?thesis using call refresh
        by (auto intro!: converse_rtranclp_into_rtranclp [of "ring_step cap"] simp: threads.equality)
    next
      case False
      obtain r' where r': "store_slot cap ?h v (shared ?t) = Some r'" "r = r'\<lparr>head := ?h + 1\<rparr>" "ok"
        using assms(2) True False by (auto simp: try_push_def Let_def)
      have "ring_step cap (?t\<lparr>producer := P_Recheck v ?h\<rparr>) (?t\<lparr>producer := P_Write v ?h\<rparr>)"
        using push_room [of "?t\<lparr>producer := P_Recheck v ?h\<rparr>" v ?h cap] False by simp
      then have "(ring_step cap)\<^sup>*\<^sup>* s (?t\<lparr>shared := r, producer := P_Idle, pushed := pushed s @ [v]\<rparr>)"
        using call refresh fin [OF r'(1)] r'(2)
        by (auto intro: converse_rtranclp_into_rtranclp [of "ring_step cap"])
      then show ?thesis using r'(3) by (simp add: idle)
    qed
  qed
qed

end
