(* ===== verification/Metrics_Recorder.thy ===== *)
theory Metrics_Recorder
  imports Spsc_Ring
begin

text \<open>
  The events of \<^verbatim>\<open>metrics/include/metrics_event.hpp\<close> and the hot-path recorder of
  \<^verbatim>\<open>metrics/include/metrics_recorder.hpp\<close> (the build with \<open>METRICS_ENABLED\<close>). Time stamp counter readings
  are arguments.
\<close>

unbundle bit_operations_syntax

section \<open>Events\<close>

datatype event_type = Latency_Event | Snapshot_Event | Trade_Event

datatype op_type = Op_Add | Op_Cancel | Op_Modify | Op_Match | Op_Market

text \<open>The union; \<open>Raw\<close> is the payload nobody wrote.\<close>

datatype payload = Raw | Snap_Payload int int | Trade_Payload int u32 u32

record event =
  ev_tsc :: u64
  ev_latency :: u32
  ev_etype :: event_type
  ev_otype :: op_type
  ev_flags :: u16
  ev_payload :: payload

section \<open>The recorder\<close>

record recorder =
  rec_ring :: "event ring"
  rec_sample_count :: u64
  rec_sample_mask :: u32
  rec_drops :: u64

definition mk_recorder :: "u32 \<Rightarrow> recorder" where
  "mk_recorder m = \<lparr>rec_ring = mk_ring ring_cap, rec_sample_count = 0, rec_sample_mask = m, rec_drops = 0\<rparr>"

definition push_event :: "event \<Rightarrow> recorder \<Rightarrow> recorder option" where
  "push_event e r = do {
     (q, ok) \<leftarrow> try_push ring_cap e (rec_ring r);
     let r = r\<lparr>rec_ring := q\<rparr>;
     Some (if \<not> ok then r\<lparr>rec_drops := rec_drops r + 1\<rparr> else r)
   }"

definition latency_event :: "op_type \<Rightarrow> u32 \<Rightarrow> u64 \<Rightarrow> event" where
  "latency_event op ticks now = \<lparr>ev_tsc = now, ev_latency = ticks, ev_etype = Latency_Event, ev_otype = op,
     ev_flags = 0, ev_payload = Raw\<rparr>"

definition recordLatency :: "op_type \<Rightarrow> u32 \<Rightarrow> u64 \<Rightarrow> recorder \<Rightarrow> recorder option" where
  "recordLatency op ticks now r =
     (let c = rec_sample_count r;
          r = r\<lparr>rec_sample_count := c + 1\<rparr>
      in if c AND ucast (rec_sample_mask r) \<noteq> 0 then Some r
         else push_event (latency_event op ticks now) r)"

definition recordSnapshot :: "u64 \<Rightarrow> int \<Rightarrow> int \<Rightarrow> recorder \<Rightarrow> recorder option" where
  "recordSnapshot now best_bid best_ask r =
     push_event \<lparr>ev_tsc = now, ev_latency = 0, ev_etype = Snapshot_Event, ev_otype = Op_Add, ev_flags = 0,
       ev_payload = Snap_Payload best_bid best_ask\<rparr> r"

definition recordTrade :: "u64 \<Rightarrow> int \<Rightarrow> u32 \<Rightarrow> u32 \<Rightarrow> recorder \<Rightarrow> recorder option" where
  "recordTrade now px qty maker r =
     push_event \<lparr>ev_tsc = now, ev_latency = 0, ev_etype = Trade_Event, ev_otype = Op_Match, ev_flags = 0,
       ev_payload = Trade_Payload px qty maker\<rparr> r"

text \<open>
  \<open>ScopedLatency\<close> between the counter readings \<open>t0\<close> of its constructor and \<open>t1\<close> of its destructor,
  with no recorder attached or with one.
\<close>

definition scoped_latency :: "op_type \<Rightarrow> u64 \<Rightarrow> u64 \<Rightarrow> recorder option \<Rightarrow> recorder option option" where
  "scoped_latency op t0 t1 r = (case r of
       None \<Rightarrow> Some None
     | Some r \<Rightarrow> map_option Some (recordLatency op (ucast (t1 - t0)) t1 r))"

section \<open>A run of calls\<close>

datatype recording =
    Rec_Latency op_type u32 u64
  | Rec_Snapshot u64 int int
  | Rec_Trade u64 int u32 u32

fun record_call :: "recording \<Rightarrow> recorder \<Rightarrow> recorder option" where
  "record_call (Rec_Latency op ticks now) = recordLatency op ticks now"
| "record_call (Rec_Snapshot now bid ask) = recordSnapshot now bid ask"
| "record_call (Rec_Trade now px qty maker) = recordTrade now px qty maker"

primrec record_calls :: "recording list \<Rightarrow> recorder \<Rightarrow> recorder option" where
  "record_calls [] r = Some r"
| "record_calls (c # cs) r = do { r \<leftarrow> record_call c r; record_calls cs r }"

lemma record_calls_append: "record_calls (cs @ ds) r = Option.bind (record_calls cs r) (record_calls ds)"
proof (induction cs arbitrary: r)
  case (Cons c cs)
  then show ?case by (cases "record_call c r") simp_all
qed simp

text \<open>The events the calls offer to the ring: every snapshot and trade, and the sampled latencies.\<close>

fun call_event :: "recording \<Rightarrow> event" where
  "call_event (Rec_Latency op ticks now) = latency_event op ticks now"
| "call_event (Rec_Snapshot now bid ask) = \<lparr>ev_tsc = now, ev_latency = 0, ev_etype = Snapshot_Event, ev_otype = Op_Add,
     ev_flags = 0, ev_payload = Snap_Payload bid ask\<rparr>"
| "call_event (Rec_Trade now px qty maker) = \<lparr>ev_tsc = now, ev_latency = 0, ev_etype = Trade_Event, ev_otype = Op_Match,
     ev_flags = 0, ev_payload = Trade_Payload px qty maker\<rparr>"

fun is_latency :: "recording \<Rightarrow> bool" where
  "is_latency (Rec_Latency op ticks now) \<longleftrightarrow> True"
| "is_latency c \<longleftrightarrow> False"

text \<open>\<open>n\<close> is the number of latencies recorded so far; one in \<open>2 ^ k\<close> is kept.\<close>

primrec offered :: "nat \<Rightarrow> nat \<Rightarrow> recording list \<Rightarrow> event list" where
  "offered k n [] = []"
| "offered k n (c # cs) =
     (if is_latency c \<and> n mod 2 ^ k \<noteq> 0 then [] else [call_event c])
     @ offered k (if is_latency c then Suc n else n) cs"

lemma offered_append:
  "offered k n (cs @ ds) = offered k n cs @ offered k (n + length (filter is_latency cs)) ds"
  by (induction cs arbitrary: n) simp_all

lemma length_offered: "length (offered k n cs) \<le> length cs"
  by (induction cs arbitrary: n) (auto intro: le_SucI)

lemma push_event_works:
  assumes "ring_inv ring_cap (rec_ring r)"
  shows "\<exists>q. push_event e r = Some (r\<lparr>rec_ring := q,
      rec_drops := rec_drops r + (if length (ring_contents ring_cap (rec_ring r)) < 65536 then 0 else 1)\<rparr>)
    \<and> ring_inv ring_cap q
    \<and> ring_contents ring_cap q = ring_contents ring_cap (rec_ring r)
        @ (if length (ring_contents ring_cap (rec_ring r)) < 65536 then [e] else [])"
proof -
  obtain q ok where "try_push ring_cap e (rec_ring r) = Some (q, ok)" "ring_inv ring_cap q"
    "ok = (length (ring_contents ring_cap (rec_ring r)) < 65536)"
    "ring_contents ring_cap q = ring_contents ring_cap (rec_ring r) @ (if ok then [e] else [])"
    using event_ring.push_cases [OF assms, of e] by blast
  then show ?thesis by (intro exI [of _ q]) (simp add: push_event_def)
qed

text \<open>Every call returns, whether or not the ring has room.\<close>

lemma record_call_works:
  assumes "ring_inv ring_cap (rec_ring r)"
  shows "\<exists>r'. record_call c r = Some r' \<and> ring_inv ring_cap (rec_ring r')"
proof -
  have push: "\<exists>r'. push_event e x = Some r' \<and> ring_inv ring_cap (rec_ring r')" if "ring_inv ring_cap (rec_ring x)" for e x
    using push_event_works [OF that, of e] by auto
  show ?thesis
    using push [of r] push [of "r\<lparr>rec_sample_count := rec_sample_count r + 1\<rparr>"] assms
    by (cases c) (simp_all add: recordLatency_def recordSnapshot_def recordTrade_def Let_def)
qed

text \<open>The mask of a power of two keeps the latencies whose number is a multiple of it.\<close>

lemma sample_test:
  assumes "k \<le> 32" "rec_sample_mask r = mask k"
  shows "of_nat n AND ucast (rec_sample_mask r) = (0::u64) \<longleftrightarrow> n mod 2 ^ k = 0"
proof -
  have "ucast (mask k :: u32) = (mask k :: u64)"
    using assms(1) by (intro bit_word_eqI) (auto simp: bit_ucast_iff bit_mask_iff)
  then have "of_nat n AND ucast (rec_sample_mask r) = (take_bit k (of_nat n) :: u64)"
    using assms(2) by (simp add: take_bit_eq_mask)
  moreover have "unat (take_bit k (of_nat n) :: u64) = n mod 2 ^ k"
  proof -
    have "unat (take_bit k (of_nat n) :: u64) = take_bit k (take_bit 64 n)"
      by (simp add: unsigned_take_bit_eq unsigned_of_nat)
    also have "\<dots> = n mod 2 ^ k" using assms(1) unfolding take_bit_take_bit by (simp add: take_bit_eq_mod)
    finally show ?thesis .
  qed
  ultimately show ?thesis by (simp flip: unat_eq_0)
qed

lemma record_call_count:
  "record_call c r = Some r' \<Longrightarrow> rec_sample_count r' = rec_sample_count r + (if is_latency c then 1 else 0)"
  by (cases c) (auto simp: recordLatency_def recordSnapshot_def recordTrade_def push_event_def Let_def split: if_splits)

lemma record_calls_count:
  "record_calls cs r = Some r' \<Longrightarrow> rec_sample_count r' = rec_sample_count r + of_nat (length (filter is_latency cs))"
  by (induction cs arbitrary: r) (auto dest: record_call_count)

lemma record_calls_works:
  assumes "ring_inv ring_cap (rec_ring r)" "rec_sample_mask r = mask k" "k \<le> 32" "rec_sample_count r = of_nat n"
  shows "\<exists>r'. record_calls cs r = Some r' \<and> ring_inv ring_cap (rec_ring r') \<and> rec_sample_mask r' = mask k
    \<and> ring_contents ring_cap (rec_ring r') = ring_contents ring_cap (rec_ring r)
        @ take (65536 - length (ring_contents ring_cap (rec_ring r))) (offered k n cs)
    \<and> rec_drops r' = rec_drops r
        + of_nat (length (offered k n cs) - (65536 - length (ring_contents ring_cap (rec_ring r))))"
  using assms(1,2,4)
proof (induction cs arbitrary: r n)
  case (Cons c cs)
  let ?xs = "ring_contents ring_cap (rec_ring r)"
  let ?n = "if is_latency c then Suc n else n"
  let ?r = "r\<lparr>rec_sample_count := of_nat ?n\<rparr>"
  let ?skip = "is_latency c \<and> n mod 2 ^ k \<noteq> 0"
  have st: "rec_sample_count r AND ucast (rec_sample_mask r) = 0 \<longleftrightarrow> n mod 2 ^ k = 0"
    using sample_test [OF assms(3) Cons.prems(2), of n] Cons.prems(3) by simp
  have r_same: "r\<lparr>rec_sample_count := of_nat n\<rparr> = r" using Cons.prems(3) by simp
  have call: "record_call c r = (if ?skip then Some ?r else push_event (call_event c) ?r)"
    using st Cons.prems(3)
    by (cases c) (simp_all add: recordLatency_def recordSnapshot_def recordTrade_def Let_def r_same add.commute)
  show ?case
  proof (cases ?skip)
    case True
    from Cons.IH [of ?r ?n] Cons.prems show ?thesis using True by (auto simp: call)
  next
    case False
    obtain q where q: "push_event (call_event c) ?r = Some (?r\<lparr>rec_ring := q,
        rec_drops := rec_drops r + (if length ?xs < 65536 then 0 else 1)\<rparr>)"
      "ring_inv ring_cap q" "ring_contents ring_cap q = ?xs @ (if length ?xs < 65536 then [call_event c] else [])"
      using push_event_works [of ?r "call_event c"] Cons.prems(1) by auto
    let ?r2 = "?r\<lparr>rec_ring := q, rec_drops := rec_drops r + (if length ?xs < 65536 then 0 else 1)\<rparr>"
    have off: "offered k n (c # cs) = call_event c # offered k ?n cs" using False by auto
    have ih: "\<exists>r'. record_calls cs ?r2 = Some r' \<and> ring_inv ring_cap (rec_ring r') \<and> rec_sample_mask r' = mask k
      \<and> ring_contents ring_cap (rec_ring r') = ring_contents ring_cap q
          @ take (65536 - length (ring_contents ring_cap q)) (offered k ?n cs)
      \<and> rec_drops r' = rec_drops ?r2
          + of_nat (length (offered k ?n cs) - (65536 - length (ring_contents ring_cap q)))"
      using Cons.IH [of ?r2 ?n] q(2) Cons.prems(2) by simp
    have "record_call c r = Some ?r2" unfolding call q(1) using False by (simp only: if_False)
    then have step: "record_calls (c # cs) r = record_calls cs ?r2" by simp
    show ?thesis
    proof (cases "length ?xs < 65536")
      case True
      then have "65536 - length ?xs = Suc (65536 - length (ring_contents ring_cap q))" using q(3) by simp
      then show ?thesis using ih q(3) True unfolding step off by simp
    next
      case full: False
      then show ?thesis using ih q(3) unfolding step off by auto
    qed
  qed
qed simp

text \<open>Every offered event is stored or counted as dropped.\<close>

lemma new_recorder:
  "ring_inv ring_cap (rec_ring (mk_recorder m)) \<and> ring_contents ring_cap (rec_ring (mk_recorder m)) = []
   \<and> rec_sample_mask (mk_recorder m) = m \<and> rec_sample_count (mk_recorder m) = 0 \<and> rec_drops (mk_recorder m) = 0"
  using ring_new [OF ring_cap_val(2)] by (auto simp: mk_recorder_def)

end
