(* ===== verification/Ieee_Double.thy ===== *)
theory Ieee_Double
  imports Prelude Complex_Main
begin

text \<open>
  The \<^verbatim>\<open>double\<close> arithmetic the metrics use: a finite double is an integer mantissa and an exponent
  of two, and every operation rounds its exact result to 53 bits, to nearest with ties to even. The
  program's values lie far inside the exponent range, so overflow, subnormals and NaN have no
  counterpart here.
\<close>

section \<open>Numbers and rounding\<close>

datatype double = Dbl (mant: int) (expt: int)

function bitlen :: "int \<Rightarrow> int" where
  "bitlen n = (if n \<le> 0 then 0 else 1 + bitlen (n div 2))"
  by pat_completeness auto
termination by (relation "measure nat") auto

declare bitlen.simps [simp del]

text \<open>The integer nearest \<open>a / b\<close>, for \<open>b > 0\<close>.\<close>

definition round_div :: "int \<Rightarrow> int \<Rightarrow> int" where
  "round_div a b =
     (let q = a div b; r = a mod b
      in if 2 * r < b then q else if 2 * r > b then q + 1 else if even q then q else q + 1)"

text \<open>\<open>a / b\<close> divided by \<open>2\<^sup>e\<close>, as a numerator and a denominator.\<close>

definition scaled :: "int \<Rightarrow> int \<Rightarrow> int \<Rightarrow> int \<times> int" where
  "scaled a b e = (if e \<ge> 0 then (a, b * 2 ^ nat e) else (a * 2 ^ nat (- e), b))"

definition round_exponent :: "int \<Rightarrow> int \<Rightarrow> int" where
  "round_exponent a b =
     (let e = bitlen \<bar>a\<bar> - bitlen b - 53; (n, d) = scaled \<bar>a\<bar> b e
      in if n \<ge> 2 ^ 53 * d then e + 1 else e)"

text \<open>The double nearest \<open>a / b\<close>, for \<open>b > 0\<close>.\<close>

definition round_frac :: "int \<Rightarrow> int \<Rightarrow> double" where
  "round_frac a b =
     (if a = 0 then Dbl 0 0
      else let e = round_exponent a b; (n, d) = scaled a b e in Dbl (round_div n d) e)"

section \<open>Operations\<close>

definition d_of_int :: "int \<Rightarrow> double" where
  "d_of_int n = round_frac n 1"

definition d_mult :: "double \<Rightarrow> double \<Rightarrow> double" where
  "d_mult x y =
     (let e = expt x + expt y; m = mant x * mant y
      in if e \<ge> 0 then round_frac (m * 2 ^ nat e) 1 else round_frac m (2 ^ nat (- e)))"

definition d_div :: "double \<Rightarrow> double \<Rightarrow> double" where
  "d_div x y =
     (let e = expt x - expt y; m = sgn (mant y) * mant x; d = \<bar>mant y\<bar>
      in if e \<ge> 0 then round_frac (m * 2 ^ nat e) d else round_frac m (d * 2 ^ nat (- e)))"

definition d_less :: "double \<Rightarrow> double \<Rightarrow> bool" where
  "d_less x y = (let e = min (expt x) (expt y)
     in mant x * 2 ^ nat (expt x - e) < mant y * 2 ^ nat (expt y - e))"

definition d_zero :: double where
  "d_zero = Dbl 0 0"

definition d_ceil :: "double \<Rightarrow> int" where
  "d_ceil x = (if expt x \<ge> 0 then mant x * 2 ^ nat (expt x) else - ((- mant x) div 2 ^ nat (- expt x)))"

definition d_floor :: "double \<Rightarrow> int" where
  "d_floor x = (if expt x \<ge> 0 then mant x * 2 ^ nat (expt x) else mant x div 2 ^ nat (- expt x))"

text \<open>The conversion of an integral value to \<open>uint64_t\<close>, undefined outside its range.\<close>

definition int_to_u64 :: "int \<Rightarrow> u64 option" where
  "int_to_u64 n = do { require (0 \<le> n \<and> n < 2 ^ 64); Some (of_int n) }"

section \<open>Values\<close>

definition val :: "double \<Rightarrow> rat" where
  "val x = of_int (mant x) * 2 powi expt x"

lemma bitlen_bounds: "0 < n \<Longrightarrow> 0 < bitlen n \<and> 2 ^ nat (bitlen n - 1) \<le> n \<and> n < 2 ^ nat (bitlen n)"
proof (induction n rule: bitlen.induct)
  case (1 n)
  show ?case
  proof (cases "n = 1")
    case True
    have "bitlen 1 = 1" by (simp add: bitlen.simps)
    then show ?thesis using True by simp
  next
    case False
    then have n: "n div 2 > 0" using 1 by auto
    then have ih: "0 < bitlen (n div 2)" "2 ^ nat (bitlen (n div 2) - 1) \<le> n div 2" "n div 2 < 2 ^ nat (bitlen (n div 2))"
      using 1 by auto
    define k where "k = nat (bitlen (n div 2) - 1)"
    have k: "bitlen (n div 2) = int k + 1" using ih(1) by (simp add: k_def)
    have "bitlen n = int k + 2" using 1(2) k by (subst bitlen.simps) simp
    moreover have "2 ^ k \<le> n div 2" "n div 2 < 2 ^ Suc k" using ih(2,3) by (simp_all add: k nat_add_distrib)
    then have "2 ^ Suc k \<le> n" "n < 2 ^ Suc (Suc k)" by auto
    ultimately show ?thesis by (simp add: nat_add_distrib)
  qed
qed

lemma round_div_near: "b > 0 \<Longrightarrow> 2 * \<bar>round_div a b * b - a\<bar> \<le> b"
proof -
  assume b: "b > 0"
  define q r where "q = a div b" and "r = a mod b"
  have r: "0 \<le> r" "r < b" and a: "a = q * b + r" using b by (simp_all add: q_def r_def)
  have "round_div a b * b - a = - r \<and> 2 * r \<le> b \<or> round_div a b * b - a = b - r \<and> b \<le> 2 * r"
    unfolding round_div_def Let_def q_def [symmetric] r_def [symmetric]
    using r b by (auto simp: a algebra_simps)
  then show ?thesis using r by auto
qed

lemma round_div_upper: "b > 0 \<Longrightarrow> 2 * (round_div a b * b) \<le> 2 * a + b"
  using round_div_near [of b a] by (simp add: abs_if split: if_splits)

lemma round_div_exact [simp]: "b > 0 \<Longrightarrow> round_div (a * b) b = a"
  by (simp add: round_div_def)

lemma scaled_pos: "b > 0 \<Longrightarrow> snd (scaled a b e) > 0"
  by (simp add: scaled_def)

lemma scaled_val:
  assumes "b > 0"
  shows "of_int (fst (scaled a b e)) / of_int (snd (scaled a b e)) = (of_int a / of_int b :: rat) * 2 powi (- e)"
proof (cases "e \<ge> 0")
  case True
  then show ?thesis using assms by (simp add: scaled_def power_int_minus power_int_def field_simps)
next
  case False
  then show ?thesis using assms by (simp add: scaled_def power_int_def)
qed

text \<open>The rounding error is at most half a unit in the last place.\<close>

lemma round_frac_ulp:
  assumes "b > 0" "a \<noteq> 0"
  shows "\<bar>val (round_frac a b) - of_int a / of_int b\<bar> \<le> 2 powi (round_exponent a b - 1)"
proof -
  define e where "e = round_exponent a b"
  obtain n d where nd: "scaled a b e = (n, d)" by (cases "scaled a b e")
  have d: "d > 0" using scaled_pos [OF assms(1), of a e] by (simp add: nd)
  define r where "r = round_div n d"
  have v: "val (round_frac a b) = of_int r * 2 powi e"
    using assms(2) by (simp add: round_frac_def val_def e_def [symmetric] nd r_def)
  have x: "of_int a / of_int b = (of_int n / of_int d :: rat) * 2 powi e"
    using scaled_val [OF assms(1), of a e] by (simp add: nd power_int_minus field_simps)
  have "2 * \<bar>r * d - n\<bar> \<le> d" using round_div_near [OF d] by (simp add: r_def)
  then have "of_int (2 * \<bar>r * d - n\<bar>) \<le> (of_int d :: rat)" by (simp only: of_int_le_iff)
  moreover have "(of_int r - of_int n / of_int d) * of_int d = (of_int (r * d - n) :: rat)"
    using d by (simp add: left_diff_distrib)
  ultimately have "\<bar>(of_int r - of_int n / of_int d) * of_int d\<bar> * 2 \<le> (of_int d :: rat)" by simp
  then have near: "\<bar>of_int r - of_int n / of_int d :: rat\<bar> \<le> 1 / 2"
    using d by (simp add: abs_mult)
  have "\<bar>val (round_frac a b) - of_int a / of_int b\<bar> = \<bar>of_int r - of_int n / of_int d :: rat\<bar> * 2 powi e"
    unfolding v x left_diff_distrib [symmetric] by (simp add: abs_mult)
  also have "\<dots> \<le> 1 / 2 * 2 powi e" using near by (intro mult_right_mono) simp_all
  also have "\<dots> = 2 powi (e - 1)" by (simp add: power_int_diff)
  finally show ?thesis by (simp add: e_def)
qed

text \<open>The mantissa has its 53 bits: the value is at least \<open>2\<^sup>5\<^sup>2\<close> units of the last place.\<close>

lemma scaled_le_iff: "b > 0 \<Longrightarrow> (k * snd (scaled a b e) \<le> fst (scaled a b e))
   \<longleftrightarrow> of_int k \<le> (of_int a / of_int b :: rat) * 2 powi (- e)"
proof -
  assume b: "b > 0"
  let ?d = "snd (scaled a b e)"
  have d: "(of_int ?d :: rat) > 0" using scaled_pos [OF b] by simp
  have "k * ?d \<le> fst (scaled a b e) \<longleftrightarrow> of_int k * of_int ?d \<le> (of_int (fst (scaled a b e)) :: rat)"
    by (simp flip: of_int_mult)
  also have "\<dots> \<longleftrightarrow> of_int k \<le> (of_int (fst (scaled a b e)) / of_int ?d :: rat)"
    using d by (simp add: pos_le_divide_eq)
  finally show ?thesis unfolding scaled_val [OF b] .
qed

lemma round_exponent_bound:
  assumes "b > 0" "a \<noteq> 0"
  shows "2 powi (52 + round_exponent a b) \<le> (of_int \<bar>a\<bar> / of_int b :: rat)"
proof -
  define e where "e = bitlen \<bar>a\<bar> - bitlen b - 53"
  define k where "k = nat (bitlen \<bar>a\<bar> - 1)"
  define l where "l = nat (bitlen b)"
  have bits: "bitlen \<bar>a\<bar> = int k + 1" "bitlen b = int l"
    using bitlen_bounds [of "\<bar>a\<bar>"] bitlen_bounds [OF assms(1)] assms(2) by (simp_all add: k_def l_def)
  have "2 ^ k \<le> \<bar>a\<bar>" "b < 2 ^ l"
    using bitlen_bounds [of "\<bar>a\<bar>"] bitlen_bounds [OF assms(1)] assms(2) by (simp_all add: k_def l_def)
  then have ab: "(2::rat) ^ k \<le> of_int \<bar>a\<bar>" "of_int b \<le> (2::rat) ^ l"
  proof -
    have "(of_int (2 ^ k) :: rat) \<le> of_int \<bar>a\<bar>" "(of_int b :: rat) \<le> of_int (2 ^ l)"
      using \<open>2 ^ k \<le> \<bar>a\<bar>\<close> \<open>b < 2 ^ l\<close> by (simp_all only: of_int_le_iff less_imp_le)
    then show "(2::rat) ^ k \<le> of_int \<bar>a\<bar>" "of_int b \<le> (2::rat) ^ l" by simp_all
  qed
  have low: "2 powi (52 + e) \<le> (of_int \<bar>a\<bar> / of_int b :: rat)"
  proof -
    have "2 powi (52 + e) = (2::rat) ^ k / 2 ^ l"
      unfolding e_def bits by (simp add: power_int_diff)
    also have "\<dots> \<le> of_int \<bar>a\<bar> / of_int b" using ab assms(1) by (intro frac_le) simp_all
    finally show ?thesis .
  qed
  show ?thesis
  proof (cases "2 ^ 53 * snd (scaled \<bar>a\<bar> b e) \<le> fst (scaled \<bar>a\<bar> b e)")
    case True
    then have "(of_int (2 ^ 53) :: rat) \<le> of_int \<bar>a\<bar> / of_int b * 2 powi (- e)"
      using scaled_le_iff [OF assms(1)] by blast
    then have "2 powi 53 * 2 powi e \<le> (of_int \<bar>a\<bar> / of_int b :: rat) * (2 powi (- e) * 2 powi e)"
      unfolding mult.assoc [symmetric] by (intro mult_right_mono) simp_all
    moreover have "round_exponent a b = e + 1"
      using True by (simp add: round_exponent_def e_def [symmetric] case_prod_beta)
    moreover have "2 powi (- e) * 2 powi e = (1::rat)" by (simp flip: power_int_add)
    ultimately show ?thesis by (simp add: power_int_add)
  next
    case False
    then have "round_exponent a b = e"
      by (simp add: round_exponent_def e_def [symmetric] case_prod_beta)
    then show ?thesis using low by simp
  qed
qed

text \<open>The relative error is at most \<open>2\<^sup>-\<^sup>5\<^sup>3\<close>.\<close>

lemma round_frac_error:
  assumes "b > 0"
  shows "\<bar>val (round_frac a b) - of_int a / of_int b\<bar> \<le> \<bar>of_int a / of_int b\<bar> / 2 ^ 53"
proof (cases "a = 0")
  case True
  then show ?thesis by (simp add: round_frac_def val_def)
next
  case False
  have "\<bar>val (round_frac a b) - of_int a / of_int b\<bar> \<le> 2 powi (round_exponent a b - 1)"
    by (rule round_frac_ulp [OF assms False])
  also have "\<dots> = 2 powi (52 + round_exponent a b) / 2 ^ 53"
    by (simp add: power_int_diff power_int_add)
  also have "\<dots> \<le> \<bar>of_int a / of_int b\<bar> / 2 ^ 53"
    using round_exponent_bound [OF assms False] assms by (intro divide_right_mono) simp_all
  finally show ?thesis .
qed

text \<open>A value that needs no more than 53 bits is not changed.\<close>

lemma round_frac_exact:
  assumes b: "b > 0" and x: "(of_int a / of_int b :: rat) = of_int m * 2 powi k" and m: "\<bar>m\<bar> < 2 ^ 53"
  shows "val (round_frac a b) = of_int a / of_int b"
proof (cases "a = 0")
  case True
  then show ?thesis by (simp add: round_frac_def val_def)
next
  case False
  define e where "e = round_exponent a b"
  obtain n d where nd: "scaled a b e = (n, d)" by (cases "scaled a b e")
  have d: "d > 0" using scaled_pos [OF b, of a e] by (simp add: nd)
  have "2 powi (52 + e) \<le> \<bar>of_int a / of_int b :: rat\<bar>"
    using round_exponent_bound [OF b False] b by (simp add: e_def)
  also have "\<dots> = of_int \<bar>m\<bar> * 2 powi k" unfolding x by (simp add: abs_mult)
  also have "\<dots> < 2 powi 53 * 2 powi k"
  proof -
    have "(of_int \<bar>m\<bar> :: rat) < of_int (2 ^ 53)" using m by (simp only: of_int_less_iff)
    then show ?thesis by (intro mult_strict_right_mono) simp_all
  qed
  finally have "2 powi (52 + e) < (2::rat) powi (53 + k)" by (simp add: power_int_add)
  moreover have "(2::rat) powi (53 + k) \<le> 2 powi (52 + e)" if "\<not> e \<le> k"
    using that by (intro power_int_increasing) simp_all
  ultimately have ek: "e \<le> k" by fastforce
  have "of_int n / of_int d = (of_int a / of_int b :: rat) * 2 powi (- e)"
    using scaled_val [OF b, of a e] by (simp add: nd)
  also have "\<dots> = of_int m * 2 powi (k - e)" unfolding x by (simp add: power_int_diff power_int_minus field_simps)
  also have "\<dots> = of_int (m * 2 ^ nat (k - e))" using ek by (simp add: power_int_def)
  finally have "of_int n = (of_int (m * 2 ^ nat (k - e) * d) :: rat)" using d by (simp add: field_simps)
  then have n: "n = m * 2 ^ nat (k - e) * d" by (simp only: of_int_eq_iff)
  have "val (round_frac a b) = of_int (m * 2 ^ nat (k - e)) * 2 powi e"
    using False d unfolding round_frac_def e_def [symmetric] by (simp add: nd n val_def)
  also have "\<dots> = of_int m * (2 powi (k - e) * 2 powi e)" using ek by (simp add: power_int_def)
  also have "\<dots> = of_int m * 2 powi k" by (simp flip: power_int_add)
  finally show ?thesis unfolding x .
qed

lemma val_zero [simp]: "val d_zero = 0"
  by (simp add: val_def d_zero_def)

section \<open>The operations on values\<close>

lemma val_d_of_int: "\<bar>n\<bar> < 2 ^ 53 \<Longrightarrow> val (d_of_int n) = of_int n"
  using round_frac_exact [of 1 n n 0] by (simp add: d_of_int_def)

text \<open>The operands of the rounding are the exact product.\<close>

lemma d_mult_frac: "\<exists>a b. b > 0 \<and> d_mult x y = round_frac a b \<and> of_int a / of_int b = val x * val y"
proof (cases "expt x + expt y \<ge> 0")
  case True
  then have "of_int (mant x * mant y * 2 ^ nat (expt x + expt y)) / of_int 1 = val x * val y"
    by (simp add: val_def power_int_add power_int_def [of _ "expt x + expt y"] flip: power_int_add)
  then show ?thesis using True unfolding d_mult_def Let_def by (metis zero_less_one)
next
  case False
  then have "of_int (mant x * mant y) / of_int (2 ^ nat (- (expt x + expt y))) = val x * val y"
    by (simp add: val_def power_int_def [of _ "expt x + expt y"] field_simps flip: power_int_add)
  then show ?thesis using False unfolding d_mult_def Let_def
    by (metis zero_less_power zero_less_numeral)
qed

lemma d_mult_error: "\<bar>val (d_mult x y) - val x * val y\<bar> \<le> \<bar>val x * val y\<bar> / 2 ^ 53"
proof -
  obtain a b where "b > 0" "d_mult x y = round_frac a b" "of_int a / of_int b = val x * val y"
    using d_mult_frac by metis
  then show ?thesis using round_frac_error [of b a] by simp
qed

lemma d_mult_exact:
  assumes "val x * val y = of_int m * 2 powi k" "\<bar>m\<bar> < 2 ^ 53"
  shows "val (d_mult x y) = val x * val y"
proof -
  obtain a b where "b > 0" "d_mult x y = round_frac a b" "of_int a / of_int b = val x * val y"
    using d_mult_frac by metis
  then show ?thesis using round_frac_exact [of b a m k] assms by simp
qed

lemma d_ceil_val: "d_ceil x = \<lceil>val x\<rceil>"
proof (cases "expt x \<ge> 0")
  case True
  then have "val x = of_int (mant x * 2 ^ nat (expt x))" by (simp add: val_def power_int_def)
  then show ?thesis using True by (simp add: d_ceil_def del: of_int_mult)
next
  case False
  then have "- val x = of_int (- mant x) / of_int (2 ^ nat (- expt x))"
    by (simp add: val_def power_int_def field_simps)
  then have "\<lfloor>- val x\<rfloor> = (- mant x) div 2 ^ nat (- expt x)" by (metis floor_divide_of_int_eq)
  then show ?thesis using False by (simp add: d_ceil_def ceiling_def)
qed

lemma d_floor_val: "d_floor x = \<lfloor>val x\<rfloor>"
proof (cases "expt x \<ge> 0")
  case True
  then have "val x = of_int (mant x * 2 ^ nat (expt x))" by (simp add: val_def power_int_def)
  then show ?thesis using True by (simp add: d_floor_def del: of_int_mult)
next
  case False
  then have "val x = of_int (mant x) / of_int (2 ^ nat (- expt x))"
    by (simp add: val_def power_int_def field_simps)
  then have "\<lfloor>val x\<rfloor> = mant x div 2 ^ nat (- expt x)" by (metis floor_divide_of_int_eq)
  then show ?thesis using False by (simp add: d_floor_def)
qed

lemma d_less_val: "d_less x y \<longleftrightarrow> val x < val y"
proof -
  define e where "e = min (expt x) (expt y)"
  have e: "e \<le> expt x" "e \<le> expt y" by (simp_all add: e_def)
  have scale: "val z = of_int (mant z * 2 ^ nat (expt z - e)) * 2 powi e" if "e \<le> expt z" for z
  proof -
    have "(2::rat) ^ nat (expt z - e) = 2 powi (expt z - e)" using that by (simp add: power_int_def)
    then show ?thesis by (simp add: val_def flip: power_int_add)
  qed
  show ?thesis
    unfolding scale [OF e(1)] scale [OF e(2)] d_less_def Let_def e_def [symmetric]
    by (simp only: mult_less_cancel_right_pos zero_less_power_int zero_less_numeral of_int_less_iff)
qed

lemma mant_sign: "0 < val x \<Longrightarrow> 0 < mant x" "0 \<le> val x \<Longrightarrow> 0 \<le> mant x"
proof -
  have p: "(0::rat) < 2 powi expt x" by simp
  show "0 < val x \<Longrightarrow> 0 < mant x" using zero_less_mult_pos2 [OF _ p, of "of_int (mant x)"] by (simp add: val_def)
  show "0 \<le> val x \<Longrightarrow> 0 \<le> mant x" using mult_neg_pos [OF _ p, of "of_int (mant x)"] by (force simp: val_def not_le)
qed

lemma d_div_frac:
  assumes "val y > 0"
  shows "\<exists>a b. b > 0 \<and> d_div x y = round_frac a b \<and> of_int a / of_int b = val x / val y"
proof -
  have y: "mant y > 0" by (rule mant_sign(1) [OF assms])
  show ?thesis
  proof (cases "expt x - expt y \<ge> 0")
    case True
    then have "(2::rat) ^ nat (expt x - expt y) = 2 powi expt x / 2 powi expt y"
      by (simp add: power_int_def [of _ "expt x - expt y"] flip: power_int_diff)
    then have "of_int (mant x * 2 ^ nat (expt x - expt y)) / of_int (mant y) = val x / val y" by (simp add: val_def)
    then show ?thesis using True y unfolding d_div_def Let_def
      by (intro exI [of _ "mant x * 2 ^ nat (expt x - expt y)"] exI [of _ "mant y"]) simp
  next
    case False
    then have "(2::rat) ^ nat (- (expt x - expt y)) = 2 powi expt y / 2 powi expt x"
      by (simp add: power_int_def [of _ "expt y - expt x"] flip: power_int_diff)
    then have "of_int (mant x) / of_int (mant y * 2 ^ nat (- (expt x - expt y))) = val x / val y" by (simp add: val_def)
    then show ?thesis using False y unfolding d_div_def Let_def
      by (intro exI [of _ "mant x"] exI [of _ "mant y * 2 ^ nat (- (expt x - expt y))"]) simp
  qed
qed

section \<open>Coarse bounds\<close>

lemma rounded_between:
  assumes "0 \<le> x" "\<bar>v - x\<bar> \<le> \<bar>x\<bar> / 2 ^ 53"
  shows "0 \<le> (v::rat) \<and> v \<le> 11 / 10 * x"
proof -
  have "\<bar>x\<bar> / 2 ^ 53 \<le> x / 10" using assms(1) by simp
  then show ?thesis using assms by (auto simp: abs_if split: if_splits)
qed

lemma d_mult_between: "0 \<le> val x \<Longrightarrow> 0 \<le> val y \<Longrightarrow>
   0 \<le> val (d_mult x y) \<and> val (d_mult x y) \<le> 11 / 10 * (val x * val y)"
  by (rule rounded_between [OF _ d_mult_error]) simp

lemma round_frac_between: "0 \<le> a \<Longrightarrow> 0 < b \<Longrightarrow>
   0 \<le> val (round_frac a b) \<and> val (round_frac a b) \<le> 11 / 10 * (of_int a / of_int b)"
  by (rule rounded_between [OF _ round_frac_error]) simp_all

lemma rounded_above: "0 \<le> x \<Longrightarrow> \<bar>v - x\<bar> \<le> \<bar>x\<bar> / 2 ^ 53 \<Longrightarrow> 9 / 10 * x \<le> (v :: rat)"
  by (auto simp: abs_if split: if_splits)

lemma d_of_int_between: "0 \<le> n \<Longrightarrow> 9 / 10 * of_int n \<le> val (d_of_int n) \<and> val (d_of_int n) \<le> 11 / 10 * of_int n"
  using round_frac_between [of n 1] rounded_above [OF _ round_frac_error [of 1 n]] by (simp add: d_of_int_def)

lemma d_div_between:
  assumes "0 \<le> val x" "0 < val y"
  shows "9 / 10 * (val x / val y) \<le> val (d_div x y) \<and> val (d_div x y) \<le> 11 / 10 * (val x / val y)"
proof -
  obtain a b where ab: "b > 0" "d_div x y = round_frac a b" "of_int a / of_int b = val x / val y"
    using d_div_frac [OF assms(2)] by metis
  have "0 \<le> val x / val y" using assms by simp
  then show ?thesis using rounded_between [OF _ round_frac_error [OF ab(1), of a]]
      rounded_above [OF _ round_frac_error [OF ab(1), of a]] unfolding ab(2,3) by blast
qed

section \<open>Rounding is monotone\<close>

lemma round_exponent_upper:
  assumes "b > 0" "a \<noteq> 0"
  shows "(of_int \<bar>a\<bar> / of_int b :: rat) < 2 powi (53 + round_exponent a b)"
proof -
  define e where "e = bitlen \<bar>a\<bar> - bitlen b - 53"
  define k where "k = nat (bitlen \<bar>a\<bar>)"
  define l where "l = nat (bitlen b - 1)"
  have bits: "bitlen \<bar>a\<bar> = int k" "bitlen b = int l + 1"
    using bitlen_bounds [of "\<bar>a\<bar>"] bitlen_bounds [OF assms(1)] assms(2) by (simp_all add: k_def l_def)
  have ab: "\<bar>a\<bar> < 2 ^ k" "2 ^ l \<le> b"
    using bitlen_bounds [of "\<bar>a\<bar>"] bitlen_bounds [OF assms(1)] assms(2) by (simp_all add: k_def l_def)
  have "(of_int \<bar>a\<bar> :: rat) < of_int (2 ^ k)" using ab(1) by (simp only: of_int_less_iff)
  moreover have "(of_int (2 ^ l) :: rat) \<le> of_int b" using ab(2) by (simp only: of_int_le_iff)
  ultimately have "of_int \<bar>a\<bar> / of_int b < (2 ^ k / 2 ^ l :: rat)" by (intro frac_less) simp_all
  also have "\<dots> = 2 powi (54 + e)" unfolding e_def bits by (simp add: power_int_diff)
  finally have high: "of_int \<bar>a\<bar> / of_int b < (2 powi (54 + e) :: rat)" .
  show ?thesis
  proof (cases "2 ^ 53 * snd (scaled \<bar>a\<bar> b e) \<le> fst (scaled \<bar>a\<bar> b e)")
    case True
    then have "round_exponent a b = e + 1"
      by (simp add: round_exponent_def e_def [symmetric] case_prod_beta)
    then show ?thesis using high by (simp add: add.commute)
  next
    case False
    then have eq: "round_exponent a b = e"
      by (simp add: round_exponent_def e_def [symmetric] case_prod_beta)
    have "\<not> of_int (2 ^ 53) \<le> (of_int \<bar>a\<bar> / of_int b :: rat) * 2 powi (- e)"
      using False scaled_le_iff [OF assms(1)] by blast
    then have "(of_int \<bar>a\<bar> / of_int b :: rat) * 2 powi (- e) * 2 powi e < 2 powi 53 * 2 powi e"
      by (intro mult_strict_right_mono) simp_all
    then have "(of_int \<bar>a\<bar> / of_int b :: rat) * (2 powi (- e) * 2 powi e) < 2 powi 53 * 2 powi e" by (simp only: mult.assoc)
    moreover have "2 powi (- e) * 2 powi e = (1::rat)" by (simp flip: power_int_add)
    ultimately have "(of_int \<bar>a\<bar> / of_int b :: rat) < 2 powi 53 * 2 powi e" by simp
    then show ?thesis unfolding eq by (simp add: power_int_add)
  qed
qed

text \<open>To nearest, ties to even, as a function of the value.\<close>

definition nearest :: "rat \<Rightarrow> int" where
  "nearest x = (let q = \<lfloor>x\<rfloor>; f = x - of_int q
     in if f < 1 / 2 then q else if f > 1 / 2 then q + 1 else if even q then q else q + 1)"

lemma nearest_mono: "x \<le> y \<Longrightarrow> nearest x \<le> nearest y"
proof -
  assume le: "x \<le> y"
  have b: "\<lfloor>z\<rfloor> \<le> nearest z" "nearest z \<le> \<lfloor>z\<rfloor> + 1" for z by (auto simp: nearest_def Let_def)
  show ?thesis
  proof (cases "\<lfloor>x\<rfloor> = \<lfloor>y\<rfloor>")
    case True
    then show ?thesis using le by (auto simp: nearest_def Let_def)
  next
    case False
    then have "\<lfloor>x\<rfloor> < \<lfloor>y\<rfloor>" using floor_mono [OF le] by simp
    then show ?thesis using b(1) [of y] b(2) [of x] by linarith
  qed
qed

lemma nearest_of_int [simp]: "nearest (of_int n) = n"
  by (simp add: nearest_def)

lemma round_div_nearest:
  assumes "b > 0"
  shows "round_div a b = nearest (of_int a / of_int b)"
proof -
  have "(of_int a :: rat) = of_int (a div b) * of_int b + of_int (a mod b)" by (simp flip: of_int_mult of_int_add)
  then have f: "of_int a / of_int b - of_int (a div b) = (of_int (a mod b) / of_int b :: rat)"
    using assms by (simp add: field_simps)
  have "(of_int (a mod b) / of_int b < (1 / 2 :: rat)) = (of_int (2 * (a mod b)) < (of_int b :: rat))"
    "(1 / 2 < (of_int (a mod b) / of_int b :: rat)) = (of_int b < (of_int (2 * (a mod b)) :: rat))"
    using assms by (simp_all add: field_simps)
  then show ?thesis unfolding round_div_def nearest_def Let_def floor_divide_of_int_eq f of_int_less_iff by simp
qed

lemma round_frac_nearest:
  assumes "b > 0" "a \<noteq> 0"
  shows "val (round_frac a b) = of_int (nearest (of_int a / of_int b * 2 powi (- round_exponent a b))) * 2 powi round_exponent a b"
proof -
  obtain n d where nd: "scaled a b (round_exponent a b) = (n, d)" by (cases "scaled a b (round_exponent a b)")
  have d: "d > 0" using scaled_pos [OF assms(1), of a "round_exponent a b"] by (simp add: nd)
  show ?thesis using assms(2) scaled_val [OF assms(1), of a "round_exponent a b"]
    by (simp add: round_frac_def val_def nd round_div_nearest [OF d] Let_def)
qed

lemma round_frac_mono:
  assumes b: "b > 0" "b' > 0" and a: "0 \<le> a" and le: "of_int a / of_int b \<le> (of_int a' / of_int b' :: rat)"
  shows "val (round_frac a b) \<le> val (round_frac a' b')"
proof (cases "a = 0")
  case True
  then have "0 \<le> (of_int a' / of_int b' :: rat)" using le by simp
  then have "0 \<le> a'" using b(2) by (simp add: zero_le_divide_iff)
  then show ?thesis using round_frac_between [of a' b'] b(2) True by (simp add: round_frac_def val_def)
next
  case False
  define x y where "x = (of_int a / of_int b :: rat)" and "y = (of_int a' / of_int b' :: rat)"
  define e e' where "e = round_exponent a b" and "e' = round_exponent a' b'"
  have a0: "0 < a" using a False by simp
  then have "0 < x" using b(1) by (simp add: x_def)
  then have y0: "0 < y" using le by (simp add: x_def y_def)
  then have a0': "0 < a'" using b(2) by (simp add: y_def zero_less_divide_iff)
  have bx: "2 powi (52 + e) \<le> x" "x < 2 powi (53 + e)"
    using round_exponent_bound [OF b(1), of a] round_exponent_upper [OF b(1), of a] a0 by (simp_all add: x_def e_def)
  have by': "2 powi (52 + e') \<le> y" "y < 2 powi (53 + e')"
    using round_exponent_bound [OF b(2), of a'] round_exponent_upper [OF b(2), of a'] a0' by (simp_all add: y_def e'_def)
  have vx: "val (round_frac a b) = of_int (nearest (x * 2 powi (- e))) * 2 powi e"
    and vy: "val (round_frac a' b') = of_int (nearest (y * 2 powi (- e'))) * 2 powi e'"
    using round_frac_nearest [OF b(1), of a] round_frac_nearest [OF b(2), of a'] a0 a0' by (simp_all add: x_def y_def e_def e'_def)
  have xy: "x \<le> y" using le by (simp add: x_def y_def)
  show ?thesis
  proof (cases "e = e'")
    case True
    have "x * 2 powi (- e) \<le> y * 2 powi (- e)" using xy by (intro mult_right_mono) simp_all
    from nearest_mono [OF this] show ?thesis unfolding vx vy True [symmetric] by (intro mult_right_mono) simp_all
  next
    case F: False
    have "(2::rat) powi (52 + e) < 2 powi (53 + e')" using bx(1) xy by'(2) by linarith
    moreover have "(2::rat) powi (53 + e') \<le> 2 powi (52 + e)" if "\<not> e \<le> e'"
      using that by (intro power_int_increasing) simp_all
    ultimately have "e < e'" using F by fastforce
    have "x * 2 powi (- e) \<le> 2 powi (53 + e) * 2 powi (- e)" using bx(2) by (intro mult_right_mono) simp_all
    also have "\<dots> = of_int (2 ^ 53)" by (simp flip: power_int_add)
    finally have "nearest (x * 2 powi (- e)) \<le> 2 ^ 53" using nearest_mono nearest_of_int by metis
    then have "(of_int (nearest (x * 2 powi (- e))) :: rat) \<le> of_int (2 ^ 53)" by (simp only: of_int_le_iff)
    then have "val (round_frac a b) \<le> of_int (2 ^ 53) * 2 powi e" unfolding vx by (intro mult_right_mono) simp_all
    also have "\<dots> = 2 powi (53 + e)" by (simp add: power_int_add)
    also have "\<dots> \<le> 2 powi (52 + e')" using \<open>e < e'\<close> by (intro power_int_increasing) simp_all
    also have "\<dots> = of_int (2 ^ 52) * 2 powi e'" by (simp add: power_int_add)
    also have "\<dots> \<le> val (round_frac a' b')"
    proof -
      have "of_int (2 ^ 52) = (2::rat) powi (52 + e') * 2 powi (- e')" by (simp flip: power_int_add)
      also have "\<dots> \<le> y * 2 powi (- e')" using by'(1) by (intro mult_right_mono) simp_all
      finally have "2 ^ 52 \<le> nearest (y * 2 powi (- e'))" using nearest_mono nearest_of_int by metis
      then have "(of_int (2 ^ 52) :: rat) \<le> of_int (nearest (y * 2 powi (- e')))" by (simp only: of_int_le_iff)
      then show ?thesis unfolding vy by (intro mult_right_mono) simp_all
    qed
    finally show ?thesis .
  qed
qed

lemma d_of_int_mono: "0 \<le> m \<Longrightarrow> m \<le> n \<Longrightarrow> val (d_of_int m) \<le> val (d_of_int n)"
  unfolding d_of_int_def by (rule round_frac_mono) simp_all

lemma d_mult_mono:
  assumes "0 \<le> val x" "val x \<le> val x'" "0 \<le> val y" "val y \<le> val y'"
  shows "val (d_mult x y) \<le> val (d_mult x' y')"
proof -
  obtain a b where ab: "b > 0" "d_mult x y = round_frac a b" "of_int a / of_int b = val x * val y" using d_mult_frac by metis
  obtain a' b' where ab': "b' > 0" "d_mult x' y' = round_frac a' b'" "of_int a' / of_int b' = val x' * val y'" using d_mult_frac by metis
  have "0 \<le> (of_int a / of_int b :: rat)" using assms unfolding ab(3) by simp
  then have "0 \<le> a" using ab(1) by (simp add: zero_le_divide_iff)
  then show ?thesis unfolding ab(2) ab'(2) using ab(1,3) ab'(1,3) assms by (intro round_frac_mono) (simp_all add: mult_mono')
qed

lemma d_div_mono:
  assumes "0 \<le> val x" "val x \<le> val x'" "0 < val y"
  shows "val (d_div x y) \<le> val (d_div x' y)"
proof -
  obtain a b where ab: "b > 0" "d_div x y = round_frac a b" "of_int a / of_int b = val x / val y" using d_div_frac [OF assms(3)] by metis
  obtain a' b' where ab': "b' > 0" "d_div x' y = round_frac a' b'" "of_int a' / of_int b' = val x' / val y" using d_div_frac [OF assms(3)] by metis
  have "0 \<le> (of_int a / of_int b :: rat)" using assms unfolding ab(3) by simp
  then have "0 \<le> a" using ab(1) by (simp add: zero_le_divide_iff)
  then show ?thesis unfolding ab(2) ab'(2) using ab(1,3) ab'(1,3) assms by (intro round_frac_mono) (simp_all add: divide_right_mono)
qed

lemma int_to_u64_val: "int_to_u64 n = Some r \<Longrightarrow> uint r = n"
proof -
  assume "int_to_u64 n = Some r"
  then have n: "0 \<le> n" "n < 2 ^ 64" "r = of_int n" by (auto simp: int_to_u64_def)
  show ?thesis unfolding n(3) using n(1,2) by (intro word_of_int_inverse [OF refl]) simp_all
qed

section \<open>Quotients that are printed\<close>

text \<open>A quotient by zero is infinite or not a number, neither of which has a counterpart here.\<close>

definition d_quot :: "double \<Rightarrow> double \<Rightarrow> double option" where
  "d_quot x y = do { require (mant y \<noteq> 0); Some (d_div x y) }"

lemma d_of_int_pos: "0 < n \<Longrightarrow> 0 < val (d_of_int n)"
proof -
  assume "0 < n"
  then have "(of_int 1 :: rat) \<le> of_int n" by (simp only: of_int_le_iff)
  then show ?thesis using d_of_int_between [of n] \<open>0 < n\<close> by simp
qed

lemma d_div_pos: "0 < val x \<Longrightarrow> 0 < val y \<Longrightarrow> 0 < val (d_div x y)"
proof -
  assume p: "0 < val x" "0 < val y"
  then have "0 < 9 / 10 * (val x / val y)" by simp
  then show ?thesis using d_div_between [of x y] p by linarith
qed

lemma d_mult_pos: "0 < val x \<Longrightarrow> 0 < val y \<Longrightarrow> 0 < val (d_mult x y)"
proof -
  assume p: "0 < val x" "0 < val y"
  then have pos: "0 < val x * val y" by simp
  then have "9 / 10 * (val x * val y) \<le> val (d_mult x y)" using rounded_above [OF _ d_mult_error [of x y]] by simp
  then show ?thesis using pos by linarith
qed

lemma d_quot_pos: "0 < val y \<Longrightarrow> d_quot x y = Some (d_div x y)"
  using mant_sign(1) [of y] by (simp add: d_quot_def)

end
