(* ===== verification/Metrics_Snapshot.thy ===== *)
theory Metrics_Snapshot
  imports Ieee_Double
begin

text \<open>
  The snapshot the aggregator produces and its JSON form, \<^verbatim>\<open>metrics/include/metrics_snapshot.hpp\<close>, with
  the part of \<open>printf\<close> formatting that the metrics use. A C string is its characters without the
  terminator; a C array is a list of its length, read through bounds-checked access.
\<close>

section \<open>Formatting\<close>

fun dec :: "nat \<Rightarrow> string" where
  "dec n = (if n < 10 then [char_of (48 + n)] else dec (n div 10) @ [char_of (48 + n mod 10)])"

declare dec.simps [simp del]

definition fmt_llu :: "u64 \<Rightarrow> string" where
  "fmt_llu x = dec (unat x)"

definition fmt_lld :: "int \<Rightarrow> string" where
  "fmt_lld x = (if x < 0 then ''-'' @ dec (nat (- x)) else dec (nat x))"

text \<open>\<open>%.kf\<close>: the exact value rounded to \<open>k\<close> decimals, ties to even.\<close>

definition fmt_fixed :: "nat \<Rightarrow> double \<Rightarrow> string" where
  "fmt_fixed k x =
     (let m = \<bar>mant x\<bar> * 10 ^ k;
          r = nat (if expt x \<ge> 0 then m * 2 ^ nat (expt x) else round_div m (2 ^ nat (- expt x)));
          frac = dec (r mod 10 ^ k)
      in (if mant x < 0 then ''-'' else '''') @ dec (r div 10 ^ k)
         @ (if k = 0 then '''' else ''.'' @ replicate (k - length frac) (CHR ''0'') @ frac))"

text \<open>What \<open>snprintf\<close> leaves in a buffer of \<open>cap\<close> characters.\<close>

definition truncated :: "nat \<Rightarrow> string \<Rightarrow> string" where
  "truncated cap t = take (cap - 1) t"

text \<open>Reading the digits back.\<close>

definition parse_dec :: "string \<Rightarrow> nat" where
  "parse_dec t = foldl (\<lambda>v c. v * 10 + (of_char c - 48)) 0 t"

lemma of_char_digit: "d < 10 \<Longrightarrow> of_char (char_of (48 + d) :: char) = (48 + d :: nat)"
  by (simp add: of_char_of)

lemma parse_dec_dec: "parse_dec (dec n) = n"
proof (induction n rule: dec.induct)
  case (1 n)
  show ?case
  proof (cases "n < 10")
    case True
    then show ?thesis by (simp add: dec.simps [of n] parse_dec_def of_char_digit)
  next
    case False
    then have "dec n = dec (n div 10) @ [char_of (48 + n mod 10)]" by (subst dec.simps) simp
    then show ?thesis using 1 False by (simp add: parse_dec_def of_char_digit)
  qed
qed

section \<open>The snapshot\<close>

record op_stat =
  op_name :: string
  op_count :: u64
  op_ops_per_s :: double
  op_p50 :: double
  op_p99 :: double
  op_p999 :: double
  op_max :: double

record alert =
  al_level :: string
  al_code :: string
  al_text :: string

record depth_rec =
  dr_px :: int
  dr_qty :: int

record trade_rec =
  tr_px :: int
  tr_qty :: int
  tr_maker :: u64

definition MAX_DEPTH :: nat where "MAX_DEPTH = 10"

definition MAX_TAPE :: nat where "MAX_TAPE = 16"

record snapshot =
  s_uptime :: double
  s_final :: bool
  s_events :: u64
  s_trades :: u64
  s_snaps :: u64
  s_drops :: u64
  s_unit :: string
  s_have_book :: bool
  s_best_bid :: int
  s_best_ask :: int
  s_last_px :: int
  s_volume :: u64
  s_num_ops :: nat
  s_ops :: "op_stat list"
  s_num_alerts :: nat
  s_alerts :: "alert list"
  s_nbids :: nat
  s_nasks :: nat
  s_bids :: "depth_rec list"
  s_asks :: "depth_rec list"
  s_ntape :: nat
  s_tape :: "trade_rec list"

definition new_op_stat :: op_stat where
  "new_op_stat = \<lparr>op_name = ''?'', op_count = 0, op_ops_per_s = d_zero, op_p50 = d_zero, op_p99 = d_zero,
     op_p999 = d_zero, op_max = d_zero\<rparr>"

definition new_alert :: alert where
  "new_alert = \<lparr>al_level = ''warn'', al_code = ''?'', al_text = ''''\<rparr>"

definition new_snapshot :: snapshot where
  "new_snapshot = \<lparr>s_uptime = d_zero, s_final = False, s_events = 0, s_trades = 0, s_snaps = 0, s_drops = 0,
     s_unit = ''ns'', s_have_book = False, s_best_bid = 0, s_best_ask = 0, s_last_px = 0, s_volume = 0,
     s_num_ops = 0, s_ops = replicate 8 new_op_stat, s_num_alerts = 0, s_alerts = replicate 8 new_alert,
     s_nbids = 0, s_nasks = 0, s_bids = replicate MAX_DEPTH \<lparr>dr_px = 0, dr_qty = 0\<rparr>,
     s_asks = replicate MAX_DEPTH \<lparr>dr_px = 0, dr_qty = 0\<rparr>, s_ntape = 0,
     s_tape = replicate MAX_TAPE \<lparr>tr_px = 0, tr_qty = 0, tr_maker = 0\<rparr>\<rparr>"

section \<open>Appending to a bounded buffer\<close>

text \<open>The buffer's characters and the length \<open>n\<close> of the text in it.\<close>

type_synonym text_buffer = "char list \<times> nat"

text \<open>\<open>vsnprintf(buf + n, cap - n, \<dots>)\<close> for \<open>n < cap\<close>: what fits, then a terminator.\<close>

definition put_text :: "char list \<Rightarrow> nat \<Rightarrow> nat \<Rightarrow> string \<Rightarrow> char list" where
  "put_text buf cap n t =
     (let t = take (cap - n - 1) t in take n buf @ t @ [CHR 0x00] @ drop (n + length t + 1) buf)"

definition jappend :: "nat \<Rightarrow> string \<Rightarrow> text_buffer \<Rightarrow> text_buffer" where
  "jappend cap t b = (case b of (buf, n) \<Rightarrow>
     if n \<ge> cap then (buf, n)
     else let buf = put_text buf cap n t;
              n = n + length t
          in (buf, if n \<ge> cap then cap - 1 else n))"

text \<open>The loops: the items \<open>i\<close>, \<open>i + 1\<close>, \<dots>, \<open>k\<close> of them left.\<close>

primrec jappend_items :: "nat \<Rightarrow> (nat \<Rightarrow> string option) \<Rightarrow> nat \<Rightarrow> nat \<Rightarrow> text_buffer \<Rightarrow> text_buffer option" where
  "jappend_items cap item 0 i b = Some b"
| "jappend_items cap item (Suc k) i b = do {
     t \<leftarrow> item i;
     jappend_items cap item k (Suc i) (jappend cap t b)
   }"

section \<open>The JSON text\<close>

definition comma :: "nat \<Rightarrow> string" where
  "comma i = (if i \<noteq> 0 then '','' else '''')"

definition json_header :: "snapshot \<Rightarrow> string" where \<open>
  json_header s =
    ''{"t":'' @ fmt_fixed 2 (s_uptime s) @ '',"final":'' @ (if s_final s then ''true'' else ''false'')
    @ '',"events":'' @ fmt_llu (s_events s) @ '',"trades":'' @ fmt_llu (s_trades s)
    @ '',"snaps":'' @ fmt_llu (s_snaps s) @ '',"drops":'' @ fmt_llu (s_drops s)
    @ '',"unit":"'' @ s_unit s @ ''"''\<close>

text \<open>The spread is an \<open>int64_t\<close> difference, undefined where it overflows.\<close>

definition json_book :: "snapshot \<Rightarrow> string option" where \<open>
  json_book s =
    (if s_have_book s
     then do {
       require (int64_range (s_best_ask s - s_best_bid s));
       Some ('',"book":{"bid":'' @ fmt_lld (s_best_bid s) @ '',"ask":'' @ fmt_lld (s_best_ask s)
         @ '',"spread":'' @ fmt_lld (s_best_ask s - s_best_bid s) @ '',"last":'' @ fmt_lld (s_last_px s)
         @ '',"vol":'' @ fmt_llu (s_volume s) @ ''}'')
     }
     else Some '',"book":null'')\<close>

definition json_op :: "snapshot \<Rightarrow> nat \<Rightarrow> string option" where \<open>
  json_op s i = do {
    x \<leftarrow> vec_get (s_ops s) (int i);
    Some (comma i @ ''{"op":"'' @ op_name x @ ''","ops_s":'' @ fmt_fixed 0 (op_ops_per_s x)
      @ '',"count":'' @ fmt_llu (op_count x) @ '',"p50":'' @ fmt_fixed 1 (op_p50 x)
      @ '',"p99":'' @ fmt_fixed 1 (op_p99 x) @ '',"p999":'' @ fmt_fixed 1 (op_p999 x)
      @ '',"max":'' @ fmt_fixed 1 (op_max x) @ ''}'')
  }\<close>

definition json_alert :: "snapshot \<Rightarrow> nat \<Rightarrow> string option" where \<open>
  json_alert s i = do {
    a \<leftarrow> vec_get (s_alerts s) (int i);
    Some (comma i @ ''{"level":"'' @ al_level a @ ''","code":"'' @ al_code a @ ''","text":"'' @ al_text a @ ''"}'')
  }\<close>

definition json_level :: "depth_rec list \<Rightarrow> nat \<Rightarrow> string option" where
  "json_level ls i = do {
     l \<leftarrow> vec_get ls (int i);
     Some (comma i @ ''['' @ fmt_lld (dr_px l) @ '','' @ fmt_lld (dr_qty l) @ '']'')
   }"

definition json_trade :: "snapshot \<Rightarrow> nat \<Rightarrow> string option" where
  "json_trade s i = do {
     t \<leftarrow> vec_get (s_tape s) (int i);
     Some (comma i @ ''['' @ fmt_lld (tr_px t) @ '','' @ fmt_lld (tr_qty t) @ '','' @ fmt_llu (tr_maker t) @ '']'')
   }"

definition writeJson :: "snapshot \<Rightarrow> char list \<Rightarrow> nat \<Rightarrow> text_buffer option" where \<open>
  writeJson s buf cap = do {
    let b = (buf, 0);
    let b = jappend cap (json_header s) b;
    t \<leftarrow> json_book s;
    let b = jappend cap t b;
    let b = jappend cap '',"ops":['' b;
    b \<leftarrow> jappend_items cap (json_op s) (s_num_ops s) 0 b;
    let b = jappend cap ''],"alerts":['' b;
    b \<leftarrow> jappend_items cap (json_alert s) (s_num_alerts s) 0 b;
    let b = jappend cap ''],"bids":['' b;
    b \<leftarrow> jappend_items cap (json_level (s_bids s)) (s_nbids s) 0 b;
    let b = jappend cap ''],"asks":['' b;
    b \<leftarrow> jappend_items cap (json_level (s_asks s)) (s_nasks s) 0 b;
    let b = jappend cap ''],"tape":['' b;
    b \<leftarrow> jappend_items cap (json_trade s) (s_ntape s) 0 b;
    Some (jappend cap '']}'' b)
  }\<close>

section \<open>The buffer holds the text, cut to its size\<close>

definition holds_text :: "nat \<Rightarrow> string \<Rightarrow> text_buffer \<Rightarrow> bool" where
  "holds_text cap t b \<longleftrightarrow> length (fst b) = cap \<and> snd b = min (length t) (cap - 1)
     \<and> take (snd b) (fst b) = take (cap - 1) t"

lemma holds_text_start: "0 < cap \<Longrightarrow> length buf = cap \<Longrightarrow> holds_text cap [] (buf, 0)"
  by (simp add: holds_text_def)

lemma put_text_fits:
  assumes "n < cap" "length buf = cap" "k \<le> min (length t) (cap - n - 1)"
  shows "length (put_text buf cap n t) = cap" "take (n + k) (put_text buf cap n t) = take n buf @ take k t"
  using assms by (auto simp: put_text_def Let_def min_def take_append split: if_splits)

lemma put_text_end:
  assumes "n < cap" "length buf = cap"
  shows "put_text buf cap n t ! min (n + length t) (cap - 1) = CHR 0x00"
  using assms by (auto simp: put_text_def Let_def nth_append min_def)

lemma holds_text_jappend:
  assumes "0 < cap" "holds_text cap t b"
  shows "holds_text cap (t @ u) (jappend cap u b)"
proof -
  obtain buf n where b: "b = (buf, n)" by (cases b)
  have n: "n < cap" "length buf = cap" "n = min (length t) (cap - 1)" "take n buf = take (cap - 1) t"
    using assms by (auto simp: holds_text_def b)
  define k where "k = min (length u) (cap - n - 1)"
  have j: "jappend cap u b = (put_text buf cap n u, n + k)"
    using n(1) by (auto simp: jappend_def b Let_def k_def min_def)
  have "n + k = min (length (t @ u)) (cap - 1)" using n by (auto simp: k_def min_def)
  moreover have "take (n + k) (put_text buf cap n u) = take (cap - 1) (t @ u)"
    using put_text_fits(2) [OF n(1,2), of k u] n(3,4) by (auto simp: k_def min_def)
  ultimately show ?thesis unfolding j holds_text_def using put_text_fits(1) [OF n(1,2), of k u] by (simp add: k_def)
qed

lemma jappend_terminated:
  assumes "0 < cap" "holds_text cap t b"
  shows "fst (jappend cap u b) ! snd (jappend cap u b) = CHR 0x00"
proof -
  obtain buf n where b: "b = (buf, n)" by (cases b)
  have n: "n < cap" "length buf = cap" using assms by (auto simp: holds_text_def b)
  have "snd (jappend cap u b) = min (n + length u) (cap - 1)" "fst (jappend cap u b) = put_text buf cap n u"
    using n(1) by (auto simp: jappend_def b Let_def)
  then show ?thesis by (simp only: put_text_end [OF n])
qed

primrec items_text :: "(nat \<Rightarrow> string option) \<Rightarrow> nat \<Rightarrow> nat \<Rightarrow> string option" where
  "items_text item 0 i = Some []"
| "items_text item (Suc k) i = do { t \<leftarrow> item i; u \<leftarrow> items_text item k (Suc i); Some (t @ u) }"

lemma holds_text_items:
  assumes "0 < cap"
  shows "items_text item k i = Some u \<Longrightarrow> holds_text cap t b \<Longrightarrow>
     \<exists>b'. jappend_items cap item k i b = Some b' \<and> holds_text cap (t @ u) b'"
proof (induction k arbitrary: i u t b)
  case (Suc k)
  from Suc.prems(1) obtain t1 u1 where u: "item i = Some t1" "items_text item k (Suc i) = Some u1" "u = t1 @ u1" by auto
  from Suc.IH [OF u(2) holds_text_jappend [OF assms Suc.prems(2), of t1]] show ?case using u by simp
qed simp

text \<open>The whole document.\<close>

definition json_text :: "snapshot \<Rightarrow> string option" where \<open>
  json_text s = do {
    book \<leftarrow> json_book s;
    ops \<leftarrow> items_text (json_op s) (s_num_ops s) 0;
    alerts \<leftarrow> items_text (json_alert s) (s_num_alerts s) 0;
    bids \<leftarrow> items_text (json_level (s_bids s)) (s_nbids s) 0;
    asks \<leftarrow> items_text (json_level (s_asks s)) (s_nasks s) 0;
    tape \<leftarrow> items_text (json_trade s) (s_ntape s) 0;
    Some (json_header s @ book @ '',"ops":['' @ ops @ ''],"alerts":['' @ alerts @ ''],"bids":['' @ bids
      @ ''],"asks":['' @ asks @ ''],"tape":['' @ tape @ '']}'')
  }\<close>

lemma items_text_defined:
  "(\<And>j. i \<le> j \<Longrightarrow> j < i + k \<Longrightarrow> \<exists>t. item j = Some t) \<Longrightarrow> \<exists>u. items_text item k i = Some u"
proof (induction k arbitrary: i)
  case (Suc k)
  obtain t where "item i = Some t" using Suc.prems [of i] by auto
  moreover have "\<exists>u. items_text item k (Suc i) = Some u" using Suc.prems by (intro Suc.IH) auto
  ultimately show ?case by auto
qed simp

text \<open>The counts stay inside the arrays.\<close>

definition snapshot_ok :: "snapshot \<Rightarrow> bool" where
  "snapshot_ok s \<longleftrightarrow> s_num_ops s \<le> length (s_ops s) \<and> s_num_alerts s \<le> length (s_alerts s)
     \<and> s_nbids s \<le> length (s_bids s) \<and> s_nasks s \<le> length (s_asks s) \<and> s_ntape s \<le> length (s_tape s)"

text \<open>The spread of the snapshot's best prices is a 64-bit number.\<close>

definition spread_ok :: "snapshot \<Rightarrow> bool" where
  "spread_ok s \<longleftrightarrow> (s_have_book s \<longrightarrow> int64_range (s_best_ask s - s_best_bid s))"

lemma json_book_defined: "(\<exists>t. json_book s = Some t) \<longleftrightarrow> spread_ok s"
  by (simp add: json_book_def spread_ok_def)

lemma json_text_defined:
  assumes "snapshot_ok s" "spread_ok s"
  shows "\<exists>t. json_text s = Some t"
proof -
  note ok = assms(1) [unfolded snapshot_ok_def]
  have "\<exists>t. json_book s = Some t" using assms(2) by (simp add: json_book_defined)
  moreover
  have "\<exists>u. items_text (json_op s) (s_num_ops s) 0 = Some u" using ok
    by (intro items_text_defined) (simp add: json_op_def)
  moreover have "\<exists>u. items_text (json_alert s) (s_num_alerts s) 0 = Some u" using ok
    by (intro items_text_defined) (simp add: json_alert_def)
  moreover have "\<exists>u. items_text (json_level (s_bids s)) (s_nbids s) 0 = Some u" using ok
    by (intro items_text_defined) (simp add: json_level_def)
  moreover have "\<exists>u. items_text (json_level (s_asks s)) (s_nasks s) 0 = Some u" using ok
    by (intro items_text_defined) (simp add: json_level_def)
  moreover have "\<exists>u. items_text (json_trade s) (s_ntape s) 0 = Some u" using ok
    by (intro items_text_defined) (simp add: json_trade_def)
  ultimately show ?thesis by (auto simp: json_text_def)
qed

lemma writeJson_holds:
  assumes cap: "0 < cap" and len: "length buf = cap" and t: "json_text s = Some t"
  shows "\<exists>b. writeJson s buf cap = Some b \<and> holds_text cap t b \<and> fst b ! snd b = CHR 0x00"
proof -
  note app = holds_text_jappend [OF cap] and items = holds_text_items [OF cap]
  from t obtain book ops alerts bids asks tape where bk: "json_book s = Some book" and
    x: "items_text (json_op s) (s_num_ops s) 0 = Some ops" "items_text (json_alert s) (s_num_alerts s) 0 = Some alerts"
      "items_text (json_level (s_bids s)) (s_nbids s) 0 = Some bids" "items_text (json_level (s_asks s)) (s_nasks s) 0 = Some asks"
      "items_text (json_trade s) (s_ntape s) 0 = Some tape"
    and eq: \<open>t = (((((((((((((json_header s @ book) @ '',"ops":['') @ ops) @ ''],"alerts":['') @ alerts) @ ''],"bids":['')
      @ bids) @ ''],"asks":['') @ asks) @ ''],"tape":['') @ tape) @ '']}''))\<close>
    by (auto simp: json_text_def)
  have h: \<open>holds_text cap ((json_header s @ book) @ '',"ops":['')
      (jappend cap '',"ops":['' (jappend cap book (jappend cap (json_header s) (buf, 0))))\<close>
    using app [OF app [OF app [OF holds_text_start [OF cap len], of "json_header s"], of book]] by simp
  obtain b1 where b1: \<open>jappend_items cap (json_op s) (s_num_ops s) 0
      (jappend cap '',"ops":['' (jappend cap book (jappend cap (json_header s) (buf, 0)))) = Some b1\<close>
    and h1: \<open>holds_text cap (((json_header s @ book) @ '',"ops":['') @ ops) b1\<close> using items [OF x(1) h] by blast
  obtain b2 where b2: \<open>jappend_items cap (json_alert s) (s_num_alerts s) 0 (jappend cap ''],"alerts":['' b1) = Some b2\<close>
    and h2: \<open>holds_text cap (((((json_header s @ book) @ '',"ops":['') @ ops) @ ''],"alerts":['') @ alerts) b2\<close>
    using items [OF x(2) app [OF h1]] by blast
  obtain b3 where b3: \<open>jappend_items cap (json_level (s_bids s)) (s_nbids s) 0 (jappend cap ''],"bids":['' b2) = Some b3\<close>
    and h3: \<open>holds_text cap (((((((json_header s @ book) @ '',"ops":['') @ ops) @ ''],"alerts":['') @ alerts)
      @ ''],"bids":['') @ bids) b3\<close>
    using items [OF x(3) app [OF h2]] by blast
  obtain b4 where b4: \<open>jappend_items cap (json_level (s_asks s)) (s_nasks s) 0 (jappend cap ''],"asks":['' b3) = Some b4\<close>
    and h4: \<open>holds_text cap (((((((((json_header s @ book) @ '',"ops":['') @ ops) @ ''],"alerts":['') @ alerts)
      @ ''],"bids":['') @ bids) @ ''],"asks":['') @ asks) b4\<close>
    using items [OF x(4) app [OF h3]] by blast
  obtain b5 where b5: \<open>jappend_items cap (json_trade s) (s_ntape s) 0 (jappend cap ''],"tape":['' b4) = Some b5\<close>
    and h5: \<open>holds_text cap (((((((((((json_header s @ book) @ '',"ops":['') @ ops) @ ''],"alerts":['') @ alerts)
      @ ''],"bids":['') @ bids) @ ''],"asks":['') @ asks) @ ''],"tape":['') @ tape) b5\<close>
    using items [OF x(5) app [OF h4]] by blast
  have "writeJson s buf cap = Some (jappend cap '']}'' b5)"
    by (simp add: writeJson_def bk b1 b2 b3 b4 b5)
  then show ?thesis using app [OF h5, of "'']}''"] jappend_terminated [OF cap h5] eq by auto
qed

end
