(* ===== verification/Metrics_Alerts.thy ===== *)
theory Metrics_Alerts
  imports Metrics_Snapshot
begin

text \<open>
  The alert rules of \<^verbatim>\<open>metrics/include/metrics_alerts.hpp\<close>: a function of a snapshot, the thresholds and the drop
  count of the last cycle.
\<close>

section \<open>The rules\<close>

record alert_config =
  cfg_p99_ns :: double
  cfg_spread_max :: int
  cfg_on_drops :: bool
  cfg_on_crossed :: bool

definition default_config :: alert_config where
  "default_config = \<lparr>cfg_p99_ns = d_of_int 5000, cfg_spread_max = 0, cfg_on_drops = True, cfg_on_crossed = True\<rparr>"

text \<open>The array has room for \<open>CAP\<close> alerts; one more is not recorded. The text buffer has 80 characters.\<close>

definition CAP :: nat where "CAP = 8"

definition add_alert :: "string \<Rightarrow> string \<Rightarrow> string \<Rightarrow> snapshot \<Rightarrow> snapshot" where
  "add_alert level code t s =
     (if s_num_alerts s \<ge> CAP then s
      else s\<lparr>s_alerts := (s_alerts s)[s_num_alerts s :=
                 \<lparr>al_level = level, al_code = code, al_text = truncated 80 t\<rparr>],
             s_num_alerts := s_num_alerts s + 1\<rparr>)"

definition unit_is_ns :: "snapshot \<Rightarrow> bool" where
  "unit_is_ns s = (case s_unit s of [] \<Rightarrow> False | c # _ \<Rightarrow> c = CHR ''n'')"

text \<open>The loop over the operations, from \<open>i\<close> on, \<open>k\<close> left.\<close>

primrec p99_alerts :: "alert_config \<Rightarrow> nat \<Rightarrow> nat \<Rightarrow> snapshot \<Rightarrow> snapshot option" where
  "p99_alerts cfg 0 i s = Some s"
| "p99_alerts cfg (Suc k) i s = do {
     x \<leftarrow> vec_get (s_ops s) (int i);
     p99_alerts cfg k (Suc i)
       (if d_less (cfg_p99_ns cfg) (op_p99 x)
        then add_alert ''warn'' ''p99''
          (op_name x @ '' p99 '' @ fmt_fixed 0 (op_p99 x) @ '' ns > '' @ fmt_fixed 0 (cfg_p99_ns cfg) @ '' ns'') s
        else s)
   }"

definition crossed_rule :: "alert_config \<Rightarrow> snapshot \<Rightarrow> snapshot" where
  "crossed_rule cfg s =
     (if cfg_on_crossed cfg \<and> s_have_book s \<and> s_best_bid s > 0 \<and> s_best_ask s > 0 \<and> s_best_bid s \<ge> s_best_ask s
      then add_alert ''crit'' ''crossed''
        (''crossed book: bid '' @ fmt_lld (s_best_bid s) @ '' >= ask '' @ fmt_lld (s_best_ask s)) s
      else s)"

definition spread_rule :: "alert_config \<Rightarrow> snapshot \<Rightarrow> snapshot" where
  "spread_rule cfg s =
     (if cfg_spread_max cfg > 0 \<and> s_have_book s \<and> s_best_bid s > 0 \<and> s_best_ask s > 0
      then let spread = s_best_ask s - s_best_bid s
           in if spread > cfg_spread_max cfg
              then add_alert ''warn'' ''spread'' (''spread '' @ fmt_lld spread @ '' > '' @ fmt_lld (cfg_spread_max cfg)) s
              else s
      else s)"

definition drops_rule :: "alert_config \<Rightarrow> u64 \<Rightarrow> snapshot \<Rightarrow> snapshot" where
  "drops_rule cfg last_drops s =
     (if cfg_on_drops cfg \<and> s_drops s > last_drops
      then add_alert ''warn'' ''drops'' (fmt_llu (s_drops s - last_drops) @ '' new drops (ring overflow)'') s
      else s)"

definition p99_rule :: "alert_config \<Rightarrow> snapshot \<Rightarrow> snapshot option" where
  "p99_rule cfg s =
     (if d_less d_zero (cfg_p99_ns cfg) \<and> unit_is_ns s then p99_alerts cfg (s_num_ops s) 0 s else Some s)"

text \<open>The snapshot with its alerts, and the drop count for the next cycle.\<close>

definition evaluateAlerts :: "snapshot \<Rightarrow> alert_config \<Rightarrow> u64 \<Rightarrow> (snapshot \<times> u64) option" where
  "evaluateAlerts s cfg last_drops = do {
     let s = s\<lparr>s_num_alerts := 0\<rparr>;
     let s = crossed_rule cfg s;
     let s = spread_rule cfg s;
     let s = drops_rule cfg last_drops s;
     let last_drops = s_drops s;
     s \<leftarrow> p99_rule cfg s;
     Some (s, last_drops)
   }"

section \<open>Which alerts\<close>

definition mk_alert :: "string \<Rightarrow> string \<Rightarrow> string \<Rightarrow> alert" where
  "mk_alert level code t = \<lparr>al_level = level, al_code = code, al_text = take 79 t\<rparr>"

definition crossed_alert :: "snapshot \<Rightarrow> alert" where
  "crossed_alert s = mk_alert ''crit'' ''crossed''
     (''crossed book: bid '' @ fmt_lld (s_best_bid s) @ '' >= ask '' @ fmt_lld (s_best_ask s))"

definition spread_alert :: "snapshot \<Rightarrow> alert_config \<Rightarrow> alert" where
  "spread_alert s cfg = mk_alert ''warn'' ''spread''
     (''spread '' @ fmt_lld (s_best_ask s - s_best_bid s) @ '' > '' @ fmt_lld (cfg_spread_max cfg))"

definition drops_alert :: "snapshot \<Rightarrow> u64 \<Rightarrow> alert" where
  "drops_alert s last_drops = mk_alert ''warn'' ''drops'' (fmt_llu (s_drops s - last_drops) @ '' new drops (ring overflow)'')"

definition p99_alert :: "alert_config \<Rightarrow> op_stat \<Rightarrow> alert" where
  "p99_alert cfg x = mk_alert ''warn'' ''p99''
     (op_name x @ '' p99 '' @ fmt_fixed 0 (op_p99 x) @ '' ns > '' @ fmt_fixed 0 (cfg_p99_ns cfg) @ '' ns'')"

text \<open>All alerts that are due, in the order of the rules.\<close>

definition due_alerts :: "snapshot \<Rightarrow> alert_config \<Rightarrow> u64 \<Rightarrow> alert list" where
  "due_alerts s cfg last_drops =
     (let book = s_have_book s \<and> s_best_bid s > 0 \<and> s_best_ask s > 0;
          slow = filter (\<lambda>x. val (cfg_p99_ns cfg) < val (op_p99 x)) (take (s_num_ops s) (s_ops s))
      in (if cfg_on_crossed cfg \<and> book \<and> s_best_bid s \<ge> s_best_ask s then [crossed_alert s] else [])
       @ (if cfg_spread_max cfg > 0 \<and> book \<and> s_best_ask s - s_best_bid s > cfg_spread_max cfg
          then [spread_alert s cfg] else [])
       @ (if cfg_on_drops cfg \<and> s_drops s > last_drops then [drops_alert s last_drops] else [])
       @ (if 0 < val (cfg_p99_ns cfg) \<and> unit_is_ns s then map (p99_alert cfg) slow else []))"

text \<open>\<open>alerted s0 as s\<close>: \<open>s\<close> is \<open>s0\<close> with the first eight of the alerts \<open>as\<close>.\<close>

definition alerted :: "snapshot \<Rightarrow> alert list \<Rightarrow> snapshot \<Rightarrow> bool" where
  "alerted s0 as s \<longleftrightarrow> s\<lparr>s_num_alerts := 0, s_alerts := []\<rparr> = s0\<lparr>s_num_alerts := 0, s_alerts := []\<rparr>
     \<and> length (s_alerts s) = CAP \<and> s_num_alerts s = min CAP (length as)
     \<and> take (s_num_alerts s) (s_alerts s) = take CAP as"

lemma alerted_fields:
  assumes "alerted s0 as s"
  shows "s_have_book s = s_have_book s0" "s_best_bid s = s_best_bid s0" "s_best_ask s = s_best_ask s0"
    "s_drops s = s_drops s0" "s_unit s = s_unit s0" "s_ops s = s_ops s0" "s_num_ops s = s_num_ops s0"
proof -
  from assms have eq: "s\<lparr>s_num_alerts := 0, s_alerts := []\<rparr> = s0\<lparr>s_num_alerts := 0, s_alerts := []\<rparr>"
    by (simp add: alerted_def)
  show "s_have_book s = s_have_book s0" using arg_cong [OF eq, of s_have_book] by simp
  show "s_best_bid s = s_best_bid s0" using arg_cong [OF eq, of s_best_bid] by simp
  show "s_best_ask s = s_best_ask s0" using arg_cong [OF eq, of s_best_ask] by simp
  show "s_drops s = s_drops s0" using arg_cong [OF eq, of s_drops] by simp
  show "s_unit s = s_unit s0" using arg_cong [OF eq, of s_unit] by simp
  show "s_ops s = s_ops s0" using arg_cong [OF eq, of s_ops] by simp
  show "s_num_ops s = s_num_ops s0" using arg_cong [OF eq, of s_num_ops] by simp
qed

lemma alerted_add:
  assumes "alerted s0 as s"
  shows "alerted s0 (as @ [mk_alert level code t]) (add_alert level code t s)"
proof (cases "length as < CAP")
  case True
  then have n: "s_num_alerts s = length as" "take (length as) (s_alerts s) = as" "length as < length (s_alerts s)"
    using assms by (auto simp: alerted_def)
  then show ?thesis
    using assms True by (simp add: alerted_def add_alert_def truncated_def mk_alert_def take_Suc_conv_app_nth)
next
  case False
  then show ?thesis using assms by (auto simp: alerted_def add_alert_def min_def)
qed

lemma alerted_if:
  "alerted s0 as s \<Longrightarrow> alerted s0 (as @ (if c then [mk_alert level code t] else [])) (if c then add_alert level code t s else s)"
  by (simp add: alerted_add)

lemma p99_alerts_works:
  "alerted s0 as s \<Longrightarrow> i + k \<le> length (s_ops s0) \<Longrightarrow>
     \<exists>s'. p99_alerts cfg k i s = Some s' \<and> alerted s0 (as @ map (p99_alert cfg)
       (filter (\<lambda>x. val (cfg_p99_ns cfg) < val (op_p99 x)) (take k (drop i (s_ops s0))))) s'"
proof (induction k arbitrary: i as s)
  case (Suc k)
  let ?x = "s_ops s0 ! i"
  have get: "vec_get (s_ops s) (int i) = Some ?x" using Suc.prems alerted_fields(6) [OF Suc.prems(1)] by simp
  have tk: "take (Suc k) (drop i (s_ops s0)) = ?x # take k (drop (Suc i) (s_ops s0))"
    using Suc.prems(2) by (simp add: Cons_nth_drop_Suc [symmetric])
  have step: "alerted s0 (as @ (if d_less (cfg_p99_ns cfg) (op_p99 ?x) then [p99_alert cfg ?x] else []))
    (if d_less (cfg_p99_ns cfg) (op_p99 ?x)
        then add_alert ''warn'' ''p99''
          (op_name ?x @ '' p99 '' @ fmt_fixed 0 (op_p99 ?x) @ '' ns > '' @ fmt_fixed 0 (cfg_p99_ns cfg) @ '' ns'') s
        else s)"
    unfolding p99_alert_def by (rule alerted_if) fact
  from Suc.IH [OF step, of "Suc i"] Suc.prems(2) show ?case
    by (auto simp: get tk d_less_val simp del: take_Suc_Cons)
qed simp

lemma crossed_rule_works:
  "alerted s0 as s \<Longrightarrow> alerted s0 (as @ (if cfg_on_crossed cfg \<and> (s_have_book s0 \<and> s_best_bid s0 > 0 \<and> s_best_ask s0 > 0)
     \<and> s_best_bid s0 \<ge> s_best_ask s0 then [crossed_alert s0] else [])) (crossed_rule cfg s)"
  by (simp add: crossed_rule_def crossed_alert_def alerted_fields alerted_add)

lemma spread_rule_works:
  "alerted s0 as s \<Longrightarrow> alerted s0 (as @ (if cfg_spread_max cfg > 0 \<and> (s_have_book s0 \<and> s_best_bid s0 > 0 \<and> s_best_ask s0 > 0)
     \<and> s_best_ask s0 - s_best_bid s0 > cfg_spread_max cfg then [spread_alert s0 cfg] else [])) (spread_rule cfg s)"
  by (simp add: spread_rule_def spread_alert_def alerted_fields alerted_add Let_def)

lemma drops_rule_works:
  "alerted s0 as s \<Longrightarrow> alerted s0 (as @ (if cfg_on_drops cfg \<and> s_drops s0 > ld then [drops_alert s0 ld] else []))
     (drops_rule cfg ld s)"
  by (simp add: drops_rule_def drops_alert_def alerted_fields alerted_add)

lemma p99_rule_works:
  assumes "alerted s0 as s" "s_num_ops s0 \<le> length (s_ops s0)"
  shows "\<exists>s'. p99_rule cfg s = Some s' \<and> alerted s0 (as @ (if 0 < val (cfg_p99_ns cfg) \<and> unit_is_ns s0
     then map (p99_alert cfg) (filter (\<lambda>x. val (cfg_p99_ns cfg) < val (op_p99 x)) (take (s_num_ops s0) (s_ops s0)))
     else [])) s'"
proof -
  have "unit_is_ns s = unit_is_ns s0" "val d_zero = 0" using alerted_fields(5) [OF assms(1)]
    by (simp_all add: unit_is_ns_def val_def d_zero_def)
  then show ?thesis
    using p99_alerts_works [OF assms(1), of 0 "s_num_ops s0" cfg] assms
    by (auto simp: p99_rule_def d_less_val alerted_fields(7) [OF assms(1)])
qed

lemma evaluateAlerts_works:
  assumes "length (s_alerts s) = CAP" "s_num_ops s \<le> length (s_ops s)"
  shows "\<exists>s'. evaluateAlerts s cfg ld = Some (s', s_drops s) \<and> alerted s (due_alerts s cfg ld) s'"
proof -
  let ?s3 = "drops_rule cfg ld (spread_rule cfg (crossed_rule cfg (s\<lparr>s_num_alerts := 0\<rparr>)))"
  have a0: "alerted s [] (s\<lparr>s_num_alerts := 0\<rparr>)" using assms(1) by (simp add: alerted_def)
  note a1 = crossed_rule_works [OF a0, of cfg]
  note a2 = spread_rule_works [OF a1, of cfg]
  note a3 = drops_rule_works [OF a2, of cfg ld]
  from p99_rule_works [OF a3 assms(2)] obtain s' where "p99_rule cfg ?s3 = Some s'" "alerted s (due_alerts s cfg ld) s'"
    by (auto simp: due_alerts_def Let_def)
  moreover have "s_drops ?s3 = s_drops s" by (rule alerted_fields(4) [OF a3])
  ultimately show ?thesis by (simp add: evaluateAlerts_def)
qed

end
