(* ===== verification/Latency_Histogram.thy ===== *)
theory Latency_Histogram
  imports Occupancy_Bitmap Ieee_Double "HOL-Library.Multiset"
begin

text \<open>
  The log-linear histogram of \<^verbatim>\<open>metrics/include/latency_histogram.hpp\<close>: 32 sub-buckets per power of two.
  A histogram stands for the list of the samples recorded in it (\<open>hist_rep\<close>).
\<close>

section \<open>Buckets\<close>

definition SUB :: u32 where "SUB = push_bit 5 1"

definition NB :: u32 where "NB = (32 - 5 + 1) * SUB"

definition clz32 :: "u32 \<Rightarrow> nat" where
  "clz32 v = clz_from 32 v"

definition bucketOf :: "u32 \<Rightarrow> u32" where
  "bucketOf v =
     (if v < SUB then v
      else let hb = 31 - of_nat (clz32 v);
               shift = hb - 5;
               sub = drop_bit (unat shift) v AND (SUB - 1)
           in (hb - 5 + 1) * SUB + sub)"

definition valueOf :: "u32 \<Rightarrow> u32" where
  "valueOf b =
     (if b < SUB then b
      else let octave = b div SUB;
               sub = b mod SUB;
               shift = octave - 1
           in push_bit (unat shift) (SUB + sub))"

section \<open>Operations\<close>

record hist =
  h_bucket :: "u64 list"
  h_count :: u64
  h_sum :: u64
  h_max :: u32
  h_min :: u32

definition h_reset :: hist where
  "h_reset = \<lparr>h_bucket = replicate (unat NB) 0, h_count = 0, h_sum = 0, h_max = 0, h_min = - 1\<rparr>"

definition h_record :: "u32 \<Rightarrow> hist \<Rightarrow> hist option" where
  "h_record v h = do {
     c \<leftarrow> vec_get (h_bucket h) (uint (bucketOf v));
     bs \<leftarrow> vec_set (h_bucket h) (uint (bucketOf v)) (c + 1);
     let h = h\<lparr>h_bucket := bs, h_count := h_count h + 1, h_sum := h_sum h + ucast v\<rparr>;
     let h = (if v > h_max h then h\<lparr>h_max := v\<rparr> else h);
     Some (if v < h_min h then h\<lparr>h_min := v\<rparr> else h)
   }"

definition h_merge :: "hist \<Rightarrow> hist \<Rightarrow> hist" where
  "h_merge h g =
     (let h = h\<lparr>h_bucket := map2 (+) (h_bucket h) (h_bucket g), h_count := h_count h + h_count g,
                h_sum := h_sum h + h_sum g\<rparr>;
          h = (if h_max g > h_max h then h\<lparr>h_max := h_max g\<rparr> else h)
      in (if h_min g < h_min h then h\<lparr>h_min := h_min g\<rparr> else h))"

text \<open>The loop over the buckets from \<open>b\<close> on, which are the list.\<close>

fun percentile_walk :: "u64 list \<Rightarrow> u32 \<Rightarrow> u64 \<Rightarrow> u64 \<Rightarrow> u32 \<Rightarrow> u32" where
  "percentile_walk [] b acc rank mx = mx"
| "percentile_walk (c # cs) b acc rank mx =
     (let acc = acc + c in if acc \<ge> rank then valueOf b else percentile_walk cs (b + 1) acc rank mx)"

text \<open>\<open>(uint64_t)std::ceil(p * 0.01 * (double)count_)\<close>\<close>

definition percentile_rank :: "double \<Rightarrow> u64 \<Rightarrow> u64 option" where
  "percentile_rank p n = int_to_u64 (d_ceil (d_mult (d_mult p (round_frac 1 100)) (d_of_int (uint n))))"

definition h_percentile :: "double \<Rightarrow> hist \<Rightarrow> u32 option" where
  "h_percentile p h =
     (if h_count h = 0 then Some 0
      else do {
        rank \<leftarrow> percentile_rank p (h_count h);
        let rank = (if rank = 0 then 1 else rank);
        let rank = (if rank > h_count h then h_count h else rank);
        Some (percentile_walk (h_bucket h) 0 0 rank (h_max h))
      })"

definition h_minimum :: "hist \<Rightarrow> u32" where
  "h_minimum h = (if h_count h \<noteq> 0 then h_min h else 0)"

definition h_mean :: "hist \<Rightarrow> double" where
  "h_mean h = (if h_count h \<noteq> 0 then d_div (d_of_int (uint (h_sum h))) (d_of_int (uint (h_count h))) else d_zero)"

section \<open>The bucket of a value\<close>

lemma SUB_val [simp]: "SUB = 32" "NB = 896" "unat NB = 896"
  by (simp_all add: SUB_def NB_def)

lemma unat_u32: "unat (v::u32) < 2 ^ 32"
  using unsigned_less [of v] by simp

lemma msb_position:
  assumes "32 \<le> v"
  obtains hb where "5 \<le> hb" "hb \<le> 31" "31 - of_nat (clz32 v) = (of_nat hb :: u32)"
    "2 ^ hb \<le> unat v" "unat v < 2 ^ Suc hb"
proof -
  have "\<exists>k<32. bit v k"
  proof (rule ccontr)
    assume "\<not> ?thesis"
    then have "v = 0" by (auto intro: bit_word_eqI)
    then show False using assms by simp
  qed
  from clz_from_bit [OF this] have c: "clz32 v < 32" "bit v (31 - clz32 v)"
    "\<And>k. 31 - clz32 v < k \<Longrightarrow> k < 32 \<Longrightarrow> \<not> bit v k"
    by (auto simp: clz32_def)
  define hb where "hb = 31 - clz32 v"
  have "odd (unat v div 2 ^ hb)"
    using c(2) by (simp add: hb_def bit_unsigned_iff flip: bit_iff_odd_drop_bit drop_bit_eq_div)
  then have "unat v div 2 ^ hb \<noteq> 0" by (metis even_zero)
  then have low: "2 ^ hb \<le> unat v" by (simp add: div_eq_0_iff not_less)
  have "take_bit (Suc hb) v = v"
  proof (rule bit_word_eqI)
    fix k assume "k < LENGTH(32)"
    then show "bit (take_bit (Suc hb) v) k = bit v k"
      using c(3) [of k] by (cases "31 - clz32 v < k") (auto simp: bit_take_bit_iff hb_def)
  qed
  then have "take_bit (Suc hb) (unat v) = unat v" by (metis unsigned_take_bit_eq)
  then have up: "unat v < 2 ^ Suc hb" by (metis take_bit_nat_less_exp)
  have "hb \<ge> 5"
  proof (rule ccontr)
    assume "\<not> hb \<ge> 5"
    then have "(2::nat) ^ Suc hb \<le> 2 ^ 5" by (intro power_increasing) auto
    then show False using up assms by (simp add: word_le_nat_alt)
  qed
  moreover have "31 - of_nat (clz32 v) = (of_nat hb :: u32)" using c(1) by (simp add: hb_def of_nat_diff)
  moreover have "hb \<le> 31" by (simp add: hb_def)
  ultimately show ?thesis using that low up by blast
qed

lemma unat_and_31: "unat (x AND 31 :: u32) = unat x mod 32"
proof -
  have "x AND 31 = take_bit 5 x" by (simp add: take_bit_eq_mask mask_eq_exp_minus_1)
  then show ?thesis by (simp add: take_bit_eq_mod unat_mod)
qed

lemma unat_of_nat_u32: "n < 2 ^ 32 \<Longrightarrow> unat (of_nat n :: u32) = n"
  by (simp add: unat_of_nat)

lemma pow_octave: "5 \<le> hb \<Longrightarrow> 32 * 2 ^ (hb - 5) = (2::nat) ^ hb"
  by (auto simp: power_add dest: le_Suc_ex)

lemma mod_upper_half: "32 \<le> q \<Longrightarrow> q < 64 \<Longrightarrow> q mod 32 = q - (32::nat)"
  by (simp add: le_mod_geq)

lemma octave_range:
  assumes "5 \<le> hb" "2 ^ hb \<le> (n::nat)" "n < 2 ^ Suc hb"
  shows "32 \<le> n div 2 ^ (hb - 5)" "n div 2 ^ (hb - 5) < 64"
proof -
  have "(2::nat) ^ hb = 32 * 2 ^ (hb - 5)" "(2::nat) ^ Suc hb = 64 * 2 ^ (hb - 5)"
    using pow_octave [OF assms(1)] by simp_all
  then show "32 \<le> n div 2 ^ (hb - 5)" "n div 2 ^ (hb - 5) < 64"
    using assms(2,3) by (simp_all add: less_eq_div_iff_mult_less_eq less_mult_imp_div_less)
qed

lemma bucketOf_log:
  assumes "32 \<le> v"
  obtains hb where "5 \<le> hb" "hb \<le> 31" "2 ^ hb \<le> unat v" "unat v < 2 ^ Suc hb"
    "unat (bucketOf v) = (hb - 5) * 32 + unat v div 2 ^ (hb - 5)"
proof -
  obtain hb where hb: "5 \<le> hb" "hb \<le> 31" "31 - of_nat (clz32 v) = (of_nat hb :: u32)"
    "2 ^ hb \<le> unat v" "unat v < 2 ^ Suc hb"
    by (rule msb_position [OF assms])
  note oct = octave_range [OF hb(1,4,5)]
  have shift: "of_nat hb - 5 = (of_nat (hb - 5) :: u32)" using hb(1) by (simp add: of_nat_diff)
  have n: "unat (of_nat (hb - 5) :: u32) = hb - 5" using hb(2) by (intro unat_of_nat_u32) simp
  have sub: "unat (drop_bit (hb - 5) v AND 31) = unat v div 2 ^ (hb - 5) - 32"
    unfolding unat_and_31 unat_drop_bit_eq unfolding drop_bit_eq_div by (rule mod_upper_half [OF oct])
  have "bucketOf v = (of_nat (hb - 5) + 1) * 32 + (drop_bit (hb - 5) v AND 31)"
  proof -
    have "\<not> v < 32" "(32 - 1 :: u32) = 31" using assms by (simp_all add: not_less)
    then show ?thesis by (simp only: bucketOf_def SUB_val Let_def hb(3) shift n if_False)
  qed
  also have "\<dots> = of_nat ((hb - 5 + 1) * 32 + unat (drop_bit (hb - 5) v AND 31))" by simp
  finally have "unat (bucketOf v) = unat (of_nat ((hb - 5 + 1) * 32 + unat (drop_bit (hb - 5) v AND 31)) :: u32)"
    by simp
  also have "\<dots> = (hb - 5 + 1) * 32 + unat (drop_bit (hb - 5) v AND 31)"
    using hb(2) oct unfolding sub by (intro unat_of_nat_u32) simp
  also have "\<dots> = (hb - 5) * 32 + unat v div 2 ^ (hb - 5)" using oct unfolding sub by simp
  finally show ?thesis using that hb by blast
qed

lemma bucketOf_small: "v < 32 \<Longrightarrow> bucketOf v = v"
  by (simp add: bucketOf_def)

lemma bucketOf_bound: "unat (bucketOf v) < 896"
proof (cases "v < 32")
  case True
  then show ?thesis by (simp add: bucketOf_small word_less_nat_alt)
next
  case False
  then have "32 \<le> v" by simp
  then obtain hb where hb: "5 \<le> hb" "hb \<le> 31" "2 ^ hb \<le> unat v" "unat v < 2 ^ Suc hb"
    "unat (bucketOf v) = (hb - 5) * 32 + unat v div 2 ^ (hb - 5)" by (rule bucketOf_log)
  then show ?thesis using octave_range [OF hb(1,3,4)] by simp
qed

text \<open>\<open>valueOf\<close> of a bucket in the logarithmic part: the octave's shift and the leading six bits.\<close>

lemma valueOf_log:
  assumes "k \<le> 26" "32 \<le> q" "q < 64" "unat b = k * 32 + q"
  shows "unat (valueOf b) = q * 2 ^ k"
proof -
  have b: "\<not> b < 32" using assms by (simp add: word_less_nat_alt)
  have "unat (b div 32) = k + 1" "unat (b mod 32) = q - 32"
    using assms mod_upper_half [OF assms(2,3)] by (simp_all add: unat_div unat_mod div_nat_eqI)
  moreover have "of_nat (unat (b div 32)) = b div 32" "of_nat (unat (b mod 32)) = b mod 32" by simp_all
  ultimately have o: "b div 32 = of_nat (k + 1)" "b mod 32 = of_nat (q - 32)" by simp_all
  have "unat (b div 32 - 1) = k" using assms(1) unfolding o by (simp add: unat_of_nat_u32)
  then have "valueOf b = push_bit k (32 + of_nat (q - 32))" using b o by (simp add: valueOf_def Let_def)
  also have "\<dots> = of_nat (q * 2 ^ k)" using assms(2) by (simp add: push_bit_eq_mult of_nat_diff)
  finally have v: "valueOf b = of_nat (q * 2 ^ k)" .
  have "q * 2 ^ k \<le> 63 * 2 ^ 26" using assms by (intro mult_mono power_increasing) auto
  then show ?thesis unfolding v by (intro unat_of_nat_u32) simp
qed

lemma valueOf_small: "b < 32 \<Longrightarrow> valueOf b = b"
  by (simp add: valueOf_def)

text \<open>The representative is at most the value and within 1/32 of it.\<close>

lemma valueOf_bucketOf:
  "unat (valueOf (bucketOf v)) \<le> unat v \<and> 32 * (unat v - unat (valueOf (bucketOf v))) \<le> unat v"
proof (cases "v < 32")
  case True
  then show ?thesis by (simp add: bucketOf_small valueOf_small)
next
  case False
  then have "32 \<le> v" by simp
  then obtain hb where hb: "5 \<le> hb" "hb \<le> 31" "2 ^ hb \<le> unat v" "unat v < 2 ^ Suc hb"
    "unat (bucketOf v) = (hb - 5) * 32 + unat v div 2 ^ (hb - 5)" by (rule bucketOf_log)
  note oct = octave_range [OF hb(1,3,4)]
  have "unat (valueOf (bucketOf v)) = unat v div 2 ^ (hb - 5) * 2 ^ (hb - 5)"
    using hb oct by (intro valueOf_log) auto
  moreover have "unat v - unat v div 2 ^ (hb - 5) * 2 ^ (hb - 5) = unat v mod 2 ^ (hb - 5)"
    by (simp add: minus_div_mult_eq_mod)
  moreover have "32 * (unat v mod 2 ^ (hb - 5)) \<le> 32 * 2 ^ (hb - 5)" by simp
  moreover have "(32::nat) * 2 ^ (hb - 5) = 2 ^ hb" by (rule pow_octave [OF hb(1)])
  ultimately show ?thesis using hb(3) by simp
qed

text \<open>Each bucket's representative is in that bucket.\<close>

lemma bucketOf_mono:
  assumes "v \<le> w"
  shows "bucketOf v \<le> bucketOf w"
proof -
  have le: "unat v \<le> unat w" using assms by (simp add: word_le_nat_alt)
  show ?thesis
  proof (cases "v < 32")
    case v: True
    show ?thesis
    proof (cases "w < 32")
      case True
      then show ?thesis using v assms by (simp add: bucketOf_small)
    next
      case False
      then have "32 \<le> w" by simp
      then obtain hb where hb: "5 \<le> hb" "hb \<le> 31" "2 ^ hb \<le> unat w" "unat w < 2 ^ Suc hb"
        "unat (bucketOf w) = (hb - 5) * 32 + unat w div 2 ^ (hb - 5)" by (rule bucketOf_log)
      then have "32 \<le> unat (bucketOf w)" using octave_range(1) [OF hb(1,3,4)] by simp
      then show ?thesis using v by (simp add: bucketOf_small word_le_nat_alt word_less_nat_alt)
    qed
  next
    case False
    then have "32 \<le> v" "32 \<le> w" using assms by auto
    obtain i where i: "5 \<le> i" "i \<le> 31" "2 ^ i \<le> unat v" "unat v < 2 ^ Suc i"
      "unat (bucketOf v) = (i - 5) * 32 + unat v div 2 ^ (i - 5)" using bucketOf_log [OF \<open>32 \<le> v\<close>] .
    obtain j where j: "5 \<le> j" "j \<le> 31" "2 ^ j \<le> unat w" "unat w < 2 ^ Suc j"
      "unat (bucketOf w) = (j - 5) * 32 + unat w div 2 ^ (j - 5)" using bucketOf_log [OF \<open>32 \<le> w\<close>] .
    have "(2::nat) ^ i < 2 ^ Suc j" using i(3) j(4) le by linarith
    then have "i < Suc j" by (rule power_less_imp_less_exp [rotated]) simp
    then consider "i = j" | "i < j" by linarith
    then show ?thesis
    proof cases
      case 1
      then show ?thesis using i j le by (simp add: word_le_nat_alt div_le_mono)
    next
      case 2
      then have "(i - 5) * 32 + 64 \<le> (j - 5) * 32 + 32" using i(1) by simp
      then show ?thesis
        using i(5) j(5) octave_range [OF i(1,3,4)] octave_range [OF j(1,3,4)] by (simp add: word_le_nat_alt)
    qed
  qed
qed

section \<open>What a histogram stands for\<close>

definition buckets :: nat where
  "buckets = 896"

lemma bucketOf_buckets: "unat (bucketOf v) < buckets"
  by (simp add: buckets_def bucketOf_bound)

definition in_bucket :: "u32 list \<Rightarrow> nat \<Rightarrow> nat" where
  "in_bucket xs b = length (filter (\<lambda>x. unat (bucketOf x) = b) xs)"

definition hist_rep :: "hist \<Rightarrow> u32 list \<Rightarrow> bool" where
  "hist_rep h xs \<longleftrightarrow>
     h_bucket h = map (\<lambda>b. of_nat (in_bucket xs b)) [0..<buckets]
   \<and> h_count h = of_nat (length xs) \<and> h_sum h = of_nat (sum_list (map unat xs))
   \<and> h_max h = foldr max xs 0 \<and> h_min h = foldr min xs (- 1)"

lemma hist_rep_reset: "hist_rep h_reset []"
  by (simp add: hist_rep_def h_reset_def in_bucket_def map_replicate_const buckets_def)

lemma foldr_max_snoc: "foldr max (xs @ [v]) 0 = max (foldr max xs 0) (v::u32)"
  by (induction xs) (simp_all add: max.assoc)

lemma foldr_min_snoc: "foldr min (xs @ [v]) (- 1) = min (foldr min xs (- 1)) (v::u32)"
  by (induction xs) (simp_all add: min.assoc word_order.extremum min_absorb1)

lemma foldr_max_append: "foldr max (xs @ ys) 0 = max (foldr max xs 0) (foldr max ys (0::u32))"
  by (induction xs) (simp_all add: max.assoc)

lemma foldr_min_append: "foldr min (xs @ ys) (- 1) = min (foldr min xs (- 1)) (foldr min ys (- 1 :: u32))"
  by (induction xs) (simp_all add: min.assoc word_order.extremum min_absorb2)

lemma h_record_eq:
  assumes "unat (bucketOf v) < length (h_bucket h)"
  shows "h_record v h = Some \<lparr>h_bucket = (h_bucket h)[unat (bucketOf v) := h_bucket h ! unat (bucketOf v) + 1],
    h_count = h_count h + 1, h_sum = h_sum h + ucast v, h_max = max (h_max h) v, h_min = min (h_min h) v\<rparr>"
proof -
  have "uint (bucketOf v) = int (unat (bucketOf v))" by simp
  then have "vec_get (h_bucket h) (uint (bucketOf v)) = Some (h_bucket h ! unat (bucketOf v))"
    "vec_set (h_bucket h) (uint (bucketOf v)) x = Some ((h_bucket h)[unat (bucketOf v) := x])" for x
    using assms by (simp_all only: vec_get_in vec_set_in)
  then show ?thesis by (simp add: h_record_def Let_def max_def min_def not_less)
qed

lemma hist_rep_record:
  assumes "hist_rep h xs"
  shows "\<exists>h'. h_record v h = Some h' \<and> hist_rep h' (xs @ [v])"
proof -
  define k where "k = unat (bucketOf v)"
  have bs: "h_bucket h = map (\<lambda>b. of_nat (in_bucket xs b)) [0..<buckets]" and k: "k < buckets"
    using assms bucketOf_buckets by (simp_all add: hist_rep_def k_def)
  then have len: "unat (bucketOf v) < length (h_bucket h)" by (simp add: k_def)
  have snoc: "in_bucket (xs @ [v]) b = in_bucket xs b + (if b = k then 1 else 0)" for b
    by (simp add: in_bucket_def k_def)
  have "(h_bucket h)[k := h_bucket h ! k + 1] = map (\<lambda>b. of_nat (in_bucket (xs @ [v]) b)) [0..<buckets]"
    unfolding bs snoc using k by (intro nth_equalityI) (simp_all add: nth_list_update)
  then show ?thesis
    using assms unfolding h_record_eq [OF len]
    by (simp add: hist_rep_def foldr_max_snoc foldr_min_snoc k_def del: foldr_append)
qed

lemma h_merge_eq:
  "h_merge h g = \<lparr>h_bucket = map2 (+) (h_bucket h) (h_bucket g), h_count = h_count h + h_count g,
     h_sum = h_sum h + h_sum g, h_max = max (h_max h) (h_max g), h_min = min (h_min h) (h_min g)\<rparr>"
  by (simp add: h_merge_def Let_def max_def min_def not_less)

lemma hist_rep_merge: "hist_rep h xs \<Longrightarrow> hist_rep g ys \<Longrightarrow> hist_rep (h_merge h g) (xs @ ys)"
proof -
  assume h: "hist_rep h xs" and g: "hist_rep g ys"
  have "map2 (+) (h_bucket h) (h_bucket g) = map (\<lambda>b. of_nat (in_bucket (xs @ ys) b)) [0..<buckets]"
    using h g by (intro nth_equalityI) (simp_all add: hist_rep_def in_bucket_def)
  then show ?thesis
    using h g by (simp add: hist_rep_def h_merge_eq foldr_max_append foldr_min_append del: foldr_append)
qed

text \<open>Recording a list of samples, one after the other.\<close>

primrec h_records :: "u32 list \<Rightarrow> hist \<Rightarrow> hist option" where
  "h_records [] h = Some h"
| "h_records (x # xs) h = do { h \<leftarrow> h_record x h; h_records xs h }"

lemma h_records_from: "hist_rep h xs \<Longrightarrow> \<exists>h'. h_records ys h = Some h' \<and> hist_rep h' (xs @ ys)"
proof (induction ys arbitrary: h xs)
  case (Cons y ys)
  obtain h1 where "h_record y h = Some h1" "hist_rep h1 (xs @ [y])" using hist_rep_record [OF Cons.prems] by blast
  then show ?case using Cons.IH by fastforce
qed simp

lemma h_records_rep: "\<exists>h. h_records xs h_reset = Some h \<and> hist_rep h xs"
  using h_records_from [OF hist_rep_reset, of xs] by simp

lemma h_records_hist_rep: "h_records xs h_reset = Some h \<Longrightarrow> hist_rep h xs"
  using h_records_rep [of xs] by auto

text \<open>The samples determine the histogram.\<close>

lemma hist_rep_unique: "hist_rep h xs \<Longrightarrow> hist_rep g xs \<Longrightarrow> h = g"
  by (cases h; cases g) (simp add: hist_rep_def)

section \<open>Percentiles\<close>

lemma sorted_rank:
  "sorted ys \<Longrightarrow> k < length ys \<Longrightarrow> k < length (filter (\<lambda>y. y \<le> b) ys) \<longleftrightarrow> ys ! k \<le> (b::'a::linorder)"
proof (induction ys arbitrary: k)
  case (Cons y ys)
  show ?case
  proof (cases k)
    case 0
    have "filter (\<lambda>y. y \<le> b) ys = []" if "\<not> y \<le> b"
      using that Cons.prems(1) by (auto simp: filter_empty_conv)
    then show ?thesis using 0 by auto
  next
    case (Suc j)
    then have "y \<le> ys ! j" using Cons.prems nth_mem [of j ys] by simp
    then have "\<not> ys ! j \<le> b" if "\<not> y \<le> b" using that by (meson order_trans)
    moreover have "filter (\<lambda>y. y \<le> b) ys = []" if "\<not> y \<le> b"
      using that Cons.prems(1) by (auto simp: filter_empty_conv)
    ultimately show ?thesis using Suc Cons by auto
  qed
qed simp

definition below :: "u32 list \<Rightarrow> nat \<Rightarrow> nat" where
  "below xs b = length (filter (\<lambda>x. unat (bucketOf x) < b) xs)"

lemma below_Suc: "below xs (Suc b) = below xs b + in_bucket xs b"
  by (induction xs) (auto simp: below_def in_bucket_def)

lemma below_le: "below xs b \<le> length xs"
  by (simp add: below_def)

lemma below_all: "below xs buckets = length xs"
  by (induction xs) (simp_all add: below_def bucketOf_buckets)

text \<open>The samples in rank order, and the bucket of the one at a rank.\<close>

lemma below_rank:
  assumes "k < length xs"
  shows "k < below xs (Suc b) \<longleftrightarrow> unat (bucketOf (sort xs ! k)) \<le> b"
proof -
  let ?f = "\<lambda>x. unat (bucketOf x)"
  have "sorted (map ?f (sort xs))"
    unfolding sorted_map
    by (rule sorted_wrt_mono_rel [OF _ sorted_sort]) (use bucketOf_mono in \<open>simp add: word_le_nat_alt\<close>)
  then have "k < length (filter (\<lambda>y. y \<le> b) (map ?f (sort xs))) \<longleftrightarrow> map ?f (sort xs) ! k \<le> b"
    using assms by (intro sorted_rank) simp_all
  moreover have "length (filter (\<lambda>y. y \<le> b) (map ?f (sort xs))) = below xs (Suc b)"
  proof -
    have "mset (filter (\<lambda>x. ?f x \<le> b) (sort xs)) = mset (filter (\<lambda>x. ?f x \<le> b) xs)" by simp
    then have "length (filter (\<lambda>x. ?f x \<le> b) (sort xs)) = length (filter (\<lambda>x. ?f x \<le> b) xs)" by (rule mset_eq_length)
    then show ?thesis by (simp add: filter_map o_def below_def less_Suc_eq_le)
  qed
  ultimately show ?thesis using assms by simp
qed

lemma percentile_walk_rank:
  assumes "length xs < 2 ^ 64" "k < length xs" "b \<le> buckets" "below xs b \<le> k"
  shows "percentile_walk (map (\<lambda>b. of_nat (in_bucket xs b)) [b..<buckets]) (of_nat b) (of_nat (below xs b))
      (of_nat (Suc k)) mx = valueOf (bucketOf (sort xs ! k))"
  using assms(3,4)
proof (induction "buckets - b" arbitrary: b)
  case 0
  then show ?case using below_all [of xs] assms(2) by simp
next
  case (Suc n)
  then have b: "b < buckets" by simp
  have u: "unat (of_nat (below xs (Suc b)) :: u64) = below xs (Suc b)" "unat (of_nat (Suc k) :: u64) = Suc k"
    using assms(1,2) below_le [of xs "Suc b"] by (intro unat_of_nat_u64; linarith)+
  have acc: "of_nat (below xs b) + of_nat (in_bucket xs b) = (of_nat (below xs (Suc b)) :: u64)"
    by (simp add: below_Suc)
  have stop: "of_nat (Suc k) \<le> (of_nat (below xs (Suc b)) :: u64) \<longleftrightarrow> unat (bucketOf (sort xs ! k)) \<le> b"
    unfolding word_le_nat_alt u using below_rank [OF assms(2), of b] by auto
  have unfold: "percentile_walk (map (\<lambda>b. of_nat (in_bucket xs b)) [b..<buckets]) (of_nat b) (of_nat (below xs b))
      (of_nat (Suc k)) mx
    = (if unat (bucketOf (sort xs ! k)) \<le> b then valueOf (of_nat b)
       else percentile_walk (map (\<lambda>b. of_nat (in_bucket xs b)) [Suc b..<buckets]) (of_nat (Suc b))
         (of_nat (below xs (Suc b))) (of_nat (Suc k)) mx)"
    using stop b by (simp only: upt_conv_Cons list.map percentile_walk.simps Let_def acc) (simp add: add.commute)
  show ?case
  proof (cases "unat (bucketOf (sort xs ! k)) \<le> b")
    case True
    have "b \<le> unat (bucketOf (sort xs ! k))"
      using Suc.prems(2) below_rank [OF assms(2), of "b - 1"] by (cases b) auto
    then have "unat (bucketOf (sort xs ! k)) = b" using True by simp
    then have "bucketOf (sort xs ! k) = of_nat b" by auto
    then show ?thesis unfolding unfold using True by simp
  next
    case False
    then have "below xs (Suc b) \<le> k" using below_rank [OF assms(2), of b] by simp
    moreover have "n = buckets - Suc b" "Suc b \<le> buckets" using Suc.hyps(2) b by simp_all
    ultimately show ?thesis unfolding unfold using False Suc.hyps(1) [of "Suc b"] by (simp only: if_False)
  qed
qed

text \<open>
  A percentile is the representative of the bucket of the sample at the rank, whatever rank the
  floating-point computation comes to; the rank is kept between 1 and the number of samples.
\<close>

definition kept_rank :: "nat \<Rightarrow> nat \<Rightarrow> nat" where
  "kept_rank n r = min n (max 1 r)"

lemma h_percentile_rank:
  assumes "hist_rep h xs" "xs \<noteq> []" "length xs < 2 ^ 64"
    and "percentile_rank p (of_nat (length xs)) = Some r"
  shows "h_percentile p h = Some (valueOf (bucketOf (sort xs ! (kept_rank (length xs) (unat r) - 1))))"
proof -
  let ?n = "length xs"
  have n: "unat (of_nat ?n :: u64) = ?n" by (rule unat_of_nat_u64 [OF assms(3)])
  have count: "h_count h = of_nat ?n" and bs: "h_bucket h = map (\<lambda>b. of_nat (in_bucket xs b)) [0..<buckets]"
    using assms(1) by (simp_all add: hist_rep_def)
  have n0: "(of_nat ?n :: u64) \<noteq> 0" using assms(2) n by (auto simp flip: unat_eq_0)
  have pos: "1 \<le> ?n" using assms(2) by (cases xs) auto
  define r' where "r' = (let r1 = (if r = 0 then 1 else r) in if r1 > of_nat ?n then of_nat ?n else r1)"
  have "unat r' = kept_rank ?n (unat r)"
    using pos n by (auto simp: r'_def Let_def kept_rank_def word_less_nat_alt max_def min_def simp flip: unat_eq_0)
  then have r': "r' = of_nat (Suc (kept_rank ?n (unat r) - 1))" and k: "kept_rank ?n (unat r) - 1 < ?n"
    using pos n unat_of_nat_u64 [of "kept_rank ?n (unat r)"] assms(3)
    by (auto simp: kept_rank_def word_unat_eq_iff max_def min_def)
  have "h_percentile p h = Some (percentile_walk (h_bucket h) 0 0 r' (h_max h))"
    unfolding h_percentile_def count using n0 assms(4) by (simp add: r'_def Let_def)
  also have "percentile_walk (h_bucket h) 0 0 r' (h_max h) = valueOf (bucketOf (sort xs ! (kept_rank ?n (unat r) - 1)))"
    using percentile_walk_rank [OF assms(3) k, of 0 "h_max h"] by (simp add: bs r' below_def)
  finally show ?thesis .
qed

section \<open>The rank\<close>

text \<open>For a percentage the conversion to \<open>uint64_t\<close> is in range.\<close>

lemma percentile_rank_defined:
  assumes "0 \<le> val p" "val p \<le> 100" "unat n < 2 ^ 63"
  shows "\<exists>r. percentile_rank p n = Some r"
proof -
  let ?c = "round_frac 1 100" and ?n = "d_of_int (uint n)"
  have c: "0 \<le> val ?c" "val ?c \<le> 11 / 1000" using round_frac_between [of 1 100] by simp_all
  have n: "0 \<le> val ?n" "val ?n \<le> 11 / 10 * of_int (uint n)"
    using round_frac_between [of "uint n" 1] by (simp_all add: d_of_int_def)
  note pc = d_mult_between [OF assms(1) c(1)]
  have "val p * val ?c \<le> 100 * (11 / 1000)" using assms c by (intro mult_mono) simp_all
  then have pc2: "val (d_mult p ?c) \<le> 121 / 100" using pc by linarith
  note y = d_mult_between [OF conjunct1 [OF pc] n(1)]
  have "val (d_mult p ?c) * val ?n \<le> 121 / 100 * (11 / 10 * of_int (uint n))"
    using pc2 n by (intro mult_mono) simp_all
  then have upper: "val (d_mult (d_mult p ?c) ?n) \<le> 3 / 2 * of_int (uint n)" using y by simp
  have "int (unat n) < int (2 ^ 63)" using assms(3) by (simp only: of_nat_less_iff)
  then have "uint n < 2 ^ 63" by simp
  then have "(of_int (uint n) :: rat) < of_int (2 ^ 63)" by (simp only: of_int_less_iff)
  then have "val (d_mult (d_mult p ?c) ?n) \<le> of_int (2 ^ 64 - 1)" using upper by simp
  then have "\<lceil>val (d_mult (d_mult p ?c) ?n)\<rceil> \<le> 2 ^ 64 - 1" by (simp only: ceiling_le_iff)
  moreover have "0 \<le> \<lceil>val (d_mult (d_mult p ?c) ?n)\<rceil>" using y by simp
  ultimately have "0 \<le> d_ceil (d_mult (d_mult p ?c) ?n) \<and> d_ceil (d_mult (d_mult p ?c) ?n) < 2 ^ 64"
    unfolding d_ceil_val by simp
  then show ?thesis unfolding percentile_rank_def int_to_u64_def by (simp only: require_def) simp
qed

text \<open>The median's rank is exact: \<open>50.0 * 0.01\<close> rounds to a half.\<close>

lemma median_rank:
  assumes "unat n < 2 ^ 53"
  shows "percentile_rank (d_of_int 50) n = Some (of_nat ((unat n + 1) div 2))"
proof -
  let ?n = "d_of_int (uint n)"
  have "int (unat n) < int (2 ^ 53)" using assms by (simp only: of_nat_less_iff)
  then have small: "\<bar>uint n\<bar> < 2 ^ 53" by simp
  have half: "d_mult (d_of_int 50) (round_frac 1 100) = Dbl (2 ^ 52) (- 53)" by code_simp
  have h: "val (Dbl (2 ^ 52) (- 53)) = 1 / 2" by (simp add: val_def power_int_def power_one_over)
  have x: "val (Dbl (2 ^ 52) (- 53)) * val ?n = of_int (uint n) / 2"
    unfolding h val_d_of_int [OF small] by simp
  have "val (d_mult (Dbl (2 ^ 52) (- 53)) ?n) = of_int (uint n) / 2"
    using d_mult_exact [of _ ?n "uint n" "- 1", OF _ small] x by (simp add: power_int_def)
  then have "d_ceil (d_mult (Dbl (2 ^ 52) (- 53)) ?n) = \<lceil>of_int (uint n) / (2::rat)\<rceil>" by (simp only: d_ceil_val)
  also have "\<dots> = (uint n + 1) div 2"
  proof -
    have "\<lceil>of_int (uint n) / (of_int 2::rat)\<rceil> = - ((- uint n) div 2)" by (rule ceiling_divide_eq_div)
    then show ?thesis by simp
  qed
  also have "\<dots> = int ((unat n + 1) div 2)" by (simp add: zdiv_int)
  finally have c: "d_ceil (d_mult (d_mult (d_of_int 50) (round_frac 1 100)) ?n) = int ((unat n + 1) div 2)"
    unfolding half .
  have "(unat n + 1) div 2 < 2 ^ 64" using assms by simp
  then have "int ((unat n + 1) div 2) < int (2 ^ 64)" by (simp only: of_nat_less_iff)
  then show ?thesis unfolding percentile_rank_def int_to_u64_def c by (simp only: require_def) simp
qed

text \<open>The 99.9th percentile's is not: \<open>99.9 * 0.01\<close> rounds up.\<close>

lemma p999_rank: "percentile_rank (round_frac 999 10) 1000 = Some 1000"
  by code_simp

text \<open>
  Merging the histogram of one window into another is recording the samples of both: the aggregator
  loses nothing when it rolls a window into the total.
\<close>

lemma merge_is_append:
  "\<exists>h g. h_records xs h_reset = Some h \<and> h_records ys h_reset = Some g
     \<and> h_records (xs @ ys) h_reset = Some (h_merge h g)"
proof -
  obtain h g hg where h: "h_records xs h_reset = Some h" "hist_rep h xs" "h_records ys h_reset = Some g" "hist_rep g ys"
    "h_records (xs @ ys) h_reset = Some hg" "hist_rep hg (xs @ ys)" using h_records_rep by meson
  then show ?thesis using hist_rep_unique [OF h(6) hist_rep_merge [OF h(2,4)]] by auto
qed

section \<open>Order\<close>

lemma representative_in_bucket: "bucketOf (valueOf (bucketOf v)) = bucketOf v"
proof (cases "v < 32")
  case True
  then show ?thesis by (simp add: bucketOf_small valueOf_small)
next
  case False
  then have "32 \<le> v" by simp
  then obtain i where i: "5 \<le> i" "i \<le> 31" "2 ^ i \<le> unat v" "unat v < 2 ^ Suc i"
    "unat (bucketOf v) = (i - 5) * 32 + unat v div 2 ^ (i - 5)" by (rule bucketOf_log)
  note oct = octave_range [OF i(1,3,4)]
  let ?w = "valueOf (bucketOf v)"
  have w: "unat ?w = unat v div 2 ^ (i - 5) * 2 ^ (i - 5)"
    using i oct by (intro valueOf_log) auto
  have "32 * 2 ^ (i - 5) \<le> unat ?w" unfolding w using oct(1) by (intro mult_right_mono) simp_all
  then have low: "2 ^ i \<le> unat ?w" by (simp only: pow_octave [OF i(1)])
  have high: "unat ?w < 2 ^ Suc i" using valueOf_bucketOf [of v] i(4) by linarith
  have "32 \<le> unat ?w" using low power_increasing [OF i(1), of "2::nat"] by simp
  then have "32 \<le> ?w" by (simp add: word_le_nat_alt)
  then obtain j where j: "5 \<le> j" "j \<le> 31" "2 ^ j \<le> unat ?w" "unat ?w < 2 ^ Suc j"
    "unat (bucketOf ?w) = (j - 5) * 32 + unat ?w div 2 ^ (j - 5)" by (rule bucketOf_log)
  have e: "(2::nat) ^ i < 2 ^ Suc j" "(2::nat) ^ j < 2 ^ Suc i" using low high j(3,4) by linarith+
  have "i < Suc j" by (rule power_less_imp_less_exp [OF _ e(1)]) simp
  moreover have "j < Suc i" by (rule power_less_imp_less_exp [OF _ e(2)]) simp
  ultimately have "j = i" by simp
  then have "unat (bucketOf ?w) = unat (bucketOf v)" unfolding j(5) i(5) w by simp
  then show ?thesis by (simp only: word_unat_eq_iff)
qed

lemma representative_mono:
  assumes "v \<le> w"
  shows "valueOf (bucketOf v) \<le> valueOf (bucketOf w)"
proof (rule ccontr)
  assume "\<not> ?thesis"
  then have lt: "valueOf (bucketOf w) < valueOf (bucketOf v)" by simp
  then have "bucketOf w \<le> bucketOf v"
    using bucketOf_mono [of "valueOf (bucketOf w)" "valueOf (bucketOf v)"] by (simp add: representative_in_bucket)
  then have "bucketOf v = bucketOf w" using bucketOf_mono [OF assms] by simp
  then show False using lt by simp
qed

lemma percentile_rank_mono:
  assumes "0 \<le> val p" "val p \<le> val q" "percentile_rank p n = Some r" "percentile_rank q n = Some r'"
  shows "unat r \<le> unat r'"
proof -
  let ?c = "round_frac 1 100" and ?n = "d_of_int (uint n)"
  have c: "0 \<le> val ?c" "0 \<le> val ?n" using round_frac_between [of 1 100] round_frac_between [of "uint n" 1]
    by (simp_all add: d_of_int_def)
  have "val (d_mult p ?c) \<le> val (d_mult q ?c)" using assms(1,2) c by (intro d_mult_mono) simp_all
  moreover have "0 \<le> val (d_mult p ?c)" using d_mult_between [OF assms(1) c(1)] by simp
  ultimately have "val (d_mult (d_mult p ?c) ?n) \<le> val (d_mult (d_mult q ?c) ?n)" using c(2) by (metis d_mult_mono order_refl)
  then have "d_ceil (d_mult (d_mult p ?c) ?n) \<le> d_ceil (d_mult (d_mult q ?c) ?n)" unfolding d_ceil_val by (rule ceiling_mono)
  moreover have "uint r = d_ceil (d_mult (d_mult p ?c) ?n)" "uint r' = d_ceil (d_mult (d_mult q ?c) ?n)"
    using assms(3,4) unfolding percentile_rank_def by (simp_all only: int_to_u64_val)
  ultimately have "uint r \<le> uint r'" by simp
  then show ?thesis by (simp add: word_le_def flip: word_le_nat_alt)
qed

lemma kept_rank_less: "xs \<noteq> [] \<Longrightarrow> kept_rank (length xs) r - 1 < length xs"
  by (cases xs) (auto simp: kept_rank_def min_def)

lemma foldr_max_upper: "x \<in> set xs \<Longrightarrow> x \<le> foldr max xs (0::u32)"
  by (induction xs) (auto simp: le_max_iff_disj)

end
