(* ===== verification/Seqlock.thy ===== *)
theory Seqlock
  imports Prelude
begin

text \<open>
  The sequence lock of \<^verbatim>\<open>metrics/include/book_view.hpp\<close>: the operations as they run alone, and one writer
  against one reader with every access to the counter and to each word of the view a step of its
  own. The view is copied word by word, so a reader can see half of an update; the theorem is that
  it never returns one.
\<close>

unbundle bit_operations_syntax

section \<open>The publisher\<close>

record 'v publisher =
  seq :: u32
  pub_data :: 'v

definition publish :: "'v \<Rightarrow> 'v publisher \<Rightarrow> 'v publisher" where
  "publish v b =
     (let s = seq b;
          b = b\<lparr>seq := s + 1\<rparr>;
          b = b\<lparr>pub_data := v\<rparr>
      in b\<lparr>seq := s + 2\<rparr>)"

text \<open>The loop of \<open>read\<close> with \<open>n\<close> tries left; \<open>None\<close> is the result false.\<close>

primrec read_tries :: "nat \<Rightarrow> 'v publisher \<Rightarrow> 'v option" where
  "read_tries 0 b = None"
| "read_tries (Suc n) b =
     (let s1 = seq b
      in if s1 AND 1 \<noteq> 0 then read_tries n b
         else let out = pub_data b in if seq b = s1 then Some out else read_tries n b)"

definition read_view :: "'v publisher \<Rightarrow> 'v option" where
  "read_view b = read_tries 16 b"

lemma odd_flag: "(x::u32) AND 1 = 0 \<longleftrightarrow> even (unat x)"
  by (simp add: and_one_eq word_unat_eq_iff unat_mod even_iff_mod_2_eq_zero)

lemma even_of_nat_u32: "even (unat (of_nat n :: u32)) \<longleftrightarrow> even n"
  by (simp add: unat_of_nat even_iff_mod_2_eq_zero mod_mod_cancel)

lemma read_view_even: "seq b AND 1 = 0 \<Longrightarrow> read_view b = Some (pub_data b)"
  by (simp add: read_view_def numeral_eq_Suc Let_def)

lemma publish_even: "seq b AND 1 = 0 \<Longrightarrow> seq (publish v b) AND 1 = 0 \<and> pub_data (publish v b) = v"
proof -
  assume "seq b AND 1 = 0"
  then have "even (unat (seq b) + 2)" by (simp add: odd_flag)
  moreover have "seq b + 2 = of_nat (unat (seq b) + 2)" by simp
  ultimately have "(seq b + 2) AND 1 = 0" unfolding odd_flag by (simp only: even_of_nat_u32)
  then show ?thesis by (simp add: publish_def Let_def)
qed

section \<open>The interleaved writer and reader\<close>

text \<open>A view is its list of words. The locals of each side at each place of its code:\<close>

datatype 'c view_writer =
    W_Idle
  | W_Begin "'c list" u32
  | W_Copy "'c list" u32 nat

datatype 'c view_reader =
    R_Idle
  | R_Try nat
  | R_Copy nat u32 nat "'c list"
  | R_Done "'c list"
  | R_Failed

text \<open>
  The history: the published views in order, the first being the initial one, and how many were
  complete when the reader took its counter and when it compared it.
\<close>

record 'c lock =
  cell :: "'c list publisher"
  view_writer :: "'c view_writer"
  view_reader :: "'c view_reader"
  published :: "'c list list"
  taken_at :: nat
  checked_at :: nat

definition lock_start :: "'c list \<Rightarrow> 'c lock" where
  "lock_start v = \<lparr>cell = \<lparr>seq = 0, pub_data = v\<rparr>, view_writer = W_Idle, view_reader = R_Idle, published = [v],
     taken_at = 0, checked_at = 0\<rparr>"

definition updates :: "'c lock \<Rightarrow> nat" where
  "updates s = length (published s) - 1"

inductive lock_step :: "nat \<Rightarrow> 'c lock \<Rightarrow> 'c lock \<Rightarrow> bool" for n where
  w_call: "view_writer s = W_Idle \<Longrightarrow> length v = n \<Longrightarrow> lock_step n s (s\<lparr>view_writer := W_Begin v (seq (cell s))\<rparr>)"
| w_begin: "view_writer s = W_Begin v q \<Longrightarrow>
    lock_step n s (s\<lparr>cell := (cell s)\<lparr>seq := q + 1\<rparr>, view_writer := W_Copy v q 0\<rparr>)"
| w_copy: "view_writer s = W_Copy v q i \<Longrightarrow> i < n \<Longrightarrow>
    lock_step n s (s\<lparr>cell := (cell s)\<lparr>pub_data := (pub_data (cell s))[i := v ! i]\<rparr>, view_writer := W_Copy v q (Suc i)\<rparr>)"
| w_end: "view_writer s = W_Copy v q n \<Longrightarrow>
    lock_step n s (s\<lparr>cell := (cell s)\<lparr>seq := q + 2\<rparr>, view_writer := W_Idle, published := published s @ [v]\<rparr>)"
| r_call: "view_reader s \<in> {R_Idle, R_Failed} \<union> range R_Done \<Longrightarrow> lock_step n s (s\<lparr>view_reader := R_Try 0\<rparr>)"
| r_give_up: "view_reader s = R_Try t \<Longrightarrow> \<not> t < 16 \<Longrightarrow> lock_step n s (s\<lparr>view_reader := R_Failed\<rparr>)"
| r_odd: "view_reader s = R_Try t \<Longrightarrow> t < 16 \<Longrightarrow> seq (cell s) AND 1 \<noteq> 0 \<Longrightarrow>
    lock_step n s (s\<lparr>view_reader := R_Try (Suc t)\<rparr>)"
| r_even: "view_reader s = R_Try t \<Longrightarrow> t < 16 \<Longrightarrow> seq (cell s) AND 1 = 0 \<Longrightarrow> length out = n \<Longrightarrow>
    lock_step n s (s\<lparr>view_reader := R_Copy t (seq (cell s)) 0 out, taken_at := updates s\<rparr>)"
| r_copy: "view_reader s = R_Copy t q i out \<Longrightarrow> i < n \<Longrightarrow>
    lock_step n s (s\<lparr>view_reader := R_Copy t q (Suc i) (out[i := pub_data (cell s) ! i])\<rparr>)"
| r_same: "view_reader s = R_Copy t q n out \<Longrightarrow> seq (cell s) = q \<Longrightarrow>
    lock_step n s (s\<lparr>view_reader := R_Done out, checked_at := updates s\<rparr>)"
| r_moved: "view_reader s = R_Copy t q n out \<Longrightarrow> seq (cell s) \<noteq> q \<Longrightarrow>
    lock_step n s (s\<lparr>view_reader := R_Try (Suc t)\<rparr>)"

inductive lock_reachable :: "nat \<Rightarrow> 'c lock \<Rightarrow> bool" for n where
  start: "length v = n \<Longrightarrow> lock_reachable n (lock_start v)"
| step: "lock_reachable n s \<Longrightarrow> lock_step n s s' \<Longrightarrow> lock_reachable n s'"

section \<open>The invariant\<close>

fun writer_ok :: "nat \<Rightarrow> 'c lock \<Rightarrow> 'c view_writer \<Rightarrow> bool" where
  "writer_ok n s W_Idle \<longleftrightarrow> seq (cell s) = of_nat (2 * updates s) \<and> pub_data (cell s) = last (published s)"
| "writer_ok n s (W_Begin v q) \<longleftrightarrow> seq (cell s) = of_nat (2 * updates s) \<and> pub_data (cell s) = last (published s)
     \<and> q = seq (cell s) \<and> length v = n"
| "writer_ok n s (W_Copy v q i) \<longleftrightarrow> q = of_nat (2 * updates s) \<and> seq (cell s) = of_nat (2 * updates s + 1)
     \<and> length v = n \<and> i \<le> n \<and> take i (pub_data (cell s)) = take i v"

fun writing :: "'c view_writer \<Rightarrow> bool" where
  "writing (W_Copy v q i) \<longleftrightarrow> True"
| "writing w \<longleftrightarrow> False"

fun reader_ok :: "nat \<Rightarrow> 'c lock \<Rightarrow> 'c view_reader \<Rightarrow> bool" where
  "reader_ok n s (R_Copy t q i out) \<longleftrightarrow> q = of_nat (2 * taken_at s) \<and> taken_at s \<le> updates s \<and> i \<le> n \<and> length out = n
     \<and> (taken_at s = updates s \<and> \<not> writing (view_writer s) \<longrightarrow> take i out = take i (pub_data (cell s)))"
| "reader_ok n s (R_Done out) \<longleftrightarrow> taken_at s \<le> checked_at s \<and> checked_at s \<le> updates s
     \<and> (checked_at s < taken_at s + 2 ^ 31 \<longrightarrow> out = published s ! taken_at s)"
| "reader_ok n s r \<longleftrightarrow> True"

definition lock_ok :: "nat \<Rightarrow> 'c lock \<Rightarrow> bool" where
  "lock_ok n s \<longleftrightarrow> published s \<noteq> [] \<and> length (pub_data (cell s)) = n
     \<and> writer_ok n s (view_writer s) \<and> reader_ok n s (view_reader s)"

lemma lock_ok_start: "length v = n \<Longrightarrow> lock_ok n (lock_start v)"
  by (simp add: lock_ok_def lock_start_def updates_def)

text \<open>Equal counters mean equal numbers of updates, unless \<open>2 ^ 31\<close> were made in between.\<close>

lemma u32_counter: "unat (of_nat a - of_nat b :: u32) = a - b" if "b \<le> a" "a - b < 2 ^ 32"
proof -
  have "of_nat a - of_nat b = (of_nat (a - b) :: u32)" using that(1) by (simp add: of_nat_diff)
  then show ?thesis using that(2) by (simp add: unat_of_nat)
qed

lemma same_counter:
  assumes "of_nat (2 * a) = (of_nat (2 * b) :: u32)" "b \<le> a" "a < b + 2 ^ 31"
  shows "a = b"
  using u32_counter [of "2 * b" "2 * a"] assms by (auto simp del: of_nat_mult)

lemma odd_counter: "(of_nat (2 * a + 1) :: u32) \<noteq> of_nat (2 * b)"
proof
  assume "(of_nat (2 * a + 1) :: u32) = of_nat (2 * b)"
  then have "even (unat (of_nat (2 * a + 1) :: u32)) = even (unat (of_nat (2 * b) :: u32))" by (simp only:)
  then show False unfolding even_of_nat_u32 by simp
qed

lemma writer_seq: "writer_ok n s w \<Longrightarrow> seq (cell s) = of_nat (2 * updates s + (if writing w then 1 else 0))"
  by (cases w) simp_all

lemma writer_quiet: "writer_ok n s w \<Longrightarrow> \<not> writing w \<Longrightarrow> pub_data (cell s) = last (published s)"
  by (cases w) simp_all

lemma take_step: "take i xs = take i ys \<Longrightarrow> i < length xs \<Longrightarrow> take (Suc i) (xs[i := ys ! i]) = take (Suc i) ys"
  if "i < length ys"
  using that by (simp add: take_Suc_conv_app_nth)

lemma last_is_update: "published s \<noteq> [] \<Longrightarrow> last (published s) = published s ! updates s"
  by (simp add: updates_def last_conv_nth)

lemma lock_ok_step:
  assumes "lock_step n s s'" "lock_ok n s"
  shows "lock_ok n s'"
proof -
  have ok: "published s \<noteq> []" "length (pub_data (cell s)) = n"
    and w: "writer_ok n s (view_writer s)" and r: "reader_ok n s (view_reader s)"
    using assms(2) by (auto simp: lock_ok_def)
  have up: "updates (s\<lparr>view_writer := x\<rparr>) = updates s" "updates (s\<lparr>view_reader := y\<rparr>) = updates s"
    "updates (s\<lparr>cell := c\<rparr>) = updates s" "updates (s\<lparr>taken_at := k\<rparr>) = updates s"
    "updates (s\<lparr>checked_at := k\<rparr>) = updates s" for s :: "'a lock" and x y c k
    by (simp_all add: updates_def)
  have keepW: "writer_ok n t (view_writer t)"
    if "cell t = cell s" "published t = published s" "view_writer t = view_writer s" for t
    using w that by (cases "view_writer s") (simp_all add: updates_def)
  have keepR: "reader_ok n t (view_reader t)"
    if "published t = published s" "view_reader t = view_reader s" "taken_at t = taken_at s" "checked_at t = checked_at s"
      "writing (view_writer t) \<or> pub_data (cell t) = pub_data (cell s) \<and> \<not> writing (view_writer s)" for t
    using r that by (cases "view_reader s") (auto simp: updates_def)
  from assms(1) show ?thesis
  proof cases
    case (w_call v)
    have "reader_ok n s' (view_reader s')" by (rule keepR) (use w_call in simp_all)
    then show ?thesis using w_call ok w by (simp add: lock_ok_def up)
  next
    case (w_begin v q)
    have "reader_ok n s' (view_reader s')" by (rule keepR) (use w_begin in simp_all)
    then show ?thesis using w_begin ok w by (simp add: lock_ok_def up)
  next
    case (w_copy v q i)
    have "take (Suc i) ((pub_data (cell s))[i := v ! i]) = take (Suc i) v"
      using w_copy ok w by (intro take_step) simp_all
    moreover have "reader_ok n s' (view_reader s')" by (rule keepR) (use w_copy in simp_all)
    ultimately show ?thesis using ok w w_copy by (simp add: lock_ok_def up)
  next
    case (w_end v q)
    have u: "updates s' = Suc (updates s)" using w_end ok by (simp add: updates_def Suc_diff_1 Suc_pred)
    have "pub_data (cell s) = v" using w_end ok w by simp
    then have "writer_ok n s' (view_writer s')" using w_end w u by (simp add: updates_def algebra_simps)
    moreover have "reader_ok n s' (view_reader s')"
    proof (cases "view_reader s")
      case (R_Copy t k i out)
      then show ?thesis using r w_end u by auto
    next
      case (R_Done out)
      then have "taken_at s \<le> updates s" using r by simp
      then have "taken_at s < length (published s)" using ok by (cases "published s") (auto simp: updates_def)
      then show ?thesis using R_Done r w_end u by (auto simp: nth_append)
    qed (use w_end in simp_all)
    ultimately show ?thesis using w_end ok by (simp add: lock_ok_def)
  next
    case r_call
    have "writer_ok n s' (view_writer s')" by (rule keepW) (use r_call in simp_all)
    then show ?thesis using ok r_call by (auto simp: lock_ok_def)
  next
    case (r_give_up t)
    have "writer_ok n s' (view_writer s')" by (rule keepW) (use r_give_up in simp_all)
    then show ?thesis using ok r_give_up by (auto simp: lock_ok_def)
  next
    case (r_odd t)
    have "writer_ok n s' (view_writer s')" by (rule keepW) (use r_odd in simp_all)
    then show ?thesis using ok r_odd by (auto simp: lock_ok_def)
  next
    case (r_even t out)
    have "\<not> writing (view_writer s)"
      using r_even(4) unfolding odd_flag writer_seq [OF w] even_of_nat_u32 by (auto split: if_splits)
    then have "seq (cell s) = of_nat (2 * updates s)" using writer_seq [OF w] by simp
    moreover have "writer_ok n s' (view_writer s')" by (rule keepW) (use r_even in simp_all)
    ultimately show ?thesis using r_even ok by (auto simp: lock_ok_def up)
  next
    case (r_copy t q i out)
    have "take (Suc i) (out[i := pub_data (cell s) ! i]) = take (Suc i) (pub_data (cell s))"
      if "taken_at s = updates s" "\<not> writing (view_writer s)"
      using r r_copy ok that by (intro take_step) simp_all
    moreover have "writer_ok n s' (view_writer s')" by (rule keepW) (use r_copy in simp_all)
    ultimately show ?thesis using r r_copy ok by (auto simp: lock_ok_def up)
  next
    case (r_same t q out)
    have "out = published s ! taken_at s" if "updates s < taken_at s + 2 ^ 31"
    proof -
      have q: "of_nat (2 * updates s + (if writing (view_writer s) then 1 else 0)) = (of_nat (2 * taken_at s) :: u32)"
        using r_same r writer_seq [OF w] by simp
      then have nw: "\<not> writing (view_writer s)"
        using odd_counter [of "updates s" "taken_at s"] by (cases "writing (view_writer s)") (simp_all only: if_True simp_thms)
      then have "updates s = taken_at s" using q r r_same that by (intro same_counter) simp_all
      then show ?thesis using nw r r_same ok writer_quiet [OF w nw] last_is_update [OF ok(1)] by auto
    qed
    moreover have "writer_ok n s' (view_writer s')" by (rule keepW) (use r_same in simp_all)
    ultimately show ?thesis using r_same r ok by (auto simp: lock_ok_def up)
  next
    case (r_moved t q out)
    have "writer_ok n s' (view_writer s')" by (rule keepW) (use r_moved in simp_all)
    then show ?thesis using ok r_moved by (auto simp: lock_ok_def)
  qed
qed

lemma lock_reachable_ok: "lock_reachable n s \<Longrightarrow> lock_ok n s"
  by (induction rule: lock_reachable.induct) (auto intro: lock_ok_start lock_ok_step)

text \<open>A read that returns true returns one published view, whole, the last one when it took the counter.\<close>

lemma read_untorn:
  "lock_reachable n s \<Longrightarrow> view_reader s = R_Done out \<Longrightarrow> checked_at s < taken_at s + 2 ^ 31 \<Longrightarrow>
     taken_at s < length (published s) \<and> out = published s ! taken_at s"
proof -
  assume "lock_reachable n s" "view_reader s = R_Done out" "checked_at s < taken_at s + 2 ^ 31"
  then have "published s \<noteq> []" "taken_at s \<le> updates s" "out = published s ! taken_at s"
    using lock_reachable_ok [of n s] by (auto simp: lock_ok_def)
  then show ?thesis by (cases "published s") (auto simp: updates_def)
qed

end
