(* ===== verification/Aggregator.thy ===== *)
theory Aggregator
  imports Metrics_Recorder Metrics_Alerts Latency_Histogram Seqlock
begin

text \<open>
  The consumer of the metrics pipeline, \<^verbatim>\<open>metrics/include/aggregator.hpp\<close>: the fold of one event, and the
  snapshot of a render cycle. Clock readings, the drop counter's value and the attached book
  publisher are arguments; the text for the console is in \<open>Console_View\<close>.
\<close>

section \<open>State\<close>

record aggregator =
  ag_ns_per_tick :: double
  ag_render_ns :: u64
  ag_alert_cfg :: alert_config
  ag_last_drops :: u64
  ag_tape :: "trade_rec list"
  ag_tape_next :: nat
  ag_tape_n :: nat
  ag_win :: "hist list"
  ag_cum :: "hist list"
  ag_consumed :: u64
  ag_trades :: u64
  ag_snaps :: u64
  ag_volume :: u64
  ag_best_bid :: int
  ag_best_ask :: int
  ag_last_px :: int
  ag_last_render :: u64

definition NUM_OPS :: nat where "NUM_OPS = 5"

text \<open>The constructor; the refresh rate is converted once.\<close>

definition render_interval :: "double \<Rightarrow> u64 option" where
  "render_interval hz =
     int_to_u64 (d_floor (d_div (d_of_int 1000000000) (if d_less d_zero hz then hz else d_of_int 1)))"

definition mk_aggregator :: "double \<Rightarrow> double \<Rightarrow> aggregator option" where
  "mk_aggregator ns_per_tick hz = do {
     ns \<leftarrow> render_interval hz;
     Some \<lparr>ag_ns_per_tick = ns_per_tick, ag_render_ns = ns, ag_alert_cfg = default_config, ag_last_drops = 0,
       ag_tape = replicate MAX_TAPE \<lparr>tr_px = 0, tr_qty = 0, tr_maker = 0\<rparr>, ag_tape_next = 0, ag_tape_n = 0,
       ag_win = replicate NUM_OPS h_reset, ag_cum = replicate NUM_OPS h_reset, ag_consumed = 0, ag_trades = 0,
       ag_snaps = 0, ag_volume = 0, ag_best_bid = 0, ag_best_ask = 0, ag_last_px = 0, ag_last_render = 0\<rparr>
   }"

definition setAlerts :: "alert_config \<Rightarrow> aggregator \<Rightarrow> aggregator" where
  "setAlerts c a = a\<lparr>ag_alert_cfg := c\<rparr>"

definition consumed :: "aggregator \<Rightarrow> u64" where
  "consumed a = ag_consumed a"

section \<open>One event\<close>

fun op_index :: "op_type \<Rightarrow> nat" where
  "op_index Op_Add = 0"
| "op_index Op_Cancel = 1"
| "op_index Op_Modify = 2"
| "op_index Op_Match = 3"
| "op_index Op_Market = 4"

text \<open>Reading a member of the union that was not written is \<open>None\<close>.\<close>

definition ingest :: "event \<Rightarrow> aggregator \<Rightarrow> aggregator option" where
  "ingest e a =
     (let a = a\<lparr>ag_consumed := ag_consumed a + 1\<rparr>
      in case ev_etype e of
        Latency_Event \<Rightarrow>
          (let op = op_index (ev_otype e)
           in if op < NUM_OPS then do {
                h \<leftarrow> vec_get (ag_win a) (int op);
                h \<leftarrow> h_record (ev_latency e) h;
                w \<leftarrow> vec_set (ag_win a) (int op) h;
                Some (a\<lparr>ag_win := w\<rparr>)
              } else Some a)
      | Snapshot_Event \<Rightarrow>
          (case ev_payload e of
             Snap_Payload bid ask \<Rightarrow>
               Some (a\<lparr>ag_best_bid := bid, ag_best_ask := ask, ag_snaps := ag_snaps a + 1\<rparr>)
           | _ \<Rightarrow> None)
      | Trade_Event \<Rightarrow>
          (case ev_payload e of
             Trade_Payload px qty maker \<Rightarrow> do {
               let a = a\<lparr>ag_last_px := px, ag_volume := ag_volume a + ucast qty, ag_trades := ag_trades a + 1\<rparr>;
               tp \<leftarrow> vec_set (ag_tape a) (int (ag_tape_next a)) \<lparr>tr_px = px, tr_qty = uint qty, tr_maker = ucast maker\<rparr>;
               let a = a\<lparr>ag_tape := tp, ag_tape_next := (ag_tape_next a + 1) mod MAX_TAPE\<rparr>;
               Some (if ag_tape_n a < MAX_TAPE then a\<lparr>ag_tape_n := ag_tape_n a + 1\<rparr> else a)
             }
           | _ \<Rightarrow> None))"

section \<open>One render cycle\<close>

record book_view =
  bv_nbids :: nat
  bv_nasks :: nat
  bv_bids :: "depth_rec list"
  bv_asks :: "depth_rec list"

definition opName :: "nat \<Rightarrow> string" where
  "opName op = (if op = 0 then ''add'' else if op = 1 then ''cancel'' else if op = 2 then ''modify''
     else if op = 3 then ''match'' else if op = 4 then ''market'' else ''?'')"

definition toNs :: "double \<Rightarrow> u32 \<Rightarrow> double" where
  "toNs ns_per_tick ticks =
     (if d_less d_zero ns_per_tick then d_mult (d_of_int (uint ticks)) ns_per_tick else d_of_int (uint ticks))"

definition seconds :: "u64 \<Rightarrow> double" where
  "seconds ns = d_div (d_of_int (uint ns)) (d_of_int 1000000000)"

text \<open>The body of the loop over the operations.\<close>

definition render_op :: "double \<Rightarrow> nat \<Rightarrow> aggregator \<times> snapshot \<Rightarrow> (aggregator \<times> snapshot) option" where
  "render_op win_s op st = (case st of (a, snap) \<Rightarrow> do {
     w \<leftarrow> vec_get (ag_win a) (int op);
     c \<leftarrow> vec_get (ag_cum a) (int op);
     let c = h_merge c w;
     cum \<leftarrow> vec_set (ag_cum a) (int op) c;
     let a = a\<lparr>ag_cum := cum\<rparr>;
     if h_count c = 0 then Some (a, snap)
     else do {
       let wc = h_count w;
       let opsps = (if d_less d_zero win_s then d_div (d_of_int (uint wc)) win_s else d_zero);
       t50 \<leftarrow> h_percentile (d_of_int 50) w;
       t99 \<leftarrow> h_percentile (d_of_int 99) w;
       t999 \<leftarrow> h_percentile (round_frac 999 10) w;
       let ns = toNs (ag_ns_per_tick a);
       ops \<leftarrow> vec_set (s_ops snap) (int (s_num_ops snap))
         \<lparr>op_name = opName op, op_count = h_count c, op_ops_per_s = opsps, op_p50 = ns t50, op_p99 = ns t99,
          op_p999 = ns t999, op_max = ns (h_max c)\<rparr>;
       win \<leftarrow> vec_set (ag_win a) (int op) h_reset;
       Some (a\<lparr>ag_win := win\<rparr>, snap\<lparr>s_ops := ops, s_num_ops := s_num_ops snap + 1\<rparr>)
     }
   })"

primrec render_ops :: "double \<Rightarrow> nat \<Rightarrow> nat \<Rightarrow> aggregator \<times> snapshot \<Rightarrow> (aggregator \<times> snapshot) option" where
  "render_ops win_s 0 op st = Some st"
| "render_ops win_s (Suc k) op st = do { st \<leftarrow> render_op win_s op st; render_ops win_s k (Suc op) st }"

text \<open>The copy loops \<open>dst[i] = src[f i]\<close>, from \<open>i\<close> on with \<open>k\<close> left.\<close>

primrec copy_items :: "(nat \<Rightarrow> 'a option) \<Rightarrow> nat \<Rightarrow> nat \<Rightarrow> 'a list \<Rightarrow> 'a list option" where
  "copy_items src 0 i dst = Some dst"
| "copy_items src (Suc k) i dst = do {
     x \<leftarrow> src i;
     dst \<leftarrow> vec_set dst (int i) x;
     copy_items src k (Suc i) dst
   }"

definition render_depth :: "book_view option \<Rightarrow> snapshot \<Rightarrow> snapshot option" where
  "render_depth view snap = (case view of
       None \<Rightarrow> Some snap
     | Some bv \<Rightarrow> do {
         bids \<leftarrow> copy_items (\<lambda>i. vec_get (bv_bids bv) (int i)) (bv_nbids bv) 0 (s_bids snap);
         asks \<leftarrow> copy_items (\<lambda>i. vec_get (bv_asks bv) (int i)) (bv_nasks bv) 0 (s_asks snap);
         Some (snap\<lparr>s_nbids := bv_nbids bv, s_nasks := bv_nasks bv, s_bids := bids, s_asks := asks\<rparr>)
       })"

definition render_tape :: "aggregator \<Rightarrow> snapshot \<Rightarrow> snapshot option" where
  "render_tape a snap = do {
     let snap = snap\<lparr>s_ntape := ag_tape_n a\<rparr>;
     tape \<leftarrow> copy_items (\<lambda>i. vec_get (ag_tape a) (int ((ag_tape_next a + MAX_TAPE - 1 - i) mod MAX_TAPE)))
       (ag_tape_n a) 0 (s_tape snap);
     Some (snap\<lparr>s_tape := tape\<rparr>)
   }"

definition render_header :: "aggregator \<Rightarrow> double \<Rightarrow> bool \<Rightarrow> u64 \<Rightarrow> snapshot" where
  "render_header a up_s final drops =
     (let snap = new_snapshot\<lparr>s_uptime := up_s, s_final := final, s_events := ag_consumed a, s_trades := ag_trades a,
            s_snaps := ag_snaps a, s_drops := drops,
            s_unit := (if d_less d_zero (ag_ns_per_tick a) then ''ns'' else ''tick'')\<rparr>
      in if ag_snaps a \<noteq> 0
         then snap\<lparr>s_have_book := True, s_best_bid := ag_best_bid a, s_best_ask := ag_best_ask a,
                   s_last_px := ag_last_px a, s_volume := ag_volume a\<rparr>
         else snap)"

definition render ::
    "u64 \<Rightarrow> u64 \<Rightarrow> bool \<Rightarrow> u64 \<Rightarrow> book_view publisher option \<Rightarrow> aggregator \<Rightarrow> (aggregator \<times> snapshot) option" where
  "render t_now t_start final drops bookpub a = do {
     let win_s = seconds (t_now - ag_last_render a);
     let up_s = seconds (t_now - t_start);
     let a = a\<lparr>ag_last_render := t_now\<rparr>;
     let snap = render_header a up_s final drops;
     (a, snap) \<leftarrow> render_ops win_s NUM_OPS 0 (a, snap);
     snap \<leftarrow> render_depth (Option.bind bookpub read_view) snap;
     snap \<leftarrow> render_tape a snap;
     (snap, last) \<leftarrow> evaluateAlerts snap (ag_alert_cfg a) (ag_last_drops a);
     Some (a\<lparr>ag_last_drops := last\<rparr>, snap)
   }"

section \<open>What the aggregator has seen\<close>

definition latencies :: "nat \<Rightarrow> event list \<Rightarrow> u32 list" where
  "latencies op es = map ev_latency (filter (\<lambda>e. ev_etype e = Latency_Event \<and> op_index (ev_otype e) = op) es)"

fun trade_of :: "event \<Rightarrow> trade_rec option" where
  "trade_of e = (case (ev_etype e, ev_payload e) of
      (Trade_Event, Trade_Payload px qty maker) \<Rightarrow> Some \<lparr>tr_px = px, tr_qty = uint qty, tr_maker = ucast maker\<rparr>
    | _ \<Rightarrow> None)"

definition trades_of :: "event list \<Rightarrow> trade_rec list" where
  "trades_of es = List.map_filter trade_of es"

fun quote_of :: "event \<Rightarrow> (int \<times> int) option" where
  "quote_of e = (case (ev_etype e, ev_payload e) of
      (Snapshot_Event, Snap_Payload bid ask) \<Rightarrow> Some (bid, ask)
    | _ \<Rightarrow> None)"

definition quotes_of :: "event list \<Rightarrow> (int \<times> int) list" where
  "quotes_of es = List.map_filter quote_of es"

text \<open>The recorder only makes events whose payload fits their type.\<close>

definition event_ok :: "event \<Rightarrow> bool" where
  "event_ok e \<longleftrightarrow> (case ev_etype e of Latency_Event \<Rightarrow> True | Snapshot_Event \<Rightarrow> quote_of e \<noteq> None
     | Trade_Event \<Rightarrow> trade_of e \<noteq> None)"

definition tape_rep :: "aggregator \<Rightarrow> trade_rec list \<Rightarrow> bool" where
  "tape_rep a ts \<longleftrightarrow> length (ag_tape a) = MAX_TAPE \<and> ag_tape_next a = length ts mod MAX_TAPE
     \<and> ag_tape_n a = min MAX_TAPE (length ts)
     \<and> (\<forall>j<length ts. length ts \<le> j + MAX_TAPE \<longrightarrow> ag_tape a ! (j mod MAX_TAPE) = ts ! j)"

definition hists_rep :: "hist list \<Rightarrow> event list \<Rightarrow> bool" where
  "hists_rep hs es \<longleftrightarrow> length hs = NUM_OPS \<and> (\<forall>op<NUM_OPS. hist_rep (hs ! op) (latencies op es))"

definition totals_rep :: "aggregator \<Rightarrow> event list \<Rightarrow> bool" where
  "totals_rep a es \<longleftrightarrow> ag_consumed a = of_nat (length es)
     \<and> ag_trades a = of_nat (length (trades_of es)) \<and> ag_snaps a = of_nat (length (quotes_of es))
     \<and> ag_volume a = of_int (sum_list (map tr_qty (trades_of es)))
     \<and> (ag_best_bid a, ag_best_ask a) = (if quotes_of es = [] then (0, 0) else last (quotes_of es))
     \<and> ag_last_px a = (if trades_of es = [] then 0 else tr_px (last (trades_of es)))"

text \<open>\<open>old\<close> are the events up to the last render cycle, \<open>new\<close> those since.\<close>

definition agg_rep :: "aggregator \<Rightarrow> event list \<Rightarrow> event list \<Rightarrow> bool" where
  "agg_rep a old new \<longleftrightarrow> hists_rep (ag_cum a) old \<and> hists_rep (ag_win a) new
     \<and> totals_rep a (old @ new) \<and> tape_rep a (trades_of (old @ new))"

lemma events_of_simps [simp]:
  "latencies op [] = []" "trades_of [] = []" "quotes_of [] = []"
  "latencies op (es @ fs) = latencies op es @ latencies op fs"
  "trades_of (es @ fs) = trades_of es @ trades_of fs" "quotes_of (es @ fs) = quotes_of es @ quotes_of fs"
  by (simp_all add: latencies_def trades_of_def quotes_of_def map_filter_def)

lemma events_of_single:
  "latencies op [e] = (if ev_etype e = Latency_Event \<and> op_index (ev_otype e) = op then [ev_latency e] else [])"
  "trades_of [e] = (case trade_of e of None \<Rightarrow> [] | Some t \<Rightarrow> [t])"
  "quotes_of [e] = (case quote_of e of None \<Rightarrow> [] | Some q \<Rightarrow> [q])"
  by (simp_all add: latencies_def trades_of_def quotes_of_def map_filter_def split: option.split)

lemma op_index_less: "op_index op < NUM_OPS"
  by (cases op) (simp_all add: NUM_OPS_def)

lemma hists_rep_new: "hists_rep (replicate NUM_OPS h_reset) []"
  by (simp add: hists_rep_def hist_rep_reset)

lemma agg_rep_new:
  "mk_aggregator ns hz = Some a \<Longrightarrow> agg_rep a [] []"
  by (auto simp: mk_aggregator_def agg_rep_def hists_rep_new totals_rep_def tape_rep_def)

lemma hists_rep_record:
  assumes "hists_rep hs es" "ev_etype e = Latency_Event"
  shows "\<exists>h h' hs'. vec_get hs (int (op_index (ev_otype e))) = Some h \<and> h_record (ev_latency e) h = Some h'
    \<and> vec_set hs (int (op_index (ev_otype e))) h' = Some hs' \<and> hists_rep hs' (es @ [e])"
proof -
  let ?op = "op_index (ev_otype e)"
  have op: "?op < length hs" using assms(1) op_index_less by (simp add: hists_rep_def)
  have "hist_rep (hs ! ?op) (latencies ?op es)" using assms(1) op_index_less by (simp add: hists_rep_def)
  from hist_rep_record [OF this] obtain h' where
    h': "h_record (ev_latency e) (hs ! ?op) = Some h'" "hist_rep h' (latencies ?op es @ [ev_latency e])" by blast
  have "hists_rep (hs[?op := h']) (es @ [e])"
    using assms h'(2) by (auto simp: hists_rep_def nth_list_update events_of_single)
  then show ?thesis using op h'(1) by simp
qed

lemma hists_rep_other: "hists_rep hs es \<Longrightarrow> ev_etype e \<noteq> Latency_Event \<Longrightarrow> hists_rep hs (es @ [e])"
  by (simp add: hists_rep_def events_of_single)

lemma tape_rep_cong: "tape_rep a ts \<Longrightarrow> ag_tape b = ag_tape a \<Longrightarrow> ag_tape_next b = ag_tape_next a \<Longrightarrow>
   ag_tape_n b = ag_tape_n a \<Longrightarrow> tape_rep b ts"
  by (simp add: tape_rep_def)

lemma tape_rep_push:
  assumes "tape_rep a ts"
  shows "tape_rep (a\<lparr>ag_tape := (ag_tape a)[ag_tape_next a := t], ag_tape_next := (ag_tape_next a + 1) mod MAX_TAPE,
     ag_tape_n := (if ag_tape_n a < MAX_TAPE then ag_tape_n a + 1 else ag_tape_n a)\<rparr>) (ts @ [t])"
proof -
  let ?tp = "(ag_tape a)[ag_tape_next a := t]"
  have pos: "MAX_TAPE > 0" by (simp add: MAX_TAPE_def)
  have "?tp ! (j mod MAX_TAPE) = (ts @ [t]) ! j" if "j < length (ts @ [t])" "length (ts @ [t]) \<le> j + MAX_TAPE" for j
  proof (cases "j = length ts")
    case True
    then show ?thesis using assms pos by (simp add: tape_rep_def)
  next
    case False
    then have "j mod MAX_TAPE \<noteq> length ts mod MAX_TAPE" using that by (intro mod_distinct) auto
    then show ?thesis using that False assms by (simp add: tape_rep_def nth_append)
  qed
  moreover have "(ag_tape_next a + 1) mod MAX_TAPE = length (ts @ [t]) mod MAX_TAPE"
    using assms by (simp add: tape_rep_def mod_Suc_eq)
  ultimately show ?thesis using assms by (auto simp: tape_rep_def)
qed

lemma totals_rep_cases:
  assumes "totals_rep a es"
  shows "ev_etype e = Latency_Event \<Longrightarrow> totals_rep (a\<lparr>ag_consumed := ag_consumed a + 1, ag_win := w\<rparr>) (es @ [e])"
    and "quote_of e = Some (bid, ask) \<Longrightarrow> totals_rep (a\<lparr>ag_consumed := ag_consumed a + 1, ag_best_bid := bid,
      ag_best_ask := ask, ag_snaps := ag_snaps a + 1\<rparr>) (es @ [e])"
    and "trade_of e = Some t \<Longrightarrow> totals_rep (a\<lparr>ag_consumed := ag_consumed a + 1, ag_last_px := tr_px t,
      ag_volume := ag_volume a + of_int (tr_qty t), ag_trades := ag_trades a + 1, ag_tape := tp, ag_tape_next := k,
      ag_tape_n := n\<rparr>) (es @ [e])"
proof -
  show "ev_etype e = Latency_Event \<Longrightarrow> totals_rep (a\<lparr>ag_consumed := ag_consumed a + 1, ag_win := w\<rparr>) (es @ [e])"
    using assms by (simp add: totals_rep_def events_of_single)
  assume q: "quote_of e = Some (bid, ask)"
  then have "trade_of e = None" by (auto split: event_type.splits payload.splits)
  then show "totals_rep (a\<lparr>ag_consumed := ag_consumed a + 1, ag_best_bid := bid,
      ag_best_ask := ask, ag_snaps := ag_snaps a + 1\<rparr>) (es @ [e])"
    using assms q by (simp add: totals_rep_def events_of_single del: quote_of.simps trade_of.simps)
next
  assume t: "trade_of e = Some t"
  then have "quote_of e = None" by (auto split: event_type.splits payload.splits)
  then show "totals_rep (a\<lparr>ag_consumed := ag_consumed a + 1, ag_last_px := tr_px t,
      ag_volume := ag_volume a + of_int (tr_qty t), ag_trades := ag_trades a + 1, ag_tape := tp, ag_tape_next := k,
      ag_tape_n := n\<rparr>) (es @ [e])"
    using assms t by (simp add: totals_rep_def events_of_single del: quote_of.simps trade_of.simps)
qed

lemma ingest_rep:
  assumes rep: "agg_rep a old new" and ok: "event_ok e"
  shows "\<exists>a'. ingest e a = Some a' \<and> agg_rep a' old (new @ [e])
    \<and> ag_alert_cfg a' = ag_alert_cfg a \<and> ag_ns_per_tick a' = ag_ns_per_tick a \<and> ag_last_drops a' = ag_last_drops a"
proof -
  from rep have r: "hists_rep (ag_cum a) old" "hists_rep (ag_win a) new" "totals_rep a (old @ new)"
    "tape_rep a (trades_of (old @ new))" by (simp_all add: agg_rep_def)
  note tot = totals_rep_cases [OF r(3), of e]
  show ?thesis
  proof (cases "ev_etype e")
    case Latency_Event
    from hists_rep_record [OF r(2) Latency_Event] obtain h h' w where
      w: "vec_get (ag_win a) (int (op_index (ev_otype e))) = Some h" "h_record (ev_latency e) h = Some h'"
        "vec_set (ag_win a) (int (op_index (ev_otype e))) h' = Some w" "hists_rep w (new @ [e])" by blast
    have "trade_of e = None" using Latency_Event by simp
    then have "tape_rep (a\<lparr>ag_consumed := ag_consumed a + 1, ag_win := w\<rparr>) (trades_of (old @ new @ [e]))"
      using r(4) by (simp add: tape_rep_def events_of_single del: trade_of.simps)
    then show ?thesis
      using w tot(1) [OF Latency_Event, of w] r(1) Latency_Event op_index_less [of "ev_otype e"]
      by (simp add: ingest_def agg_rep_def)
  next
    case Snapshot_Event
    then obtain bid ask where p: "ev_payload e = Snap_Payload bid ask"
      using ok by (auto simp: event_ok_def split: payload.splits)
    have q: "quote_of e = Some (bid, ask)" and "trade_of e = None" using Snapshot_Event p by simp_all
    then have "tape_rep (a\<lparr>ag_consumed := ag_consumed a + 1, ag_best_bid := bid, ag_best_ask := ask,
        ag_snaps := ag_snaps a + 1\<rparr>) (trades_of (old @ new @ [e]))"
      using r(4) by (simp add: tape_rep_def events_of_single del: trade_of.simps)
    then show ?thesis
      using tot(2) [OF q] r(1) hists_rep_other [OF r(2), of e] Snapshot_Event p by (simp add: ingest_def agg_rep_def)
  next
    case Trade_Event
    then obtain px qty maker where p: "ev_payload e = Trade_Payload px qty maker"
      using ok by (auto simp: event_ok_def split: payload.splits)
    let ?t = "\<lparr>tr_px = px, tr_qty = uint qty, tr_maker = ucast maker\<rparr>"
    have t: "trade_of e = Some ?t" using Trade_Event p by simp
    have len: "ag_tape_next a < length (ag_tape a)" using r(4) by (simp add: tape_rep_def MAX_TAPE_def)
    have tp: "tape_rep (a\<lparr>ag_tape := (ag_tape a)[ag_tape_next a := ?t], ag_tape_next := (ag_tape_next a + 1) mod MAX_TAPE,
     ag_tape_n := (if ag_tape_n a < MAX_TAPE then ag_tape_n a + 1 else ag_tape_n a)\<rparr>) (trades_of (old @ new @ [e]))"
      using tape_rep_push [OF r(4), of ?t] t by (simp add: events_of_single del: trade_of.simps)
    define a' where "a' = a\<lparr>ag_consumed := ag_consumed a + 1, ag_last_px := tr_px ?t,
      ag_volume := ag_volume a + of_int (tr_qty ?t), ag_trades := ag_trades a + 1,
      ag_tape := (ag_tape a)[ag_tape_next a := ?t], ag_tape_next := (ag_tape_next a + 1) mod MAX_TAPE,
      ag_tape_n := (if ag_tape_n a < MAX_TAPE then ag_tape_n a + 1 else ag_tape_n a)\<rparr>"
    have "ingest e a = Some a'" using Trade_Event p len by (simp add: ingest_def Let_def a'_def)
    moreover have "totals_rep a' (old @ new @ [e])" unfolding a'_def using tot(3) [OF t] by simp
    moreover have "tape_rep a' (trades_of (old @ new @ [e]))" by (rule tape_rep_cong [OF tp]) (simp_all add: a'_def)
    ultimately show ?thesis using r(1) hists_rep_other [OF r(2), of e] Trade_Event
      by (simp add: agg_rep_def a'_def)
  qed
qed

section \<open>What a render cycle shows\<close>

text \<open>The percentile of a list of samples, as the histogram shows it.\<close>

definition pct :: "double \<Rightarrow> u32 list \<Rightarrow> u32" where
  "pct p xs = (if xs = [] then 0
     else valueOf (bucketOf (sort xs ! (kept_rank (length xs) (unat (the (percentile_rank p (of_nat (length xs))))) - 1))))"

lemma count_zero: "hist_rep h xs \<Longrightarrow> length xs < 2 ^ 63 \<Longrightarrow> h_count h = 0 \<longleftrightarrow> xs = []"
proof -
  assume h: "hist_rep h xs" and n: "length xs < 2 ^ 63"
  have "unat (of_nat (length xs) :: u64) = length xs" by (rule unat_of_nat_u64) (use n in simp)
  then show ?thesis using h by (auto simp: hist_rep_def simp flip: unat_eq_0)
qed

lemma h_percentile_pct:
  assumes "hist_rep h xs" "length xs < 2 ^ 63" "0 \<le> val p" "val p \<le> 100"
  shows "h_percentile p h = Some (pct p xs)"
proof (cases "xs = []")
  case True
  then show ?thesis using assms(1) by (simp add: h_percentile_def pct_def hist_rep_def)
next
  case False
  have n: "unat (of_nat (length xs) :: u64) = length xs" by (rule unat_of_nat_u64) (use assms(2) in simp)
  obtain r where r: "percentile_rank p (of_nat (length xs)) = Some r"
    using percentile_rank_defined [OF assms(3,4), of "of_nat (length xs)"] n assms(2) by auto
  then show ?thesis
    using h_percentile_rank [OF assms(1) False _ r] r False assms(2) by (simp add: pct_def)
qed

lemma percentages:
  "0 \<le> val (d_of_int 50) \<and> val (d_of_int 50) \<le> 100" "0 \<le> val (d_of_int 99) \<and> val (d_of_int 99) \<le> 100"
  "0 \<le> val (round_frac 999 10) \<and> val (round_frac 999 10) \<le> 100"
  using round_frac_error [of 10 999] by (simp_all add: val_d_of_int abs_if split: if_splits)

text \<open>The row of an operation: \<open>new\<close> are the samples of the window, \<open>xs\<close> all.\<close>

definition op_row :: "double \<Rightarrow> double \<Rightarrow> nat \<Rightarrow> u32 list \<Rightarrow> u32 list \<Rightarrow> op_stat" where
  "op_row ns win_s op new xs =
     \<lparr>op_name = opName op, op_count = of_nat (length xs),
      op_ops_per_s = (if 0 < val win_s then d_div (d_of_int (int (length new))) win_s else d_zero),
      op_p50 = toNs ns (pct (d_of_int 50) new), op_p99 = toNs ns (pct (d_of_int 99) new),
      op_p999 = toNs ns (pct (round_frac 999 10) new), op_max = toNs ns (foldr max xs 0)\<rparr>"

definition rows :: "double \<Rightarrow> double \<Rightarrow> nat \<Rightarrow> event list \<Rightarrow> event list \<Rightarrow> op_stat list" where
  "rows ns win_s k old new =
     map (\<lambda>op. op_row ns win_s op (latencies op new) (latencies op (old @ new)))
       (filter (\<lambda>op. latencies op (old @ new) \<noteq> []) [0..<k])"

text \<open>The histograms when \<open>k\<close> operations are done.\<close>

definition rolled :: "aggregator \<Rightarrow> nat \<Rightarrow> event list \<Rightarrow> event list \<Rightarrow> bool" where
  "rolled a k old new \<longleftrightarrow> length (ag_cum a) = NUM_OPS \<and> length (ag_win a) = NUM_OPS
     \<and> (\<forall>op<NUM_OPS. hist_rep (ag_cum a ! op) (latencies op (if op < k then old @ new else old))
          \<and> hist_rep (ag_win a ! op) (latencies op (if op < k then [] else new)))"

definition rows_in :: "snapshot \<Rightarrow> op_stat list \<Rightarrow> bool" where
  "rows_in snap rs \<longleftrightarrow> length (s_ops snap) = 8 \<and> s_num_ops snap = length rs \<and> take (length rs) (s_ops snap) = rs"

lemma latencies_length: "length (latencies op es) \<le> length es"
  by (simp add: latencies_def)

lemma render_op_works:
  assumes k: "k < NUM_OPS" and a: "rolled a k old new" and n: "length (old @ new) < 2 ^ 63"
    and rs: "rows_in snap (rows (ag_ns_per_tick a) win_s k old new)"
  shows "\<exists>cum win ops m. render_op win_s k (a, snap)
      = Some (a\<lparr>ag_cum := cum, ag_win := win\<rparr>, snap\<lparr>s_ops := ops, s_num_ops := m\<rparr>)
    \<and> rolled (a\<lparr>ag_cum := cum, ag_win := win\<rparr>) (Suc k) old new
    \<and> rows_in (snap\<lparr>s_ops := ops, s_num_ops := m\<rparr>) (rows (ag_ns_per_tick a) win_s (Suc k) old new)"
proof -
  let ?w = "ag_win a ! k" and ?c = "ag_cum a ! k" and ?new = "latencies k new" and ?all = "latencies k (old @ new)"
  let ?c' = "h_merge ?c ?w"
  have get: "vec_get (ag_win a) (int k) = Some ?w" "vec_get (ag_cum a) (int k) = Some ?c"
    "vec_set (ag_win a) (int k) x = Some ((ag_win a)[k := x])" "vec_set (ag_cum a) (int k) x = Some ((ag_cum a)[k := x])" for x
    using k a by (simp_all add: rolled_def)
  have "hist_rep ?c (latencies k (if k < k then old @ new else old)) \<and> hist_rep ?w (latencies k (if k < k then [] else new))"
    using k a unfolding rolled_def by blast
  then have w: "hist_rep ?w ?new" and "hist_rep ?c (latencies k old)" by simp_all
  then have c: "hist_rep ?c' ?all" using hist_rep_merge by simp
  have len: "length ?new < 2 ^ 63" "length ?all < 2 ^ 63"
    using n latencies_length [of k new] latencies_length [of k "old @ new"] by simp_all
  have zero: "h_count ?c' = 0 \<longleftrightarrow> ?all = []" by (rule count_zero [OF c len(2)])
  show ?thesis
  proof (cases "?all = []")
    case True
    then have "rolled (a\<lparr>ag_cum := (ag_cum a)[k := ?c'], ag_win := ag_win a\<rparr>) (Suc k) old new"
      using a w c by (auto simp: rolled_def nth_list_update less_Suc_eq)
    moreover have "rows (ag_ns_per_tick a) win_s (Suc k) old new = rows (ag_ns_per_tick a) win_s k old new"
      using True by (simp add: rows_def)
    ultimately show ?thesis using True rs zero
      by (intro exI [of _ "(ag_cum a)[k := ?c']"] exI [of _ "ag_win a"] exI [of _ "s_ops snap"] exI [of _ "s_num_ops snap"])
        (simp add: render_op_def get Let_def)
  next
    case False
    note p = h_percentile_pct [OF w len(1)]
    have row: "\<lparr>op_name = opName k, op_count = h_count ?c',
        op_ops_per_s = (if d_less d_zero win_s then d_div (d_of_int (uint (h_count ?w))) win_s else d_zero),
        op_p50 = toNs (ag_ns_per_tick a) (pct (d_of_int 50) ?new), op_p99 = toNs (ag_ns_per_tick a) (pct (d_of_int 99) ?new),
        op_p999 = toNs (ag_ns_per_tick a) (pct (round_frac 999 10) ?new), op_max = toNs (ag_ns_per_tick a) (h_max ?c')\<rparr>
      = op_row (ag_ns_per_tick a) win_s k ?new ?all"
    proof -
      have "unat (of_nat (length ?new) :: u64) = length ?new" by (rule unat_of_nat_u64) (use len in simp)
      then have "uint (h_count ?w) = int (length ?new)" using w by (simp add: hist_rep_def uint_nat)
      moreover have "val d_zero = 0" by (simp add: val_def d_zero_def)
      ultimately show ?thesis using c by (simp add: op_row_def d_less_val hist_rep_def)
    qed
    let ?rs = "rows (ag_ns_per_tick a) win_s k old new" and ?row = "op_row (ag_ns_per_tick a) win_s k ?new ?all"
    have rows_Suc: "rows (ag_ns_per_tick a) win_s (Suc k) old new = ?rs @ [?row]" using False by (simp add: rows_def)
    have m: "s_num_ops snap = length ?rs" "length ?rs < length (s_ops snap)"
      using rs k length_filter_le [of "\<lambda>op. latencies op (old @ new) \<noteq> []" "[0..<k]"]
      by (simp_all add: rows_in_def rows_def NUM_OPS_def)
    have "rolled (a\<lparr>ag_cum := (ag_cum a)[k := ?c'], ag_win := (ag_win a)[k := h_reset]\<rparr>) (Suc k) old new"
      using a c hist_rep_reset by (auto simp: rolled_def nth_list_update less_Suc_eq)
    moreover have "rows_in (snap\<lparr>s_ops := (s_ops snap)[length ?rs := ?row], s_num_ops := Suc (length ?rs)\<rparr>) (?rs @ [?row])"
      using rs m(2) by (simp add: rows_in_def take_Suc_conv_app_nth)
    moreover have "render_op win_s k (a, snap) = Some (a\<lparr>ag_cum := (ag_cum a)[k := ?c'], ag_win := (ag_win a)[k := h_reset]\<rparr>,
        snap\<lparr>s_ops := (s_ops snap)[length ?rs := ?row], s_num_ops := Suc (length ?rs)\<rparr>)"
    proof -
      have p3: "h_percentile (d_of_int 50) ?w = Some (pct (d_of_int 50) ?new)"
        "h_percentile (d_of_int 99) ?w = Some (pct (d_of_int 99) ?new)"
        "h_percentile (round_frac 999 10) ?w = Some (pct (round_frac 999 10) ?new)"
        using p percentages by blast+
      have "vec_set (s_ops snap) (int (s_num_ops snap)) x = Some ((s_ops snap)[length ?rs := x])" for x
        using m by simp
      moreover have "(h_count ?c' = 0) = False" using zero False by simp
      ultimately show ?thesis
        unfolding row [symmetric] by (simp add: render_op_def Let_def get p3 m(1))
    qed
    ultimately show ?thesis unfolding rows_Suc by blast
  qed
qed

lemma render_ops_works:
  assumes "j + k = NUM_OPS" "rolled a k old new" "length (old @ new) < 2 ^ 63"
    "rows_in snap (rows (ag_ns_per_tick a) win_s k old new)"
  shows "\<exists>cum win ops m. render_ops win_s j k (a, snap)
      = Some (a\<lparr>ag_cum := cum, ag_win := win\<rparr>, snap\<lparr>s_ops := ops, s_num_ops := m\<rparr>)
    \<and> rolled (a\<lparr>ag_cum := cum, ag_win := win\<rparr>) NUM_OPS old new
    \<and> rows_in (snap\<lparr>s_ops := ops, s_num_ops := m\<rparr>) (rows (ag_ns_per_tick a) win_s NUM_OPS old new)"
  using assms
proof (induction j arbitrary: k a snap)
  case 0
  then show ?case
    by (intro exI [of _ "ag_cum a"] exI [of _ "ag_win a"] exI [of _ "s_ops snap"] exI [of _ "s_num_ops snap"]) simp
next
  case (Suc j)
  then have "k < NUM_OPS" by simp
  from render_op_works [OF this Suc.prems(2-4)] obtain cum win ops m where
    one: "render_op win_s k (a, snap) = Some (a\<lparr>ag_cum := cum, ag_win := win\<rparr>, snap\<lparr>s_ops := ops, s_num_ops := m\<rparr>)"
      "rolled (a\<lparr>ag_cum := cum, ag_win := win\<rparr>) (Suc k) old new"
      "rows_in (snap\<lparr>s_ops := ops, s_num_ops := m\<rparr>) (rows (ag_ns_per_tick a) win_s (Suc k) old new)" by blast
  from Suc.IH [of "Suc k" "a\<lparr>ag_cum := cum, ag_win := win\<rparr>" "snap\<lparr>s_ops := ops, s_num_ops := m\<rparr>"] one Suc.prems
  show ?case by simp
qed

lemma copy_items_works:
  "(\<forall>j. i \<le> j \<and> j < i + k \<longrightarrow> src j = Some (f j)) \<Longrightarrow> i + k \<le> length dst \<Longrightarrow>
     copy_items src k i dst = Some (take i dst @ map f [i..<i + k] @ drop (i + k) dst)"
proof (induction k arbitrary: i dst)
  case (Suc k)
  have "copy_items src k (Suc i) (dst[i := f i])
      = Some (take (Suc i) (dst[i := f i]) @ map f [Suc i..<Suc i + k] @ drop (Suc i + k) (dst[i := f i]))"
    using Suc.prems by (intro Suc.IH) auto
  moreover have "take (Suc i) (dst[i := f i]) = take i dst @ [f i]"
    using Suc.prems(2) by (simp add: take_Suc_conv_app_nth)
  moreover have "[i..<i + Suc k] = i # [Suc i..<Suc i + k]" by (simp add: upt_conv_Cons)
  ultimately show ?case using Suc.prems by simp
qed simp

definition view_ok :: "book_view \<Rightarrow> bool" where
  "view_ok bv \<longleftrightarrow> bv_nbids bv \<le> MAX_DEPTH \<and> bv_nasks bv \<le> MAX_DEPTH
     \<and> length (bv_bids bv) = MAX_DEPTH \<and> length (bv_asks bv) = MAX_DEPTH"

lemma copy_prefix:
  assumes "k \<le> length xs" "k \<le> length dst"
  shows "\<exists>ys. copy_items (\<lambda>i. vec_get xs (int i)) k 0 dst = Some ys \<and> length ys = length dst \<and> take k ys = take k xs"
proof -
  have "copy_items (\<lambda>i. vec_get xs (int i)) k 0 dst = Some (take 0 dst @ map (\<lambda>i. xs ! i) [0..<0 + k] @ drop (0 + k) dst)"
    using assms by (intro copy_items_works) simp_all
  moreover have "map (\<lambda>i. xs ! i) [0..<k] = take k xs" by (rule nth_equalityI) (use assms in simp_all)
  ultimately show ?thesis using assms by simp
qed

text \<open>What the depth part of a snapshot shows of a view.\<close>

definition shows_view :: "book_view \<Rightarrow> snapshot \<Rightarrow> bool" where
  "shows_view bv snap \<longleftrightarrow> s_nbids snap = bv_nbids bv \<and> s_nasks snap = bv_nasks bv
     \<and> take (s_nbids snap) (s_bids snap) = take (bv_nbids bv) (bv_bids bv)
     \<and> take (s_nasks snap) (s_asks snap) = take (bv_nasks bv) (bv_asks bv)"

lemma shows_view_cong: "shows_view bv s \<Longrightarrow> s_nbids t = s_nbids s \<Longrightarrow> s_nasks t = s_nasks s \<Longrightarrow>
   s_bids t = s_bids s \<Longrightarrow> s_asks t = s_asks s \<Longrightarrow> shows_view bv t"
  by (auto simp: shows_view_def)

definition empty_view :: book_view where
  "empty_view = \<lparr>bv_nbids = 0, bv_nasks = 0, bv_bids = replicate MAX_DEPTH \<lparr>dr_px = 0, dr_qty = 0\<rparr>,
     bv_asks = replicate MAX_DEPTH \<lparr>dr_px = 0, dr_qty = 0\<rparr>\<rparr>"

lemma render_depth_works:
  assumes "length (s_bids snap) = MAX_DEPTH" "length (s_asks snap) = MAX_DEPTH" "s_nbids snap = 0" "s_nasks snap = 0"
    and "\<forall>bv. view = Some bv \<longrightarrow> view_ok bv"
  shows "\<exists>bids asks m n. render_depth view snap = Some (snap\<lparr>s_nbids := m, s_nasks := n, s_bids := bids, s_asks := asks\<rparr>)
    \<and> length bids = MAX_DEPTH \<and> length asks = MAX_DEPTH \<and> m \<le> MAX_DEPTH \<and> n \<le> MAX_DEPTH
    \<and> shows_view (case view of None \<Rightarrow> empty_view | Some bv \<Rightarrow> bv) (snap\<lparr>s_nbids := m, s_nasks := n, s_bids := bids, s_asks := asks\<rparr>)"
proof (cases view)
  case None
  have eq: "snap\<lparr>s_nbids := 0, s_nasks := 0, s_bids := s_bids snap, s_asks := s_asks snap\<rparr> = snap"
    using assms(3,4) by (intro snapshot.equality) simp_all
  have "render_depth view snap = Some (snap\<lparr>s_nbids := 0, s_nasks := 0, s_bids := s_bids snap, s_asks := s_asks snap\<rparr>)"
    unfolding eq None by (simp add: render_depth_def)
  moreover have "shows_view empty_view (snap\<lparr>s_nbids := 0, s_nasks := 0, s_bids := s_bids snap, s_asks := s_asks snap\<rparr>)"
    by (simp add: shows_view_def empty_view_def)
  ultimately show ?thesis unfolding None option.case using assms(1,2) zero_le by blast
next
  case (Some bv)
  then have ok: "bv_nbids bv \<le> length (bv_bids bv)" "bv_nasks bv \<le> length (bv_asks bv)"
    "bv_nbids bv \<le> length (s_bids snap)" "bv_nasks bv \<le> length (s_asks snap)"
    using assms by (simp_all add: view_ok_def)
  obtain bids where b: "copy_items (\<lambda>i. vec_get (bv_bids bv) (int i)) (bv_nbids bv) 0 (s_bids snap) = Some bids"
    "length bids = length (s_bids snap)" "take (bv_nbids bv) bids = take (bv_nbids bv) (bv_bids bv)"
    using copy_prefix [OF ok(1,3)] by blast
  obtain asks where a: "copy_items (\<lambda>i. vec_get (bv_asks bv) (int i)) (bv_nasks bv) 0 (s_asks snap) = Some asks"
    "length asks = length (s_asks snap)" "take (bv_nasks bv) asks = take (bv_nasks bv) (bv_asks bv)"
    using copy_prefix [OF ok(2,4)] by blast
  show ?thesis
    using Some a b ok assms by (intro exI [of _ bids] exI [of _ asks] exI [of _ "bv_nbids bv"] exI [of _ "bv_nasks bv"])
      (simp add: render_depth_def shows_view_def)
qed

text \<open>The tape is copied newest first.\<close>

lemma render_tape_works:
  assumes "tape_rep a ts" "length (s_tape snap) = MAX_TAPE"
  shows "\<exists>tape. render_tape a snap = Some (snap\<lparr>s_ntape := min MAX_TAPE (length ts), s_tape := tape\<rparr>)
    \<and> length tape = MAX_TAPE \<and> take (min MAX_TAPE (length ts)) tape = take MAX_TAPE (rev ts)"
proof -
  let ?n = "min MAX_TAPE (length ts)" and ?f = "\<lambda>i. ts ! (length ts - 1 - i)"
  have t: "length (ag_tape a) = MAX_TAPE" "ag_tape_next a = length ts mod MAX_TAPE" "ag_tape_n a = ?n"
    using assms(1) by (simp_all add: tape_rep_def)
  have src: "vec_get (ag_tape a) (int ((ag_tape_next a + MAX_TAPE - 1 - i) mod MAX_TAPE)) = Some (?f i)" if "i < ?n" for i
  proof -
    have "(length ts mod MAX_TAPE + MAX_TAPE - 1 - i) mod MAX_TAPE = (length ts mod MAX_TAPE + (MAX_TAPE - 1 - i)) mod MAX_TAPE"
      using that by (simp add: MAX_TAPE_def add.commute)
    also have "\<dots> = (length ts + (MAX_TAPE - 1 - i)) mod MAX_TAPE" by (simp add: mod_add_left_eq)
    also have "\<dots> = (length ts - 1 - i + MAX_TAPE) mod MAX_TAPE" using that by (simp add: MAX_TAPE_def algebra_simps)
    finally have "(ag_tape_next a + MAX_TAPE - 1 - i) mod MAX_TAPE = (length ts - 1 - i) mod MAX_TAPE"
      unfolding t(2) by simp
    moreover have "(length ts - 1 - i) mod MAX_TAPE < length (ag_tape a)" using t(1) by (simp add: MAX_TAPE_def)
    moreover have "ag_tape a ! ((length ts - 1 - i) mod MAX_TAPE) = ?f i"
      using assms(1) that unfolding tape_rep_def by (auto simp: less_diff_conv)
    ultimately show ?thesis by simp
  qed
  have "copy_items (\<lambda>i. vec_get (ag_tape a) (int ((ag_tape_next a + MAX_TAPE - 1 - i) mod MAX_TAPE))) ?n 0 (s_tape snap)
      = Some (take 0 (s_tape snap) @ map ?f [0..<0 + ?n] @ drop (0 + ?n) (s_tape snap))"
    using src assms(2) by (intro copy_items_works) simp_all
  moreover have "map ?f [0..<?n] = take MAX_TAPE (rev ts)"
    by (rule nth_equalityI) (auto simp: rev_nth)
  ultimately show ?thesis using assms(2)
    by (intro exI [of _ "map ?f [0..<?n] @ drop ?n (s_tape snap)"]) (simp add: render_tape_def t min_def)
qed

text \<open>Everything a render cycle makes of the state \<open>agg_rep a old new\<close>.\<close>

definition rendered :: "aggregator \<Rightarrow> snapshot \<Rightarrow> double \<Rightarrow> double \<Rightarrow> event list \<Rightarrow> event list \<Rightarrow> bool" where
  "rendered a snap up_s win_s old new \<longleftrightarrow>
     s_uptime snap = up_s \<and> s_unit snap = (if 0 < val (ag_ns_per_tick a) then ''ns'' else ''tick'')
   \<and> s_events snap = of_nat (length (old @ new))
   \<and> s_trades snap = of_nat (length (trades_of (old @ new)))
   \<and> s_have_book snap = (quotes_of (old @ new) \<noteq> [])
   \<and> (s_have_book snap \<longrightarrow> (s_best_bid snap, s_best_ask snap) = last (quotes_of (old @ new))
        \<and> s_last_px snap = (if trades_of (old @ new) = [] then 0 else tr_px (last (trades_of (old @ new))))
        \<and> s_volume snap = of_int (sum_list (map tr_qty (trades_of (old @ new)))))
   \<and> rows_in snap (rows (ag_ns_per_tick a) win_s NUM_OPS old new)
   \<and> s_ntape snap = min MAX_TAPE (length (trades_of (old @ new)))
   \<and> take (s_ntape snap) (s_tape snap) = take MAX_TAPE (rev (trades_of (old @ new)))"

lemma quotes_of_length: "length (quotes_of es) \<le> length es"
  by (induction es) (auto simp: quotes_of_def map_filter_simps split: option.split)

lemma due_alerts_fields:
  "due_alerts (s\<lparr>s_num_alerts := n, s_alerts := as\<rparr>) cfg ld = due_alerts s cfg ld"
  by (simp add: due_alerts_def crossed_alert_def spread_alert_def drops_alert_def unit_is_ns_def Let_def)

lemma alerted_update: "alerted s0 as s \<Longrightarrow> s = s0\<lparr>s_num_alerts := s_num_alerts s, s_alerts := s_alerts s\<rparr>"
proof -
  assume "alerted s0 as s"
  then have "s\<lparr>s_num_alerts := 0, s_alerts := []\<rparr> = s0\<lparr>s_num_alerts := 0, s_alerts := []\<rparr>" by (simp add: alerted_def)
  then have "s\<lparr>s_num_alerts := 0, s_alerts := []\<rparr>\<lparr>s_num_alerts := s_num_alerts s, s_alerts := s_alerts s\<rparr>
      = s0\<lparr>s_num_alerts := 0, s_alerts := []\<rparr>\<lparr>s_num_alerts := s_num_alerts s, s_alerts := s_alerts s\<rparr>" by (rule arg_cong)
  then show ?thesis by simp
qed

lemma render_header_fields:
  "length (s_bids (render_header a u f d)) = MAX_DEPTH" "length (s_asks (render_header a u f d)) = MAX_DEPTH"
  "s_nbids (render_header a u f d) = 0" "s_nasks (render_header a u f d) = 0"
  "length (s_tape (render_header a u f d)) = MAX_TAPE" "length (s_alerts (render_header a u f d)) = CAP"
  "rows_in (render_header a u f d) []" "s_final (render_header a u f d) = f" "s_drops (render_header a u f d) = d"
  "s_events (render_header a u f d) = ag_consumed a" "s_trades (render_header a u f d) = ag_trades a"
  "ag_snaps a \<noteq> 0 \<Longrightarrow> s_best_bid (render_header a u f d) = ag_best_bid a
     \<and> s_best_ask (render_header a u f d) = ag_best_ask a \<and> s_last_px (render_header a u f d) = ag_last_px a
     \<and> s_volume (render_header a u f d) = ag_volume a"
  "s_have_book (render_header a u f d) = (ag_snaps a \<noteq> 0)" "s_uptime (render_header a u f d) = u"
  "s_unit (render_header a u f d) = (if 0 < val (ag_ns_per_tick a) then ''ns'' else ''tick'')"
  by (simp_all add: render_header_def new_snapshot_def Let_def CAP_def rows_in_def d_less_val val_zero)

lemma render_works:
  assumes rep: "agg_rep a old new" and n: "length (old @ new) < 2 ^ 63"
    and view: "\<forall>p bv. bookpub = Some p \<and> read_view p = Some bv \<longrightarrow> view_ok bv"
  shows "\<exists>a' snap. render t_now t_start final drops bookpub a = Some (a', snap) \<and> agg_rep a' (old @ new) []
    \<and> rendered a snap (seconds (t_now - t_start)) (seconds (t_now - ag_last_render a)) old new \<and> snapshot_ok snap
    \<and> s_final snap = final \<and> s_drops snap = drops \<and> ag_last_drops a' = drops
    \<and> shows_view (case Option.bind bookpub read_view of None \<Rightarrow> empty_view | Some bv \<Rightarrow> bv) snap
    \<and> take (s_num_alerts snap) (s_alerts snap) = take CAP (due_alerts snap (ag_alert_cfg a) (ag_last_drops a))
    \<and> ag_alert_cfg a' = ag_alert_cfg a \<and> ag_ns_per_tick a' = ag_ns_per_tick a"
proof -
  let ?a = "a\<lparr>ag_last_render := t_now\<rparr>" and ?w = "seconds (t_now - ag_last_render a)"
  define h where "h = render_header ?a (seconds (t_now - t_start)) final drops"
  note hf = render_header_fields [of ?a "seconds (t_now - t_start)" final drops, folded h_def]
  let ?rows = "rows (ag_ns_per_tick a) ?w NUM_OPS old new" and ?ts = "trades_of (old @ new)"
  from rep have r: "hists_rep (ag_cum a) old" "hists_rep (ag_win a) new" "totals_rep a (old @ new)" "tape_rep a ?ts"
    by (simp_all add: agg_rep_def)
  have "rolled ?a 0 old new" using r(1,2) by (simp add: rolled_def hists_rep_def)
  moreover have "rows_in h (rows (ag_ns_per_tick ?a) ?w 0 old new)" using hf(7) by (simp add: rows_def)
  ultimately obtain cum win ops m where
    o: "render_ops ?w NUM_OPS 0 (?a, h) = Some (?a\<lparr>ag_cum := cum, ag_win := win\<rparr>, h\<lparr>s_ops := ops, s_num_ops := m\<rparr>)"
      "rolled (?a\<lparr>ag_cum := cum, ag_win := win\<rparr>) NUM_OPS old new" "rows_in (h\<lparr>s_ops := ops, s_num_ops := m\<rparr>) ?rows"
    using render_ops_works [of NUM_OPS 0 ?a old new h ?w] n by auto
  let ?a1 = "?a\<lparr>ag_cum := cum, ag_win := win\<rparr>" and ?s1 = "h\<lparr>s_ops := ops, s_num_ops := m\<rparr>"
  let ?view = "Option.bind bookpub read_view"
  have "\<forall>bv. ?view = Some bv \<longrightarrow> view_ok bv" using view by auto
  then obtain bids asks nb na where
    d: "render_depth ?view ?s1 = Some (?s1\<lparr>s_nbids := nb, s_nasks := na, s_bids := bids, s_asks := asks\<rparr>)"
      "length bids = MAX_DEPTH" "length asks = MAX_DEPTH" "nb \<le> MAX_DEPTH" "na \<le> MAX_DEPTH"
      "shows_view (case ?view of None \<Rightarrow> empty_view | Some bv \<Rightarrow> bv)
        (?s1\<lparr>s_nbids := nb, s_nasks := na, s_bids := bids, s_asks := asks\<rparr>)"
    using render_depth_works [of ?s1 ?view] hf(1-4) by auto
  let ?s2 = "?s1\<lparr>s_nbids := nb, s_nasks := na, s_bids := bids, s_asks := asks\<rparr>"
  have "tape_rep ?a1 ?ts" by (rule tape_rep_cong [OF r(4)]) simp_all
  then obtain tape where
    t: "render_tape ?a1 ?s2 = Some (?s2\<lparr>s_ntape := min MAX_TAPE (length ?ts), s_tape := tape\<rparr>)" "length tape = MAX_TAPE"
      "take (min MAX_TAPE (length ?ts)) tape = take MAX_TAPE (rev ?ts)"
    using render_tape_works [of ?a1 ?ts ?s2] hf(5) by auto
  let ?s3 = "?s2\<lparr>s_ntape := min MAX_TAPE (length ?ts), s_tape := tape\<rparr>"
  have s_ops_ok: "length (s_alerts ?s3) = CAP" "s_num_ops ?s3 \<le> length (s_ops ?s3)"
    using hf(6) o(3) by (auto simp: rows_in_def) (metis length_take min.cobounded1 nat_le_linear)
  from this obtain s4 where e: "evaluateAlerts ?s3 (ag_alert_cfg a) (ag_last_drops a) = Some (s4, drops)"
    "alerted ?s3 (due_alerts ?s3 (ag_alert_cfg a) (ag_last_drops a)) s4"
    using evaluateAlerts_works [of ?s3 "ag_alert_cfg a" "ag_last_drops a"] hf(9) by auto
  let ?s4 = "?s3\<lparr>s_num_alerts := s_num_alerts s4, s_alerts := s_alerts s4\<rparr>"
  have s4: "s4 = ?s4" by (rule alerted_update [OF e(2)])
  note eqs = e(2) [unfolded alerted_def]
  have al: "length (s_alerts s4) = CAP" "s_num_alerts s4 = min CAP (length (due_alerts ?s3 (ag_alert_cfg a) (ag_last_drops a)))"
    "take (s_num_alerts s4) (s_alerts s4) = take CAP (due_alerts ?s3 (ag_alert_cfg a) (ag_last_drops a))"
    using eqs by blast+
  have "due_alerts ?s3 (ag_alert_cfg a) (ag_last_drops a) = due_alerts s4 (ag_alert_cfg a) (ag_last_drops a)"
    by (subst s4) (rule due_alerts_fields [symmetric])
  note al = al [unfolded this]
  have "render t_now t_start final drops bookpub a = Some (?a1\<lparr>ag_last_drops := drops\<rparr>, s4)"
    unfolding render_def Let_def h_def [symmetric] using e(1) by (simp add: o(1) d(1) t(1))
  moreover have "agg_rep (?a1\<lparr>ag_last_drops := drops\<rparr>) (old @ new) []"
    using o(2) r(3,4) by (auto simp: agg_rep_def hists_rep_def rolled_def totals_rep_def tape_rep_def)
  moreover have "rendered a s4 (seconds (t_now - t_start)) ?w old new"
  proof -
    have "length (quotes_of (old @ new)) \<le> length (old @ new)" by (simp only: quotes_of_length)
    then have "unat (of_nat (length (quotes_of (old @ new))) :: u64) = length (quotes_of (old @ new))"
      using n by (intro unat_of_nat_u64) (simp add: less_imp_le_nat)
    then have snaps: "ag_snaps a \<noteq> 0 \<longleftrightarrow> quotes_of (old @ new) \<noteq> []"
      using r(3) unfolding totals_rep_def by (metis length_0_conv unat_0 unat_eq_zero)
    have "s_have_book h = (quotes_of (old @ new) \<noteq> [])" using hf(13) snaps by simp
    moreover have "s_have_book h \<longrightarrow> (s_best_bid h, s_best_ask h) = last (quotes_of (old @ new))
        \<and> s_last_px h = (if ?ts = [] then 0 else tr_px (last ?ts)) \<and> s_volume h = of_int (sum_list (map tr_qty ?ts))"
      using hf(12) r(3) snaps calculation unfolding totals_rep_def by simp
    moreover have "rows_in ?s4 ?rows" using o(3) by (simp add: rows_in_def)
    moreover have "s_events h = of_nat (length (old @ new))" "s_trades h = of_nat (length ?ts)"
      using r(3) hf(10,11) unfolding totals_rep_def by simp_all
    ultimately have "rendered a ?s4 (seconds (t_now - t_start)) ?w old new"
      using hf(14,15) t(3) by (simp add: rendered_def rows_in_def del: upt_Suc)
    then show ?thesis by (simp only: s4 [symmetric])
  qed
  moreover have "snapshot_ok s4"
    using arg_cong [OF s4, of s_ops] arg_cong [OF s4, of s_num_ops] arg_cong [OF s4, of s_ntape] arg_cong [OF s4, of s_tape]
      arg_cong [OF s4, of s_nbids] arg_cong [OF s4, of s_nasks] arg_cong [OF s4, of s_bids] arg_cong [OF s4, of s_asks]
      s_ops_ok al d t(2) by (simp add: snapshot_ok_def)
  moreover have "shows_view (case ?view of None \<Rightarrow> empty_view | Some bv \<Rightarrow> bv) s4"
    by (rule shows_view_cong [OF d(6)]) (subst s4, simp)+
  moreover have "s_final s4 = final" "s_drops s4 = drops" using hf(8,9) by (subst s4, simp)+
  ultimately show ?thesis using al(3) by auto
qed

section \<open>The columns of a row are in order\<close>

lemma pct_mono:
  assumes "0 \<le> val p" "val p \<le> val q" "val q \<le> 100" "length xs < 2 ^ 63"
  shows "pct p xs \<le> pct q xs"
proof (cases "xs = []")
  case False
  have n: "unat (of_nat (length xs) :: u64) = length xs" by (rule unat_of_nat_u64) (use assms(4) in simp)
  obtain r r' where r: "percentile_rank p (of_nat (length xs)) = Some r" "percentile_rank q (of_nat (length xs)) = Some r'"
    using percentile_rank_defined [of p "of_nat (length xs)"] percentile_rank_defined [of q "of_nat (length xs)"] n assms by auto
  have "kept_rank (length xs) (unat r) \<le> kept_rank (length xs) (unat r')"
    using percentile_rank_mono [OF assms(1,2) r] by (auto simp: kept_rank_def)
  then have "sort xs ! (kept_rank (length xs) (unat r) - 1) \<le> sort xs ! (kept_rank (length xs) (unat r') - 1)"
    using False kept_rank_less [OF False] by (intro sorted_nth_mono) simp_all
  then show ?thesis using False by (simp add: pct_def r representative_mono)
qed (simp add: pct_def)

lemma pct_below_max: "length xs < 2 ^ 63 \<Longrightarrow> pct p xs \<le> foldr max xs 0"
proof (cases "xs = []")
  case False
  let ?k = "kept_rank (length xs) (unat (the (percentile_rank p (of_nat (length xs))))) - 1"
  have "?k < length (sort xs)" using kept_rank_less [OF False] by simp
  then have "sort xs ! ?k \<in> set xs" by (metis nth_mem set_sort)
  then have "sort xs ! ?k \<le> foldr max xs 0" by (rule foldr_max_upper)
  moreover have "valueOf (bucketOf (sort xs ! ?k)) \<le> sort xs ! ?k" using valueOf_bucketOf by (simp add: word_le_nat_alt)
  ultimately show ?thesis using False by (simp add: pct_def)
qed (simp add: pct_def)

definition row_ordered :: "op_stat \<Rightarrow> bool" where
  "row_ordered x \<longleftrightarrow> val (op_p50 x) \<le> val (op_p99 x) \<and> val (op_p99 x) \<le> val (op_p999 x) \<and> val (op_p999 x) \<le> val (op_max x)"

lemma toNs_mono: "v \<le> w \<Longrightarrow> val (toNs ns v) \<le> val (toNs ns w)"
proof -
  assume "v \<le> w"
  then have "val (d_of_int (uint v)) \<le> val (d_of_int (uint w))" by (intro d_of_int_mono) (simp_all add: word_le_def)
  moreover have "0 \<le> val (d_of_int (uint v))" using round_frac_between [of "uint v" 1] by (simp add: d_of_int_def)
  ultimately show ?thesis by (auto simp: toNs_def d_less_val intro: d_mult_mono)
qed

lemma percentage_order:
  "val (d_of_int 50) \<le> val (d_of_int 99)" "val (d_of_int 99) \<le> val (round_frac 999 10)"
proof -
  show "val (d_of_int 50) \<le> val (d_of_int 99)" by (simp add: val_d_of_int)
  have "val (d_of_int 99) = val (round_frac 99 1)" by (simp add: d_of_int_def)
  then show "val (d_of_int 99) \<le> val (round_frac 999 10)" using round_frac_mono [of 1 10 99 999] by simp
qed

lemma op_row_ordered:
  assumes "length xs < 2 ^ 63" "set new \<subseteq> set xs" "length new < 2 ^ 63"
  shows "row_ordered (op_row ns win_s op new xs)"
proof -
  have "foldr max new 0 \<le> foldr max xs 0"
  proof -
    have "foldr max new 0 \<le> m" if "\<forall>x \<in> set new. x \<le> m" for m :: u32 using that by (induction new) auto
    then show ?thesis using assms(2) foldr_max_upper by blast
  qed
  then have "pct (round_frac 999 10) new \<le> foldr max xs 0" using pct_below_max [OF assms(3)] order_trans by blast
  then show ?thesis
    using pct_mono [OF _ percentage_order(1) _ assms(3)] pct_mono [OF _ percentage_order(2) _ assms(3)] percentages
    by (simp add: row_ordered_def op_row_def toNs_mono)
qed

lemma rows_ordered:
  assumes "length (old @ new) < 2 ^ 63"
  shows "\<forall>x \<in> set (rows ns win_s k old new). row_ordered x"
proof -
  have "row_ordered (op_row ns win_s op (latencies op new) (latencies op (old @ new)))" for op
    using assms latencies_length [of op "old @ new"] latencies_length [of op new] by (intro op_row_ordered) (auto simp: latencies_def)
  then show ?thesis by (auto simp: rows_def)
qed

lemma rendered_ordered:
  assumes "rendered a snap up_s win_s old new" "length (old @ new) < 2 ^ 63"
  shows "\<forall>x \<in> set (take (s_num_ops snap) (s_ops snap)). row_ordered x"
  using assms(1) rows_ordered [OF assms(2), of "ag_ns_per_tick a" win_s NUM_OPS] by (simp add: rendered_def rows_in_def)

end
