(* ===== verification/Metrics_Pipeline.thy ===== *)
theory Metrics_Pipeline
  imports Aggregator "HOL-Library.Sublist"
begin

text \<open>
  The run loop of \<^verbatim>\<open>metrics/include/aggregator.hpp\<close> with the recorder at the other end of the ring. What the
  environment does is an argument: for each turn of the loop the calls the producer makes before it,
  the clock reading in it and the state of the attached book publisher, and the same for the end.
\<close>

section \<open>The run loop\<close>

definition kDrainBurst :: nat where "kDrainBurst = 4096"

text \<open>The inner loop, with \<open>n\<close> pops left.\<close>

primrec drain_burst :: "nat \<Rightarrow> event ring \<times> aggregator \<Rightarrow> (event ring \<times> aggregator) option" where
  "drain_burst 0 st = Some st"
| "drain_burst (Suc n) st = (case st of (q, a) \<Rightarrow> do {
     (q, e) \<leftarrow> try_pop ring_cap q;
     case e of None \<Rightarrow> Some (q, a) | Some e \<Rightarrow> do { a \<leftarrow> ingest e a; drain_burst n (q, a) }
   })"

record pipeline =
  pl_rec :: recorder
  pl_agg :: aggregator
  pl_next :: u64
  pl_out :: "snapshot list"

definition run_start :: "u64 \<Rightarrow> recorder \<Rightarrow> aggregator \<Rightarrow> pipeline" where
  "run_start t_start r a = \<lparr>pl_rec = r, pl_agg = a\<lparr>ag_last_render := t_start\<rparr>, pl_next = t_start + ag_render_ns a,
     pl_out = []\<rparr>"

type_synonym turn = "recording list \<times> u64 \<times> book_view publisher option"

text \<open>One turn of the loop: the producer's calls, a burst, and a render cycle when it is due.\<close>

definition run_turn :: "u64 \<Rightarrow> turn \<Rightarrow> pipeline \<Rightarrow> pipeline option" where
  "run_turn t_start env pl = (case env of (calls, t, bookpub) \<Rightarrow> do {
     r \<leftarrow> record_calls calls (pl_rec pl);
     (q, a) \<leftarrow> drain_burst kDrainBurst (rec_ring r, pl_agg pl);
     let r = r\<lparr>rec_ring := q\<rparr>;
     if t \<ge> pl_next pl then do {
       (a, snap) \<leftarrow> render t t_start False (rec_drops r) bookpub a;
       Some \<lparr>pl_rec = r, pl_agg = a, pl_next = t + ag_render_ns a, pl_out = pl_out pl @ [snap]\<rparr>
     } else Some (pl\<lparr>pl_rec := r, pl_agg := a\<rparr>)
   })"

primrec run_turns :: "u64 \<Rightarrow> turn list \<Rightarrow> pipeline \<Rightarrow> pipeline option" where
  "run_turns t_start [] pl = Some pl"
| "run_turns t_start (x # xs) pl = do { pl \<leftarrow> run_turn t_start x pl; run_turns t_start xs pl }"

text \<open>
  After \<open>stop\<close>: the final drain, until the ring is empty, and the last frame. The ring holds at most
  65536 events, so \<open>65537\<close> pops are enough once the producer has stopped.
\<close>

definition run_finish :: "u64 \<Rightarrow> turn \<Rightarrow> pipeline \<Rightarrow> pipeline option" where
  "run_finish t_start env pl = (case env of (calls, t, bookpub) \<Rightarrow> do {
     r \<leftarrow> record_calls calls (pl_rec pl);
     (q, a) \<leftarrow> drain (try_pop ring_cap) 65537 ingest (rec_ring r) (pl_agg pl);
     let r = r\<lparr>rec_ring := q\<rparr>;
     (a, snap) \<leftarrow> render t t_start True (rec_drops r) bookpub a;
     Some (pl\<lparr>pl_rec := r, pl_agg := a, pl_out := pl_out pl @ [snap]\<rparr>)
   })"

definition run :: "u64 \<Rightarrow> turn list \<Rightarrow> turn \<Rightarrow> recorder \<Rightarrow> aggregator \<Rightarrow> pipeline option" where
  "run t_start turns fin r a = do {
     pl \<leftarrow> run_turns t_start turns (run_start t_start r a);
     run_finish t_start fin pl
   }"

section \<open>Nothing is lost uncounted\<close>

lemma call_event_ok: "event_ok (call_event c)"
  by (cases c) (simp_all add: event_ok_def latency_event_def)

lemma offered_ok: "\<forall>e \<in> set (offered k n cs). event_ok e"
  by (induction cs arbitrary: n) (auto simp: call_event_ok)

lemma ingest_fold:
  "agg_rep a old new \<Longrightarrow> \<forall>e \<in> set es. event_ok e \<Longrightarrow>
     \<exists>a'. fold_opt ingest es a = Some a' \<and> agg_rep a' old (new @ es)
       \<and> ag_alert_cfg a' = ag_alert_cfg a \<and> ag_ns_per_tick a' = ag_ns_per_tick a"
proof (induction es arbitrary: a new)
  case (Cons e es)
  then obtain a1 where a1: "ingest e a = Some a1" "agg_rep a1 old (new @ [e])" "ag_alert_cfg a1 = ag_alert_cfg a"
    "ag_ns_per_tick a1 = ag_ns_per_tick a" using ingest_rep [of a old new e] by auto
  from Cons.IH [OF a1(2)] Cons.prems(2) a1 show ?case by auto
qed simp

text \<open>A burst takes the oldest events, at most \<open>n\<close> of them.\<close>

lemma drain_burst_works:
  assumes "ring_inv ring_cap q" "agg_rep a old new" "\<forall>e \<in> set (ring_contents ring_cap q). event_ok e"
  shows "\<exists>q' a'. drain_burst n (q, a) = Some (q', a') \<and> ring_inv ring_cap q'
    \<and> ring_contents ring_cap q' = drop n (ring_contents ring_cap q)
    \<and> agg_rep a' old (new @ take n (ring_contents ring_cap q))"
  using assms
proof (induction n arbitrary: q a new)
  case (Suc n)
  show ?case
  proof (cases "ring_contents ring_cap q")
    case Nil
    then show ?thesis using Suc.prems event_ring.pop_empty [OF Suc.prems(1)] by auto
  next
    case (Cons e es)
    obtain q1 where q1: "try_pop ring_cap q = Some (q1, Some e)" "ring_inv ring_cap q1" "ring_contents ring_cap q1 = es"
      using event_ring.pop_takes [OF Suc.prems(1) Cons] by blast
    obtain a1 where a1: "ingest e a = Some a1" "agg_rep a1 old (new @ [e])"
      using ingest_rep [OF Suc.prems(2), of e] Suc.prems(3) Cons by auto
    from Suc.IH [OF q1(2) a1(2)] Suc.prems(3) show ?thesis by (auto simp: Cons q1 a1(1))
  qed
qed auto

text \<open>
  \<open>accounted k pl calls old new pending d\<close>: of the events the calls offered so far, \<open>old @ new\<close> were
  ingested, \<open>pending\<close> are in the ring and \<open>d\<close> were dropped.
\<close>

definition accounted ::
    "nat \<Rightarrow> pipeline \<Rightarrow> recording list \<Rightarrow> event list \<Rightarrow> event list \<Rightarrow> event list \<Rightarrow> nat \<Rightarrow> bool" where
  "accounted k pl calls old new pending d \<longleftrightarrow>
     ring_inv ring_cap (rec_ring (pl_rec pl)) \<and> rec_sample_mask (pl_rec pl) = mask k
   \<and> rec_sample_count (pl_rec pl) = of_nat (length (filter is_latency calls))
   \<and> ring_contents ring_cap (rec_ring (pl_rec pl)) = pending \<and> rec_drops (pl_rec pl) = of_nat d
   \<and> agg_rep (pl_agg pl) old new
   \<and> subseq (old @ new @ pending) (offered k 0 calls)
   \<and> length (old @ new @ pending) + d = length (offered k 0 calls)"

lemma subseq_set: "subseq xs ys \<Longrightarrow> set xs \<subseteq> set ys"
  by (auto elim: list_emb_set)

lemma accounted_ok:
  assumes "accounted k pl calls old new pending d"
  shows "\<forall>e \<in> set pending. event_ok e" "length (old @ new @ pending) \<le> length calls"
proof -
  have "subseq (old @ new @ pending) (offered k 0 calls)" using assms by (simp add: accounted_def)
  from subseq_set [OF this] show "\<forall>e \<in> set pending. event_ok e" using offered_ok by auto
  have "length (old @ new @ pending) \<le> length (offered k 0 calls)"
    using assms unfolding accounted_def by linarith
  then show "length (old @ new @ pending) \<le> length calls" using length_offered le_trans by blast
qed

lemma accounted_record:
  assumes acc: "accounted k pl calls old new pending d" and k: "k \<le> 32"
  shows "\<exists>r pending' d'. record_calls cs (pl_rec pl) = Some r
    \<and> accounted k (pl\<lparr>pl_rec := r\<rparr>) (calls @ cs) old new pending' d'"
proof -
  let ?n = "length (filter is_latency calls)" and ?p = "ring_contents ring_cap (rec_ring (pl_rec pl))"
  let ?off = "offered k ?n cs" and ?free = "65536 - length pending"
  have p: "?p = pending" using acc by (simp add: accounted_def)
  have inv: "ring_inv ring_cap (rec_ring (pl_rec pl))" "rec_sample_mask (pl_rec pl) = mask k"
    "rec_sample_count (pl_rec pl) = of_nat ?n" using acc by (simp_all add: accounted_def)
  obtain r where r: "record_calls cs (pl_rec pl) = Some r" "ring_inv ring_cap (rec_ring r)" "rec_sample_mask r = mask k"
    "ring_contents ring_cap (rec_ring r) = pending @ take ?free ?off"
    "rec_drops r = rec_drops (pl_rec pl) + of_nat (length ?off - ?free)"
    using record_calls_works [OF inv(1,2) k inv(3), of cs] unfolding p by blast
  have count: "rec_sample_count r = of_nat (length (filter is_latency (calls @ cs)))"
    using record_calls_count [OF r(1)] inv(3) by simp
  have drops: "rec_drops r = of_nat (d + (length ?off - ?free))" using acc r(5) by (simp add: accounted_def)
  have "subseq (take ?free ?off) ?off" by (metis append_take_drop_id list_emb_prefix subseq_order.order_refl)
  then have sub: "subseq ((old @ new @ pending) @ take ?free ?off) (offered k 0 calls @ ?off)"
    using acc by (intro list_emb_append_mono) (simp_all add: accounted_def)
  have "length (take ?free ?off) + (length ?off - ?free) = length ?off" by simp
  then have len: "length (old @ new @ pending @ take ?free ?off) + (d + (length ?off - ?free))
      = length (offered k 0 calls) + length ?off" using acc unfolding accounted_def length_append by linarith
  have "accounted k (pl\<lparr>pl_rec := r\<rparr>) (calls @ cs) old new (pending @ take ?free ?off) (d + (length ?off - ?free))"
    using acc r(2-4) count drops sub len unfolding accounted_def by (simp add: offered_append)
  then show ?thesis using r(1) by blast
qed

text \<open>Events move from the ring to the aggregator.\<close>

lemma accounted_drain:
  assumes "accounted k pl calls old new (es @ pending) d" "ring_inv ring_cap q" "ring_contents ring_cap q = pending"
    "agg_rep a old (new @ es)"
  shows "accounted k (pl\<lparr>pl_rec := pl_rec pl\<lparr>rec_ring := q\<rparr>, pl_agg := a\<rparr>) calls old (new @ es) pending d"
  using assms by (simp add: accounted_def)

lemma accounted_burst:
  assumes acc: "accounted k pl calls old new pending d"
  shows "\<exists>q a. drain_burst n (rec_ring (pl_rec pl), pl_agg pl) = Some (q, a)
    \<and> accounted k (pl\<lparr>pl_rec := pl_rec pl\<lparr>rec_ring := q\<rparr>, pl_agg := a\<rparr>) calls old (new @ take n pending) (drop n pending) d"
proof -
  have inv: "ring_inv ring_cap (rec_ring (pl_rec pl))" "ring_contents ring_cap (rec_ring (pl_rec pl)) = pending"
    "agg_rep (pl_agg pl) old new" using acc by (simp_all add: accounted_def)
  obtain q a where "drain_burst n (rec_ring (pl_rec pl), pl_agg pl) = Some (q, a)" "ring_inv ring_cap q"
    "ring_contents ring_cap q = drop n pending" "agg_rep a old (new @ take n pending)"
    using drain_burst_works [OF inv(1,3), of n] accounted_ok(1) [OF acc] unfolding inv(2) by blast
  then show ?thesis using accounted_drain [of k pl calls old new "take n pending" "drop n pending"] acc by auto
qed

lemma accounted_empty:
  assumes acc: "accounted k pl calls old new pending d"
  shows "\<exists>q a. drain (try_pop ring_cap) 65537 ingest (rec_ring (pl_rec pl)) (pl_agg pl) = Some (q, a)
    \<and> accounted k (pl\<lparr>pl_rec := pl_rec pl\<lparr>rec_ring := q\<rparr>, pl_agg := a\<rparr>) calls old (new @ pending) [] d"
proof -
  have inv: "ring_inv ring_cap (rec_ring (pl_rec pl))" "ring_contents ring_cap (rec_ring (pl_rec pl)) = pending"
    "agg_rep (pl_agg pl) old new" using acc by (simp_all add: accounted_def)
  obtain a where a: "fold_opt ingest pending (pl_agg pl) = Some a" "agg_rep a old (new @ pending)"
    using ingest_fold [OF inv(3) accounted_ok(1) [OF acc]] by blast
  have "65537 > length (ring_contents ring_cap (rec_ring (pl_rec pl)))"
    using event_ring.bounded [OF inv(1)] by simp
  from event_ring.drain_fold [OF inv(1) this, of ingest] a(1) inv(2) obtain q where
    "drain (try_pop ring_cap) 65537 ingest (rec_ring (pl_rec pl)) (pl_agg pl) = Some (q, a)" "ring_inv ring_cap q"
    "ring_contents ring_cap q = []" by blast
  then show ?thesis using accounted_drain [of k pl calls old new pending "[]"] acc a(2) by auto
qed

text \<open>A render cycle on the accounts; \<open>frame_of\<close> is what the frame shows of them.\<close>

definition views_ok :: "turn \<Rightarrow> bool" where
  "views_ok env \<longleftrightarrow> (\<forall>p bv. snd (snd env) = Some p \<and> read_view p = Some bv \<longrightarrow> view_ok bv)"

definition frame_of :: "snapshot \<Rightarrow> event list \<Rightarrow> nat \<Rightarrow> bool" where
  "frame_of s es d \<longleftrightarrow> snapshot_ok s \<and> unat (s_events s) = length es \<and> unat (s_drops s) = d
     \<and> s_trades s = of_nat (length (trades_of es)) \<and> s_ntape s = min MAX_TAPE (length (trades_of es))
     \<and> take (s_ntape s) (s_tape s) = take MAX_TAPE (rev (trades_of es))
     \<and> (s_have_book s \<longrightarrow> (s_best_bid s, s_best_ask s) \<in> set (quotes_of es))"

lemma rendered_in_quotes:
  "rendered a s up_s win_s old new \<Longrightarrow> s_have_book s \<longrightarrow> (s_best_bid s, s_best_ask s) \<in> set (quotes_of (old @ new))"
  unfolding rendered_def by (metis last_in_set)

lemma accounted_render:
  assumes acc: "accounted k pl calls old new pending d" and n: "length calls < 2 ^ 63"
    and view: "\<forall>p bv. bookpub = Some p \<and> read_view p = Some bv \<longrightarrow> view_ok bv"
  shows "\<exists>a s. render t t_start final (rec_drops (pl_rec pl)) bookpub (pl_agg pl) = Some (a, s)
    \<and> accounted k (pl\<lparr>pl_agg := a\<rparr>) calls (old @ new) [] pending d \<and> frame_of s (old @ new) d \<and> s_final s = final"
proof -
  have sum: "length (old @ new @ pending) + d \<le> length calls"
    using acc length_offered [of k 0 calls] unfolding accounted_def by linarith
  then have small: "length (old @ new) < 2 ^ 63" "d < 2 ^ 63" using n by simp_all
  have rep: "agg_rep (pl_agg pl) old new" and drops: "rec_drops (pl_rec pl) = of_nat d"
    using acc by (simp_all add: accounted_def)
  obtain a s where a: "render t t_start final (rec_drops (pl_rec pl)) bookpub (pl_agg pl) = Some (a, s)"
    "agg_rep a (old @ new) []" "rendered (pl_agg pl) s (seconds (t - t_start)) (seconds (t - ag_last_render (pl_agg pl))) old new"
    "snapshot_ok s" "s_final s = final" "s_drops s = rec_drops (pl_rec pl)"
    using render_works [OF rep small(1) view, of t t_start final "rec_drops (pl_rec pl)"] by blast
  have "unat (of_nat (length (old @ new)) :: u64) = length (old @ new)" "unat (of_nat d :: u64) = d"
    using small by (auto intro!: unat_of_nat_u64 simp del: of_nat_add length_append)
  then have "frame_of s (old @ new) d" using a(3,4) rendered_in_quotes [OF a(3)] unfolding frame_of_def rendered_def a(6) drops
    by (elim conjE, intro conjI; (simp only:)?)
  moreover have "accounted k (pl\<lparr>pl_agg := a\<rparr>) calls (old @ new) [] pending d"
    using acc a(2) by (simp add: accounted_def)
  ultimately show ?thesis using a(1,5) by blast
qed

text \<open>
  The invariant of the loop. The accounts hold, and every frame sent so far shows the events that had
  been ingested: a prefix of those ingested by now.
\<close>

definition frames_ok :: "snapshot list \<Rightarrow> event list \<Rightarrow> bool" where
  "frames_ok out es \<longleftrightarrow> (\<forall>s \<in> set out. \<exists>d. frame_of s (take (unat (s_events s)) es) d)"

lemma frames_ok_mono: "frames_ok out es \<Longrightarrow> frames_ok out (es @ fs)"
proof -
  have "take (unat (s_events s)) (es @ fs) = take (unat (s_events s)) es" if "frame_of s (take (unat (s_events s)) es) d"
    for s d
  proof -
    have "unat (s_events s) \<le> length es" using that by (auto simp: frame_of_def)
    then show ?thesis by simp
  qed
  then show "frames_ok out es \<Longrightarrow> frames_ok out (es @ fs)" unfolding frames_ok_def by metis
qed

lemma frames_ok_snoc: "frames_ok out es \<Longrightarrow> frame_of s es d \<Longrightarrow> frames_ok (out @ [s]) es"
  by (auto simp: frames_ok_def frame_of_def)

definition running :: "nat \<Rightarrow> pipeline \<Rightarrow> recording list \<Rightarrow> bool" where
  "running k pl calls \<longleftrightarrow> (\<exists>old new pending d. accounted k pl calls old new pending d \<and> frames_ok (pl_out pl) (old @ new))"

lemma running_start:
  assumes "mk_aggregator ns hz = Some a"
  shows "running k (run_start t_start (mk_recorder (mask k)) a) []"
proof -
  have "agg_rep (a\<lparr>ag_last_render := t_start\<rparr>) [] []"
    using agg_rep_new [OF assms] by (simp add: agg_rep_def totals_rep_def tape_rep_def)
  then have "accounted k (run_start t_start (mk_recorder (mask k)) a) [] [] [] [] 0"
    using new_recorder by (simp add: accounted_def run_start_def)
  moreover have "frames_ok (pl_out (run_start t_start (mk_recorder (mask k)) a)) ([] @ [])"
    by (simp add: frames_ok_def run_start_def)
  ultimately show ?thesis unfolding running_def by blast
qed

lemma accounted_cong:
  "accounted k pl calls old new pending d \<Longrightarrow> pl_rec pl' = pl_rec pl \<Longrightarrow> pl_agg pl' = pl_agg pl
     \<Longrightarrow> accounted k pl' calls old new pending d"
  by (simp add: accounted_def)

lemma running_turn:
  assumes run: "running k pl calls" and k: "k \<le> 32" and n: "length (calls @ fst env) < 2 ^ 63" and view: "views_ok env"
  shows "\<exists>pl'. run_turn t_start env pl = Some pl' \<and> running k pl' (calls @ fst env)"
proof -
  obtain cs t bookpub where env: "env = (cs, t, bookpub)" by (cases env)
  note n = n [unfolded env fst_conv]
  have view: "\<forall>p bv. bookpub = Some p \<and> read_view p = Some bv \<longrightarrow> view_ok bv" using view by (simp add: env views_ok_def)
  obtain old new pending d where acc: "accounted k pl calls old new pending d" "frames_ok (pl_out pl) (old @ new)"
    using run by (auto simp: running_def)
  obtain r pending' d' where r: "record_calls cs (pl_rec pl) = Some r"
    "accounted k (pl\<lparr>pl_rec := r\<rparr>) (calls @ cs) old new pending' d'" using accounted_record [OF acc(1) k] by blast
  let ?es = "take kDrainBurst pending'" and ?rest = "drop kDrainBurst pending'"
  obtain q a where b: "drain_burst kDrainBurst (rec_ring r, pl_agg pl) = Some (q, a)"
    "accounted k (pl\<lparr>pl_rec := r\<lparr>rec_ring := q\<rparr>, pl_agg := a\<rparr>) (calls @ cs) old (new @ ?es) ?rest d'"
    using accounted_burst [OF r(2), of kDrainBurst] by auto
  have fr: "frames_ok (pl_out pl) (old @ new @ ?es)" using frames_ok_mono [OF acc(2)] by (simp only: append_assoc)
  show ?thesis
  proof (cases "t \<ge> pl_next pl")
    case True
    obtain a' s where s: "render t t_start False (rec_drops r) bookpub a = Some (a', s)"
      "accounted k (pl\<lparr>pl_rec := r\<lparr>rec_ring := q\<rparr>, pl_agg := a'\<rparr>) (calls @ cs) (old @ new @ ?es) [] ?rest d'"
      "frame_of s (old @ new @ ?es) d'" using accounted_render [OF b(2) n view, of t t_start False] by auto
    let ?pl = "\<lparr>pl_rec = r\<lparr>rec_ring := q\<rparr>, pl_agg = a', pl_next = t + ag_render_ns a', pl_out = pl_out pl @ [s]\<rparr>"
    have "accounted k ?pl (calls @ cs) (old @ new @ ?es) [] ?rest d'" by (rule accounted_cong [OF s(2)]) simp_all
    moreover have "frames_ok (pl_out ?pl) ((old @ new @ ?es) @ [])" using frames_ok_snoc [OF fr s(3)] by simp
    ultimately have "running k ?pl (calls @ cs)" unfolding running_def by blast
    then show ?thesis using True r(1) b(1) s(1) by (simp add: env run_turn_def Let_def)
  next
    case False
    let ?pl = "pl\<lparr>pl_rec := r\<lparr>rec_ring := q\<rparr>, pl_agg := a\<rparr>"
    have "running k ?pl (calls @ cs)" unfolding running_def using b(2) fr by auto
    then show ?thesis using False r(1) b(1) by (simp add: env run_turn_def Let_def)
  qed
qed

definition turns_calls :: "turn list \<Rightarrow> recording list" where
  "turns_calls turns = concat (map fst turns)"

lemma turns_calls_simps [simp]: "turns_calls [] = []" "turns_calls (x # xs) = fst x @ turns_calls xs"
  by (simp_all add: turns_calls_def)

lemma running_turns:
  "running k pl calls \<Longrightarrow> k \<le> 32 \<Longrightarrow> length (calls @ turns_calls turns) < 2 ^ 63 \<Longrightarrow> list_all views_ok turns \<Longrightarrow>
     \<exists>pl'. run_turns t_start turns pl = Some pl' \<and> running k pl' (calls @ turns_calls turns)"
proof (induction turns arbitrary: pl calls)
  case (Cons x xs)
  from Cons.prems obtain pl1 where pl1: "run_turn t_start x pl = Some pl1" "running k pl1 (calls @ fst x)"
    using running_turn [of k pl calls x t_start] by auto
  from Cons.IH [OF pl1(2)] Cons.prems pl1(1) show ?case by auto
qed simp

text \<open>
  The end returns; when it does the ring is empty, and its last frame shows every event ingested. What
  was ingested is what the calls offered, in order, less the drops the frame shows.
\<close>

definition settled :: "nat \<Rightarrow> recording list \<Rightarrow> pipeline \<Rightarrow> event list \<Rightarrow> nat \<Rightarrow> bool" where
  "settled k calls pl es d \<longleftrightarrow> ring_contents ring_cap (rec_ring (pl_rec pl)) = []
    \<and> rec_drops (pl_rec pl) = of_nat d \<and> agg_rep (pl_agg pl) es []
    \<and> subseq es (offered k 0 calls) \<and> length es + d = length (offered k 0 calls)
    \<and> pl_out pl \<noteq> [] \<and> s_final (last (pl_out pl)) \<and> frame_of (last (pl_out pl)) es d \<and> frames_ok (pl_out pl) es"

lemma running_finish:
  assumes run: "running k pl calls" and k: "k \<le> 32" and n: "length (calls @ fst fin) < 2 ^ 63" and view: "views_ok fin"
  shows "\<exists>pl' es d. run_finish t_start fin pl = Some pl' \<and> settled k (calls @ fst fin) pl' es d"
proof -
  obtain cs t bookpub where fin: "fin = (cs, t, bookpub)" by (cases fin)
  have n: "length (calls @ cs) < 2 ^ 63" using n by (simp add: fin)
  have view': "\<forall>p bv. bookpub = Some p \<and> read_view p = Some bv \<longrightarrow> view_ok bv" using view unfolding fin views_ok_def by simp
  obtain old new pending d where acc: "accounted k pl calls old new pending d" "frames_ok (pl_out pl) (old @ new)"
    using run by (auto simp: running_def)
  obtain r pending' d' where r: "record_calls cs (pl_rec pl) = Some r"
    "accounted k (pl\<lparr>pl_rec := r\<rparr>) (calls @ cs) old new pending' d'" using accounted_record [OF acc(1) k] by blast
  let ?es = "old @ new @ pending'"
  obtain q a1 where b: "drain (try_pop ring_cap) 65537 ingest (rec_ring r) (pl_agg pl) = Some (q, a1)"
    "accounted k (pl\<lparr>pl_rec := r\<lparr>rec_ring := q\<rparr>, pl_agg := a1\<rparr>) (calls @ cs) old (new @ pending') [] d'"
    using accounted_empty [OF r(2)] by auto
  obtain a2 s where s: "render t t_start True (rec_drops r) bookpub a1 = Some (a2, s)"
    "accounted k (pl\<lparr>pl_rec := r\<lparr>rec_ring := q\<rparr>, pl_agg := a2\<rparr>) (calls @ cs) ?es [] [] d'"
    "frame_of s ?es d'" "s_final s" using accounted_render [OF b(2) n view', of t t_start True] by auto
  let ?pl = "pl\<lparr>pl_rec := r\<lparr>rec_ring := q\<rparr>, pl_agg := a2, pl_out := pl_out pl @ [s]\<rparr>"
  have "frames_ok (pl_out pl) ?es" using frames_ok_mono [OF acc(2)] by (simp only: append_assoc)
  from frames_ok_snoc [OF this s(3)] have "frames_ok (pl_out ?pl) ?es" by simp
  then have "settled k (calls @ fst fin) ?pl ?es d'" using s(2-4) unfolding accounted_def settled_def by (simp add: fin)
  moreover have "run_finish t_start fin pl = Some ?pl" by (simp add: run_finish_def fin r(1) b(1) s(1) Let_def)
  ultimately show ?thesis by blast
qed

lemma run_works:
  assumes a: "mk_aggregator ns hz = Some a" and k: "k \<le> 32"
    and n: "length (turns_calls (turns @ [fin])) < 2 ^ 63" and view: "list_all views_ok (turns @ [fin])"
  shows "\<exists>pl s es d. run t_start turns fin (mk_recorder (mask k)) a = Some pl
    \<and> ring_contents ring_cap (rec_ring (pl_rec pl)) = []
    \<and> subseq es (offered k 0 (turns_calls (turns @ [fin])))
    \<and> length es + d = length (offered k 0 (turns_calls (turns @ [fin])))
    \<and> pl_out pl \<noteq> [] \<and> last (pl_out pl) = s \<and> s_final s \<and> frame_of s es d \<and> frames_ok (pl_out pl) es"
proof -
  let ?calls = "turns_calls turns"
  have all: "turns_calls (turns @ [fin]) = ?calls @ fst fin" by (simp add: turns_calls_def)
  obtain pl where pl: "run_turns t_start turns (run_start t_start (mk_recorder (mask k)) a) = Some pl" "running k pl ?calls"
    using running_turns [OF running_start [OF a, of k t_start] k, of turns t_start] n view unfolding all by auto
  obtain pl' es d where "run_finish t_start fin pl = Some pl'" "settled k (?calls @ fst fin) pl' es d"
    using running_finish [OF pl(2) k, of fin t_start] n view unfolding all by auto
  then show ?thesis unfolding all settled_def using pl(1)
    by (intro exI [of _ pl'] exI [of _ "last (pl_out pl')"] exI [of _ es] exI [of _ d]) (simp add: run_def)
qed

text \<open>
  The final drain ends: once the producer has stopped, at most 65537 pops empty the ring, each event
  being passed to \<open>ingest\<close> in order.
\<close>

lemma final_drain_ends:
  assumes "ring_inv ring_cap q" "agg_rep a old new" "\<forall>e \<in> set (ring_contents ring_cap q). event_ok e"
  shows "\<exists>q' a'. drain (try_pop ring_cap) 65537 ingest q a = Some (q', a') \<and> ring_contents ring_cap q' = []
    \<and> agg_rep a' old (new @ ring_contents ring_cap q)"
proof -
  obtain a' where a': "fold_opt ingest (ring_contents ring_cap q) a = Some a'"
    "agg_rep a' old (new @ ring_contents ring_cap q)" using ingest_fold [OF assms(2,3)] by blast
  have "65537 > length (ring_contents ring_cap q)" using event_ring.bounded [OF assms(1)] by simp
  from event_ring.drain_fold [OF assms(1) this a'(1)] a'(2) show ?thesis by blast
qed

end
