(* ===== verification/Udp_Publisher.thy ===== *)
theory Udp_Publisher
  imports Metrics_Snapshot
begin

text \<open>
  The snapshot sink of \<^verbatim>\<open>metrics/include/udp_publisher.hpp\<close>. The system calls are arguments: the results of
  \<open>socket\<close> and \<open>inet_pton\<close>, and \<open>sendto\<close> as a function of the descriptor, the destination and the bytes.
\<close>

type_synonym address = "string \<times> u16"

record udp =
  u_fd :: int
  u_ok :: bool
  u_dst :: "address option"
  u_sent :: u64
  u_errors :: u64

definition mk_udp :: "int \<Rightarrow> int \<Rightarrow> string \<Rightarrow> u16 \<Rightarrow> udp" where
  "mk_udp sock pton host port =
     (let u = \<lparr>u_fd = sock, u_ok = True, u_dst = None, u_sent = 0, u_errors = 0\<rparr>
      in if u_fd u < 0 then u\<lparr>u_ok := False\<rparr>
         else let u = u\<lparr>u_dst := Some (host, port)\<rparr>
              in if pton \<noteq> 1 then u\<lparr>u_ok := False\<rparr> else u)"

text \<open>\<open>buf\<close> is what the stack buffer holds before.\<close>

definition send :: "(int \<Rightarrow> address option \<Rightarrow> string \<Rightarrow> int) \<Rightarrow> char list \<Rightarrow> snapshot \<Rightarrow> udp \<Rightarrow> udp option" where
  "send sendto buf s u =
     (if \<not> u_ok u then Some u
      else do {
        (b, n) \<leftarrow> writeJson s buf 4096;
        let w = sendto (u_fd u) (u_dst u) (take n b);
        Some (if w = int n then u\<lparr>u_sent := u_sent u + 1\<rparr> else u\<lparr>u_errors := u_errors u + 1\<rparr>)
      })"

lemma writeJson_text:
  assumes "json_text s = Some t" "0 < cap" "length buf = cap"
  shows "\<exists>b n. writeJson s buf cap = Some (b, n) \<and> length b = cap \<and> n = min (length t) (cap - 1)
    \<and> take n b = take (cap - 1) t \<and> b ! n = CHR 0x00"
  using writeJson_holds [OF assms(2,3,1)] by (auto simp: holds_text_def)

text \<open>One datagram with the snapshot's text, cut to 4095 characters, and one counter counts it.\<close>

lemma send_text:
  assumes "json_text s = Some t" "length buf = 4096" "u_ok u"
  shows "send sendto buf s u = Some
    (if sendto (u_fd u) (u_dst u) (take 4095 t) = int (length (take 4095 t)) then u\<lparr>u_sent := u_sent u + 1\<rparr>
     else u\<lparr>u_errors := u_errors u + 1\<rparr>)"
proof -
  obtain b n where b: "writeJson s buf 4096 = Some (b, n)" "n = min (length t) 4095" "take n b = take 4095 t"
    using writeJson_text [OF assms(1) _ assms(2)] by auto
  have len: "int (length (take 4095 t)) = int n" using b(2) by simp
  show ?thesis unfolding len using assms(3) by (simp add: send_def b(1,3))
qed

end
