(* ===== verification/Frame_Size.thy ===== *)
theory Frame_Size
  imports Aggregator Udp_Publisher
begin

text \<open>
  How long the JSON text of a rendered frame can be: every number has a bounded length, so that a
  frame always fits in the 4096-byte buffer of the datagram.
\<close>

section \<open>Numbers\<close>

lemma length_dec: "n < 10 ^ k \<Longrightarrow> 0 < k \<Longrightarrow> length (dec n) \<le> k"
proof (induction n arbitrary: k rule: dec.induct)
  case (1 n)
  show ?case
  proof (cases "n < 10")
    case True
    then show ?thesis using 1 by (simp add: dec.simps [of n])
  next
    case False
    then obtain j where k: "k = Suc j" "0 < j" using 1(2,3) by (cases k; cases "k - 1") auto
    then have "n div 10 < 10 ^ j" using 1(2) by (simp add: less_mult_imp_div_less mult.commute)
    then have "length (dec (n div 10)) \<le> j" using 1(1) False k by simp
    then show ?thesis using False k by (subst dec.simps) simp
  qed
qed

lemma length_llu: "length (fmt_llu x) \<le> 20"
proof -
  have "unat x < 2 ^ 64" using unsigned_less [of x] by simp
  then have "unat x < 10 ^ 20" by simp
  then show ?thesis unfolding fmt_llu_def by (rule length_dec) simp
qed

lemma length_lld:
  assumes "\<bar>x\<bar> < 10 ^ k" "0 < k"
  shows "length (fmt_lld x) \<le> k + 1"
proof -
  have "nat \<bar>x\<bar> < nat (10 ^ k)" using assms(1) by (subst nat_mono_iff) simp_all
  then have "nat \<bar>x\<bar> < 10 ^ k" by (simp add: nat_power_eq)
  then have "length (dec (nat \<bar>x\<bar>)) \<le> k" using assms(2) by (rule length_dec)
  then show ?thesis by (auto simp: fmt_lld_def abs_if split: if_splits)
qed

lemma length_lld_pos:
  assumes "0 \<le> x" "x < 10 ^ k" "0 < k"
  shows "length (fmt_lld x) \<le> k"
proof -
  have "nat x < nat (10 ^ k)" using assms by (subst nat_mono_iff) simp_all
  then have "nat x < 10 ^ k" by (simp add: nat_power_eq)
  from length_dec [OF this assms(3)] show ?thesis using assms(1) by (simp add: fmt_lld_def)
qed

lemma half_bound:
  assumes "2 * (r::int) \<le> 10 ^ n + 1" "n \<noteq> 0"
  shows "r < 10 ^ n"
proof -
  have "(10::int) ^ 1 \<le> 10 ^ n" using assms(2) by (intro power_increasing) simp_all
  then show ?thesis using assms(1) by simp
qed

text \<open>A non-negative double of at most \<open>10 ^ d / 2\<close>, with \<open>k\<close> decimals.\<close>

lemma fixed_digits:
  assumes x: "0 \<le> val x" "2 * val x \<le> 10 ^ d"
  shows "0 \<le> mant x"
    and "nat (if expt x \<ge> 0 then \<bar>mant x\<bar> * 10 ^ k * 2 ^ nat (expt x)
           else round_div (\<bar>mant x\<bar> * 10 ^ k) (2 ^ nat (- expt x))) < 10 ^ (d + k) \<or> d + k = 0"
proof -
  show m: "0 \<le> mant x" by (rule mant_sign(2) [OF x(1)])
  let ?m = "\<bar>mant x\<bar> * 10 ^ k"
  let ?r = "if expt x \<ge> 0 then ?m * 2 ^ nat (expt x) else round_div ?m (2 ^ nat (- expt x))"
  have "2 * of_int ?r \<le> 2 * (val x * 10 ^ k) + (1::rat)"
  proof (cases "expt x \<ge> 0")
    case True
    then show ?thesis using m by (simp add: val_def power_int_def)
  next
    case False
    let ?b = "2 ^ nat (- expt x) :: int"
    have "2 * (round_div ?m ?b * ?b) \<le> 2 * ?m + ?b" by (rule round_div_upper) simp
    then have "(of_int (2 * (round_div ?m ?b * ?b)) :: rat) \<le> of_int (2 * ?m + ?b)" by (simp only: of_int_le_iff)
    then have "2 * of_int (round_div ?m ?b) * of_int ?b \<le> (2 * of_int ?m + of_int ?b :: rat)" by (simp add: mult.assoc)
    then have "2 * of_int (round_div ?m ?b) \<le> (2 * of_int ?m + of_int ?b :: rat) / of_int ?b"
      by (simp add: pos_le_divide_eq)
    also have "\<dots> = 2 * (of_int ?m / of_int ?b) + 1" by (simp add: add_divide_distrib)
    also have "of_int ?m / of_int ?b = val x * 10 ^ k"
      using m False by (simp add: val_def power_int_def field_simps)
    finally show ?thesis using False by simp
  qed
  moreover have "2 * (val x * 10 ^ k) \<le> 10 ^ d * 10 ^ k"
    using mult_right_mono [OF x(2), of "10 ^ k"] by (simp add: mult.assoc)
  ultimately have "2 * of_int ?r \<le> (10 ^ (d + k) + 1 :: rat)" unfolding power_add by linarith
  then have "(of_int (2 * ?r) :: rat) \<le> of_int (10 ^ (d + k) + 1)"
    by (simp only: of_int_mult of_int_add of_int_power of_int_numeral of_int_1)
  then have r: "2 * ?r \<le> 10 ^ (d + k) + 1" by (simp only: of_int_le_iff)
  show "nat ?r < 10 ^ (d + k) \<or> d + k = 0"
  proof (cases "d + k = 0")
    case False
    then have "?r < 10 ^ (d + k)" by (intro half_bound [OF r]) simp
    then have "nat ?r < nat (10 ^ (d + k))" by (subst nat_mono_iff) simp_all
    then show ?thesis by (simp add: nat_power_eq)
  qed simp
qed

lemma length_fixed:
  assumes "0 \<le> val x" "2 * val x \<le> 10 ^ d" "0 < d"
  shows "length (fmt_fixed k x) \<le> d + (if k = 0 then 0 else k + 1)"
proof -
  define r where "r = nat (if expt x \<ge> 0 then \<bar>mant x\<bar> * 10 ^ k * 2 ^ nat (expt x)
           else round_div (\<bar>mant x\<bar> * 10 ^ k) (2 ^ nat (- expt x)))"
  have m: "\<not> mant x < 0" using fixed_digits(1) [OF assms(1,2)] by simp
  have "r < 10 ^ d * 10 ^ k" using fixed_digits(2) [OF assms(1,2), of k] assms(3) by (simp add: r_def power_add)
  then have "r div 10 ^ k < 10 ^ d" by (rule less_mult_imp_div_less)
  from length_dec [OF this assms(3)] have int: "length (dec (r div 10 ^ k)) \<le> d" .
  have frac: "length (dec (r mod 10 ^ k)) \<le> k" if "k > 0" using that by (intro length_dec) simp_all
  show ?thesis using m int frac unfolding fmt_fixed_def Let_def r_def [symmetric] by auto
qed

section \<open>The parts of the text\<close>

definition row_small :: "op_stat \<Rightarrow> bool" where
  "row_small x \<longleftrightarrow> length (op_name x) \<le> 6 \<and> 0 \<le> val (op_ops_per_s x) \<and> 2 * val (op_ops_per_s x) \<le> 10 ^ 29
     \<and> (\<forall>p \<in> {op_p50 x, op_p99 x, op_p999 x, op_max x}. 0 \<le> val p \<and> 2 * val p \<le> 10 ^ 14)"

definition alert_small :: "alert \<Rightarrow> bool" where
  "alert_small a \<longleftrightarrow> length (al_level a) \<le> 4 \<and> length (al_code a) \<le> 7 \<and> length (al_text a) \<le> 79"

definition level_small :: "depth_rec \<Rightarrow> bool" where
  "level_small l \<longleftrightarrow> \<bar>dr_px l\<bar> < 10 ^ 19 \<and> \<bar>dr_qty l\<bar> < 10 ^ 19"

definition trade_small :: "trade_rec \<Rightarrow> bool" where
  "trade_small t \<longleftrightarrow> \<bar>tr_px t\<bar> < 10 ^ 19 \<and> 0 \<le> tr_qty t \<and> tr_qty t < 10 ^ 10 \<and> unat (tr_maker t) < 10 ^ 10"

definition book_small :: "snapshot \<Rightarrow> bool" where
  "book_small s \<longleftrightarrow> \<bar>s_best_bid s\<bar> < 10 ^ 19 \<and> \<bar>s_best_ask s\<bar> < 10 ^ 19 \<and> \<bar>s_best_ask s - s_best_bid s\<bar> < 10 ^ 19
     \<and> \<bar>s_last_px s\<bar> < 10 ^ 19"

definition frame_small :: "snapshot \<Rightarrow> bool" where
  "frame_small s \<longleftrightarrow> snapshot_ok s \<and> 0 \<le> val (s_uptime s) \<and> 2 * val (s_uptime s) \<le> 10 ^ 11 \<and> length (s_unit s) \<le> 4
     \<and> (s_have_book s \<longrightarrow> book_small s)
     \<and> s_num_ops s \<le> 5 \<and> list_all row_small (take (s_num_ops s) (s_ops s))
     \<and> s_num_alerts s \<le> 8 \<and> list_all alert_small (take (s_num_alerts s) (s_alerts s))
     \<and> s_nbids s \<le> 10 \<and> list_all level_small (take (s_nbids s) (s_bids s))
     \<and> s_nasks s \<le> 10 \<and> list_all level_small (take (s_nasks s) (s_asks s))
     \<and> s_ntape s \<le> 16 \<and> list_all trade_small (take (s_ntape s) (s_tape s))"

lemma length_comma: "length (comma i) \<le> 1"
  by (simp add: comma_def)

lemma length_json_op:
  assumes "row_small x" "vec_get (s_ops s) (int i) = Some x" "json_op s i = Some t"
  shows "length t \<le> 180"
proof -
  have p: "length (fmt_fixed 1 p) \<le> 16" if "p \<in> {op_p50 x, op_p99 x, op_p999 x, op_max x}" for p
    using length_fixed [of p 14 1] assms(1) that by (auto simp: row_small_def)
  have "length (fmt_fixed 0 (op_ops_per_s x)) \<le> 29" using length_fixed [of "op_ops_per_s x" 29 0] assms(1)
    by (simp add: row_small_def)
  moreover have "length (op_name x) \<le> 6" using assms(1) by (simp add: row_small_def)
  ultimately show ?thesis
    using p [of "op_p50 x"] p [of "op_p99 x"] p [of "op_p999 x"] p [of "op_max x"] length_llu [of "op_count x"]
      length_comma [of i] assms(2,3) by (auto simp: json_op_def)
qed

lemma length_json_alert:
  assumes "alert_small a" "vec_get (s_alerts s) (int i) = Some a" "json_alert s i = Some t"
  shows "length t \<le> 125"
  using length_comma [of i] assms by (auto simp: json_alert_def alert_small_def)

lemma length_json_level:
  assumes "level_small l" "vec_get ls (int i) = Some l" "json_level ls i = Some t"
  shows "length t \<le> 44"
  using length_lld [of "dr_px l" 19] length_lld [of "dr_qty l" 19] length_comma [of i] assms
  by (auto simp: json_level_def level_small_def)

lemma length_json_trade:
  assumes "trade_small x" "vec_get (s_tape s) (int i) = Some x" "json_trade s i = Some t"
  shows "length t \<le> 45"
  using length_lld [of "tr_px x" 19] length_lld_pos [of "tr_qty x" 10] length_dec [of "unat (tr_maker x)" 10]
    length_comma [of i] assms by (auto simp: json_trade_def trade_small_def fmt_llu_def)

lemma length_json_header:
  assumes "frame_small s"
  shows "length (json_header s) \<le> 170"
proof -
  have "length (fmt_fixed 2 (s_uptime s)) \<le> 14" using length_fixed [of "s_uptime s" 11 2] assms
    by (simp add: frame_small_def)
  moreover have "length (s_unit s) \<le> 4" using assms by (simp add: frame_small_def)
  ultimately show ?thesis
    using length_llu [of "s_events s"] length_llu [of "s_trades s"] length_llu [of "s_snaps s"] length_llu [of "s_drops s"]
    by (simp add: json_header_def)
qed

lemma length_json_book:
  assumes "frame_small s" "json_book s = Some t"
  shows "length t \<le> 150"
proof (cases "s_have_book s")
  case True
  then have "book_small s" using assms(1) by (simp add: frame_small_def)
  then show ?thesis
    using assms(2) True length_lld [of "s_best_bid s" 19] length_lld [of "s_best_ask s" 19] length_lld [of "s_last_px s" 19]
      length_lld [of "s_best_ask s - s_best_bid s" 19] length_llu [of "s_volume s"]
    by (auto simp: json_book_def book_small_def)
qed (use assms(2) in \<open>auto simp: json_book_def\<close>)

lemma length_items:
  "(\<And>j t. i \<le> j \<Longrightarrow> j < i + k \<Longrightarrow> item j = Some t \<Longrightarrow> length t \<le> m) \<Longrightarrow> items_text item k i = Some u \<Longrightarrow>
     length u \<le> k * m"
proof (induction k arbitrary: i u)
  case (Suc k)
  from Suc.prems(2) obtain t1 u1 where u: "item i = Some t1" "items_text item k (Suc i) = Some u1" "u = t1 @ u1" by auto
  have "length t1 \<le> m" using Suc.prems(1) [OF _ _ u(1)] by simp
  moreover have "length u1 \<le> k * m" by (rule Suc.IH [OF _ u(2)], rule Suc.prems(1)) simp_all
  ultimately show ?case using u(3) by simp
qed simp

text \<open>The items of an array whose used part satisfies \<open>P\<close>.\<close>

lemma length_array:
  assumes "list_all P (take k xs)" "k \<le> length xs" "items_text item k 0 = Some u"
    and "\<And>i x t. P x \<Longrightarrow> vec_get xs (int i) = Some x \<Longrightarrow> item i = Some t \<Longrightarrow> length t \<le> m"
  shows "length u \<le> k * m"
proof (rule length_items [OF _ assms(3)])
  fix j t assume j: "0 \<le> j" "j < 0 + k" "item j = Some t"
  then have "P (xs ! j)" using assms(1,2) by (auto simp: list_all_length)
  then show "length t \<le> m" using assms(2,4) j by (intro assms(4) [OF _ _ j(3), of "xs ! j"]) simp_all
qed

lemma json_fits:
  assumes small: "frame_small s" and t: "json_text s = Some t"
  shows "length t < 4096"
proof -
  from t obtain book ops alerts bids asks tape where u: "items_text (json_op s) (s_num_ops s) 0 = Some ops"
    "items_text (json_alert s) (s_num_alerts s) 0 = Some alerts" "items_text (json_level (s_bids s)) (s_nbids s) 0 = Some bids"
    "items_text (json_level (s_asks s)) (s_nasks s) 0 = Some asks" "items_text (json_trade s) (s_ntape s) 0 = Some tape"
    "json_book s = Some book"
    "t = json_header s @ book @ '',\"ops\":['' @ ops @ ''],\"alerts\":['' @ alerts @ ''],\"bids\":['' @ bids
      @ ''],\"asks\":['' @ asks @ ''],\"tape\":['' @ tape @ '']}''" by (auto simp: json_text_def)
  note f = small [unfolded frame_small_def snapshot_ok_def]
  have "length ops \<le> s_num_ops s * 180" using f by (intro length_array [OF _ _ u(1) length_json_op]) auto
  moreover have "length alerts \<le> s_num_alerts s * 125" using f by (intro length_array [OF _ _ u(2) length_json_alert]) auto
  moreover have "length bids \<le> s_nbids s * 44" using f by (intro length_array [OF _ _ u(3) length_json_level]) auto
  moreover have "length asks \<le> s_nasks s * 44" using f by (intro length_array [OF _ _ u(4) length_json_level]) auto
  moreover have "length tape \<le> s_ntape s * 45" using f by (intro length_array [OF _ _ u(5) length_json_trade]) auto
  moreover have "s_num_ops s \<le> 5" "s_num_alerts s \<le> 8" "s_nbids s \<le> 10" "s_nasks s \<le> 10" "s_ntape s \<le> 16"
    using f by simp_all
  ultimately have parts: "length ops \<le> 900" "length alerts \<le> 1000" "length bids \<le> 440" "length asks \<le> 440"
    "length tape \<le> 720" by linarith+
  show ?thesis using parts length_json_header [OF small] length_json_book [OF small u(6)] by (simp add: u(7))
qed

section \<open>Rendered frames are small\<close>

lemma val_giga: "val (d_of_int 1000000000) = 1000000000"
  by (simp add: val_d_of_int)

lemma uint_u64: "uint (n::u64) < 2 ^ 64"
  using uint_lt2p [of n] by simp

lemma seconds_between:
  "81 / 100 * (of_int (uint n) / 1000000000) \<le> val (seconds n)
   \<and> val (seconds n) \<le> 121 / 100 * (of_int (uint n) / 1000000000)"
proof -
  have n: "9 / 10 * of_int (uint n) \<le> val (d_of_int (uint n))" "val (d_of_int (uint n)) \<le> 11 / 10 * of_int (uint n)"
    using d_of_int_between [of "uint n"] by simp_all
  have "(0::rat) \<le> of_int (uint n)" by (simp only: of_int_0_le_iff uint_ge_0)
  then have pos: "0 \<le> val (d_of_int (uint n))" using n(1) by linarith
  have "9 / 10 * (val (d_of_int (uint n)) / 1000000000) \<le> val (seconds n)
      \<and> val (seconds n) \<le> 11 / 10 * (val (d_of_int (uint n)) / 1000000000)"
    using d_div_between [OF pos, of "d_of_int 1000000000"] unfolding seconds_def val_giga by simp
  then show ?thesis using n by linarith
qed

lemma seconds_small: "0 \<le> val (seconds n) \<and> 2 * val (seconds n) \<le> 10 ^ 11"
proof -
  have "(of_int (uint n) :: rat) < of_int (2 ^ 64)" using uint_u64 [of n] by (simp only: of_int_less_iff)
  then have "(of_int (uint n) :: rat) \<le> 2 ^ 64" by simp
  moreover have "(0::rat) \<le> of_int (uint n)" by (simp only: of_int_0_le_iff uint_ge_0)
  ultimately show ?thesis using seconds_between [of n] by simp
qed

lemma rate_small:
  assumes "n < 2 ^ 63" "0 < val (seconds w)"
  shows "0 \<le> val (d_div (d_of_int (int n)) (seconds w)) \<and> 2 * val (d_div (d_of_int (int n)) (seconds w)) \<le> 10 ^ 29"
proof -
  have "uint w \<noteq> 0"
  proof
    assume "uint w = 0"
    from seconds_between [of w, unfolded this] assms(2) show False by simp
  qed
  then have "1 \<le> uint w" using uint_ge_0 [of w] by linarith
  then have "(of_int 1 :: rat) \<le> of_int (uint w)" by (simp only: of_int_le_iff)
  then have w: "81 / 10 ^ 11 \<le> val (seconds w)" using seconds_between [of w] by simp
  have "(of_int (int n) :: rat) < of_int (2 ^ 63)" using assms(1) by (simp only: of_int_less_iff) simp
  then have n: "0 \<le> val (d_of_int (int n))" "val (d_of_int (int n)) \<le> 11 / 10 * 2 ^ 63"
    using d_of_int_between [of "int n"] by simp_all
  have "val (d_of_int (int n)) / val (seconds w) \<le> (11 / 10 * 2 ^ 63) / (81 / 10 ^ 11)"
    using n w by (intro frac_le) simp_all
  moreover have "0 \<le> val (d_of_int (int n)) / val (seconds w)" using n(1) assms(2) by simp
  ultimately show ?thesis using d_div_between [OF n(1) assms(2)] by simp
qed

lemma toNs_small:
  assumes "val ns \<le> 1000"
  shows "0 \<le> val (toNs ns t) \<and> 2 * val (toNs ns t) \<le> 10 ^ 14"
proof -
  have "uint t < 2 ^ 32" using uint_lt2p [of t] by simp
  then have "(of_int (uint t) :: rat) < of_int (2 ^ 32)" by (simp only: of_int_less_iff)
  then have t: "0 \<le> val (d_of_int (uint t))" "val (d_of_int (uint t)) \<le> 11 / 10 * 2 ^ 32"
    using d_of_int_between [of "uint t"] by simp_all
  show ?thesis
  proof (cases "0 < val ns")
    case True
    have "val (d_of_int (uint t)) * val ns \<le> (11 / 10 * 2 ^ 32) * 1000" using t assms True by (intro mult_mono) simp_all
    then show ?thesis using d_mult_between [OF t(1), of ns] True t(1) by (simp add: toNs_def d_less_val)
  next
    case False
    then show ?thesis using t by (simp add: toNs_def d_less_val)
  qed
qed

lemma length_opName: "length (opName op) \<le> 6"
  by (simp add: opName_def)

lemma rows_small:
  assumes "val ns \<le> 1000" "length new < 2 ^ 63"
  shows "list_all row_small (rows ns (seconds w) k old new)"
proof -
  have "row_small (op_row ns (seconds w) op (latencies op new) (latencies op (old @ new)))" for op
  proof -
    have "length (latencies op new) < 2 ^ 63" using latencies_length [of op new] assms(2) by linarith
    then show ?thesis
      using rate_small [of "length (latencies op new)" w] toNs_small [OF assms(1)] length_opName [of op]
      by (auto simp: row_small_def op_row_def)
  qed
  then show ?thesis by (auto simp: rows_def list_all_iff)
qed

lemma due_alerts_small: "list_all alert_small (due_alerts s cfg ld)"
  by (auto simp: due_alerts_def Let_def list_all_iff alert_small_def mk_alert_def crossed_alert_def spread_alert_def
      drops_alert_def p99_alert_def)

text \<open>The prices of the source are 64-bit signed numbers, and so are the spreads of the quotes.\<close>

fun payload_int64 :: "payload \<Rightarrow> bool" where
  "payload_int64 Raw \<longleftrightarrow> True"
| "payload_int64 (Snap_Payload bid ask) \<longleftrightarrow> int64_range bid \<and> int64_range ask \<and> int64_range (ask - bid)"
| "payload_int64 (Trade_Payload px qty maker) \<longleftrightarrow> int64_range px"

definition view_int64 :: "book_view \<Rightarrow> bool" where
  "view_int64 bv \<longleftrightarrow> list_all (\<lambda>l. int64_range (dr_px l) \<and> int64_range (dr_qty l)) (bv_bids bv @ bv_asks bv)"

lemma int64_small: "int64_range x \<Longrightarrow> \<bar>x\<bar> < 10 ^ 19"
  by (simp add: int64_range_def abs_if)

lemma trade_of_small: "trade_of e = Some t \<Longrightarrow> payload_int64 (ev_payload e) \<Longrightarrow> trade_small t \<and> int64_range (tr_px t)"
proof -
  assume t: "trade_of e = Some t" "payload_int64 (ev_payload e)"
  then obtain px qty maker where p: "ev_payload e = Trade_Payload px qty maker"
    "t = \<lparr>tr_px = px, tr_qty = uint qty, tr_maker = ucast maker\<rparr>" "int64_range px"
    by (auto split: prod.splits event_type.splits payload.splits)
  have "uint qty < 2 ^ 32" using uint_lt2p [of qty] by simp
  moreover have "unat (ucast maker :: u64) = unat maker" by (simp add: unsigned_ucast_eq take_bit_nat_eq_self_iff order_less_trans [OF unat_u32])
  moreover have "unat maker < 2 ^ 32" by (rule unat_u32)
  ultimately show ?thesis using int64_small [OF p(3)] p(2,3) by (simp add: trade_small_def)
qed

lemma trades_small:
  assumes "\<forall>e \<in> set es. payload_int64 (ev_payload e)" "t \<in> set (trades_of es)"
  shows "trade_small t \<and> int64_range (tr_px t)"
proof -
  obtain e where "e \<in> set es" "trade_of e = Some t" using assms(2) by (auto simp: trades_of_def map_filter_def)
  then show ?thesis using trade_of_small assms(1) by blast
qed

lemma quotes_small:
  assumes "\<forall>e \<in> set es. payload_int64 (ev_payload e)" "q \<in> set (quotes_of es)"
  shows "int64_range (fst q) \<and> int64_range (snd q) \<and> int64_range (snd q - fst q)"
proof -
  obtain e where "e \<in> set es" "quote_of e = Some q" using assms(2) by (auto simp: quotes_of_def map_filter_def)
  moreover have "payload_int64 (ev_payload e)" using assms(1) calculation(1) by blast
  ultimately show ?thesis by (auto split: prod.splits event_type.splits payload.splits)
qed

lemma rendered_quote:
  assumes "rendered a snap up_s win_s old new" "\<forall>e \<in> set (old @ new). payload_int64 (ev_payload e)" "s_have_book snap"
  shows "int64_range (s_best_bid snap)" "int64_range (s_best_ask snap)" "int64_range (s_best_ask snap - s_best_bid snap)"
proof -
  have "quotes_of (old @ new) \<noteq> []" "(s_best_bid snap, s_best_ask snap) = last (quotes_of (old @ new))"
    using assms(1,3) unfolding rendered_def by blast+
  then have "(s_best_bid snap, s_best_ask snap) \<in> set (quotes_of (old @ new))" by (metis last_in_set)
  from quotes_small [OF assms(2) this] show "int64_range (s_best_bid snap)" "int64_range (s_best_ask snap)"
    "int64_range (s_best_ask snap - s_best_bid snap)" by simp_all
qed

lemma rendered_spread:
  "rendered a snap up_s win_s old new \<Longrightarrow> \<forall>e \<in> set (old @ new). payload_int64 (ev_payload e) \<Longrightarrow> spread_ok snap"
  unfolding spread_ok_def using rendered_quote(3) by blast

lemma book_part_small:
  assumes "rendered a snap up_s win_s old new" "\<forall>e \<in> set (old @ new). payload_int64 (ev_payload e)"
    and have_book: "s_have_book snap"
  shows "book_small snap"
proof -
  let ?ts = "trades_of (old @ new)"
  have px: "s_last_px snap = (if ?ts = [] then 0 else tr_px (last ?ts))"
    using assms(1) have_book unfolding rendered_def by blast
  have "int64_range (s_last_px snap)"
    using trades_small [OF assms(2) last_in_set [of ?ts]] px by (auto simp: int64_range_def)
  then show ?thesis using rendered_quote [OF assms] int64_small by (simp add: book_small_def)
qed

lemma list_all_take: "list_all P xs \<Longrightarrow> list_all P (take n xs)"
  by (auto simp: list_all_iff dest: in_set_takeD)

lemma levels_small:
  assumes "view_int64 bv" "shows_view bv snap"
  shows "list_all level_small (take (s_nbids snap) (s_bids snap))" "list_all level_small (take (s_nasks snap) (s_asks snap))"
proof -
  have "list_all level_small (bv_bids bv @ bv_asks bv)"
    using assms(1) int64_small by (auto simp: view_int64_def level_small_def list_all_iff)
  then have "list_all level_small (bv_bids bv)" "list_all level_small (bv_asks bv)" by simp_all
  then show "list_all level_small (take (s_nbids snap) (s_bids snap))"
    "list_all level_small (take (s_nasks snap) (s_asks snap))"
    using assms(2) list_all_take unfolding shows_view_def by metis+
qed

text \<open>What the environment supplies: the published views and the calibration.\<close>

definition book_read :: "book_view publisher option \<Rightarrow> book_view" where
  "book_read bookpub = (case Option.bind bookpub read_view of None \<Rightarrow> empty_view | Some bv \<Rightarrow> bv)"

lemma rendered_small:
  assumes ren: "rendered a snap (seconds u) (seconds w) old new" and ok: "snapshot_ok snap"
    and n: "length (old @ new) < 2 ^ 63" and ev: "\<forall>e \<in> set (old @ new). payload_int64 (ev_payload e)"
    and ns: "val (ag_ns_per_tick a) \<le> 1000" and view: "view_ok bv" "view_int64 bv" "shows_view bv snap"
    and alerts: "take (s_num_alerts snap) (s_alerts snap) = take CAP as" "list_all alert_small as"
  shows "frame_small snap"
proof -
  note r = ren [unfolded rendered_def]
  let ?rows = "rows (ag_ns_per_tick a) (seconds w) NUM_OPS old new"
  have up: "0 \<le> val (s_uptime snap)" "2 * val (s_uptime snap) \<le> 10 ^ 11" using r seconds_small [of u] by simp_all
  have unit: "length (s_unit snap) \<le> 4" using r by simp
  have rows: "rows_in snap ?rows" using r by blast
  have "length ?rows \<le> length [0..<NUM_OPS]" unfolding rows_def length_map by (rule length_filter_le)
  then have ops: "s_num_ops snap \<le> 5" using rows by (simp add: rows_in_def NUM_OPS_def)
  have "length new < 2 ^ 63" using n by simp
  from rows_small [OF ns this] rows have row: "list_all row_small (take (s_num_ops snap) (s_ops snap))"
    unfolding rows_in_def by metis
  have "s_num_alerts snap = length (take (s_num_alerts snap) (s_alerts snap))" using ok by (simp add: snapshot_ok_def)
  also have "\<dots> \<le> 8" unfolding alerts(1) by (simp add: CAP_def)
  finally have al: "s_num_alerts snap \<le> 8" .
  have al2: "list_all alert_small (take (s_num_alerts snap) (s_alerts snap))"
    unfolding alerts(1) by (rule list_all_take [OF alerts(2)])
  have nb: "s_nbids snap \<le> 10" "s_nasks snap \<le> 10" using view(1,3) by (simp_all add: view_ok_def shows_view_def MAX_DEPTH_def)
  have nt: "s_ntape snap \<le> 16" using r by (simp add: MAX_TAPE_def)
  have "take (s_ntape snap) (s_tape snap) = take MAX_TAPE (rev (trades_of (old @ new)))" using r by blast
  moreover have "list_all trade_small (take MAX_TAPE (rev (trades_of (old @ new))))"
    using trades_small [OF ev] by (intro list_all_take) (auto simp: list_all_iff)
  ultimately have tape: "list_all trade_small (take (s_ntape snap) (s_tape snap))" by (simp only:)
  have book: "s_have_book snap \<longrightarrow> book_small snap" using book_part_small [OF ren ev] by blast
  show ?thesis unfolding frame_small_def
    by (intro conjI ok up unit book ops row al al2 nb levels_small [OF view(2,3)] nt tape)
qed

lemma empty_view_ok: "view_ok empty_view" "view_int64 empty_view"
  by (simp_all add: view_ok_def view_int64_def empty_view_def int64_range_def list_all_iff)

text \<open>A rendered frame goes out whole, in one datagram.\<close>

lemma frame_sent_whole:
  assumes rep: "agg_rep a old new" and n: "length (old @ new) < 2 ^ 63"
    and ev: "\<forall>e \<in> set (old @ new). payload_int64 (ev_payload e)" and ns: "val (ag_ns_per_tick a) \<le> 1000"
    and view: "\<forall>p bv. bookpub = Some p \<and> read_view p = Some bv \<longrightarrow> view_ok bv \<and> view_int64 bv"
    and buf: "length buf = 4096" and ok: "u_ok u"
  shows "\<exists>a' snap t. render t_now t_start final drops bookpub a = Some (a', snap) \<and> json_text snap = Some t
    \<and> length t < 4096
    \<and> send sendto buf snap u = Some
        (if sendto (u_fd u) (u_dst u) t = int (length t) then u\<lparr>u_sent := u_sent u + 1\<rparr>
         else u\<lparr>u_errors := u_errors u + 1\<rparr>)"
proof -
  have view1: "\<forall>p bv. bookpub = Some p \<and> read_view p = Some bv \<longrightarrow> view_ok bv" using view by blast
  obtain a' snap where s: "render t_now t_start final drops bookpub a = Some (a', snap)"
    "rendered a snap (seconds (t_now - t_start)) (seconds (t_now - ag_last_render a)) old new" "snapshot_ok snap"
    "shows_view (book_read bookpub) snap"
    "take (s_num_alerts snap) (s_alerts snap) = take CAP (due_alerts snap (ag_alert_cfg a) (ag_last_drops a))"
    using render_works [OF rep n view1, of t_now t_start final drops] unfolding book_read_def by blast
  have "view_ok (book_read bookpub)" "view_int64 (book_read bookpub)"
    using view empty_view_ok by (auto simp: book_read_def split: option.splits)
  from rendered_small [OF s(2,3) n ev ns this s(4,5) due_alerts_small] have small: "frame_small snap" .
  obtain t where t: "json_text snap = Some t" using json_text_defined [OF s(3) rendered_spread [OF s(2) ev]] by blast
  have len: "length t < 4096" by (rule json_fits [OF small t])
  then have "take 4095 t = t" by simp
  then show ?thesis using send_text [OF t buf ok, of sendto] s(1) t len by simp
qed

end
