(* ===== verification/Book_Metrics.thy ===== *)
theory Book_Metrics
  imports Submission Metrics_Recorder
begin

text \<open>
  The order book with a metrics recorder attached (\<^verbatim>\<open>setMetrics\<close> of \<^verbatim>\<open>include/orderbook.hpp\<close>): \<open>addOrder\<close>, \<open>cancelOrder\<close> and
  \<open>modifyOrder\<close> run in a \<open>METRICS_SCOPE\<close>, and so do the calls of them inside the matching engine. The time stamp
  counter is a stream of readings; a scope reads it twice if a recorder is attached.
\<close>

record metered =
  mb_book :: order_book
  mb_rec :: "recorder option"
  mb_ticks :: nat

definition setMetrics :: "recorder option \<Rightarrow> metered \<Rightarrow> metered" where
  "setMetrics r st = st\<lparr>mb_rec := r\<rparr>"

text \<open>\<open>METRICS_SCOPE(metrics_, op)\<close> around the body \<open>f\<close> of an operation.\<close>

definition metrics_scope ::
    "(nat \<Rightarrow> u64) \<Rightarrow> op_type \<Rightarrow> (order_book \<Rightarrow> (order_book \<times> 'a) option) \<Rightarrow> metered \<Rightarrow> (metered \<times> 'a) option" where
  "metrics_scope clock op f st = do {
     let t0 = (if mb_rec st \<noteq> None then clock (mb_ticks st) else 0);
     (b, x) \<leftarrow> f (mb_book st);
     let t1 = clock (mb_ticks st + 1);
     r \<leftarrow> scoped_latency op t0 t1 (mb_rec st);
     Some (\<lparr>mb_book = b, mb_rec = r, mb_ticks = (if r \<noteq> None then mb_ticks st + 2 else mb_ticks st)\<rparr>, x)
   }"

definition m_addOrder :: "(nat \<Rightarrow> u64) \<Rightarrow> metered \<Rightarrow> side \<Rightarrow> price \<Rightarrow> quantity \<Rightarrow> order_id \<Rightarrow> (metered \<times> order_id) option" where
  "m_addOrder clock st s p q i = metrics_scope clock Op_Add (\<lambda>b. addOrder b s p q i) st"

definition m_cancelOrder :: "(nat \<Rightarrow> u64) \<Rightarrow> metered \<Rightarrow> order_id \<Rightarrow> (metered \<times> bool) option" where
  "m_cancelOrder clock st i = metrics_scope clock Op_Cancel (\<lambda>b. cancelOrder b i) st"

definition m_modifyOrder :: "(nat \<Rightarrow> u64) \<Rightarrow> metered \<Rightarrow> order_id \<Rightarrow> quantity \<Rightarrow> (metered \<times> bool) option" where
  "m_modifyOrder clock st i q = metrics_scope clock Op_Modify (\<lambda>b. modifyOrder b i q) st"

section \<open>The matching engine on the metered book\<close>

partial_function (option) m_match_level ::
    "(nat \<Rightarrow> u64) \<Rightarrow> side \<Rightarrow> int \<Rightarrow> price \<Rightarrow> order_id \<Rightarrow> metered \<Rightarrow> quantity \<Rightarrow> trade list
     \<Rightarrow> (metered \<times> quantity \<times> trade list) option" where
  "m_match_level clock s idx p takerId st rem trades =
     (if rem > 0 then do {
        lvl \<leftarrow> vec_get (levels (ladder_of (opp s) (mb_book st))) idx;
        case getHead lvl of
          None \<Rightarrow> Some (st, rem, trades)
        | Some a \<Rightarrow> do {
            x \<leftarrow> load (mem (mb_book st)) a;
            let fill = min rem (o_quantity x);
            let trades = trades @ [\<lparr>t_price = p, t_quantity = fill, t_makerId = o_id x,
                                    t_takerId = takerId, t_takerSide = s\<rparr>];
            let rem = rem - fill;
            if fill = o_quantity x then do {
              (st, _) \<leftarrow> m_cancelOrder clock st (o_id x);
              m_match_level clock s idx p takerId st rem trades
            } else do {
              m \<leftarrow> modify (mem (mb_book st)) a (\<lambda>y. y\<lparr>o_quantity := o_quantity y - fill\<rparr>);
              require (int64_range (- sint fill));
              h \<leftarrow> ladder_adjust (ladder_of (opp s) (mb_book st)) idx (- fill);
              m_match_level clock s idx p takerId
                (st\<lparr>mb_book := set_ladder (opp s) h
                   ((mb_book st)\<lparr>order_pool := (order_pool (mb_book st))\<lparr>slots := m\<rparr>\<rparr>)\<rparr>) rem trades
            }
          }
      } else Some (st, rem, trades))"

partial_function (option) m_match_levels ::
    "(nat \<Rightarrow> u64) \<Rightarrow> side \<Rightarrow> price \<Rightarrow> order_id \<Rightarrow> metered \<Rightarrow> quantity \<Rightarrow> trade list
     \<Rightarrow> (metered \<times> quantity \<times> trade list) option" where
  "m_match_levels clock s limit takerId st rem trades =
     (if rem > 0 \<and> best_idx (ladder_of (opp s) (mb_book st)) \<ge> 0 then do {
        let idx = best_idx (ladder_of (opp s) (mb_book st));
        let p = indexToPrice (mb_book st) idx;
        if better s p limit then Some (st, rem, trades)
        else do {
          (st, rem, trades) \<leftarrow> m_match_level clock s idx p takerId st rem trades;
          m_match_levels clock s limit takerId st rem trades
        }
      } else Some (st, rem, trades))"

definition m_submitLimit ::
    "(nat \<Rightarrow> u64) \<Rightarrow> metered \<Rightarrow> side \<Rightarrow> price \<Rightarrow> quantity \<Rightarrow> order_id \<Rightarrow> (metered \<times> trade list) option" where
  "m_submitLimit clock st s price quantity takerId = do {
     (st, rem, trades) \<leftarrow> m_match_levels clock s price takerId st quantity [];
     if rem > 0 then do {
       (st, _) \<leftarrow> m_addOrder clock st s price rem takerId;
       Some (st, trades)
     } else Some (st, trades)
   }"

definition m_submitMarket ::
    "(nat \<Rightarrow> u64) \<Rightarrow> metered \<Rightarrow> side \<Rightarrow> quantity \<Rightarrow> order_id \<Rightarrow> (metered \<times> trade list) option" where
  "m_submitMarket clock st s quantity takerId = do {
     let limit = (case s of BUY \<Rightarrow> int64_max | SELL \<Rightarrow> int64_min);
     (st, rem, trades) \<leftarrow> m_match_levels clock s limit takerId st quantity [];
     Some (st, trades)
   }"

section \<open>What is recorded\<close>

fun call_op :: "recording \<Rightarrow> op_type option" where
  "call_op (Rec_Latency op ticks now) = Some op"
| "call_op c = None"

definition recorder_ok :: "recorder option \<Rightarrow> bool" where
  "recorder_ok r \<longleftrightarrow> (\<forall>x. r = Some x \<longrightarrow> ring_inv ring_cap (rec_ring x))"

text \<open>Between two states latencies of exactly the operations \<open>ops\<close> were recorded, in order.\<close>

definition meters :: "recorder option \<Rightarrow> recorder option \<Rightarrow> op_type list \<Rightarrow> bool" where
  "meters r r' ops \<longleftrightarrow> (case r of
      None \<Rightarrow> r' = None
    | Some x \<Rightarrow> (\<exists>cs x'. r' = Some x' \<and> record_calls cs x = Some x' \<and> map call_op cs = map Some ops))"

lemma meters_refl: "meters r r []"
  by (auto simp: meters_def split: option.split intro: exI [of _ "[]"])

lemma meters_trans: "meters r1 r2 xs \<Longrightarrow> meters r2 r3 ys \<Longrightarrow> meters r1 r3 (xs @ ys)"
proof (cases r1)
  case (Some x)
  assume a: "meters r1 r2 xs" "meters r2 r3 ys"
  then obtain cs x2 where cs: "r2 = Some x2" "record_calls cs x = Some x2" "map call_op cs = map Some xs"
    using Some by (auto simp: meters_def)
  then obtain ds x3 where ds: "r3 = Some x3" "record_calls ds x2 = Some x3" "map call_op ds = map Some ys"
    using a(2) by (auto simp: meters_def)
  then show ?thesis using Some cs by (auto simp: meters_def record_calls_append intro!: exI [of _ "cs @ ds"])
qed (simp add: meters_def)

lemma metrics_scope_works:
  assumes f: "f (mb_book st) = Some (b, x)" and ok: "recorder_ok (mb_rec st)"
  shows "\<exists>st'. metrics_scope clock op f st = Some (st', x) \<and> mb_book st' = b \<and> recorder_ok (mb_rec st')
    \<and> meters (mb_rec st) (mb_rec st') [op]"
proof (cases "mb_rec st")
  case None
  then show ?thesis using f by (simp add: metrics_scope_def scoped_latency_def recorder_ok_def meters_def)
next
  case (Some r)
  define ticks where "ticks = (ucast (clock (mb_ticks st + 1) - clock (mb_ticks st)) :: u32)"
  obtain r' where r': "recordLatency op ticks (clock (mb_ticks st + 1)) r = Some r'" "ring_inv ring_cap (rec_ring r')"
    using record_call_works [of r "Rec_Latency op ticks (clock (mb_ticks st + 1))"] ok Some by (auto simp: recorder_ok_def)
  have "record_calls [Rec_Latency op ticks (clock (mb_ticks st + 1))] r = Some r'" using r'(1) by simp
  then have "meters (mb_rec st) (Some r') [op]" using Some unfolding meters_def
    by (auto intro!: exI [of _ "[Rec_Latency op ticks (clock (mb_ticks st + 1))]"])
  then show ?thesis using f Some r' by (simp add: metrics_scope_def scoped_latency_def recorder_ok_def ticks_def Let_def)
qed

section \<open>The metered engine does what the engine does\<close>

text \<open>
  From \<open>st\<close> to \<open>st'\<close> one cancellation was recorded for each new trade, except that the last trade has none
  if its maker kept some quantity; then nothing is left to trade.
\<close>

definition cancels :: "metered \<Rightarrow> metered \<Rightarrow> quantity \<Rightarrow> trade list \<Rightarrow> trade list \<Rightarrow> bool" where
  "cancels st st' rem trs trs' \<longleftrightarrow> recorder_ok (mb_rec st')
     \<and> (\<exists>n new. trs' = trs @ new \<and> meters (mb_rec st) (mb_rec st') (replicate n Op_Cancel)
          \<and> (n = length new \<or> Suc n = length new \<and> rem = 0))"

lemma cancels_refl: "recorder_ok (mb_rec st) \<Longrightarrow> cancels st st rem trs trs"
  unfolding cancels_def using meters_refl by (auto intro!: exI [of _ 0] exI [of _ "[]"])

lemma cancels_whole:
  assumes "meters (mb_rec st) (mb_rec st1) [Op_Cancel]" "cancels st1 st' rem (trs @ [tr]) trs'"
  shows "cancels st st' rem trs trs'"
proof -
  obtain n new where n: "trs' = (trs @ [tr]) @ new" "meters (mb_rec st1) (mb_rec st') (replicate n Op_Cancel)"
    "n = length new \<or> Suc n = length new \<and> rem = 0" "recorder_ok (mb_rec st')"
    using assms(2) unfolding cancels_def by blast
  have "meters (mb_rec st) (mb_rec st') (replicate (Suc n) Op_Cancel)" using meters_trans [OF assms(1) n(2)] by simp
  then show ?thesis unfolding cancels_def using n by (intro conjI exI [of _ "Suc n"] exI [of _ "tr # new"]) auto
qed

lemma cancels_part:
  assumes "recorder_ok (mb_rec st)" "mb_rec st1 = mb_rec st"
  shows "cancels st st1 0 trs (trs @ [tr])"
  unfolding cancels_def using assms meters_refl [of "mb_rec st"] by (intro conjI exI [of _ 0] exI [of _ "[tr]"]) simp_all

lemma cancels_trans:
  assumes "cancels st st1 rem1 trs trs1" "cancels st1 st2 rem2 trs1 trs2" "rem1 = 0 \<Longrightarrow> trs2 = trs1 \<and> rem2 = 0"
  shows "cancels st st2 rem2 trs trs2"
proof -
  obtain n new where n: "trs1 = trs @ new" "meters (mb_rec st) (mb_rec st1) (replicate n Op_Cancel)"
    "n = length new \<or> Suc n = length new \<and> rem1 = 0" using assms(1) unfolding cancels_def by blast
  obtain k more where k: "trs2 = trs1 @ more" "meters (mb_rec st1) (mb_rec st2) (replicate k Op_Cancel)"
    "k = length more \<or> Suc k = length more \<and> rem2 = 0" "recorder_ok (mb_rec st2)"
    using assms(2) unfolding cancels_def by blast
  have "meters (mb_rec st) (mb_rec st2) (replicate (n + k) Op_Cancel)"
    using meters_trans [OF n(2) k(2)] by (simp add: replicate_add)
  moreover have "n + k = length (new @ more) \<or> Suc (n + k) = length (new @ more) \<and> rem2 = 0"
    using n(1,3) k(1,3) assms(3) by auto
  ultimately show ?thesis unfolding cancels_def using n(1) k(1,4)
    by (intro conjI exI [of _ "n + k"] exI [of _ "new @ more"]) simp_all
qed

lemma min_part: "min r q \<noteq> (q :: u64) \<Longrightarrow> r - min r q = 0"
  by (simp add: min_def split: if_splits)

lemma match_level_zero: "match_level s idx p t b 0 trs = Some (b, 0, trs)"
  by (subst match_level.simps) simp

lemma m_match_level_zero: "m_match_level clock s idx p t st 0 trs = Some (st, 0, trs)"
  by (subst m_match_level.simps) simp

text \<open>\<open>y\<close> is the result of the plain loop from \<open>b\<close>.\<close>

definition simulates ::
    "(metered \<Rightarrow> (metered \<times> quantity \<times> trade list) option) \<Rightarrow> order_book \<Rightarrow> trade list
     \<Rightarrow> order_book \<times> quantity \<times> trade list \<Rightarrow> bool" where
  "simulates run b trs y \<longleftrightarrow> (\<forall>st. mb_book st = b \<longrightarrow> recorder_ok (mb_rec st) \<longrightarrow>
     (\<exists>st'. run st = Some (st', snd y) \<and> mb_book st' = fst y \<and> cancels st st' (fst (snd y)) trs (snd (snd y))))"

lemma simulates_done: "(\<And>st. mb_book st = b \<Longrightarrow> run st = Some (st, rem, trs)) \<Longrightarrow> simulates run b trs (b, rem, trs)"
  unfolding simulates_def using cancels_refl by auto

lemma simulatesD:
  assumes "simulates run (mb_book st) trs y" "recorder_ok (mb_rec st)"
  obtains st' where "run st = Some (st', snd y)" "mb_book st' = fst y" "cancels st st' (fst (snd y)) trs (snd (snd y))"
  using assms unfolding simulates_def by blast

lemma simulates_whole:
  assumes c: "cancelOrder b i = Some (b1, ok)" and y: "simulates run b1 (trs @ [tr]) y"
    and run: "\<And>st st1 :: metered. mb_book st = b \<Longrightarrow> m_cancelOrder clock st i = Some (st1, ok) \<Longrightarrow> run0 st = run st1"
  shows "simulates run0 b trs y"
  unfolding simulates_def
proof (intro allI impI)
  fix st :: metered assume st: "mb_book st = b" "recorder_ok (mb_rec st)"
  then obtain st1 where st1: "m_cancelOrder clock st i = Some (st1, ok)" "mb_book st1 = b1" "recorder_ok (mb_rec st1)"
    "meters (mb_rec st) (mb_rec st1) [Op_Cancel]"
    using metrics_scope_works [of "\<lambda>b. cancelOrder b i" st b1 ok clock Op_Cancel] c by (auto simp: m_cancelOrder_def)
  obtain st' where st': "run st1 = Some (st', snd y)" "mb_book st' = fst y"
    "cancels st1 st' (fst (snd y)) (trs @ [tr]) (snd (snd y))"
    by (rule simulatesD [of run st1 "trs @ [tr]" y]) (use y st1 in simp_all)
  show "\<exists>st'. run0 st = Some (st', snd y) \<and> mb_book st' = fst y \<and> cancels st st' (fst (snd y)) trs (snd (snd y))"
    using st'(1,2) cancels_whole [OF st1(4) st'(3)] run [OF st(1) st1(1)] by auto
qed

lemma simulates_part:
  assumes "\<And>st. mb_book st = b \<Longrightarrow> run0 st = Some (st\<lparr>mb_book := b1\<rparr>, 0, trs @ [tr])"
  shows "simulates run0 b trs (b1, 0, trs @ [tr])"
  unfolding simulates_def using assms cancels_part by auto

lemma simulates_zero:
  assumes "simulates run b trs y" "\<And>st. run st = Some (st, 0, trs)"
  shows "y = (b, 0, trs)"
proof -
  let ?st = "\<lparr>mb_book = b, mb_rec = None, mb_ticks = 0\<rparr>"
  obtain st' where "run ?st = Some (st', snd y)" "mb_book st' = fst y"
    by (rule simulatesD [of run ?st trs y]) (use assms(1) in \<open>simp_all add: recorder_ok_def\<close>)
  then show ?thesis by (cases y) (auto simp: assms(2))
qed

lemma m_match_level_sim:
  "match_level s idx p t b rem trs = Some y \<Longrightarrow> simulates (\<lambda>st. m_match_level clock s idx p t st rem trs) b trs y"
proof (erule match_level.raw_induct [rotated])
  fix level s idx p t b rem trs y
  assume ih: "\<And>s idx p t b rem trs y. level s idx p t b rem trs = Some y \<Longrightarrow>
      simulates (\<lambda>st. m_match_level clock s idx p t st rem trs) b trs y"
  assume body: "(if 0 < rem
      then vec_get (levels (ladder_of (opp s) b)) idx \<bind>
           (\<lambda>lvl. case getHead lvl of None \<Rightarrow> Some (b, rem, trs)
                  | Some a \<Rightarrow> load (mem b) a \<bind>
                      (\<lambda>x. let fill = min rem (o_quantity x);
                               trs = trs @ [\<lparr>t_price = p, t_quantity = fill, t_makerId = o_id x, t_takerId = t, t_takerSide = s\<rparr>];
                               rem = rem - fill
                           in if fill = o_quantity x
                              then cancelOrder b (o_id x) \<bind> (\<lambda>(b, _). level s idx p t b rem trs)
                              else modify (mem b) a (\<lambda>y. y\<lparr>o_quantity := o_quantity y - fill\<rparr>) \<bind>
                                   (\<lambda>m. require (int64_range (- sint fill)) \<bind>
                                     (\<lambda>_. ladder_adjust (ladder_of (opp s) b) idx (- fill) \<bind>
                                        (\<lambda>h. level s idx p t
                                          (set_ladder (opp s) h (b\<lparr>order_pool := order_pool b\<lparr>slots := m\<rparr>\<rparr>)) rem trs)))))
      else Some (b, rem, trs)) = Some y"
  show "simulates (\<lambda>st. m_match_level clock s idx p t st rem trs) b trs y"
  proof (cases "rem > 0")
    case False
    then have "y = (b, rem, trs)" using body by simp
    then show ?thesis using False by (auto intro!: simulates_done simp: m_match_level.simps [of clock])
  next
    case rem: True
    then obtain lvl where lvl: "vec_get (levels (ladder_of (opp s) b)) idx = Some lvl" using body by auto
    show ?thesis
    proof (cases "getHead lvl")
      case None
      then have "y = (b, rem, trs)" using body rem lvl by simp
      then show ?thesis using None lvl rem by (auto intro!: simulates_done simp: m_match_level.simps [of clock])
    next
      case (Some a)
      then obtain x where x: "load (mem b) a = Some x" using body rem lvl by auto
      let ?f = "min rem (o_quantity x)"
      let ?tr = "\<lparr>t_price = p, t_quantity = ?f, t_makerId = o_id x, t_takerId = t, t_takerSide = s\<rparr>"
      show ?thesis
      proof (cases "?f = o_quantity x")
        case True
        then obtain b1 ok where c: "cancelOrder b (o_id x) = Some (b1, ok)" and
          l: "level s idx p t b1 (rem - ?f) (trs @ [?tr]) = Some y" using body rem lvl Some x by (auto simp: Let_def)
        show ?thesis
          by (rule simulates_whole [where clock = clock, OF c ih [OF l]], subst m_match_level.simps)
            (use rem lvl Some x True in \<open>simp add: Let_def\<close>)
      next
        case False
        let ?m = "\<lambda>m. b\<lparr>order_pool := order_pool b\<lparr>slots := m\<rparr>\<rparr>"
        from False obtain m h where m: "modify (mem b) a (\<lambda>y. y\<lparr>o_quantity := o_quantity y - ?f\<rparr>) = Some m"
          "int64_range (- sint ?f)" "ladder_adjust (ladder_of (opp s) b) idx (- ?f) = Some h" and
          l: "level s idx p t (set_ladder (opp s) h (?m m)) (rem - ?f) (trs @ [?tr]) = Some y"
          using body rem lvl Some x by (auto simp: Let_def)
        note z = min_part [OF False]
        have y: "y = (set_ladder (opp s) h (?m m), 0, trs @ [?tr])" using ih [OF l] unfolding z
          by (rule simulates_zero) (rule m_match_level_zero)
        show ?thesis unfolding y
          by (rule simulates_part, subst m_match_level.simps)
            (use rem lvl Some x False m z in \<open>simp add: Let_def m_match_level_zero\<close>)
      qed
    qed
  qed
qed

lemma m_match_levels_zero: "m_match_levels clock s limit t st 0 trs = Some (st, 0, trs)"
  by (subst m_match_levels.simps) simp

lemma simulates_then:
  assumes inner: "simulates run1 b trs (b1, rem1, trs1)" and outer: "simulates run2 b1 trs1 y"
    and zero: "rem1 = 0 \<Longrightarrow> y = (b1, 0, trs1)"
    and run: "\<And>st st1. mb_book st = b \<Longrightarrow> run1 st = Some (st1, rem1, trs1) \<Longrightarrow> run0 st = run2 st1"
  shows "simulates run0 b trs y"
  unfolding simulates_def
proof (intro allI impI)
  fix st :: metered assume st: "mb_book st = b" "recorder_ok (mb_rec st)"
  obtain st1 where st1: "run1 st = Some (st1, rem1, trs1)" "mb_book st1 = b1" "cancels st st1 rem1 trs trs1"
    by (rule simulatesD [of run1 st trs "(b1, rem1, trs1)"]) (use inner st in simp_all)
  have ok: "recorder_ok (mb_rec st1)" using st1(3) by (simp add: cancels_def)
  obtain st' where st': "run2 st1 = Some (st', snd y)" "mb_book st' = fst y" "cancels st1 st' (fst (snd y)) trs1 (snd (snd y))"
    by (rule simulatesD [of run2 st1 trs1 y]) (use outer st1 ok in simp_all)
  have "cancels st st' (fst (snd y)) trs (snd (snd y))"
    using zero by (intro cancels_trans [OF st1(3) st'(3)]) simp
  then show "\<exists>st'. run0 st = Some (st', snd y) \<and> mb_book st' = fst y \<and> cancels st st' (fst (snd y)) trs (snd (snd y))"
    using run [OF st(1) st1(1)] st' by auto
qed

lemma m_match_levels_sim:
  "match_levels s limit t b rem trs = Some y \<Longrightarrow> simulates (\<lambda>st. m_match_levels clock s limit t st rem trs) b trs y"
proof (erule match_levels.raw_induct [rotated])
  fix levels s limit t b rem trs y
  assume ih: "\<And>s limit t b rem trs y. levels s limit t b rem trs = Some y \<Longrightarrow>
      simulates (\<lambda>st. m_match_levels clock s limit t st rem trs) b trs y"
  assume body: "(if 0 < rem \<and> 0 \<le> best_idx (ladder_of (opp s) b)
      then let idx = best_idx (ladder_of (opp s) b); p = indexToPrice b idx
           in if better s p limit then Some (b, rem, trs)
              else match_level s idx p t b rem trs \<bind> (\<lambda>(b, rem, trs). levels s limit t b rem trs)
      else Some (b, rem, trs)) = Some y"
  let ?idx = "best_idx (ladder_of (opp s) b)"
  let ?p = "indexToPrice b ?idx"
  show "simulates (\<lambda>st. m_match_levels clock s limit t st rem trs) b trs y"
  proof (cases "0 < rem \<and> 0 \<le> ?idx \<and> \<not> better s ?p limit")
    case False
    then have "y = (b, rem, trs)" using body by (auto simp: Let_def split: if_splits)
    then show ?thesis using False by (auto intro!: simulates_done simp: m_match_levels.simps [of clock] Let_def)
  next
    case True
    then obtain b1 rem1 trs1 where l: "match_level s ?idx ?p t b rem trs = Some (b1, rem1, trs1)"
      "levels s limit t b1 rem1 trs1 = Some y" using body by (auto simp: Let_def)
    note outer = ih [OF l(2)]
    have zero: "rem1 = 0 \<Longrightarrow> y = (b1, 0, trs1)"
      using simulates_zero [OF outer] m_match_levels_zero by simp
    show ?thesis
      by (rule simulates_then [OF m_match_level_sim [OF l(1), of clock] outer zero], assumption, subst m_match_levels.simps)
        (use True in \<open>simp add: Let_def\<close>)
  qed
qed

text \<open>
  Attaching a recorder changes neither book nor trades, and the submission records one cancellation for each
  maker filled whole and one add for a remainder.
\<close>

lemma m_submitLimit_works:
  assumes wf: "book_wf (mb_book st)" and q: "unat q < 2 ^ 63" and fresh: "\<not> resting (mb_book st) t"
    and ok: "recorder_ok (mb_rec st)"
  shows "\<exists>st' trs n. submitLimit (mb_book st) s p q t = Some (mb_book st', trs)
    \<and> m_submitLimit clock st s p q t = Some (st', trs) \<and> recorder_ok (mb_rec st')
    \<and> meters (mb_rec st) (mb_rec st') (replicate n Op_Cancel @ (if traded_qty trs < unat q then [Op_Add] else []))
    \<and> (n = length trs \<or> Suc n = length trs \<and> traded_qty trs = unat q)"
proof -
  obtain Q where rep: "book_rep (mb_book st) Q" using wf by (auto simp: book_wf_def)
  obtain b1 rem trs where m: "match_order (mb_book st) s p q t [] = Some (b1, rem, [] @ trs)" "rem \<le> q"
    "fill_entries s (\<lambda>p'. \<not> better s p' p) t q (view (mb_book st) (opp s)) = (view b1 (opp s), rem, trs)"
    by (rule match_order_view [OF rep q])
  have cons: "unat q = unat rem + traded_qty trs" using fill_entries_conserves [OF m(3)] by simp
  have lv: "match_levels s p t (mb_book st) q [] = Some (b1, rem, trs)" using m(1) by (simp add: match_order_def)
  obtain st1 where st1: "m_match_levels clock s p t st q [] = Some (st1, rem, trs)" "mb_book st1 = b1"
    "cancels st st1 rem [] trs"
    by (rule simulatesD [OF m_match_levels_sim [OF lv, of clock] ok]) simp
  obtain n where n: "meters (mb_rec st) (mb_rec st1) (replicate n Op_Cancel)" "recorder_ok (mb_rec st1)"
    "n = length trs \<or> Suc n = length trs \<and> rem = 0" using st1(3) by (auto simp: cancels_def)
  have n3: "n = length trs \<or> Suc n = length trs \<and> traded_qty trs = unat q" using n(3) cons by auto
  obtain b' where b': "submitLimit (mb_book st) s p q t = Some (b', trs)"
  proof -
    obtain b' rem' trs' where "submitLimit (mb_book st) s p q t = Some (b', trs')"
      "fill_entries s (\<lambda>p'. \<not> better s p' p) t q (view (mb_book st) (opp s)) = (view b' (opp s), rem', trs')"
      by (rule submitLimit_view [OF rep q fresh])
    then show thesis using m(3) that by simp
  qed
  show ?thesis
  proof (cases "rem > 0")
    case True
    then obtain i where add: "addOrder b1 s p rem t = Some (b', i)" using b' m(1) by (auto simp: submitLimit_def)
    obtain st' where st': "m_addOrder clock st1 s p rem t = Some (st', i)" "mb_book st' = b'" "recorder_ok (mb_rec st')"
      "meters (mb_rec st1) (mb_rec st') [Op_Add]"
      using metrics_scope_works [of "\<lambda>b. addOrder b s p rem t" st1 b' i clock Op_Add] add st1(2) n(2)
      by (auto simp: m_addOrder_def)
    have "0 < unat rem" using True by (simp add: word_less_nat_alt)
    then have "traded_qty trs < unat q" using cons by simp
    then show ?thesis using b' st1(1) st' True meters_trans [OF n(1) st'(4)] n3
      by (intro exI [of _ st'] exI [of _ trs] exI [of _ n]) (simp add: m_submitLimit_def)
  next
    case False
    then have "rem = 0" by (simp add: word_gt_0)
    then show ?thesis using b' st1 n(1,2) n3 m(1) cons
      by (intro exI [of _ st1] exI [of _ trs] exI [of _ n]) (simp add: m_submitLimit_def submitLimit_def)
  qed
qed

text \<open>A market submission records its cancellations and nothing else.\<close>

lemma m_submitMarket_works:
  assumes m: "submitMarket (mb_book st) s q t = Some (b', trs)" and ok: "recorder_ok (mb_rec st)"
  shows "\<exists>st' n. m_submitMarket clock st s q t = Some (st', trs) \<and> mb_book st' = b' \<and> recorder_ok (mb_rec st')
    \<and> meters (mb_rec st) (mb_rec st') (replicate n Op_Cancel) \<and> n \<le> length trs"
proof -
  let ?limit = "case s of BUY \<Rightarrow> int64_max | SELL \<Rightarrow> int64_min"
  obtain rem where lv: "match_levels s ?limit t (mb_book st) q [] = Some (b', rem, trs)"
    using m by (auto simp: submitMarket_def match_order_def Let_def)
  obtain st1 where st1: "m_match_levels clock s ?limit t st q [] = Some (st1, rem, trs)" "mb_book st1 = b'"
    "cancels st st1 rem [] trs"
    by (rule simulatesD [OF m_match_levels_sim [OF lv, of clock] ok]) simp
  obtain n where "meters (mb_rec st) (mb_rec st1) (replicate n Op_Cancel)" "recorder_ok (mb_rec st1)" "n \<le> length trs"
    using st1(3) by (auto simp: cancels_def)
  then show ?thesis using st1(1,2) by (intro exI [of _ st1] exI [of _ n]) (simp add: m_submitMarket_def Let_def)
qed

end
