(* ===== verification/Tsc_Clock.thy ===== *)
theory Tsc_Clock
  imports Ieee_Double Order_Types
begin

text \<open>
  The timing helpers of \<^verbatim>\<open>include/rdtsc_timer.hpp\<close>. The readings of \<open>clock_gettime\<close> and of the time stamp
  counter are arguments: a stream of clock readings, and the counter readings each function takes.
\<close>

record timespec =
  tv_sec :: int
  tv_nsec :: int

text \<open>Nanoseconds between two samples; the subtractions are signed, the rest is modulo \<open>2 ^ 64\<close>.\<close>

definition nsBetween :: "timespec \<Rightarrow> timespec \<Rightarrow> u64 option" where
  "nsBetween a b = do {
     require (int64_range (tv_sec b - tv_sec a));
     require (int64_range (tv_nsec b - tv_nsec a));
     Some (of_int (tv_sec b - tv_sec a) * 1000000000 + of_int (tv_nsec b - tv_nsec a))
   }"

definition ticksToNs :: "u64 \<Rightarrow> u64 \<Rightarrow> double" where
  "ticksToNs hz ticks = d_div (d_mult (d_of_int (uint ticks)) (d_of_int 1000000000)) (d_of_int (uint hz))"

text \<open>The busy-wait: the position of the first reading, from \<open>n\<close> on, at least 200 ms after \<open>t0\<close>.\<close>

partial_function (option) busy_wait :: "(nat \<Rightarrow> timespec) \<Rightarrow> timespec \<Rightarrow> nat \<Rightarrow> nat option" where
  "busy_wait clk t0 n = do {
     d \<leftarrow> nsBetween t0 (clk n);
     if d < 200000000 then busy_wait clk t0 (n + 1) else Some n
   }"

definition calibrate :: "(nat \<Rightarrow> timespec) \<Rightarrow> u64 \<Rightarrow> u64 \<Rightarrow> u64 option" where
  "calibrate clk c0 c1 = do {
     let t0 = clk 0;
     n \<leftarrow> busy_wait clk t0 1;
     let t1 = clk (n + 1);
     d \<leftarrow> nsBetween t0 t1;
     let secs = d_div (d_of_int (uint d)) (d_of_int 1000000000);
     int_to_u64 (d_floor (d_div (d_of_int (uint (c1 - c0))) secs))
   }"

text \<open>A reading of the monotonic clock as the programs and the aggregator take it.\<close>

definition nowNs :: "timespec \<Rightarrow> u64" where
  "nowNs ts = of_int (tv_sec ts) * 1000000000 + of_int (tv_nsec ts)"

text \<open>
  The constructor of \<open>TscClock\<close>, with the readings it takes. A counter that stands still gives the rate zero, for which
  the conversions divide by zero.
\<close>

record calibration =
  ca_clk :: "nat \<Rightarrow> timespec"
  ca_start :: u64
  ca_end :: u64

definition mk_clock :: "calibration \<Rightarrow> u64 option" where
  "mk_clock c = do { hz \<leftarrow> calibrate (ca_clk c) (ca_start c) (ca_end c); require (hz \<noteq> 0); Some hz }"

text \<open>The back-to-back pairs of readings, one for each iteration.\<close>

primrec least_overhead :: "(u64 \<times> u64) list \<Rightarrow> u64 \<Rightarrow> u64" where
  "least_overhead [] best = best"
| "least_overhead (x # xs) best =
     (let d = snd x - fst x in least_overhead xs (if d < best then d else best))"

definition measureTimerOverhead :: "(u64 \<times> u64) list \<Rightarrow> u64" where
  "measureTimerOverhead readings =
     (let best = least_overhead readings (- 1) in if best = - 1 then 0 else best)"

definition percentile :: "u64 list \<Rightarrow> double \<Rightarrow> u64 option" where
  "percentile xs p =
     (if xs = [] then Some 0
      else do {
        idx \<leftarrow> int_to_u64 (d_floor (d_mult (d_of_int (int (length xs))) p));
        let i = (if unat idx \<ge> length xs then length xs - 1 else unat idx);
        vec_get xs (int i)
      })"

section \<open>What they return\<close>

text \<open>A sample of the monotonic clock, and its value in nanoseconds; \<open>2 ^ 33\<close> seconds are 272 years.\<close>

definition clock_ok :: "timespec \<Rightarrow> bool" where
  "clock_ok t \<longleftrightarrow> 0 \<le> tv_sec t \<and> tv_sec t < 2 ^ 33 \<and> 0 \<le> tv_nsec t \<and> tv_nsec t < 1000000000"

definition clock_ns :: "timespec \<Rightarrow> int" where
  "clock_ns t = tv_sec t * 1000000000 + tv_nsec t"

text \<open>The nanosecond part may be smaller in the later sample: the difference wraps and the sum is right.\<close>

lemma nsBetween_exact:
  assumes a: "clock_ok a" and b: "clock_ok b" and le: "clock_ns a \<le> clock_ns b"
  shows "\<exists>d. nsBetween a b = Some d \<and> uint d = clock_ns b - clock_ns a"
proof -
  let ?d = "of_int (tv_sec b - tv_sec a) * 1000000000 + of_int (tv_nsec b - tv_nsec a) :: u64"
  have r: "int64_range (tv_sec b - tv_sec a)" "int64_range (tv_nsec b - tv_nsec a)"
    using a b by (auto simp: clock_ok_def int64_range_def)
  have "?d = of_int (clock_ns b - clock_ns a)" by (simp add: clock_ns_def algebra_simps)
  moreover have "clock_ns b - clock_ns a < 2 ^ 64" using a b by (auto simp: clock_ok_def clock_ns_def)
  then have "uint (of_int (clock_ns b - clock_ns a) :: u64) = clock_ns b - clock_ns a"
    using le by (intro word_of_int_inverse [OF refl]) simp_all
  ultimately have "uint ?d = clock_ns b - clock_ns a" by (simp only:)
  then show ?thesis using r by (simp add: nsBetween_def)
qed

lemma nowNs_exact: "clock_ok t \<Longrightarrow> uint (nowNs t) = clock_ns t"
proof -
  assume t: "clock_ok t"
  have "nowNs t = of_int (clock_ns t)" by (simp add: nowNs_def clock_ns_def)
  moreover have "0 \<le> clock_ns t" "clock_ns t < 2 ^ 64" using t by (auto simp: clock_ok_def clock_ns_def)
  then have "uint (of_int (clock_ns t) :: u64) = clock_ns t" by (intro word_of_int_inverse [OF refl]) simp_all
  ultimately show ?thesis by (simp only:)
qed

text \<open>The busy-wait ends at the first late enough reading.\<close>

lemma busy_wait_ends:
  assumes ok: "\<And>i. clock_ok (clk i)" "\<And>i. clock_ns (clk 0) \<le> clock_ns (clk i)"
    and late: "clock_ns (clk (n + k)) - clock_ns (clk 0) \<ge> 200000000"
  shows "\<exists>m\<le>n + k. n \<le> m \<and> busy_wait clk (clk 0) n = Some m \<and> clock_ns (clk m) - clock_ns (clk 0) \<ge> 200000000"
  using late
proof (induction k arbitrary: n)
  case (Suc k)
  obtain d where d: "nsBetween (clk 0) (clk n) = Some d" "uint d = clock_ns (clk n) - clock_ns (clk 0)"
    using nsBetween_exact [OF ok(1) ok(1) ok(2)] by blast
  show ?case
  proof (cases "d < 200000000")
    case True
    have "clock_ns (clk (Suc n + k)) - clock_ns (clk 0) \<ge> 200000000" using Suc.prems by simp
    from Suc.IH [OF this] obtain m where "m \<le> Suc n + k" "Suc n \<le> m" "busy_wait clk (clk 0) (Suc n) = Some m"
      "clock_ns (clk m) - clock_ns (clk 0) \<ge> 200000000" by blast
    then show ?thesis using d(1) True by (intro exI [of _ m]) (subst busy_wait.simps, simp)
  next
    case False
    then have "200000000 \<le> uint d" by (simp add: word_less_def)
    then show ?thesis using d False by (intro exI [of _ n]) (subst busy_wait.simps, simp)
  qed
next
  case 0
  obtain d where d: "nsBetween (clk 0) (clk n) = Some d" "uint d = clock_ns (clk n) - clock_ns (clk 0)"
    using nsBetween_exact [OF ok(1) ok(1) ok(2)] by blast
  then have "\<not> d < 200000000" using 0 by (simp add: word_less_def)
  then show ?case using d 0 by (intro exI [of _ n]) (subst busy_wait.simps, simp)
qed

text \<open>
  The calibration returns once the clock moves on: with fewer than \<open>2 ^ 60\<close> ticks the quotient is in range of the
  conversion.
\<close>

lemma calibrate_returns:
  assumes ok: "\<And>i. clock_ok (clk i)" "\<And>i j. i \<le> j \<Longrightarrow> clock_ns (clk i) \<le> clock_ns (clk j)"
    and late: "clock_ns (clk (1 + k)) - clock_ns (clk 0) \<ge> 200000000" and ticks: "uint (c1 - c0) < 2 ^ 60"
  shows "\<exists>m hz. busy_wait clk (clk 0) 1 = Some m \<and> m \<le> 1 + k \<and> calibrate clk c0 c1 = Some hz"
proof -
  have from0: "clock_ns (clk 0) \<le> clock_ns (clk i)" for i by (rule ok(2)) simp
  obtain m where m: "m \<le> 1 + k" "busy_wait clk (clk 0) 1 = Some m" "clock_ns (clk m) - clock_ns (clk 0) \<ge> 200000000"
    using busy_wait_ends [OF ok(1) from0 late] by blast
  obtain d where d: "nsBetween (clk 0) (clk (m + 1)) = Some d" "uint d = clock_ns (clk (m + 1)) - clock_ns (clk 0)"
    using nsBetween_exact [OF ok(1) ok(1) from0] by blast
  have "200000000 \<le> uint d" using d(2) m(3) ok(2) [of m "m + 1"] by simp
  then have "(of_int 200000000 :: rat) \<le> of_int (uint d)" by (simp only: of_int_le_iff)
  then have dv: "180000000 \<le> val (d_of_int (uint d))" using d_of_int_between [of "uint d"] by simp
  have g: "val (d_of_int 1000000000) = 1000000000" by (simp add: val_d_of_int)
  let ?secs = "d_div (d_of_int (uint d)) (d_of_int 1000000000)"
  have secs: "81 / 500 \<le> val ?secs" using d_div_between [of "d_of_int (uint d)" "d_of_int 1000000000"] dv g by simp
  let ?t = "d_of_int (uint (c1 - c0))"
  have "(of_int (uint (c1 - c0)) :: rat) < of_int (2 ^ 60)" using ticks by (simp only: of_int_less_iff)
  then have t: "0 \<le> val ?t" "val ?t \<le> 11 / 10 * 2 ^ 60"
    using round_frac_between [of "uint (c1 - c0)" 1] by (simp_all add: d_of_int_def)
  have "val ?t / val ?secs \<le> (11 / 10 * 2 ^ 60) / (81 / 500)" using t secs by (intro frac_le) simp_all
  moreover have "0 \<le> val ?t / val ?secs" using t(1) secs by simp
  ultimately have q: "0 \<le> val (d_div ?t ?secs)" "val (d_div ?t ?secs) < of_int (2 ^ 64)"
    using d_div_between [OF t(1), of ?secs] secs by simp_all
  then have "\<lfloor>val (d_div ?t ?secs)\<rfloor> < 2 ^ 64" by (simp only: floor_less_iff)
  then have "\<exists>hz. int_to_u64 (d_floor (d_div ?t ?secs)) = Some hz" using q(1) by (auto simp: int_to_u64_def d_floor_val)
  then show ?thesis using m(1,2) d(1) by (simp add: calibrate_def Let_def)
qed

text \<open>The timer overhead is the least of the measured differences.\<close>

lemma foldr_min_pull: "foldr min ys (min a b) = min a (foldr min ys (b::u64))"
  by (induction ys) (simp_all add: min.left_commute)

lemma least_overhead_min: "least_overhead xs best = foldr min (map (\<lambda>x. snd x - fst x) xs) best"
proof (induction xs arbitrary: best)
  case (Cons x xs)
  have "least_overhead (x # xs) best = least_overhead xs (min (snd x - fst x) best)" by (auto simp: Let_def min_def)
  then show ?case unfolding Cons foldr_min_pull by simp
qed simp

text \<open>A percentile of a non-empty list is one of its elements.\<close>

lemma percentile_element:
  assumes "xs \<noteq> []" "length xs < 2 ^ 53" "0 \<le> val p" "val p \<le> 1"
  shows "\<exists>x \<in> set xs. percentile xs p = Some x"
proof -
  let ?n = "d_of_int (int (length xs))"
  have n: "val ?n = of_nat (length xs)" using assms(2) val_d_of_int [of "int (length xs)"] by simp
  have v: "0 \<le> val (d_mult ?n p)" "val (d_mult ?n p) \<le> 11 / 10 * (of_nat (length xs) * val p)"
    using d_mult_between [of ?n p] assms(3) n by simp_all
  have "(of_nat (length xs) :: rat) * val p \<le> of_nat (length xs) * 1" using assms(4) by (intro mult_left_mono) simp_all
  moreover have "(of_nat (length xs) :: rat) < of_nat (2 ^ 53)" using assms(2) by (simp only: of_nat_less_iff)
  ultimately have "val (d_mult ?n p) < of_int (2 ^ 64)" using v(2) by simp
  then have "\<lfloor>val (d_mult ?n p)\<rfloor> < 2 ^ 64" by (simp only: floor_less_iff)
  then obtain idx where "int_to_u64 (d_floor (d_mult ?n p)) = Some idx"
    using v(1) by (auto simp: int_to_u64_def d_floor_val)
  moreover define i where "i = (if unat idx \<ge> length xs then length xs - 1 else unat idx)"
  moreover have "i < length xs" using assms(1) by (auto simp: i_def)
  ultimately show ?thesis using assms(1) by (auto simp: percentile_def Let_def simp flip: i_def)
qed

end
