(* ===== verification/Sample_Metrics.thy ===== *)
theory Sample_Metrics
  imports Ring_Interleaving Metrics_Pipeline Frame_Size Book_Metrics Sample_Books Tsc_Clock
begin

text \<open>
  Small inputs of the metrics pipeline on which its properties are instantiated: a ring of two slots
  with both threads inside a call, a finished read of a sequence lock, and a recorder and an
  aggregator with a few recorded calls.
\<close>

section \<open>Two threads\<close>

lemma cap_2: "valid_cap 2"
  unfolding valid_cap_def by (intro image_eqI [of _ _ 1]) simp_all

lemma reachable_steps: "(ring_step cap)\<^sup>*\<^sup>* s s' \<Longrightarrow> ring_reachable cap s \<Longrightarrow> ring_reachable cap s'"
  by (induction rule: rtranclp_induct) (auto intro: ring_reachable.step)

text \<open>One element stored; the producer writes a second one while the consumer reads the first.\<close>

definition sample_ring :: "nat ring" where
  "sample_ring = \<lparr>head = 1, tail_cache = 0, tail = 0, head_cache = 1, ring_buf = [Some 5, None]\<rparr>"

definition sample_threads :: "nat threads" where
  "sample_threads = \<lparr>shared = sample_ring, producer = P_Write 6 1, consumer = C_Read 0, pushed = [5], popped = []\<rparr>"

lemma sample_threads_reachable: "ring_reachable 2 sample_threads"
proof -
  let ?r = "(mk_ring 2 :: nat ring)\<lparr>head := 1, ring_buf := [Some 5, None]\<rparr>"
  let ?s = "(start 2)\<lparr>shared := ?r, pushed := [5]\<rparr>"
  have "try_push 2 5 (shared (start 2)) = Some (?r, True)" by code_simp
  from try_push_steps [OF _ this] have s: "ring_reachable 2 ?s"
    using reachable_steps [OF _ ring_reachable.start] by (simp add: start_def)
  let ?s1 = "?s\<lparr>producer := P_Check 6 (head (shared ?s))\<rparr>"
  have s1: "ring_reachable 2 ?s1" by (rule ring_reachable.step [OF s push_call]) (simp add: start_def)
  let ?s2 = "?s1\<lparr>producer := P_Write 6 1\<rparr>"
  have s2: "ring_reachable 2 ?s2" by (rule ring_reachable.step [OF s1 push_check]) (simp_all add: mk_ring_def word_le_nat_alt)
  let ?s3 = "?s2\<lparr>consumer := C_Check (tail (shared ?s2))\<rparr>"
  have s3: "ring_reachable 2 ?s3" by (rule ring_reachable.step [OF s2 pop_call]) (simp add: start_def)
  let ?s4 = "?s3\<lparr>shared := (shared ?s3)\<lparr>head_cache := head (shared ?s3)\<rparr>, consumer := C_Recheck 0\<rparr>"
  have s4: "ring_reachable 2 ?s4" by (rule ring_reachable.step [OF s3 pop_refresh]) (simp_all add: mk_ring_def)
  let ?s5 = "?s4\<lparr>consumer := C_Read 0\<rparr>"
  have "ring_reachable 2 ?s5" by (rule ring_reachable.step [OF s4 pop_some]) simp_all
  moreover have "?s5 = sample_threads" by (simp add: sample_threads_def sample_ring_def start_def mk_ring_def)
  ultimately show ?thesis by simp
qed

text \<open>A read of a one-word view.\<close>

definition sample_lock :: "nat lock" where
  "sample_lock = (lock_start [7])\<lparr>view_reader := R_Done [7]\<rparr>"

lemma sample_lock_reachable: "lock_reachable 1 sample_lock"
proof -
  let ?s = "lock_start [7 :: nat]"
  have s: "lock_reachable 1 ?s" by (rule lock_reachable.start) simp
  let ?s1 = "?s\<lparr>view_reader := R_Try 0\<rparr>"
  have s1: "lock_reachable 1 ?s1" by (rule lock_reachable.step [OF s r_call]) (simp add: lock_start_def)
  let ?s2 = "?s1\<lparr>view_reader := R_Copy 0 (seq (cell ?s1)) 0 [0], taken_at := updates ?s1\<rparr>"
  have s2: "lock_reachable 1 ?s2" by (rule lock_reachable.step [OF s1 r_even]) (simp_all add: lock_start_def)
  let ?s3 = "?s2\<lparr>view_reader := R_Copy 0 (seq (cell ?s1)) (Suc 0) ([0][0 := pub_data (cell ?s2) ! 0])\<rparr>"
  have s3: "lock_reachable 1 ?s3" by (rule lock_reachable.step [OF s2 r_copy]) simp_all
  let ?s4 = "?s3\<lparr>view_reader := R_Done ([0][0 := pub_data (cell ?s2) ! 0]), checked_at := updates ?s3\<rparr>"
  have "lock_reachable 1 ?s4" by (rule lock_reachable.step [OF s3 r_same]) (simp_all add: lock_start_def)
  moreover have "?s4 = sample_lock" by (simp add: sample_lock_def lock_start_def updates_def)
  ultimately show ?thesis by simp
qed

section \<open>A histogram\<close>

definition sample_latencies :: "u32 list" where
  "sample_latencies = [40, 9, 70]"

definition sample_hist :: hist where
  "sample_hist = the (h_records sample_latencies h_reset)"

lemma sample_hist_records: "h_records sample_latencies h_reset = Some sample_hist"
  using h_records_rep [of sample_latencies] by (auto simp: sample_hist_def)

lemma sample_latencies_sorted: "sort sample_latencies = [9, 40, 70]" "length sample_latencies = 3" "sample_latencies \<noteq> []"
  by code_simp+

section \<open>A recorder and an aggregator\<close>

definition sample_calls :: "recording list" where
  "sample_calls = [Rec_Latency Op_Add 40 1, Rec_Trade 2 100 5 7, Rec_Latency Op_Cancel 9 3, Rec_Snapshot 4 99 101,
     Rec_Latency Op_Add 70 5]"

definition sample_trade :: event where
  "sample_trade = call_event (Rec_Trade 2 100 5 7)"

lemma sample_trade_ok: "event_ok sample_trade"
  unfolding sample_trade_def by (rule call_event_ok)

definition sample_aggregator :: aggregator where
  "sample_aggregator = the (mk_aggregator d_zero (d_of_int 5))"

lemma sample_interval: "render_interval (d_of_int 5) = Some 200000000"
  by code_simp

lemma sample_aggregator_made: "mk_aggregator d_zero (d_of_int 5) = Some sample_aggregator"
  by (simp add: sample_aggregator_def mk_aggregator_def sample_interval)

lemma sample_aggregator_ticks: "ag_ns_per_tick sample_aggregator = d_zero"
  by (simp add: sample_aggregator_def mk_aggregator_def sample_interval)

lemma sample_aggregator_hz: "0 < ag_render_ns sample_aggregator"
  by (simp add: sample_aggregator_def mk_aggregator_def sample_interval)

lemma sample_aggregator_rep: "agg_rep sample_aggregator [] []"
  by (rule agg_rep_new [OF sample_aggregator_made])

definition sample_udp :: udp where
  "sample_udp = mk_udp 3 1 ''127.0.0.1'' 9099"

lemma sample_udp_ok: "u_ok sample_udp"
  by (simp add: sample_udp_def mk_udp_def)

lemma sample_udp_counts: "u_sent sample_udp = 0" "u_errors sample_udp = 0"
  by (simp_all add: sample_udp_def mk_udp_def)

section \<open>A time stamp counter\<close>

text \<open>The clock moves by a second from reading to reading, two seconds in all; the counter has two ticks to a nanosecond.\<close>

definition sample_calibration :: calibration where
  "sample_calibration = \<lparr>ca_clk = \<lambda>n. \<lparr>tv_sec = int n, tv_nsec = 0\<rparr>, ca_start = 100, ca_end = 4000000100\<rparr>"

lemma sample_calibration_hz: "mk_clock sample_calibration = Some 2000000000"
proof -
  have "nsBetween \<lparr>tv_sec = 0, tv_nsec = 0\<rparr> \<lparr>tv_sec = 1, tv_nsec = 0\<rparr> = Some 1000000000"
    "nsBetween \<lparr>tv_sec = 0, tv_nsec = 0\<rparr> \<lparr>tv_sec = 2, tv_nsec = 0\<rparr> = Some 2000000000" by code_simp+
  moreover have "int_to_u64 (d_floor (d_div (d_of_int 4000000000) (d_div (d_of_int 2000000000) (d_of_int 1000000000)))) = Some 2000000000"
    by code_simp
  ultimately show ?thesis by (simp add: mk_clock_def calibrate_def sample_calibration_def busy_wait.simps)
qed

section \<open>A book with a recorder\<close>

definition sample_metered :: metered where
  "sample_metered = setMetrics (Some (mk_recorder 0)) \<lparr>mb_book = sample_book, mb_rec = None, mb_ticks = 0\<rparr>"

lemma sample_metered_ok:
  "mb_book sample_metered = sample_book" "recorder_ok (mb_rec sample_metered)"
  using new_recorder by (simp_all add: sample_metered_def setMetrics_def recorder_ok_def)

end
