(* ===== verification/Demo_Run.thy ===== *)
theory Demo_Run
  imports Metrics_Pipeline
begin

text \<open>
  What the demos of \<^verbatim>\<open>metrics/\<close> share: a hot thread that records into the ring, the aggregator's loop on the other
  side, and the shutdown: the hot thread is joined, then the aggregator is stopped. The scheduler is an
  argument: for each turn of the aggregator's loop the inputs of the iterations the hot thread makes before it.
\<close>

section \<open>The deadline and the tick\<close>

text \<open>\<open>seconds > 0 ? now_ns() + (uint64_t)(seconds * 1e9) : 0\<close>.\<close>

definition hot_deadline :: "double \<Rightarrow> u64 \<Rightarrow> u64 option" where
  "hot_deadline secs now =
     (if d_less d_zero secs
      then map_option (\<lambda>d. now + d) (int_to_u64 (d_floor (d_mult secs (d_of_int 1000000000)))) else Some 0)"

definition deadline_passed :: "u64 \<Rightarrow> u64 \<Rightarrow> u64 \<Rightarrow> bool" where
  "deadline_passed dl i now \<longleftrightarrow> dl \<noteq> 0 \<and> i AND 1023 = 0 \<and> now \<ge> dl"

definition ns_per_tick :: "u64 \<Rightarrow> double" where
  "ns_per_tick hz = d_div (d_of_int 1000000000) (d_of_int (uint hz))"

lemma hot_deadline_defined:
  assumes "val secs \<le> 1000000000"
  shows "\<exists>dl. hot_deadline secs t = Some dl"
proof (cases "d_less d_zero secs")
  case True
  then have "0 \<le> val secs" by (simp add: d_less_val)
  then have m: "0 \<le> val (d_mult secs (d_of_int 1000000000))"
    "val (d_mult secs (d_of_int 1000000000)) \<le> 11 / 10 * (val secs * 1000000000)"
    using d_mult_between [of secs "d_of_int 1000000000"] by (simp_all add: val_d_of_int)
  have "val secs * 1000000000 \<le> 1000000000 * 1000000000" using assms by (intro mult_right_mono) simp_all
  then have "val (d_mult secs (d_of_int 1000000000)) < of_int (2 ^ 64)" using m(2) by simp
  then have "\<lfloor>val (d_mult secs (d_of_int 1000000000))\<rfloor> < 2 ^ 64" by (simp only: floor_less_iff)
  then show ?thesis using True m(1) by (simp add: hot_deadline_def int_to_u64_def d_floor_val)
qed (simp add: hot_deadline_def)

section \<open>Two threads\<close>

text \<open>\<open>iterate x s r\<close>: an iteration of the hot thread in state \<open>s\<close> with the recorder \<open>r\<close>, on the input \<open>x\<close>.\<close>

primrec iterations :: "('i \<Rightarrow> 's \<Rightarrow> recorder \<Rightarrow> ('s \<times> recorder) option) \<Rightarrow> 'i list \<Rightarrow> 's \<Rightarrow> recorder \<Rightarrow> ('s \<times> recorder) option"
where
  "iterations iterate [] s r = Some (s, r)"
| "iterations iterate (x # xs) s r = do { (s, r) \<leftarrow> iterate x s r; iterations iterate xs s r }"

text \<open>A turn: the iterations before it, and the clock reading in it.\<close>

type_synonym 'i schedule = "('i list \<times> u64) list"

definition demo_turn ::
    "('i \<Rightarrow> 's \<Rightarrow> recorder \<Rightarrow> ('s \<times> recorder) option) \<Rightarrow> ('s \<Rightarrow> book_view publisher option) \<Rightarrow> u64
     \<Rightarrow> 'i list \<times> u64 \<Rightarrow> 's \<times> pipeline \<Rightarrow> ('s \<times> pipeline) option" where
  "demo_turn iterate pub t_start x sp = (case (x, sp) of ((inputs, t), (s, pl)) \<Rightarrow> do {
     (s, r) \<leftarrow> iterations iterate inputs s (pl_rec pl);
     pl \<leftarrow> run_turn t_start ([], t, pub s) (pl\<lparr>pl_rec := r\<rparr>);
     Some (s, pl)
   })"

primrec demo_turns ::
    "('i \<Rightarrow> 's \<Rightarrow> recorder \<Rightarrow> ('s \<times> recorder) option) \<Rightarrow> ('s \<Rightarrow> book_view publisher option) \<Rightarrow> u64
     \<Rightarrow> 'i schedule \<Rightarrow> 's \<times> pipeline \<Rightarrow> ('s \<times> pipeline) option" where
  "demo_turns iterate pub t_start [] sp = Some sp"
| "demo_turns iterate pub t_start (x # xs) sp =
     do { sp \<leftarrow> demo_turn iterate pub t_start x sp; demo_turns iterate pub t_start xs sp }"

text \<open>\<open>t_end\<close> is the clock reading in the last render cycle.\<close>

definition demo_run ::
    "('i \<Rightarrow> 's \<Rightarrow> recorder \<Rightarrow> ('s \<times> recorder) option) \<Rightarrow> ('s \<Rightarrow> book_view publisher option) \<Rightarrow> u64
     \<Rightarrow> 'i schedule \<Rightarrow> u64 \<Rightarrow> 's \<Rightarrow> recorder \<Rightarrow> aggregator \<Rightarrow> ('s \<times> pipeline) option" where
  "demo_run iterate pub t_start turns t_end s r a = do {
     (s, pl) \<leftarrow> demo_turns iterate pub t_start turns (s, run_start t_start r a);
     pl \<leftarrow> run_finish t_start ([], t_end, pub s) pl;
     Some (s, pl)
   }"

definition inputs_of :: "'i schedule \<Rightarrow> 'i list" where
  "inputs_of turns = concat (map fst turns)"

lemma inputs_of_simps [simp]: "inputs_of [] = []" "inputs_of (x # xs) = fst x @ inputs_of xs"
  by (simp_all add: inputs_of_def)

text \<open>What the iterations keep, the run keeps.\<close>

definition keeps :: "('i \<Rightarrow> 's \<Rightarrow> recorder \<Rightarrow> ('s \<times> recorder) option) \<Rightarrow> 'i \<Rightarrow> ('s \<Rightarrow> bool) \<Rightarrow> bool" where
  "keeps iterate x Q \<longleftrightarrow> (\<forall>s r s' r'. iterate x s r = Some (s', r') \<longrightarrow> Q s \<longrightarrow> Q s')"

lemma iterations_keep:
  "iterations iterate xs s r = Some (s', r') \<Longrightarrow> \<forall>x \<in> set xs. keeps iterate x Q \<Longrightarrow> Q s \<Longrightarrow> Q s'"
proof (induction xs arbitrary: s r)
  case (Cons x xs)
  then obtain s1 r1 where "iterate x s r = Some (s1, r1)" "iterations iterate xs s1 r1 = Some (s', r')" by auto
  moreover from this have "Q s1" using Cons.prems(2,3) by (auto simp: keeps_def)
  ultimately show ?case using Cons.IH Cons.prems(2) by auto
qed simp

lemma turns_keep:
  "demo_turns iterate pub t_start turns (s, pl) = Some (s', pl') \<Longrightarrow> \<forall>x \<in> set (inputs_of turns). keeps iterate x Q \<Longrightarrow> Q s \<Longrightarrow> Q s'"
proof (induction turns arbitrary: s pl)
  case (Cons x xs)
  from Cons.prems(1) obtain s1 pl1 where 1: "demo_turn iterate pub t_start x (s, pl) = Some (s1, pl1)"
    "demo_turns iterate pub t_start xs (s1, pl1) = Some (s', pl')" by auto
  obtain inputs t where x: "x = (inputs, t)" by (cases x)
  obtain r where "iterations iterate inputs s (pl_rec pl) = Some (s1, r)" using 1(1) by (auto simp: demo_turn_def x)
  then have "Q s1" using iterations_keep Cons.prems(2,3) by (fastforce simp: x)
  then show ?case using Cons.IH [OF 1(2)] Cons.prems(2) by simp
qed simp

lemma demo_run_keeps:
  "demo_run iterate pub t_start turns t_end s r a = Some (s', pl) \<Longrightarrow> \<forall>x \<in> set (inputs_of turns). keeps iterate x Q \<Longrightarrow> Q s \<Longrightarrow> Q s'"
  using turns_keep by (fastforce simp: demo_run_def)

text \<open>Calls made before a turn count as calls made in it.\<close>

lemma run_turn_calls:
  "record_calls cs (pl_rec pl) = Some r \<Longrightarrow>
     run_turn t_start ([], t, bp) (pl\<lparr>pl_rec := r\<rparr>) = run_turn t_start (cs, t, bp) pl"
  by (simp add: run_turn_def Let_def split_def cong: if_cong)

lemma record_calls_ring:
  assumes "ring_inv ring_cap (rec_ring r)" "rec_sample_mask r = mask 0" "record_calls cs r = Some r'"
  shows "ring_inv ring_cap (rec_ring r')" "rec_sample_mask r' = mask 0"
  using record_calls_works [OF assms(1,2), of "unat (rec_sample_count r)" cs] assms(3) by auto

text \<open>The demos record every operation.\<close>

lemma offered_all: "offered 0 n cs = map call_event cs"
  by (induction cs arbitrary: n) simp_all

text \<open>The spreads of the quotes recorded are 64-bit numbers; then so are those of the frames.\<close>

fun call_spread :: "recording \<Rightarrow> bool" where
  "call_spread (Rec_Snapshot now bid ask) \<longleftrightarrow> int64_range (ask - bid)"
| "call_spread c \<longleftrightarrow> True"

lemma quote_spread: "quote_of (call_event c) = Some q \<Longrightarrow> call_spread c \<Longrightarrow> int64_range (snd q - fst q)"
  by (cases c) (auto simp: latency_event_def)

lemma settled_spread:
  assumes "settled 0 cs pl es d" "list_all call_spread cs" "s \<in> set (pl_out pl)"
  shows "spread_ok s"
proof (unfold spread_ok_def, rule impI)
  assume book: "s_have_book s"
  obtain d' where "frame_of s (take (unat (s_events s)) es) d'"
    using assms(1,3) unfolding settled_def frames_ok_def by blast
  then have "(s_best_bid s, s_best_ask s) \<in> set (quotes_of (take (unat (s_events s)) es))"
    using book by (simp add: frame_of_def)
  then obtain e where e: "e \<in> set es" "quote_of e = Some (s_best_bid s, s_best_ask s)"
    by (auto simp: quotes_of_def map_filter_def dest: in_set_takeD)
  have "set es \<subseteq> call_event ` set cs" using assms(1) subseq_set [of es "map call_event cs"]
    by (simp add: settled_def offered_all)
  then obtain c where "c \<in> set cs" "e = call_event c" using e(1) by blast
  then show "int64_range (s_best_ask s - s_best_bid s)" using quote_spread e(2) assms(2) by (fastforce simp: list_all_iff)
qed

lemma settled_frames:
  "settled 0 cs pl es d \<Longrightarrow> list_all call_spread cs \<Longrightarrow> s \<in> set (pl_out pl) \<Longrightarrow> snapshot_ok s \<and> spread_ok s"
proof -
  assume a: "settled 0 cs pl es d" "list_all call_spread cs" "s \<in> set (pl_out pl)"
  then have "snapshot_ok s" unfolding settled_def frames_ok_def frame_of_def by blast
  then show "snapshot_ok s \<and> spread_ok s" using settled_spread [OF a] by simp
qed

section \<open>The contract of a hot thread\<close>

text \<open>
  \<open>ok n s\<close>: a state after at most \<open>n\<close> iterations. An iteration returns, reaches the ring only through calls of the
  recorder, at most \<open>burst\<close> of them, and \<open>emits\<close> relates its states and its calls. An input that \<open>stops\<close> the thread
  ends its loop. The contract is that of the inputs the environment \<open>admits\<close>.
\<close>

locale hot_thread =
  fixes iterate :: "'i \<Rightarrow> 's \<Rightarrow> recorder \<Rightarrow> ('s \<times> recorder) option"
    and pub :: "'s \<Rightarrow> book_view publisher option"
    and ok :: "nat \<Rightarrow> 's \<Rightarrow> bool"
    and emits :: "'s \<Rightarrow> 's \<Rightarrow> recording list \<Rightarrow> bool"
    and stops :: "'i \<Rightarrow> bool"
    and stopped :: "'s \<Rightarrow> bool"
    and limit burst :: nat
    and admits :: "'i \<Rightarrow> bool"
  assumes iterate_records: "admits x \<Longrightarrow> ok n s \<Longrightarrow> n < limit \<Longrightarrow> ring_inv ring_cap (rec_ring r) \<Longrightarrow> rec_sample_mask r = mask 0 \<Longrightarrow>
      \<exists>s' r' cs. iterate x s r = Some (s', r') \<and> ok (Suc n) s' \<and> record_calls cs r = Some r'
        \<and> emits s s' cs \<and> length cs \<le> burst"
    and emits_none: "emits s s []"
    and emits_trans: "emits s1 s2 cs \<Longrightarrow> emits s2 s3 ds \<Longrightarrow> emits s1 s3 (cs @ ds)"
    and iterate_stops: "iterate x s r = Some (s', r') \<Longrightarrow> stops x \<or> stopped s \<Longrightarrow> stopped s'"
    and published_ok: "ok n s \<Longrightarrow> pub s = Some p \<Longrightarrow> read_view p = Some bv \<Longrightarrow> view_ok bv"
begin

lemma iterations_record:
  "\<forall>x \<in> set xs. admits x \<Longrightarrow> ok n s \<Longrightarrow> n + length xs \<le> limit \<Longrightarrow> ring_inv ring_cap (rec_ring r) \<Longrightarrow>
     rec_sample_mask r = mask 0 \<Longrightarrow> \<exists>s' r' cs. iterations iterate xs s r = Some (s', r') \<and> ok (n + length xs) s' \<and> record_calls cs r = Some r'
       \<and> emits s s' cs \<and> length cs \<le> burst * length xs"
proof (induction xs arbitrary: n s r)
  case (Cons x xs)
  obtain s1 r1 cs where 1: "iterate x s r = Some (s1, r1)" "ok (Suc n) s1" "record_calls cs r = Some r1"
    "emits s s1 cs" "length cs \<le> burst" using iterate_records [of x n s r] Cons.prems by auto
  note r1 = record_calls_ring [OF Cons.prems(4,5) 1(3)]
  obtain s2 r2 ds where 2: "iterations iterate xs s1 r1 = Some (s2, r2)" "ok (Suc n + length xs) s2"
    "record_calls ds r1 = Some r2" "emits s1 s2 ds" "length ds \<le> burst * length xs"
    using Cons.IH [OF _ 1(2) _ r1] Cons.prems(1,3) by auto
  have "record_calls (cs @ ds) r = Some r2" using 1(3) 2(3) by (simp add: record_calls_append)
  then show ?case using 1 2 emits_trans [OF 1(4) 2(4)] by (auto intro!: exI [of _ "cs @ ds"])
qed (use emits_none in \<open>auto intro!: exI [of _ "[]"]\<close>)

lemma views: "ok n s \<Longrightarrow> views_ok (cs, t, pub s)"
  using published_ok by (auto simp: views_ok_def)

lemma turn_runs:
  assumes run: "running 0 pl calls" and ok: "ok n s" "n + length (fst x) \<le> limit" and adm: "\<forall>y \<in> set (fst x). admits y"
    and small: "length calls + burst * length (fst x) < 2 ^ 63"
  shows "\<exists>s' pl' cs. demo_turn iterate pub t_start x (s, pl) = Some (s', pl') \<and> running 0 pl' (calls @ cs)
    \<and> ok (n + length (fst x)) s' \<and> emits s s' cs \<and> length cs \<le> burst * length (fst x)"
proof -
  obtain inputs t where x: "x = (inputs, t)" by (cases x)
  have inv: "ring_inv ring_cap (rec_ring (pl_rec pl))" "rec_sample_mask (pl_rec pl) = mask 0"
    using run by (auto simp: running_def accounted_def)
  obtain s' r cs where it: "iterations iterate inputs s (pl_rec pl) = Some (s', r)" "ok (n + length inputs) s'"
    "record_calls cs (pl_rec pl) = Some r" "emits s s' cs" "length cs \<le> burst * length inputs"
    using iterations_record [OF _ ok(1) _ inv, of inputs] ok(2) adm by (auto simp: x)
  obtain pl' where "run_turn t_start (cs, t, pub s') pl = Some pl'" "running 0 pl' (calls @ cs)"
    using running_turn [OF run, of "(cs, t, pub s')" t_start] views [OF it(2)] small it(5) by (auto simp: x)
  then show ?thesis using it run_turn_calls [OF it(3), of t_start t "pub s'"]
    by (intro exI [of _ s'] exI [of _ pl'] exI [of _ cs]) (simp add: x demo_turn_def)
qed

lemma turns_run:
  "running 0 pl calls \<Longrightarrow> ok n s \<Longrightarrow> n + length (inputs_of turns) \<le> limit \<Longrightarrow> \<forall>x \<in> set (inputs_of turns). admits x \<Longrightarrow>
     length calls + burst * length (inputs_of turns) < 2 ^ 63 \<Longrightarrow>
     \<exists>s' pl' cs. demo_turns iterate pub t_start turns (s, pl) = Some (s', pl') \<and> running 0 pl' (calls @ cs)
       \<and> ok (n + length (inputs_of turns)) s' \<and> emits s s' cs \<and> length cs \<le> burst * length (inputs_of turns)"
proof (induction turns arbitrary: pl calls n s)
  case (Cons x xs)
  obtain s1 pl1 cs where 1: "demo_turn iterate pub t_start x (s, pl) = Some (s1, pl1)" "running 0 pl1 (calls @ cs)"
    "ok (n + length (fst x)) s1" "emits s s1 cs" "length cs \<le> burst * length (fst x)"
    using turn_runs [OF Cons.prems(1,2), of x t_start] Cons.prems(3-5) by (auto simp: distrib_left)
  obtain s2 pl2 ds where 2: "demo_turns iterate pub t_start xs (s1, pl1) = Some (s2, pl2)" "running 0 pl2 ((calls @ cs) @ ds)"
    "ok (n + length (fst x) + length (inputs_of xs)) s2" "emits s1 s2 ds" "length ds \<le> burst * length (inputs_of xs)"
    using Cons.IH [OF 1(2,3)] Cons.prems(3-5) 1(5) by (auto simp: distrib_left)
  show ?case using 1 2 emits_trans [OF 1(4) 2(4)]
    by (intro exI [of _ s2] exI [of _ pl2] exI [of _ "cs @ ds"]) (simp add: distrib_left add.assoc)
qed (use emits_none in \<open>auto intro!: exI [of _ "[]"]\<close>)

lemma iterations_stop:
  "iterations iterate xs s r = Some (s', r') \<Longrightarrow> (\<exists>x \<in> set xs. stops x) \<or> stopped s \<Longrightarrow> stopped s'"
proof (induction xs arbitrary: s r)
  case (Cons x xs)
  then obtain s1 r1 where "iterate x s r = Some (s1, r1)" "iterations iterate xs s1 r1 = Some (s', r')" by auto
  then show ?case using Cons.IH [of s1 r1] iterate_stops [of x s r s1 r1] Cons.prems(2) by auto
qed simp

lemma turns_stop:
  "demo_turns iterate pub t_start turns (s, pl) = Some (s', pl') \<Longrightarrow> (\<exists>x \<in> set (inputs_of turns). stops x) \<or> stopped s \<Longrightarrow>
     stopped s'"
proof (induction turns arbitrary: s pl)
  case (Cons x xs)
  from Cons.prems(1) obtain s1 pl1 where 1: "demo_turn iterate pub t_start x (s, pl) = Some (s1, pl1)"
    "demo_turns iterate pub t_start xs (s1, pl1) = Some (s', pl')" by auto
  obtain inputs t where x: "x = (inputs, t)" by (cases x)
  obtain r where "iterations iterate inputs s (pl_rec pl) = Some (s1, r)" using 1(1) by (auto simp: demo_turn_def x)
  then show ?case using Cons.IH [OF 1(2)] iterations_stop [of inputs s _ s1 r] Cons.prems(2) by (auto simp: x)
qed simp

text \<open>The whole demo returns, and every call of its hot thread is accounted for.\<close>

lemma demo_accounts:
  assumes a: "mk_aggregator ns hz = Some a" and ok: "ok 0 s" "length (inputs_of turns) \<le> limit"
    and adm: "\<forall>x \<in> set (inputs_of turns). admits x" and small: "burst * length (inputs_of turns) < 2 ^ 63"
  shows "\<exists>s' pl cs es d. demo_run iterate pub t_start turns t_end s (mk_recorder 0) a = Some (s', pl)
    \<and> ok (length (inputs_of turns)) s' \<and> emits s s' cs \<and> length cs \<le> burst * length (inputs_of turns)
    \<and> settled 0 cs pl es d \<and> ((\<exists>x \<in> set (inputs_of turns). stops x) \<longrightarrow> stopped s')"
proof -
  have start: "running 0 (run_start t_start (mk_recorder 0) a) []" using running_start [OF a, of 0] by simp
  obtain s' pl cs where 1: "demo_turns iterate pub t_start turns (s, run_start t_start (mk_recorder 0) a) = Some (s', pl)"
    "running 0 pl cs" "ok (length (inputs_of turns)) s'" "emits s s' cs" "length cs \<le> burst * length (inputs_of turns)"
    using turns_run [OF start ok(1), of turns t_start] ok(2) adm small by auto
  obtain pl' es d where "run_finish t_start ([], t_end, pub s') pl = Some pl'" "settled 0 cs pl' es d"
    using running_finish [OF 1(2), of "([], t_end, pub s')" t_start] views [OF 1(3)] small 1(5) by auto
  then show ?thesis using 1 turns_stop [OF 1(1)]
    by (intro exI [of _ s'] exI [of _ pl'] exI [of _ cs] exI [of _ es] exI [of _ d]) (simp add: demo_run_def)
qed

end

text \<open>The check at the end of a demo: what was consumed and what was dropped is what was recorded.\<close>

lemma settled_counts:
  assumes "settled 0 cs pl es d"
  shows "ag_consumed (pl_agg pl) + rec_drops (pl_rec pl) = of_nat (length cs)"
proof -
  have "ag_consumed (pl_agg pl) = of_nat (length es)" using assms by (simp add: settled_def agg_rep_def totals_rep_def)
  moreover have "length es + d = length cs" using assms by (simp add: settled_def offered_all)
  ultimately show ?thesis using assms by (simp add: settled_def flip: of_nat_add)
qed

lemma settled_total:
  assumes "settled 0 cs pl es d" "length cs < 2 ^ 63"
  shows "unat (ag_consumed (pl_agg pl)) + unat (rec_drops (pl_rec pl)) = length cs"
proof -
  have c: "ag_consumed (pl_agg pl) = of_nat (length es)" "rec_drops (pl_rec pl) = of_nat d" "length es + d = length cs"
    using assms(1) by (simp_all add: settled_def agg_rep_def totals_rep_def offered_all)
  have "unat (of_nat (length es) :: u64) = length es" "unat (of_nat d :: u64) = d"
    using c(3) assms(2) by (auto intro!: unat_of_nat_u64)
  then show ?thesis using c by simp
qed

text \<open>The last frame shows what was consumed and what was dropped.\<close>

lemma settled_frame:
  assumes "settled 0 cs pl es d"
  shows "s_events (last (pl_out pl)) = ag_consumed (pl_agg pl) \<and> s_drops (last (pl_out pl)) = rec_drops (pl_rec pl)"
proof -
  have f: "unat (s_events (last (pl_out pl))) = length es" "unat (s_drops (last (pl_out pl))) = d"
    "rec_drops (pl_rec pl) = of_nat d" "agg_rep (pl_agg pl) es []"
    using assms by (simp_all add: settled_def frame_of_def)
  have "s_events (last (pl_out pl)) = of_nat (length es)" "s_drops (last (pl_out pl)) = of_nat d"
    using arg_cong [OF f(1), of "of_nat :: nat \<Rightarrow> u64"] arg_cong [OF f(2), of "of_nat :: nat \<Rightarrow> u64"] by simp_all
  then show ?thesis using f(3,4) by (simp add: agg_rep_def totals_rep_def)
qed

end
