(* ===== verification/Demo_Trader.thy ===== *)
theory Demo_Trader
  imports Demo_Run Book_Metrics Order_Store Market_Depth
begin

text \<open>
  What the hot threads of \<^verbatim>\<open>metrics/engine_metrics_demo.cpp\<close>, \<^verbatim>\<open>udp_publish_demo.cpp\<close> and \<^verbatim>\<open>book_dashboard_demo.cpp\<close> do to
  the book: adds within a band on each side of a middle price, cancels and modifications of a random order of the
  vector of live ids. The draws of the random generator are arguments.
\<close>

section \<open>The code\<close>

record trader =
  tr_sys :: metered
  tr_live :: "order_id list"

definition MID :: price where "MID = 100000"

text \<open>The overload of \<open>addOrder\<close> that assigns the id, on the book with its recorder.\<close>

definition m_addOrder_auto :: "(nat \<Rightarrow> u64) \<Rightarrow> metered \<Rightarrow> side \<Rightarrow> price \<Rightarrow> quantity \<Rightarrow> (metered \<times> order_id) option" where
  "m_addOrder_auto clock st s p q =
     (let b = mb_book st
      in m_addOrder clock (st\<lparr>mb_book := b\<lparr>next_order_id := next_order_id b + 1\<rparr>\<rparr>) s p q (next_order_id b))"

definition banded_add :: "(nat \<Rightarrow> u64) \<Rightarrow> u64 \<Rightarrow> u64 \<Rightarrow> u64 \<Rightarrow> u64 \<Rightarrow> u64 \<Rightarrow> trader \<Rightarrow> trader option" where
  "banded_add clock band most d1 d2 d3 tr = do {
     let s = (if d1 AND 1 \<noteq> 0 then BUY else SELL);
     let px = (if s = BUY then MID - 1 - int (unat (d2 mod band)) else MID + 1 + int (unat (d2 mod band)));
     let q = 1 + d3 mod most;
     (sys, i) \<leftarrow> m_addOrder_auto clock (tr_sys tr) s px q;
     Some \<lparr>tr_sys = sys, tr_live = (if i \<noteq> 0 then tr_live tr @ [i] else tr_live tr)\<rparr>
   }"

text \<open>\<open>live[k] = live.back(); live.pop_back()\<close>.\<close>

definition swap_remove :: "'a list \<Rightarrow> nat \<Rightarrow> 'a list" where
  "swap_remove xs k = butlast (xs[k := last xs])"

text \<open>\<open>d mod live.size()\<close> of an empty vector is a division by zero.\<close>

definition random_index :: "order_id list \<Rightarrow> u64 \<Rightarrow> nat option" where
  "random_index ids d = do { require (ids \<noteq> []); Some (unat (d mod of_nat (length ids))) }"

definition random_cancel :: "(nat \<Rightarrow> u64) \<Rightarrow> u64 \<Rightarrow> trader \<Rightarrow> trader option" where
  "random_cancel clock d tr = do {
     k \<leftarrow> random_index (tr_live tr) d;
     i \<leftarrow> vec_get (tr_live tr) (int k);
     (sys, _) \<leftarrow> m_cancelOrder clock (tr_sys tr) i;
     Some \<lparr>tr_sys = sys, tr_live = swap_remove (tr_live tr) k\<rparr>
   }"

definition random_modify :: "(nat \<Rightarrow> u64) \<Rightarrow> u64 \<Rightarrow> u64 \<Rightarrow> trader \<Rightarrow> trader option" where
  "random_modify clock d1 d2 tr = do {
     k \<leftarrow> random_index (tr_live tr) d1;
     i \<leftarrow> vec_get (tr_live tr) (int k);
     (sys, _) \<leftarrow> m_modifyOrder clock (tr_sys tr) i (1 + d2 mod 100);
     Some (tr\<lparr>tr_sys := sys\<rparr>)
   }"

text \<open>\<open>rec.recordSnapshot(book.getBestBid(), book.getBestAsk())\<close>.\<close>

definition record_quote :: "(nat \<Rightarrow> u64) \<Rightarrow> metered \<Rightarrow> metered option" where
  "record_quote clock st = do {
     r \<leftarrow> mb_rec st;
     r \<leftarrow> recordSnapshot (clock (mb_ticks st)) (getBestBid (mb_book st)) (getBestAsk (mb_book st)) r;
     Some (st\<lparr>mb_rec := Some r, mb_ticks := mb_ticks st + 1\<rparr>)
   }"

section \<open>What is recorded\<close>

text \<open>Between two states \<open>k\<close> calls of the recorder were made, none with a quote whose spread overflows.\<close>

definition recorded :: "nat \<Rightarrow> metered \<Rightarrow> metered \<Rightarrow> bool" where
  "recorded k st st' \<longleftrightarrow> recorder_ok (mb_rec st')
     \<and> (\<exists>r r' cs. mb_rec st = Some r \<and> mb_rec st' = Some r' \<and> record_calls cs r = Some r' \<and> length cs = k
          \<and> list_all call_spread cs)"

definition with_recorder :: "metered \<Rightarrow> bool" where
  "with_recorder st \<longleftrightarrow> mb_rec st \<noteq> None \<and> recorder_ok (mb_rec st)"

lemma recorded_on: "recorded k st st' \<Longrightarrow> with_recorder st'"
  by (auto simp: recorded_def with_recorder_def)

lemma recorded_none: "with_recorder st \<Longrightarrow> recorded 0 st st"
  by (auto simp: recorded_def with_recorder_def intro!: exI [of _ "[]"])

lemma recorded_trans: "recorded j st st1 \<Longrightarrow> recorded k st1 st' \<Longrightarrow> recorded (j + k) st st'"
proof -
  assume "recorded j st st1" "recorded k st1 st'"
  then obtain r r1 r' cs ds where "mb_rec st = Some r" "mb_rec st1 = Some r1" "mb_rec st' = Some r'" "recorder_ok (mb_rec st')"
    "record_calls cs r = Some r1" "length cs = j" "record_calls ds r1 = Some r'" "length ds = k"
    "list_all call_spread cs" "list_all call_spread ds" by (auto simp: recorded_def)
  then show ?thesis unfolding recorded_def by (auto simp: record_calls_append intro!: exI [of _ "cs @ ds"])
qed

lemma meters_recorded:
  assumes "meters (mb_rec st) (mb_rec st') ops" "with_recorder st" "recorder_ok (mb_rec st')"
  shows "recorded (length ops) st st'"
proof -
  obtain r where r: "mb_rec st = Some r" using assms(2) by (auto simp: with_recorder_def)
  obtain cs r' where cs: "mb_rec st' = Some r'" "record_calls cs r = Some r'" "map call_op cs = map Some ops"
    using assms(1) unfolding meters_def r option.case by blast
  have "length cs = length ops" using arg_cong [OF cs(3), of length] by simp
  moreover have "call_spread c" if "c \<in> set cs" for c
  proof -
    have "call_op c \<in> set (map call_op cs)" using that by simp
    then have "call_op c \<noteq> None" unfolding cs(3) by auto
    then show ?thesis by (cases c) simp_all
  qed
  ultimately show ?thesis using assms(3) r cs(1,2) by (auto simp: recorded_def list_all_iff)
qed

lemma scope_recorded:
  assumes "f (mb_book st) = Some (b, x)" "with_recorder st"
  shows "\<exists>st'. metrics_scope clock op f st = Some (st', x) \<and> mb_book st' = b \<and> recorded 1 st st'"
proof -
  obtain r where r: "mb_rec st = Some r" "recorder_ok (mb_rec st)" using assms(2) by (auto simp: with_recorder_def)
  obtain st' where st': "metrics_scope clock op f st = Some (st', x)" "mb_book st' = b" "recorder_ok (mb_rec st')"
    "meters (mb_rec st) (mb_rec st') [op]" using metrics_scope_works [of f st b x clock op] assms(1) r(2) by blast
  then show ?thesis using meters_recorded [OF st'(4) assms(2) st'(3)] by auto
qed

text \<open>One call, made on the recorder of a state.\<close>

lemma recorded_one:
  assumes "mb_rec st = Some r" "record_call c r = Some r'" "ring_inv ring_cap (rec_ring r')" "call_spread c"
  shows "recorded 1 st (st\<lparr>mb_rec := Some r', mb_ticks := t\<rparr>)"
proof -
  have "record_calls [c] r = Some r'" "length [c] = 1" "list_all call_spread [c]" using assms(2,4) by simp_all
  then show ?thesis using assms(1,3) unfolding recorded_def recorder_ok_def
    by (auto simp del: record_calls.simps intro!: exI [of _ "[c]"])
qed

text \<open>The quotes of a book whose prices are 1 to \<open>mx\<close>.\<close>

definition narrow :: "order_book \<Rightarrow> bool" where
  "narrow b \<longleftrightarrow> api_inv b \<and> (\<exists>mx < 2 ^ 62. inRange b = (\<lambda>p. 1 \<le> p \<and> p \<le> mx))"

lemma narrow_spread:
  assumes "narrow b"
  shows "int64_range (getBestAsk b - getBestBid b)"
proof -
  obtain mx where mx: "mx < 2 ^ 62" "inRange b = (\<lambda>p. 1 \<le> p \<and> p \<le> mx)" using assms by (auto simp: narrow_def)
  obtain Q where rep: "book_rep b Q" using assms by (auto simp: narrow_def api_inv_def book_wf_def)
  have in_view: "0 \<le> e_price e \<and> e_price e < 2 ^ 62" if e: "e \<in> set (view b s)" for e s
    using view_in_range [OF rep e] mx by simp
  have "0 \<le> getBestBid b \<and> getBestBid b < 2 ^ 62" unfolding getBestBid_view [OF rep]
    using in_view [of _ BUY] by (auto split: list.split)
  moreover have "0 \<le> getBestAsk b \<and> getBestAsk b < 2 ^ 62" unfolding getBestAsk_view [OF rep]
    using in_view [of _ SELL] by (auto split: list.split)
  ultimately show ?thesis by (simp add: int64_range_def)
qed

lemma record_quote_works:
  assumes "with_recorder st" "narrow (mb_book st)"
  shows "\<exists>st'. record_quote clock st = Some st' \<and> mb_book st' = mb_book st \<and> recorded 1 st st'"
proof -
  obtain r where r: "mb_rec st = Some r" "ring_inv ring_cap (rec_ring r)"
    using assms by (auto simp: with_recorder_def recorder_ok_def)
  let ?c = "Rec_Snapshot (clock (mb_ticks st)) (getBestBid (mb_book st)) (getBestAsk (mb_book st))"
  obtain r' where r': "record_call ?c r = Some r'" "ring_inv ring_cap (rec_ring r')"
    using record_call_works [OF r(2), of ?c] by blast
  have "recorded 1 st (st\<lparr>mb_rec := Some r', mb_ticks := mb_ticks st + 1\<rparr>)"
    using recorded_one [OF r(1) r'] narrow_spread [OF assms(2)] by simp
  then show ?thesis using r(1) r'(1) by (simp add: record_quote_def)
qed

section \<open>The vector of live ids\<close>

lemma swap_remove_snoc:
  "swap_remove (xs @ [x]) k = (if k < length xs then xs[k := x] else xs)" if "k \<le> length xs"
  using that by (simp add: swap_remove_def list_update_append)

lemma swap_remove_works:
  assumes "distinct xs" "k < length xs"
  shows "distinct (swap_remove xs k)" "set (swap_remove xs k) = set xs - {xs ! k}"
    "length (swap_remove xs k) = length xs - 1"
proof -
  obtain ys z where xs: "xs = ys @ [z]" using assms(2) by (cases xs rule: rev_cases) auto
  have k: "k \<le> length ys" and d: "distinct ys" "z \<notin> set ys" using assms by (auto simp: xs)
  show "length (swap_remove xs k) = length xs - 1" by (simp add: swap_remove_def)
  show "distinct (swap_remove xs k)" using d by (simp add: xs swap_remove_snoc [OF k] distinct_list_update)
  show "set (swap_remove xs k) = set xs - {xs ! k}"
    using d k by (auto simp: xs swap_remove_snoc [OF k] set_update_distinct nth_append)
qed

lemma random_index_works:
  assumes "ids \<noteq> []" "length ids < 2 ^ 64"
  shows "\<exists>k. random_index ids d = Some k \<and> k < length ids"
proof -
  have n: "unat (of_nat (length ids) :: u64) = length ids" by (rule unat_of_nat_u64 [OF assms(2)])
  have "unat (d mod of_nat (length ids)) < length ids" using assms(1) by (simp add: unat_mod_distrib n)
  then show ?thesis using assms(1) by (simp add: random_index_def)
qed

lemma draw_in: "0 < m \<Longrightarrow> unat ((d::u64) mod m) < unat m"
  by (simp add: unat_mod_distrib word_gt_0 unat_gt_0)

section \<open>The invariant\<close>

lemma next_id_kept:
  "addOrder b s p q i = Some (b', x) \<Longrightarrow> next_order_id b' = next_order_id b"
  "cancelOrder b i = Some (b', y) \<Longrightarrow> next_order_id b' = next_order_id b"
  "modifyOrder b i q = Some (b', y) \<Longrightarrow> next_order_id b' = next_order_id b"
  unfolding addOrder_def cancelOrder_def modifyOrder_def
  by (auto simp: Let_def split: if_splits) (auto simp: Let_def split: option.splits)

lemma order_map_next [simp]:
  "order_map (b\<lparr>next_order_id := k\<rparr>) = order_map b" "inRange (b\<lparr>next_order_id := k\<rparr>) = inRange b"
  by (auto simp: order_map_def inRange_def fun_eq_iff split: option.split)

text \<open>The bids rest below the middle price and the asks above it.\<close>

definition banded :: "order_book \<Rightarrow> bool" where
  "banded b \<longleftrightarrow> (\<forall>i s p q. order_map b i = Some (s, p, q) \<longrightarrow> (if s = BUY then p < MID else MID < p))"

lemma banded_update:
  "banded b \<Longrightarrow> order_map b' = (order_map b)(i \<mapsto> (s, p, q)) \<Longrightarrow> (if s = BUY then p < MID else MID < p) \<Longrightarrow> banded b'"
  "banded b \<Longrightarrow> order_map b' = (order_map b)(i := None) \<Longrightarrow> banded b'"
  unfolding banded_def by simp_all

text \<open>
  After at most \<open>n\<close> adds: every resting order is in the vector, the vector is bounded, and its ids were
  assigned by the book, whose counter has not come round.
\<close>

definition trader_ok :: "nat \<Rightarrow> trader \<Rightarrow> bool" where
  "trader_ok n tr \<longleftrightarrow> api_inv (mb_book (tr_sys tr)) \<and> inRange (mb_book (tr_sys tr)) = (\<lambda>p. 1 \<le> p \<and> p \<le> 200000)
     \<and> banded (mb_book (tr_sys tr)) \<and> distinct (tr_live tr) \<and> dom (order_map (mb_book (tr_sys tr))) \<subseteq> set (tr_live tr)
     \<and> length (tr_live tr) \<le> 2 ^ 15 + 1
     \<and> (\<exists>m\<le>n. next_order_id (mb_book (tr_sys tr)) = of_nat (Suc m) \<and> (\<forall>i \<in> set (tr_live tr). 0 < unat i \<and> unat i \<le> m))"

text \<open>Every id of the vector rests.\<close>

definition all_resting :: "trader \<Rightarrow> bool" where
  "all_resting tr \<longleftrightarrow> set (tr_live tr) \<subseteq> dom (order_map (mb_book (tr_sys tr)))"

definition trades_on :: "nat \<Rightarrow> (trader \<Rightarrow> trader option) \<Rightarrow> trader \<Rightarrow> bool" where
  "trades_on n f tr \<longleftrightarrow> (\<exists>tr'. f tr = Some tr' \<and> trader_ok (Suc n) tr' \<and> recorded 1 (tr_sys tr) (tr_sys tr')
     \<and> (all_resting tr \<longrightarrow> all_resting tr'))"

lemma small_draw: "0 < m \<Longrightarrow> m \<le> 1000 \<Longrightarrow> unat (1 + (d::u64) mod m) < 2 ^ 63 \<and> unat (d mod m) < 1000"
proof -
  assume m: "0 < m" "m \<le> 1000"
  have "unat (d mod m) < unat m" by (rule draw_in [OF m(1)])
  also have "unat m \<le> 1000" using m(2) by (simp add: word_le_nat_alt)
  finally have "unat (d mod m) < 1000" .
  moreover from this have "unat (1 + d mod m) = 1 + unat (d mod m)" by (subst unat_add_lem [THEN iffD1]) simp_all
  ultimately show ?thesis by simp
qed

lemma trader_okD:
  assumes "trader_ok n tr"
  obtains m where "m \<le> n" "next_order_id (mb_book (tr_sys tr)) = of_nat (Suc m)"
    "\<forall>i \<in> set (tr_live tr). 0 < unat i \<and> unat i \<le> m"
  using assms unfolding trader_ok_def by blast

lemma trader_narrow: "trader_ok n tr \<Longrightarrow> narrow (mb_book (tr_sys tr))"
  unfolding trader_ok_def narrow_def by (intro conjI exI [of _ 200000]) simp_all

lemma banded_add_works:
  assumes ok: "trader_ok n tr" "with_recorder (tr_sys tr)" and n: "n < 2 ^ 62" and len: "length (tr_live tr) \<le> 2 ^ 15"
    and band: "0 < band" "band \<le> 1000" and most: "0 < most" "most \<le> 1000"
  shows "trades_on n (banded_add clock band most d1 d2 d3) tr"
proof -
  let ?b = "mb_book (tr_sys tr)"
  let ?i = "next_order_id ?b"
  let ?b1 = "?b\<lparr>next_order_id := ?i + 1\<rparr>"
  let ?s = "if d1 AND 1 \<noteq> 0 then BUY else SELL"
  let ?px = "if ?s = BUY then MID - 1 - int (unat (d2 mod band)) else MID + 1 + int (unat (d2 mod band))"
  let ?q = "1 + d3 mod most"
  obtain m where m: "m \<le> n" "?i = of_nat (Suc m)" "\<forall>i \<in> set (tr_live tr). 0 < unat i \<and> unat i \<le> m"
    by (rule trader_okD [OF ok(1)])
  have ui: "unat ?i = Suc m" unfolding m(2) using m(1) n by (intro unat_of_nat_u64) simp
  then have new: "?i \<notin> set (tr_live tr)" "?i \<noteq> 0" using m(3) by auto
  have inv: "api_inv ?b1" and fresh: "order_map ?b1 ?i = None"
    using ok(1) new(1) by (auto simp: trader_ok_def)
  have px: "inRange ?b1 ?px" "if ?s = BUY then ?px < MID else MID < ?px"
  proof -
    obtain x where x: "unat (d2 mod band) = x" "x < 1000" using small_draw [OF band, of d2] by simp
    show "inRange ?b1 ?px" "if ?s = BUY then ?px < MID else MID < ?px"
      unfolding x(1) using ok(1) x(2) by (simp_all add: trader_ok_def MID_def)
  qed
  obtain b' where b': "addOrder ?b1 ?s ?px ?q ?i = Some (b', ?i)" "api_inv b'"
    "order_map b' = (order_map ?b)(?i \<mapsto> (?s, ?px, ?q))" "inRange b' = inRange ?b"
    using book.add_stores [OF inv _ fresh px(1), of ?q ?s] small_draw [OF most, of d3] by auto
  let ?st = "tr_sys tr\<lparr>mb_book := ?b1\<rparr>"
  have "with_recorder ?st" using ok(2) by (simp add: with_recorder_def)
  then obtain sys where sys: "m_addOrder clock ?st ?s ?px ?q ?i = Some (sys, ?i)" "mb_book sys = b'" "recorded 1 ?st sys"
    using scope_recorded [of "\<lambda>b. addOrder b ?s ?px ?q ?i" ?st b' ?i clock Op_Add] b'(1) by (auto simp: m_addOrder_def)
  let ?tr = "\<lparr>tr_sys = sys, tr_live = tr_live tr @ [?i]\<rparr>"
  have run: "banded_add clock band most d1 d2 d3 tr = Some ?tr"
    using sys(1) new(2) by (simp add: banded_add_def m_addOrder_auto_def Let_def)
  have band': "banded b'" using ok(1) by (intro banded_update(1) [OF _ b'(3) px(2)]) (simp add: trader_ok_def)
  have nid: "next_order_id b' = of_nat (Suc (Suc m))" using next_id_kept(1) [OF b'(1)] m(2) by simp
  have ids: "0 < unat i \<and> unat i \<le> Suc m" if "i \<in> set (tr_live ?tr)" for i
    using that m(3) ui by auto
  have "trader_ok (Suc n) ?tr"
    unfolding trader_ok_def using ok(1) b'(2-4) band' new(1) len sys(2) m(1) nid ids
    by (intro conjI exI [of _ "Suc m"]) (auto simp: trader_ok_def)
  moreover have "recorded 1 (tr_sys tr) sys" using sys(3) by (simp add: recorded_def)
  moreover have "all_resting tr \<longrightarrow> all_resting ?tr" using sys(2) b'(3) by (auto simp: all_resting_def)
  ultimately show ?thesis using run by (simp add: trades_on_def)
qed

lemma chosen:
  assumes "trader_ok n tr" "tr_live tr \<noteq> []"
  shows "\<exists>k. random_index (tr_live tr) d = Some k \<and> k < length (tr_live tr)
    \<and> vec_get (tr_live tr) (int k) = Some (tr_live tr ! k)"
  using random_index_works [OF assms(2), of d] assms(1) by (auto simp: trader_ok_def)

lemma random_cancel_works:
  assumes ok: "trader_ok n tr" "with_recorder (tr_sys tr)" and ne: "tr_live tr \<noteq> []"
  shows "trades_on n (random_cancel clock d) tr"
proof -
  let ?b = "mb_book (tr_sys tr)"
  obtain k where k: "random_index (tr_live tr) d = Some k" "k < length (tr_live tr)"
    "vec_get (tr_live tr) (int k) = Some (tr_live tr ! k)" using chosen [OF ok(1) ne] by blast
  let ?i = "tr_live tr ! k"
  have inv: "api_inv ?b" using ok(1) by (simp add: trader_ok_def)
  obtain b' where b': "cancelOrder ?b ?i = Some (b', order_map ?b ?i \<noteq> None)" "api_inv b'"
    "order_map b' = (order_map ?b)(?i := None)" "inRange b' = inRange ?b" using book.cancel_removes [OF inv, of ?i] by blast
  obtain sys where sys: "m_cancelOrder clock (tr_sys tr) ?i = Some (sys, order_map ?b ?i \<noteq> None)" "mb_book sys = b'"
    "recorded 1 (tr_sys tr) sys"
    using scope_recorded [of "\<lambda>b. cancelOrder b ?i" "tr_sys tr" b' _ clock Op_Cancel] b'(1) ok(2) by (auto simp: m_cancelOrder_def)
  let ?tr = "\<lparr>tr_sys = sys, tr_live = swap_remove (tr_live tr) k\<rparr>"
  have run: "random_cancel clock d tr = Some ?tr" using k sys(1) by (simp add: random_cancel_def)
  obtain m where m: "m \<le> n" "next_order_id ?b = of_nat (Suc m)" "\<forall>i \<in> set (tr_live tr). 0 < unat i \<and> unat i \<le> m"
    by (rule trader_okD [OF ok(1)])
  have d: "distinct (tr_live tr)" using ok(1) by (simp add: trader_ok_def)
  note sw = swap_remove_works [OF d k(2)]
  have band: "banded b'" using ok(1) by (intro banded_update(2) [OF _ b'(3)]) (simp add: trader_ok_def)
  have nid: "next_order_id b' = of_nat (Suc m)" using next_id_kept(2) [OF b'(1)] m(2) by simp
  have "trader_ok (Suc n) ?tr"
    unfolding trader_ok_def using ok(1) b'(2-4) band sw sys(2) m nid
    by (intro conjI exI [of _ m]) (auto simp: trader_ok_def)
  moreover have "all_resting tr \<longrightarrow> all_resting ?tr" using sys(2) b'(3) sw(2) by (auto simp: all_resting_def)
  ultimately show ?thesis using run sys(3) by (simp add: trades_on_def)
qed

lemma random_modify_works:
  assumes ok: "trader_ok n tr" "with_recorder (tr_sys tr)" and ne: "tr_live tr \<noteq> []" and all: "all_resting tr"
  shows "trades_on n (random_modify clock d1 d2) tr"
proof -
  let ?b = "mb_book (tr_sys tr)" and ?q = "1 + d2 mod 100"
  obtain k where k: "random_index (tr_live tr) d1 = Some k" "k < length (tr_live tr)"
    "vec_get (tr_live tr) (int k) = Some (tr_live tr ! k)" using chosen [OF ok(1) ne] by blast
  let ?i = "tr_live tr ! k"
  have inv: "api_inv ?b" using ok(1) by (simp add: trader_ok_def)
  have "?i \<in> set (tr_live tr)" using k(2) by simp
  then obtain s p q where old: "order_map ?b ?i = Some (s, p, q)" using all by (auto simp: all_resting_def)
  have q: "unat ?q < 2 ^ 63" using small_draw [of 100 d2] by simp
  obtain b' where b': "modifyOrder ?b ?i ?q = Some (b', True)" "api_inv b'"
    "order_map b' = (order_map ?b)(?i \<mapsto> (s, p, ?q))" "inRange b' = inRange ?b"
    using book.requantify_sets [OF inv q old] by blast
  obtain sys where sys: "m_modifyOrder clock (tr_sys tr) ?i ?q = Some (sys, True)" "mb_book sys = b'" "recorded 1 (tr_sys tr) sys"
    using scope_recorded [of "\<lambda>b. modifyOrder b ?i ?q" "tr_sys tr" b' True clock Op_Modify] b'(1) ok(2)
    by (auto simp: m_modifyOrder_def)
  have run: "random_modify clock d1 d2 tr = Some (tr\<lparr>tr_sys := sys\<rparr>)" using k sys(1) by (simp add: random_modify_def)
  have dom: "dom (order_map b') = dom (order_map ?b)" using old by (auto simp: b'(3))
  have "if s = BUY then p < MID else MID < p" using ok(1) old unfolding trader_ok_def banded_def by blast
  then have band: "banded b'" using ok(1) by (intro banded_update(1) [OF _ b'(3)]) (simp_all add: trader_ok_def)
  obtain m where m: "m \<le> n" "next_order_id ?b = of_nat (Suc m)" "\<forall>i \<in> set (tr_live tr). 0 < unat i \<and> unat i \<le> m"
    by (rule trader_okD [OF ok(1)])
  have nid: "next_order_id b' = of_nat (Suc m)" using next_id_kept(3) [OF b'(1)] m(2) by simp
  have "trader_ok (Suc n) (tr\<lparr>tr_sys := sys\<rparr>)"
    unfolding trader_ok_def using ok(1) b'(2,4) band sys(2) m nid dom
    by (intro conjI exI [of _ m]) (auto simp: trader_ok_def)
  moreover have "all_resting (tr\<lparr>tr_sys := sys\<rparr>)" using all sys(2) dom by (simp add: all_resting_def)
  ultimately show ?thesis using run sys(3) by (simp add: trades_on_def)
qed

section \<open>What the invariant says of the book\<close>

lemma view_order_map:
  assumes "api_inv b" "e \<in> set (view b s)"
  shows "order_map b (e_id e) = Some (s, e_price e, e_qty e)"
proof -
  from assms(1) obtain Q where rep: "book_rep b Q" by (auto simp: api_inv_def book_wf_def)
  obtain a i where a: "e = entry_of (mem b) a" "a \<in> set (Q s i)"
    using assms(2) unfolding view_rep [OF rep] set_flat by blast
  obtain x where x: "load (mem b) a = Some x" "o_side x = s" using book_rep_queued [OF rep a(2)] by blast
  then have "orders b (o_id x) = Some a" using book_rep_orders [OF rep] by blast
  then show ?thesis using x by (simp add: a(1) order_map_def)
qed

lemma order_map_view:
  assumes "api_inv b" "order_map b i = Some (s, p, q)"
  shows "p \<in> e_price ` set (view b s)"
proof -
  from assms(1) obtain Q where rep: "book_rep b Q" by (auto simp: api_inv_def book_wf_def)
  obtain a x where x: "orders b i = Some a" "load (mem b) a = Some x" "o_side x = s" "o_price x = p"
    using assms(2) by (auto simp: order_map_def split: option.splits)
  obtain k where "a \<in> set (Q s k)" "k < num_levels b" using book_rep_live [OF rep x(2)] x(3) by blast
  then have "entry_of (mem b) a \<in> set (view b s)" unfolding view_rep [OF rep] set_flat by blast
  then show ?thesis using x by force
qed

lemma banded_view:
  "api_inv b \<Longrightarrow> banded b \<longleftrightarrow> (\<forall>s. \<forall>p \<in> e_price ` set (view b s). if s = BUY then p < MID else MID < p)"
  unfolding banded_def using view_order_map order_map_view by fastforce

lemma banded_uncrossed: "api_inv b \<Longrightarrow> banded b \<Longrightarrow> uncrossed b"
proof (unfold uncrossed_def, intro ballI)
  fix x y assume b: "api_inv b" "banded b" and xy: "x \<in> set (view b BUY)" "y \<in> set (view b SELL)"
  note m = view_order_map [OF b(1) xy(1)] view_order_map [OF b(1) xy(2)]
  have "e_price x < MID" "MID < e_price y" using b(2) m unfolding banded_def by fastforce+
  then show "e_price x < e_price y" by simp
qed

lemma card_order_map:
  assumes "book_rep b Q"
  shows "card (dom (order_map b)) = card (live (mem b))"
proof -
  have "bij_betw (\<lambda>i. the (orders b i)) (dom (orders b)) (live (mem b))"
  proof (rule bij_betw_imageI)
    show "inj_on (\<lambda>i. the (orders b i)) (dom (orders b))"
      using book_rep_orders [OF assms] by (intro inj_onI) (force simp: dom_def)
    show "(\<lambda>i. the (orders b i)) ` dom (orders b) = live (mem b)"
      using book_rep_orders [OF assms] by (force simp: in_live image_iff dom_def)
  qed
  moreover have "dom (order_map b) = dom (orders b)" using order_map_None [OF assms] by (auto simp: dom_def)
  ultimately show ?thesis by (simp add: bij_betw_same_card)
qed

lemma total_orders_map:
  assumes "api_inv b"
  shows "getTotalOrders b = of_nat (card (dom (order_map b)))"
proof -
  from assms obtain Q where rep: "book_rep b Q" by (auto simp: api_inv_def book_wf_def)
  show ?thesis using book_rep_total [OF rep] card_order_map [OF rep] by (simp add: getTotalOrders_def)
qed

text \<open>The book holds exactly the orders of the vector, each once, and counts them.\<close>

definition holds_live :: "trader \<Rightarrow> bool" where
  "holds_live tr \<longleftrightarrow> distinct (tr_live tr) \<and> dom (order_map (mb_book (tr_sys tr))) = set (tr_live tr)
     \<and> getTotalOrders (mb_book (tr_sys tr)) = of_nat (length (tr_live tr))"

lemma trader_book:
  assumes "trader_ok n tr"
  shows "uncrossed (mb_book (tr_sys tr))" "book_wf (mb_book (tr_sys tr))" "length (tr_live tr) \<le> 2 ^ 15 + 1"
    "all_resting tr \<Longrightarrow> holds_live tr"
proof -
  have inv: "api_inv (mb_book (tr_sys tr))" "banded (mb_book (tr_sys tr))" using assms by (simp_all add: trader_ok_def)
  show "uncrossed (mb_book (tr_sys tr))" by (rule banded_uncrossed [OF inv])
  show "book_wf (mb_book (tr_sys tr))" using inv(1) by (simp add: api_inv_def)
  show "length (tr_live tr) \<le> 2 ^ 15 + 1" using assms by (simp add: trader_ok_def)
  assume "all_resting tr"
  then have "dom (order_map (mb_book (tr_sys tr))) = set (tr_live tr)" using assms by (auto simp: trader_ok_def all_resting_def)
  then show "holds_live tr"
    using total_orders_map [OF inv(1)] assms by (simp add: holds_live_def trader_ok_def distinct_card)
qed

text \<open>The state a demo starts in: an empty book for prices 1 to 200000.\<close>

lemma new_trader_ok:
  assumes "mk_book 1 200000 cap = Some b"
  shows "trader_ok n \<lparr>tr_sys = \<lparr>mb_book = b, mb_rec = r, mb_ticks = t\<rparr>, tr_live = []\<rparr>"
    "all_resting \<lparr>tr_sys = \<lparr>mb_book = b, mb_rec = r, mb_ticks = t\<rparr>, tr_live = []\<rparr>"
proof -
  have "reachable b" by (rule reachable.new [OF assms]) (simp_all add: int64_range_def)
  then have inv: "api_inv b" by (rule reachable_inv)
  have "orders b = Map.empty" "next_order_id b = 1" "inRange b = (\<lambda>p. 1 \<le> p \<and> p \<le> 200000)"
    using assms by (auto simp: mk_book_def Let_def inRange_def split: if_splits)
  then show "trader_ok n \<lparr>tr_sys = \<lparr>mb_book = b, mb_rec = r, mb_ticks = t\<rparr>, tr_live = []\<rparr>"
    "all_resting \<lparr>tr_sys = \<lparr>mb_book = b, mb_rec = r, mb_ticks = t\<rparr>, tr_live = []\<rparr>"
    using inv by (auto simp: trader_ok_def all_resting_def order_map_def banded_def dom_def intro!: exI [of _ 0])
qed

end
