(* ===== verification/Demo_Engine.thy ===== *)
theory Demo_Engine
  imports Demo_Trader Udp_Publisher
begin

text \<open>
  \<^verbatim>\<open>metrics/engine_metrics_demo.cpp\<close> and \<^verbatim>\<open>metrics/udp_publish_demo.cpp\<close>: a hot thread churns the order book with a
  recorder attached while the aggregator drains the ring. For each iteration the value of the run flag, the draws and
  the clock reading are an input; the time stamp counter is a stream.
\<close>

section \<open>The hot loop\<close>

record hot_input =
  in_run :: bool
  in_draws :: "nat \<Rightarrow> u64"
  in_now :: u64

record demo_thread =
  dt_trader :: trader
  dt_i :: u64
  dt_running :: bool

record engine_thread = demo_thread +
  et_p :: u64
  et_produced :: u64

definition churn :: "(nat \<Rightarrow> u64) \<Rightarrow> (nat \<Rightarrow> u64) \<Rightarrow> trader \<Rightarrow> trader option" where
  "churn clock d tr =
     (let r = d 0 mod 100; force_cancel = length (tr_live tr) > 2 ^ 15
      in if \<not> force_cancel \<and> (tr_live tr = [] \<or> r < 55) then banded_add clock 20 100 (d 1) (d 2) (d 3) tr
         else if force_cancel \<or> r < 80 then random_cancel clock (d 1) tr
         else random_modify clock (d 1) (d 2) tr)"

definition quote_due :: "u64 \<Rightarrow> u64 \<Rightarrow> bool" where
  "quote_due every i \<longleftrightarrow> i mod every = 0"

definition hot_quote :: "(nat \<Rightarrow> u64) \<Rightarrow> u64 \<Rightarrow> u64 \<Rightarrow> trader \<Rightarrow> trader option" where
  "hot_quote clock every i tr =
     (if quote_due every i then do { sys \<leftarrow> record_quote clock (tr_sys tr); Some (tr\<lparr>tr_sys := sys\<rparr>) } else Some tr)"

definition attach :: "recorder \<Rightarrow> trader \<Rightarrow> trader" where
  "attach r tr = tr\<lparr>tr_sys := setMetrics (Some r) (tr_sys tr)\<rparr>"

definition engine_stop :: "engine_thread \<Rightarrow> engine_thread" where
  "engine_stop st = st\<lparr>dt_running := False, et_produced := et_p st\<rparr>"

definition engine_iteration ::
    "(nat \<Rightarrow> u64) \<Rightarrow> u64 \<Rightarrow> hot_input \<Rightarrow> engine_thread \<Rightarrow> recorder \<Rightarrow> (engine_thread \<times> recorder) option" where
  "engine_iteration clock dl x st r =
     (if \<not> dt_running st then Some (st, r)
      else if \<not> in_run x then Some (engine_stop st, r)
      else do {
        tr \<leftarrow> churn clock (in_draws x) (attach r (dt_trader st));
        let p = et_p st + 1;
        tr \<leftarrow> hot_quote clock 1000 (dt_i st) tr;
        let p = (if quote_due 1000 (dt_i st) then p + 1 else p);
        let i = dt_i st + 1;
        r \<leftarrow> mb_rec (tr_sys tr);
        let st = st\<lparr>dt_trader := tr, dt_i := i, et_p := p\<rparr>;
        Some (if deadline_passed dl i (in_now x) then engine_stop st else st, r)
      })"

definition start_trader :: "order_book \<Rightarrow> trader" where
  "start_trader b = \<lparr>tr_sys = \<lparr>mb_book = b, mb_rec = None, mb_ticks = 0\<rparr>, tr_live = []\<rparr>"

definition engine_start :: "order_book \<Rightarrow> engine_thread" where
  "engine_start b = \<lparr>dt_trader = start_trader b, dt_i = 0, dt_running = True, et_p = 0, et_produced = 0\<rparr>"

text \<open>
  \<open>main\<close>: both threads, the joins and the self-check, with the exit code. A hot thread that has not
  ended is never joined.
\<close>

definition engine_main ::
    "u64 \<Rightarrow> (nat \<Rightarrow> u64) \<Rightarrow> double \<Rightarrow> u64 \<Rightarrow> u64 \<Rightarrow> hot_input schedule \<Rightarrow> u64 \<Rightarrow> (engine_thread \<times> pipeline \<times> int) option" where
  "engine_main hz clock secs t_hot t_start turns t_end = do {
     dl \<leftarrow> hot_deadline secs t_hot;
     b \<leftarrow> mk_book 1 200000 65536;
     a \<leftarrow> mk_aggregator (ns_per_tick hz) (d_of_int 5);
     (st, pl) \<leftarrow> demo_run (engine_iteration clock dl) (\<lambda>_. None) t_start turns t_end (engine_start b) (mk_recorder 0) a;
     require (\<not> dt_running st);
     let prod = et_produced st;
     let cons = ag_consumed (pl_agg pl);
     let drops = rec_drops (pl_rec pl);
     Some (st, pl, if cons + drops = prod then 0 else 1)
   }"

section \<open>The loop of the UDP demo\<close>

definition udp_iteration ::
    "(nat \<Rightarrow> u64) \<Rightarrow> u64 \<Rightarrow> hot_input \<Rightarrow> demo_thread \<Rightarrow> recorder \<Rightarrow> (demo_thread \<times> recorder) option" where
  "udp_iteration clock dl x st r =
     (if \<not> dt_running st then Some (st, r)
      else if \<not> in_run x then Some (st\<lparr>dt_running := False\<rparr>, r)
      else do {
        tr \<leftarrow> churn clock (in_draws x) (attach r (dt_trader st));
        tr \<leftarrow> hot_quote clock 1000 (dt_i st) tr;
        let i = dt_i st + 1;
        r \<leftarrow> mb_rec (tr_sys tr);
        Some (st\<lparr>dt_trader := tr, dt_i := i, dt_running := \<not> deadline_passed dl i (in_now x)\<rparr>, r)
      })"

text \<open>
  The sink sends every frame; that it does so during the cycle and not after the run makes no difference to
  the aggregator. \<open>None\<close> of a bad host or port is the exit with code 1.
\<close>

primrec send_frames :: "(int \<Rightarrow> address option \<Rightarrow> string \<Rightarrow> int) \<Rightarrow> char list \<Rightarrow> snapshot list \<Rightarrow> udp \<Rightarrow> udp option" where
  "send_frames sendto buf [] u = Some u"
| "send_frames sendto buf (s # ss) u = do { u \<leftarrow> send sendto buf s u; send_frames sendto buf ss u }"

definition udp_main ::
    "u64 \<Rightarrow> (nat \<Rightarrow> u64) \<Rightarrow> double \<Rightarrow> u64 \<Rightarrow> u64 \<Rightarrow> hot_input schedule \<Rightarrow> u64 \<Rightarrow> (int \<Rightarrow> address option \<Rightarrow> string \<Rightarrow> int) \<Rightarrow> char list \<Rightarrow> udp
     \<Rightarrow> (demo_thread \<times> pipeline \<times> udp) option" where
  "udp_main hz clock secs t_hot t_start turns t_end sendto buf u = do {
     require (u_ok u);
     dl \<leftarrow> hot_deadline secs t_hot;
     b \<leftarrow> mk_book 1 200000 65536;
     a \<leftarrow> mk_aggregator (ns_per_tick hz) (d_of_int 5);
     (st, pl) \<leftarrow> demo_run (udp_iteration clock dl) (\<lambda>_. None) t_start turns t_end
       \<lparr>dt_trader = start_trader b, dt_i = 0, dt_running = True\<rparr> (mk_recorder 0) a;
     require (\<not> dt_running st);
     u \<leftarrow> send_frames sendto buf (pl_out pl) u;
     Some (st, pl, u)
   }"

section \<open>An iteration\<close>

lemma attach_ok:
  "trader_ok n (attach r tr) = trader_ok n tr" "all_resting (attach r tr) = all_resting tr"
  "tr_live (attach r tr) = tr_live tr"
  "ring_inv ring_cap (rec_ring r) \<Longrightarrow> with_recorder (tr_sys (attach r tr))" "mb_rec (tr_sys (attach r tr)) = Some r"
  by (simp_all add: attach_def setMetrics_def trader_ok_def all_resting_def with_recorder_def recorder_ok_def)

lemma trader_ok_Suc: "trader_ok n tr \<Longrightarrow> trader_ok (Suc n) tr"
  unfolding trader_ok_def using le_SucI by blast

lemma churn_works:
  assumes ok: "trader_ok n tr" "with_recorder (tr_sys tr)" and all: "all_resting tr" and n: "n < 2 ^ 62"
  shows "trades_on n (churn clock d) tr"
proof -
  have small: "tr_live tr \<noteq> []" if "length (tr_live tr) > 2 ^ 15" using that by auto
  show ?thesis
    using banded_add_works [OF ok n, of 20 100 clock "d 1" "d 2" "d 3"] random_cancel_works [OF ok, of clock "d 1"]
      random_modify_works [OF ok _ all, of clock "d 1" "d 2"] small
    by (auto simp: trades_on_def churn_def Let_def)
qed

lemma hot_quote_works:
  assumes "with_recorder (tr_sys tr)" "narrow (mb_book (tr_sys tr))"
  shows "\<exists>tr'. hot_quote clock every i tr = Some tr' \<and> trader_ok n tr' = trader_ok n tr \<and> all_resting tr' = all_resting tr
    \<and> recorded (if quote_due every i then 1 else 0) (tr_sys tr) (tr_sys tr')"
proof (cases "quote_due every i")
  case True
  obtain sys where "record_quote clock (tr_sys tr) = Some sys" "mb_book sys = mb_book (tr_sys tr)" "recorded 1 (tr_sys tr) sys"
    using record_quote_works [OF assms] by blast
  then show ?thesis using True by (simp add: hot_quote_def trader_ok_def all_resting_def)
qed (use recorded_none [OF assms(1)] in \<open>simp add: hot_quote_def\<close>)

lemma hot_body_works:
  assumes ok: "trader_ok n tr" "all_resting tr" and n: "n < 2 ^ 62" and r: "ring_inv ring_cap (rec_ring r)"
  shows "\<exists>tr1 tr2 r' cs. churn clock d (attach r tr) = Some tr1 \<and> hot_quote clock every i tr1 = Some tr2
    \<and> trader_ok (Suc n) tr2 \<and> all_resting tr2 \<and> mb_rec (tr_sys tr2) = Some r' \<and> record_calls cs r = Some r'
    \<and> length cs = (if quote_due every i then 2 else 1) \<and> list_all call_spread cs"
proof -
  obtain tr1 where 1: "churn clock d (attach r tr) = Some tr1" "trader_ok (Suc n) tr1"
    "recorded 1 (tr_sys (attach r tr)) (tr_sys tr1)" "all_resting tr1"
    using churn_works [of n "attach r tr" clock d] ok n r by (auto simp: attach_ok trades_on_def)
  obtain tr2 where 2: "hot_quote clock every i tr1 = Some tr2" "trader_ok (Suc n) tr2" "all_resting tr2"
    "recorded (if quote_due every i then 1 else 0) (tr_sys tr1) (tr_sys tr2)"
    using hot_quote_works [OF recorded_on [OF 1(3)] trader_narrow [OF 1(2)], of clock every i "Suc n"] 1(2,4) by auto
  note 3 = recorded_trans [OF 1(3) 2(4)]
  obtain r' cs where "mb_rec (tr_sys tr2) = Some r'" "record_calls cs r = Some r'" "length cs = (if quote_due every i then 2 else 1)"
    "list_all call_spread cs" using 3 by (auto simp: recorded_def attach_ok)
  then show ?thesis using 1 2 by blast
qed

section \<open>Both demos keep the contract of a hot thread\<close>

definition engine_ok :: "nat \<Rightarrow> engine_thread \<Rightarrow> bool" where
  "engine_ok n st \<longleftrightarrow> trader_ok n (dt_trader st) \<and> all_resting (dt_trader st) \<and> (dt_running st \<or> et_produced st = et_p st)"

definition engine_emits :: "engine_thread \<Rightarrow> engine_thread \<Rightarrow> recording list \<Rightarrow> bool" where
  "engine_emits st st' cs \<longleftrightarrow> et_p st' = et_p st + of_nat (length cs) \<and> list_all call_spread cs"

lemma engine_iteration_works:
  assumes ok: "engine_ok n st" and n: "n < 2 ^ 62" and r: "ring_inv ring_cap (rec_ring r)"
  shows "\<exists>st' r' cs. engine_iteration clock dl x st r = Some (st', r') \<and> engine_ok (Suc n) st' \<and> record_calls cs r = Some r'
    \<and> engine_emits st st' cs \<and> length cs \<le> 2"
proof (cases "dt_running st \<and> in_run x")
  case False
  then show ?thesis using ok trader_ok_Suc [of n "dt_trader st"]
    by (auto simp: engine_iteration_def engine_stop_def engine_ok_def engine_emits_def intro!: exI [of _ "[]"])
next
  case True
  obtain tr1 tr2 r' cs where w: "churn clock (in_draws x) (attach r (dt_trader st)) = Some tr1"
    "hot_quote clock 1000 (dt_i st) tr1 = Some tr2" "trader_ok (Suc n) tr2" "all_resting tr2"
    "mb_rec (tr_sys tr2) = Some r'" "record_calls cs r = Some r'" "length cs = (if quote_due 1000 (dt_i st) then 2 else 1)"
    "list_all call_spread cs" using hot_body_works [of n "dt_trader st" r clock "in_draws x" 1000 "dt_i st"] ok n r by (auto simp: engine_ok_def)
  show ?thesis using True w
    by (auto simp: engine_iteration_def engine_stop_def engine_ok_def engine_emits_def Let_def intro!: exI [of _ cs])
qed

lemma engine_stops:
  "engine_iteration clock dl x st r = Some (st', r') \<Longrightarrow> \<not> in_run x \<or> \<not> dt_running st \<Longrightarrow> \<not> dt_running st'"
  by (auto simp: engine_iteration_def engine_stop_def split: if_splits)

interpretation engine: hot_thread "engine_iteration clock dl" "\<lambda>_. None" engine_ok engine_emits "\<lambda>x. \<not> in_run x"
    "\<lambda>st. \<not> dt_running st" "2 ^ 62" 2 "\<lambda>_. True" for clock dl
proof
  fix n st x and r :: recorder assume "engine_ok n st" "n < 2 ^ 62" "ring_inv ring_cap (rec_ring r)"
  then show "\<exists>st' r' cs. engine_iteration clock dl x st r = Some (st', r') \<and> engine_ok (Suc n) st' \<and> record_calls cs r = Some r'
    \<and> engine_emits st st' cs \<and> length cs \<le> 2" by (rule engine_iteration_works)
next
  fix x st st' and r r' :: recorder assume "engine_iteration clock dl x st r = Some (st', r')" "\<not> in_run x \<or> \<not> dt_running st"
  then show "\<not> dt_running st'" by (rule engine_stops)
qed (simp_all add: engine_emits_def)

definition udp_ok :: "nat \<Rightarrow> demo_thread \<Rightarrow> bool" where
  "udp_ok n st \<longleftrightarrow> trader_ok n (dt_trader st) \<and> all_resting (dt_trader st)"

lemma udp_iteration_works:
  assumes ok: "udp_ok n st" and n: "n < 2 ^ 62" and r: "ring_inv ring_cap (rec_ring r)"
  shows "\<exists>st' r' cs. udp_iteration clock dl x st r = Some (st', r') \<and> udp_ok (Suc n) st' \<and> record_calls cs r = Some r'
    \<and> list_all call_spread cs \<and> length cs \<le> 2"
proof (cases "dt_running st \<and> in_run x")
  case False
  then show ?thesis using ok trader_ok_Suc [of n "dt_trader st"]
    by (auto simp: udp_iteration_def udp_ok_def intro!: exI [of _ "[]"])
next
  case True
  obtain tr1 tr2 r' cs where w: "churn clock (in_draws x) (attach r (dt_trader st)) = Some tr1"
    "hot_quote clock 1000 (dt_i st) tr1 = Some tr2" "trader_ok (Suc n) tr2" "all_resting tr2"
    "mb_rec (tr_sys tr2) = Some r'" "record_calls cs r = Some r'" "length cs = (if quote_due 1000 (dt_i st) then 2 else 1)"
    "list_all call_spread cs" using hot_body_works [of n "dt_trader st" r clock "in_draws x" 1000 "dt_i st"] ok n r by (auto simp: udp_ok_def)
  then show ?thesis using True by (auto simp: udp_iteration_def udp_ok_def Let_def intro!: exI [of _ cs])
qed

interpretation udp_demo: hot_thread "udp_iteration clock dl" "\<lambda>_. None" udp_ok "\<lambda>_ _. list_all call_spread" "\<lambda>x. \<not> in_run x"
    "\<lambda>st. \<not> dt_running st" "2 ^ 62" 2 "\<lambda>_. True" for clock dl
proof
  fix n st x and r :: recorder assume "udp_ok n st" "n < 2 ^ 62" "ring_inv ring_cap (rec_ring r)"
  from udp_iteration_works [OF this, of clock dl x]
  show "\<exists>st' r' cs. udp_iteration clock dl x st r = Some (st', r') \<and> udp_ok (Suc n) st' \<and> record_calls cs r = Some r'
    \<and> list_all call_spread cs \<and> length cs \<le> 2" .
qed (auto simp: udp_iteration_def split: if_splits)

section \<open>The demos end with their accounts in order\<close>

lemma demo_aggregator: "\<exists>a. mk_aggregator ns (d_of_int 5) = Some a"
proof -
  have "render_interval (d_of_int 5) \<noteq> None" by code_simp
  then show ?thesis by (auto simp: mk_aggregator_def)
qed

lemma demo_book: "\<exists>b. mk_book 1 200000 65536 = Some b"
  by (simp add: mk_book_def int64_range_def Let_def)

lemma engine_exit:
  "engine_main hz clock secs t_hot t_start turns t_end = Some (st, pl, 0) \<Longrightarrow>
     et_produced st = ag_consumed (pl_agg pl) + rec_drops (pl_rec pl)"
  by (auto simp: engine_main_def Let_def split: if_splits)

lemma engine_main_works:
  assumes stop: "\<exists>x \<in> set (inputs_of turns). \<not> in_run x" and secs: "val secs \<le> 1000000000" and n: "length (inputs_of turns) < 2 ^ 61"
  shows "\<exists>st pl. engine_main hz clock secs t_hot t_start turns t_end = Some (st, pl, 0)
    \<and> ring_contents ring_cap (rec_ring (pl_rec pl)) = [] \<and> book_wf (mb_book (tr_sys (dt_trader st)))
    \<and> uncrossed (mb_book (tr_sys (dt_trader st)))
    \<and> holds_live (dt_trader st) \<and> (\<forall>s \<in> set (pl_out pl). spread_ok s)
    \<and> length (tr_live (dt_trader st)) \<le> 2 ^ 15 + 1"
proof -
  obtain dl where dl: "hot_deadline secs t_hot = Some dl" using hot_deadline_defined [OF secs] by blast
  obtain a where a: "mk_aggregator (ns_per_tick hz) (d_of_int 5) = Some a" using demo_aggregator by blast
  obtain b where b: "mk_book 1 200000 65536 = Some b" using demo_book by blast
  have start: "engine_ok 0 (engine_start b)"
    using new_trader_ok [OF b] by (simp add: engine_ok_def engine_start_def start_trader_def)
  obtain st pl cs es d where run: "demo_run (engine_iteration clock dl) (\<lambda>_. None) t_start turns t_end (engine_start b)
      (mk_recorder 0) a = Some (st, pl)" "engine_ok (length (inputs_of turns)) st" "engine_emits (engine_start b) st cs"
    "settled 0 cs pl es d" "\<not> dt_running st"
    using engine.demo_accounts [OF a start, where turns = turns and t_start = t_start and t_end = t_end and clock = clock and dl = dl] n stop by auto
  have p: "et_produced st = of_nat (length cs)"
    using run(2,3,5) by (simp add: engine_ok_def engine_emits_def engine_start_def)
  have tr: "trader_ok (length (inputs_of turns)) (dt_trader st)" "all_resting (dt_trader st)"
    using run(2) by (simp_all add: engine_ok_def)
  have "engine_main hz clock secs t_hot t_start turns t_end = Some (st, pl, 0)"
    using run(5) settled_counts [OF run(4)] p by (simp add: engine_main_def dl a b run(1) Let_def)
  moreover have "\<forall>s \<in> set (pl_out pl). spread_ok s" using settled_spread [OF run(4)] run(3) by (simp add: engine_emits_def)
  ultimately show ?thesis using run(4) trader_book [OF tr(1)] tr(2) unfolding settled_def by blast
qed

text \<open>Every frame is sent or counted as an error.\<close>

lemma send_frames_works:
  assumes "length buf = 4096"
  shows "u_ok u \<Longrightarrow> \<forall>s \<in> set ss. snapshot_ok s \<and> spread_ok s \<Longrightarrow>
     \<exists>u'. send_frames sendto buf ss u = Some u' \<and> u_ok u' \<and> u_sent u' + u_errors u' = u_sent u + u_errors u + of_nat (length ss)"
proof (induction ss arbitrary: u)
  case (Cons s ss)
  obtain t where "json_text s = Some t" using json_text_defined [of s] Cons.prems(2) by auto
  from send_text [OF this assms Cons.prems(1), of sendto] obtain u1 where
    u1: "send sendto buf s u = Some u1" "u_ok u1" "u_sent u1 + u_errors u1 = u_sent u + u_errors u + 1"
    using Cons.prems(1) by (auto split: if_splits)
  from Cons.IH [OF u1(2)] Cons.prems(2) obtain u' where
    "send_frames sendto buf ss u1 = Some u'" "u_ok u'"
    "u_sent u' + u_errors u' = u_sent u1 + u_errors u1 + of_nat (length ss)" by auto
  then show ?case using u1 by (simp add: algebra_simps)
qed simp

lemma udp_run_works:
  fixes turns :: "hot_input schedule"
  assumes "\<exists>x \<in> set (inputs_of turns). \<not> in_run x" "length (inputs_of turns) < 2 ^ 61" "mk_book 1 200000 65536 = Some b"
    "mk_aggregator ns hz = Some a"
  shows "\<exists>st pl cs es d. demo_run (udp_iteration clock dl) (\<lambda>_. None) t_start turns t_end
      \<lparr>dt_trader = start_trader b, dt_i = 0, dt_running = True\<rparr> (mk_recorder 0) a = Some (st, pl)
    \<and> settled 0 cs pl es d \<and> \<not> dt_running st \<and> uncrossed (mb_book (tr_sys (dt_trader st)))
    \<and> (\<forall>s \<in> set (pl_out pl). snapshot_ok s \<and> spread_ok s)"
proof -
  let ?st = "\<lparr>dt_trader = start_trader b, dt_i = 0, dt_running = True\<rparr>"
  have start: "udp_ok 0 ?st" using new_trader_ok [OF assms(3)] by (simp add: udp_ok_def start_trader_def)
  obtain st pl cs es d where run: "demo_run (udp_iteration clock dl) (\<lambda>_. None) t_start turns t_end ?st (mk_recorder 0) a
      = Some (st, pl)" "udp_ok (length (inputs_of turns)) st" "settled 0 cs pl es d" "\<not> dt_running st"
    "list_all call_spread cs" using udp_demo.demo_accounts [OF assms(4) start, where turns = turns and t_start = t_start and t_end = t_end
        and clock = clock and dl = dl] assms(1,2) by auto
  have "\<forall>s \<in> set (pl_out pl). snapshot_ok s \<and> spread_ok s" using settled_frames [OF run(3,5)] by blast
  moreover have "uncrossed (mb_book (tr_sys (dt_trader st)))" using run(2) trader_book(1) by (auto simp: udp_ok_def)
  ultimately show ?thesis using run by blast
qed

lemma udp_main_works:
  assumes stop: "\<exists>x \<in> set (inputs_of turns). \<not> in_run x" and secs: "val secs \<le> 1000000000" and n: "length (inputs_of turns) < 2 ^ 61"
    and buf: "length buf = 4096" and u: "u_ok u" "u_sent u = 0" "u_errors u = 0"
  shows "\<exists>st pl u' cs es d. udp_main hz clock secs t_hot t_start turns t_end sendto buf u = Some (st, pl, u')
    \<and> u_sent u' + u_errors u' = of_nat (length (pl_out pl)) \<and> settled 0 cs pl es d \<and> uncrossed (mb_book (tr_sys (dt_trader st)))"
proof -
  obtain dl where dl: "hot_deadline secs t_hot = Some dl" using hot_deadline_defined [OF secs] by blast
  obtain a where a: "mk_aggregator (ns_per_tick hz) (d_of_int 5) = Some a" using demo_aggregator by blast
  obtain b where b: "mk_book 1 200000 65536 = Some b" using demo_book by blast
  obtain st pl cs es d where run: "demo_run (udp_iteration clock dl) (\<lambda>_. None) t_start turns t_end
      \<lparr>dt_trader = start_trader b, dt_i = 0, dt_running = True\<rparr> (mk_recorder 0) a = Some (st, pl)"
    "settled 0 cs pl es d" "\<not> dt_running st" "uncrossed (mb_book (tr_sys (dt_trader st)))" "\<forall>s \<in> set (pl_out pl). snapshot_ok s \<and> spread_ok s"
    using udp_run_works [OF stop n b a] by blast
  from send_frames_works [OF buf u(1) run(5), of sendto] obtain u' where
    "send_frames sendto buf (pl_out pl) u = Some u'" "u_sent u' + u_errors u' = of_nat (length (pl_out pl))" by (auto simp: u)
  then show ?thesis using run(2-4)
    by (intro exI [of _ st] exI [of _ pl] exI [of _ u'] exI [of _ cs] exI [of _ es] exI [of _ d])
      (simp add: udp_main_def dl u(1) a b run(1))
qed

end
