(* ===== verification/Feed_Metrics.thy ===== *)
theory Feed_Metrics
  imports Demo_Engine Book_Replay
begin

text \<open>
  \<^verbatim>\<open>metrics/itch_metrics_replay.cpp\<close>: the replay of a capture on a book with a recorder attached, optionally paced by
  the time stamps of the feed, with the aggregator on the other side of the ring. The handlers are those of \<^verbatim>\<open>include/book_replay.hpp\<close>
  on the metered book.
\<close>

section \<open>The replay on the metered book\<close>

record feed_replay =
  fr_sys :: metered
  fr_counts :: replay

text \<open>The counters and the symbol are those of \<open>replay\<close>, whose book is that of the metered book.\<close>

definition plain :: "feed_replay \<Rightarrow> replay" where
  "plain f = (fr_counts f)\<lparr>r_book := mb_book (fr_sys f)\<rparr>"

definition m_onAdd :: "(nat \<Rightarrow> u64) \<Rightarrow> message \<Rightarrow> feed_replay \<Rightarrow> feed_replay option" where
  "m_onAdd clock m f =
     (if \<not> isTarget (fr_counts f) m then Some f
      else do {
        let sd = (if m_side m = 66 then BUY else SELL);
        (sys, i) \<leftarrow> m_addOrder clock (fr_sys f) sd (toCents (m_price m)) (ucast (m_shares m)) (m_orderRef m);
        let r = fr_counts f;
        Some \<lparr>fr_sys = sys, fr_counts = (if i \<noteq> 0 then r\<lparr>r_added := r_added r + 1\<rparr> else r)\<rparr>
      })"

definition m_onDelete :: "(nat \<Rightarrow> u64) \<Rightarrow> order_id \<Rightarrow> feed_replay \<Rightarrow> feed_replay option" where
  "m_onDelete clock ref f =
     (if getOrder (mb_book (fr_sys f)) ref \<noteq> None then do {
        (sys, _) \<leftarrow> m_cancelOrder clock (fr_sys f) ref;
        let r = fr_counts f;
        Some \<lparr>fr_sys = sys, fr_counts = r\<lparr>r_deleted := r_deleted r + 1\<rparr>\<rparr>
      } else Some f)"

definition m_onReduce :: "(nat \<Rightarrow> u64) \<Rightarrow> order_id \<Rightarrow> u32 \<Rightarrow> feed_replay \<Rightarrow> feed_replay option" where
  "m_onReduce clock ref shares f = (case getOrder (mb_book (fr_sys f)) ref of
       None \<Rightarrow> Some f
     | Some a \<Rightarrow> do {
         x \<leftarrow> load (mem (mb_book (fr_sys f))) a;
         (sys, _) \<leftarrow> (if o_quantity x > ucast shares
                      then m_modifyOrder clock (fr_sys f) ref (o_quantity x - ucast shares)
                      else m_cancelOrder clock (fr_sys f) ref);
         let r = fr_counts f;
         Some \<lparr>fr_sys = sys, fr_counts = r\<lparr>r_reduced := r_reduced r + 1\<rparr>\<rparr>
       })"

definition m_onReplace :: "(nat \<Rightarrow> u64) \<Rightarrow> message \<Rightarrow> feed_replay \<Rightarrow> feed_replay option" where
  "m_onReplace clock m f = (case getOrder (mb_book (fr_sys f)) (m_orderRef m) of
       None \<Rightarrow> Some f
     | Some a \<Rightarrow> do {
         x \<leftarrow> load (mem (mb_book (fr_sys f))) a;
         let sd = o_side x;
         (sys, _) \<leftarrow> m_cancelOrder clock (fr_sys f) (m_orderRef m);
         (sys, i) \<leftarrow> m_addOrder clock sys sd (toCents (m_price m)) (ucast (m_shares m)) (m_newOrderRef m);
         let r = fr_counts f;
         Some \<lparr>fr_sys = sys, fr_counts = (if i \<noteq> 0 then r\<lparr>r_replaced := r_replaced r + 1\<rparr> else r)\<rparr>
       })"

definition m_onMessage :: "(nat \<Rightarrow> u64) \<Rightarrow> message \<Rightarrow> feed_replay \<Rightarrow> feed_replay option" where
  "m_onMessage clock m f = do {
     f \<leftarrow> (if m_type m = 65 \<or> m_type m = 70 then m_onAdd clock m f
          else if m_type m = 68 then m_onDelete clock (m_orderRef m) f
          else if m_type m = 88 then m_onReduce clock (m_orderRef m) (m_shares m) f
          else if m_type m = 69 \<or> m_type m = 67 then m_onReduce clock (m_orderRef m) (m_shares m) f
          else if m_type m = 85 then m_onReplace clock m f
          else Some f);
     let r = fr_counts f;
     Some (f\<lparr>fr_counts := r\<lparr>r_seen := r_seen r + 1\<rparr>\<rparr>)
   }"

text \<open>
  The operations of the book that a message calls, each of which the recorder is told of: \<open>target\<close> for a message of the
  symbol and \<open>known\<close> for a reference that rests.
\<close>

definition message_calls :: "bool \<Rightarrow> bool \<Rightarrow> message \<Rightarrow> nat" where
  "message_calls target known m =
     (if m_type m \<in> {65, 70} then (if target then 1 else 0)
      else if m_type m \<in> {68, 88, 69, 67} then (if known then 1 else 0)
      else if m_type m = 85 then (if known then 2 else 0)
      else 0)"

lemma message_calls_le: "message_calls target known m \<le> 2"
  by (simp add: message_calls_def)

text \<open>
  \<open>follows k g r f\<close>: where the plain handler takes \<open>r\<close> to a replay, the metered handler \<open>g\<close> takes \<open>f\<close> to the same
  and records exactly \<open>k\<close> operations.
\<close>

definition follows :: "nat \<Rightarrow> feed_replay option \<Rightarrow> replay option \<Rightarrow> feed_replay \<Rightarrow> bool" where
  "follows k g r f \<longleftrightarrow> (\<forall>r'. r = Some r' \<longrightarrow> (\<exists>f'. g = Some f' \<and> plain f' = r' \<and> recorded k (fr_sys f) (fr_sys f')))"

lemma plain_fields [simp]:
  "r_book (plain f) = mb_book (fr_sys f)" "isTarget (plain f) m = isTarget (fr_counts f) m"
  by (simp_all add: plain_def isTarget_def)

lemma follows_none: "with_recorder (fr_sys f) \<Longrightarrow> follows 0 (Some f) (Some (plain f)) f"
  using recorded_none by (auto simp: follows_def)

lemma m_calls:
  assumes "with_recorder st"
  shows "addOrder (mb_book st) s p q i = Some (b, j) \<Longrightarrow>
      \<exists>st'. m_addOrder clock st s p q i = Some (st', j) \<and> mb_book st' = b \<and> recorded 1 st st'"
    and "cancelOrder (mb_book st) i = Some (b, y) \<Longrightarrow>
      \<exists>st'. m_cancelOrder clock st i = Some (st', y) \<and> mb_book st' = b \<and> recorded 1 st st'"
    and "modifyOrder (mb_book st) i q = Some (b, y) \<Longrightarrow>
      \<exists>st'. m_modifyOrder clock st i q = Some (st', y) \<and> mb_book st' = b \<and> recorded 1 st st'"
  using scope_recorded [of "\<lambda>b. addOrder b s p q i" st b j clock Op_Add]
    scope_recorded [of "\<lambda>b. cancelOrder b i" st b y clock Op_Cancel]
    scope_recorded [of "\<lambda>b. modifyOrder b i q" st b y clock Op_Modify] assms
  by (simp_all add: m_addOrder_def m_cancelOrder_def m_modifyOrder_def)

lemma followsI:
  "r = Some r' \<Longrightarrow> g = Some f' \<Longrightarrow> plain f' = r' \<Longrightarrow> recorded k (fr_sys f) (fr_sys f') \<Longrightarrow> follows k g r f"
  by (auto simp: follows_def)

lemma followsN: "r = None \<Longrightarrow> follows k g r f"
  by (simp add: follows_def)

lemma m_onAdd_follows:
  assumes on: "with_recorder (fr_sys f)"
  shows "follows (if isTarget (fr_counts f) m then 1 else 0) (m_onAdd clock m f) (onAdd m (plain f)) f"
proof (cases "isTarget (fr_counts f) m")
  case True
  let ?sd = "if m_side m = 66 then BUY else SELL"
  let ?add = "\<lambda>b. addOrder b ?sd (toCents (m_price m)) (ucast (m_shares m)) (m_orderRef m)"
  show ?thesis
  proof (cases "?add (mb_book (fr_sys f))")
    case None
    then show ?thesis using True by (intro followsN) (simp add: onAdd_def Let_def)
  next
    case (Some x)
    obtain b i where b: "?add (mb_book (fr_sys f)) = Some (b, i)" using Some by (cases x) simp
    obtain sys where sys: "m_addOrder clock (fr_sys f) ?sd (toCents (m_price m)) (ucast (m_shares m)) (m_orderRef m) = Some (sys, i)"
      "mb_book sys = b" "recorded 1 (fr_sys f) sys" using m_calls(1) [OF on b, of clock] by blast
    show ?thesis
      by (rule followsI [where f' = "\<lparr>fr_sys = sys,
            fr_counts = (if i \<noteq> 0 then fr_counts f\<lparr>r_added := r_added (fr_counts f) + 1\<rparr> else fr_counts f)\<rparr>"])
        (use True b sys in \<open>simp_all add: onAdd_def m_onAdd_def Let_def plain_def isTarget_def\<close>)
  qed
qed (use follows_none [OF on] in \<open>simp add: m_onAdd_def onAdd_def\<close>)

lemma m_onDelete_follows:
  assumes on: "with_recorder (fr_sys f)"
  shows "follows (if getOrder (mb_book (fr_sys f)) i = None then 0 else 1) (m_onDelete clock i f) (onDelete i (plain f)) f"
proof (cases "getOrder (mb_book (fr_sys f)) i = None")
  case False
  show ?thesis
  proof (cases "cancelOrder (mb_book (fr_sys f)) i")
    case None
    then show ?thesis using False by (intro followsN) (simp add: onDelete_def)
  next
    case (Some x)
    obtain b y where b: "cancelOrder (mb_book (fr_sys f)) i = Some (b, y)" using Some by (cases x) simp
    obtain sys where sys: "m_cancelOrder clock (fr_sys f) i = Some (sys, y)" "mb_book sys = b" "recorded 1 (fr_sys f) sys"
      using m_calls(2) [OF on b, of clock] by blast
    show ?thesis
      by (rule followsI [where f' = "\<lparr>fr_sys = sys, fr_counts = fr_counts f\<lparr>r_deleted := r_deleted (fr_counts f) + 1\<rparr>\<rparr>"])
        (use False b sys in \<open>auto simp: onDelete_def m_onDelete_def Let_def plain_def\<close>)
  qed
qed (use follows_none [OF on] in \<open>simp add: m_onDelete_def onDelete_def\<close>)

lemma m_onReduce_follows:
  assumes on: "with_recorder (fr_sys f)"
  shows "follows (if getOrder (mb_book (fr_sys f)) i = None then 0 else 1) (m_onReduce clock i d f) (onReduce i d (plain f)) f"
proof (cases "getOrder (mb_book (fr_sys f)) i")
  case (Some a)
  show ?thesis
  proof (cases "load (mem (mb_book (fr_sys f))) a")
    case None
    then show ?thesis using Some by (intro followsN) (simp add: onReduce_def)
  next
    case x: (Some x)
    let ?q = "o_quantity x - ucast d"
    let ?plain = "if o_quantity x > ucast d then modifyOrder (mb_book (fr_sys f)) i ?q else cancelOrder (mb_book (fr_sys f)) i"
    let ?metered = "if o_quantity x > ucast d then m_modifyOrder clock (fr_sys f) i ?q else m_cancelOrder clock (fr_sys f) i"
    show ?thesis
    proof (cases "?plain")
      case None
      then show ?thesis using Some x by (intro followsN) (auto simp: onReduce_def split: if_splits)
    next
      case (Some z)
      obtain b y where b: "?plain = Some (b, y)" using Some by (cases z) blast
      obtain sys where sys: "?metered = Some (sys, y)" "mb_book sys = b" "recorded 1 (fr_sys f) sys"
        using m_calls(2) [OF on, of i b y clock] b m_calls(3) [OF on, of i ?q b y clock] by (cases "o_quantity x > ucast d") auto
      note get = \<open>getOrder (mb_book (fr_sys f)) i = Some a\<close>
      have A: "m_onReduce clock i d f = Some \<lparr>fr_sys = sys, fr_counts = fr_counts f\<lparr>r_reduced := r_reduced (fr_counts f) + 1\<rparr>\<rparr>"
        unfolding m_onReduce_def get option.case x by (simp only: Option.bind.bind_lunit sys(1) prod.case Let_def)
      have B: "onReduce i d (plain f) = Some ((plain f)\<lparr>r_book := b, r_reduced := r_reduced (plain f) + 1\<rparr>)"
        unfolding onReduce_def plain_fields get option.case x by (simp only: Option.bind.bind_lunit b prod.case)
      show ?thesis by (rule followsI [OF B A]) (use get sys in \<open>simp_all add: plain_def\<close>)
    qed
  qed
qed (use follows_none [OF on] in \<open>simp add: m_onReduce_def onReduce_def\<close>)

lemma m_onReplace_follows:
  assumes on: "with_recorder (fr_sys f)"
  shows "follows (if getOrder (mb_book (fr_sys f)) (m_orderRef m) = None then 0 else 2) (m_onReplace clock m f) (onReplace m (plain f)) f"
proof (cases "getOrder (mb_book (fr_sys f)) (m_orderRef m)")
  case (Some a)
  let ?add = "\<lambda>b x. addOrder b (o_side x) (toCents (m_price m)) (ucast (m_shares m)) (m_newOrderRef m)"
  show ?thesis unfolding follows_def
  proof (intro allI impI)
    fix r' assume r': "onReplace m (plain f) = Some r'"
    obtain x b1 y b i where x: "load (mem (mb_book (fr_sys f))) a = Some x" "cancelOrder (mb_book (fr_sys f)) (m_orderRef m) = Some (b1, y)"
      "?add b1 x = Some (b, i)" using r' Some by (auto simp: onReplace_def Let_def)
    obtain s1 where s1: "m_cancelOrder clock (fr_sys f) (m_orderRef m) = Some (s1, y)" "mb_book s1 = b1" "recorded 1 (fr_sys f) s1"
      using m_calls(2) [OF on x(2), of clock] by blast
    obtain s2 where s2: "m_addOrder clock s1 (o_side x) (toCents (m_price m)) (ucast (m_shares m)) (m_newOrderRef m) = Some (s2, i)"
      "mb_book s2 = b" "recorded 1 s1 s2"
      using m_calls(1) [OF recorded_on [OF s1(3)], of "o_side x" "toCents (m_price m)" "ucast (m_shares m)" "m_newOrderRef m" b i clock]
        x(3) s1(2) by blast
    let ?f = "\<lparr>fr_sys = s2, fr_counts = (if i \<noteq> 0 then fr_counts f\<lparr>r_replaced := r_replaced (fr_counts f) + 1\<rparr> else fr_counts f)\<rparr>"
    have "m_onReplace clock m f = Some ?f" using Some x(1) s1(1) s2(1) by (simp add: m_onReplace_def Let_def)
    moreover have "plain ?f = r'" using r' Some x s2(2) by (auto simp: onReplace_def Let_def plain_def)
    ultimately show "\<exists>f'. m_onReplace clock m f = Some f' \<and> plain f' = r'
      \<and> recorded (if getOrder (mb_book (fr_sys f)) (m_orderRef m) = None then 0 else 2) (fr_sys f) (fr_sys f')"
      using recorded_trans [OF s1(3) s2(3)] Some by (intro exI [of _ ?f]) (simp add: numeral_2_eq_2)
  qed
qed (use follows_none [OF on] in \<open>simp add: m_onReplace_def onReplace_def\<close>)

text \<open>The metered replay does what the replay does.\<close>

lemma m_onMessage_follows:
  assumes on: "with_recorder (fr_sys f)"
  shows "follows (message_calls (isTarget (fr_counts f) m) (getOrder (mb_book (fr_sys f)) (m_orderRef m) \<noteq> None) m)
    (m_onMessage clock m f) (onMessage m (plain f)) f"
proof -
  have seen: "follows k (do { f \<leftarrow> g; let r = fr_counts f; Some (f\<lparr>fr_counts := r\<lparr>r_seen := r_seen r + 1\<rparr>\<rparr>) })
      (do { r \<leftarrow> h; Some (r\<lparr>r_seen := r_seen r + 1\<rparr>) }) f" if "follows k g h f" for g h k
    using that by (cases h) (auto simp: follows_def plain_def Let_def)
  note w = m_onAdd_follows [OF on, of m clock] m_onDelete_follows [OF on, of "m_orderRef m" clock]
    m_onReduce_follows [OF on, of "m_orderRef m" clock "m_shares m"] m_onReplace_follows [OF on, of m clock] follows_none [OF on]
  consider "m_type m = 65 \<or> m_type m = 70" | "m_type m = 68" | "m_type m = 88" | "m_type m = 69 \<or> m_type m = 67" | "m_type m = 85"
    | "m_type m \<notin> {65, 70, 68, 88, 69, 67, 85}" by blast
  then have "follows (message_calls (isTarget (fr_counts f) m) (getOrder (mb_book (fr_sys f)) (m_orderRef m) \<noteq> None) m)
      (if m_type m = 65 \<or> m_type m = 70 then m_onAdd clock m f
       else if m_type m = 68 then m_onDelete clock (m_orderRef m) f
       else if m_type m = 88 then m_onReduce clock (m_orderRef m) (m_shares m) f
       else if m_type m = 69 \<or> m_type m = 67 then m_onReduce clock (m_orderRef m) (m_shares m) f
       else if m_type m = 85 then m_onReplace clock m f else Some f)
      (if m_type m = 65 \<or> m_type m = 70 then onAdd m (plain f)
       else if m_type m = 68 then onDelete (m_orderRef m) (plain f)
       else if m_type m = 88 then onReduce (m_orderRef m) (m_shares m) (plain f)
       else if m_type m = 69 \<or> m_type m = 67 then onReduce (m_orderRef m) (m_shares m) (plain f)
       else if m_type m = 85 then onReplace m (plain f) else Some (plain f)) f"
    by cases (use w in \<open>auto simp: message_calls_def\<close>)
  then show ?thesis unfolding m_onMessage_def onMessage_def by (rule seen)
qed

section \<open>How many events a replay offers\<close>

text \<open>The operations that the messages call, from the orders \<open>om\<close> on.\<close>

primrec stream_calls :: "u64 \<Rightarrow> (price \<Rightarrow> bool) \<Rightarrow> message list \<Rightarrow> order_store \<Rightarrow> nat" where
  "stream_calls target in_range [] om = 0"
| "stream_calls target in_range (m # ms) om =
     message_calls (pack8 (m_rawStock m) = target) (om (m_orderRef m) \<noteq> None) m
     + stream_calls target in_range ms (apply_message target in_range m om)"

text \<open>The quotes among the next \<open>n\<close> messages, one every \<open>every\<close> of them, when \<open>i\<close> have gone by.\<close>

primrec quotes_due :: "u64 \<Rightarrow> u64 \<Rightarrow> nat \<Rightarrow> nat" where
  "quotes_due every i 0 = 0"
| "quotes_due every i (Suc n) = (if quote_due every (i + 1) then 1 else 0) + quotes_due every (i + 1) n"

lemma quotes_due_div:
  assumes "every \<noteq> 0"
  shows "i + n < 2 ^ 64 \<Longrightarrow> quotes_due every (of_nat i) n + i div unat every = (i + n) div unat every"
proof (induction n arbitrary: i)
  case (Suc n)
  have e: "0 < unat every" using assms by (simp add: unat_gt_0)
  have u: "unat (of_nat (Suc i) :: u64) = Suc i" using Suc.prems by (intro unat_of_nat_u64) simp
  have "quote_due every (of_nat i + 1) \<longleftrightarrow> Suc i mod unat every = 0"
    using u by (simp add: quote_due_def unat_mod_distrib add.commute flip: unat_eq_0)
  moreover have "quotes_due every (of_nat (Suc i)) n + Suc i div unat every = (Suc i + n) div unat every"
    using Suc.IH [of "Suc i"] Suc.prems by simp
  ultimately show ?case using div_Suc [of i "unat every"] by (simp add: add.commute split: if_splits)
qed simp

end
