(* ===== verification/Feed_Run.thy ===== *)
theory Feed_Run
  imports Feed_Metrics
begin

text \<open>
  The pipeline in \<open>main\<close> of \<^verbatim>\<open>metrics/itch_metrics_replay.cpp\<close>: the callback of the parser with its pacing, the periodic quotes, and the
  threads. Clock readings and the readings of the stop flag are arguments.
\<close>

section \<open>Pacing\<close>

text \<open>
  \<open>pace_to\<close>, from its pass \<open>n\<close> on: each sleep with the clock reading before it. \<open>None\<close> is a loop that never ends.
\<close>

partial_function (option) pace_to ::
    "(nat \<Rightarrow> u64) \<Rightarrow> (nat \<Rightarrow> bool) \<Rightarrow> u64 \<Rightarrow> nat \<Rightarrow> (u64 \<times> u64) list \<Rightarrow> (u64 \<times> u64) list option" where
  "pace_to now stop target n sleeps =
     (let t = now n
      in if t \<ge> target then Some sleeps
         else if stop n then Some sleeps
         else let rem = target - t
              in if rem > 2000000
                 then let sl = rem - 1000000; sl = (if sl > 100000000 then 100000000 else sl)
                      in pace_to now stop target (n + 1) (sleeps @ [(t, sl)])
                 else pace_to now stop target (n + 1) sleeps)"

text \<open>A sleep that ends at least a millisecond before the target and takes at most a tenth of a second.\<close>

definition sleep_ok :: "u64 \<Rightarrow> u64 \<times> u64 \<Rightarrow> bool" where
  "sleep_ok target s \<longleftrightarrow> unat (fst s) + unat (snd s) + 1000000 \<le> unat target
     \<and> 1000000 < unat (snd s) \<and> unat (snd s) \<le> 100000000"

lemma sleep_of:
  assumes "t < target" "target - t > 2000000"
  shows "sleep_ok target (t, if target - t - 1000000 > 100000000 then 100000000 else target - t - 1000000)"
proof -
  have r: "unat (target - t) = unat target - unat t" "unat t \<le> unat target"
    using unat_diff [of t target] assms(1) by simp_all
  have "2000000 < unat (target - t)" using assms(2) by (simp add: word_less_nat_alt)
  moreover have "unat (target - t - 1000000) = unat (target - t) - 1000000"
    using unat_diff [of 1000000 "target - t"] assms(2) by (simp add: word_le_nat_alt word_less_nat_alt)
  ultimately show ?thesis using r by (auto simp: sleep_ok_def word_less_nat_alt)
qed

lemma pace_to_returns:
  "target \<le> now (n + k) \<or> stop (n + k) \<Longrightarrow>
     \<exists>ss. pace_to now stop target n ss0 = Some (ss0 @ ss) \<and> length ss \<le> k \<and> (\<forall>s \<in> set ss. sleep_ok target s)"
proof (induction k arbitrary: n ss0)
  case 0
  then have "pace_to now stop target n ss0 = Some ss0" by (subst pace_to.simps) (auto simp: Let_def)
  then show ?case by simp
next
  case (Suc k)
  show ?case
  proof (cases "target \<le> now n \<or> stop n")
    case True
    then have "pace_to now stop target n ss0 = Some ss0" by (subst pace_to.simps) (auto simp: Let_def)
    then show ?thesis by simp
  next
    case False
    then have t: "now n < target" by (simp add: not_le)
    have IH: "\<exists>ss. pace_to now stop target (n + 1) ss1 = Some (ss1 @ ss) \<and> length ss \<le> k \<and> (\<forall>s \<in> set ss. sleep_ok target s)" for ss1
      using Suc.IH [of "n + 1" ss1] Suc.prems by simp
    show ?thesis
    proof (cases "target - now n > 2000000")
      case True
      let ?sl = "if target - now n - 1000000 > 100000000 then 100000000 else target - now n - 1000000"
      obtain ss where ss: "pace_to now stop target (n + 1) (ss0 @ [(now n, ?sl)]) = Some ((ss0 @ [(now n, ?sl)]) @ ss)"
        "length ss \<le> k" "\<forall>s \<in> set ss. sleep_ok target s" using IH by blast
      have "pace_to now stop target n ss0 = pace_to now stop target (n + 1) (ss0 @ [(now n, ?sl)])"
        using True False by (subst pace_to.simps) (simp add: Let_def)
      then show ?thesis using ss sleep_of [OF t True] by (intro exI [of _ "(now n, ?sl) # ss"]) simp
    next
      case F: False
      have "pace_to now stop target n ss0 = pace_to now stop target (n + 1) ss0"
        using F False by (subst pace_to.simps) (simp add: Let_def)
      then show ?thesis using IH [of ss0] by (auto intro: le_SucI)
    qed
  qed
qed

section \<open>The callback\<close>

text \<open>
  The locals of \<open>main\<close> that the callback changes; \<open>ft_left\<close> are the messages the parser has still to pass to it, and
  \<open>ft_done\<close> says that the final quote has been recorded.
\<close>

record feed_thread =
  ft_replay :: feed_replay
  ft_msgs :: u64
  ft_base :: "(u64 \<times> u64) option"
  ft_stop :: bool
  ft_left :: "message list"
  ft_done :: bool

record feed_input =
  fi_stop :: bool
  fi_wall :: u64
  fi_now :: "nat \<Rightarrow> u64"
  fi_stops :: "nat \<Rightarrow> bool"

definition pace_message :: "double \<Rightarrow> feed_input \<Rightarrow> message \<Rightarrow> feed_thread \<Rightarrow> feed_thread option" where
  "pace_message pace x m st =
     (if d_less d_zero pace then
        (case ft_base st of
           None \<Rightarrow> Some (st\<lparr>ft_base := Some (m_timestamp m, fi_wall x)\<rparr>)
         | Some (itch0, wall0) \<Rightarrow> do {
             let itch_el = (if m_timestamp m \<ge> itch0 then m_timestamp m - itch0 else 0);
             w \<leftarrow> int_to_u64 (d_floor (d_div (d_of_int (uint itch_el)) pace));
             _ \<leftarrow> pace_to (fi_now x) (fi_stops x) (wall0 + w) 0 [];
             Some st
           })
      else Some st)"

definition feed_message :: "(nat \<Rightarrow> u64) \<Rightarrow> double \<Rightarrow> u64 \<Rightarrow> feed_input \<Rightarrow> message \<Rightarrow> feed_thread \<Rightarrow> feed_thread option" where
  "feed_message clock pace snap_every x m st =
     (let st = st\<lparr>ft_stop := ft_stop st \<or> fi_stop x\<rparr>
      in if ft_stop st then Some st
         else do {
           st \<leftarrow> pace_message pace x m st;
           f \<leftarrow> m_onMessage clock m (ft_replay st);
           let msgs = ft_msgs st + 1;
           sys \<leftarrow> (if quote_due snap_every msgs then record_quote clock (fr_sys f) else Some (fr_sys f));
           Some (st\<lparr>ft_replay := f\<lparr>fr_sys := sys\<rparr>, ft_msgs := msgs\<rparr>)
         })"

text \<open>An iteration of the parsing thread: the callback on the next message, or the final quote.\<close>

definition attach_feed :: "recorder \<Rightarrow> feed_thread \<Rightarrow> feed_thread" where
  "attach_feed r st = st\<lparr>ft_replay := (ft_replay st)\<lparr>fr_sys := setMetrics (Some r) (fr_sys (ft_replay st))\<rparr>\<rparr>"

definition feed_iteration ::
    "(nat \<Rightarrow> u64) \<Rightarrow> double \<Rightarrow> u64 \<Rightarrow> feed_input \<Rightarrow> feed_thread \<Rightarrow> recorder \<Rightarrow> (feed_thread \<times> recorder) option" where
  "feed_iteration clock pace snap_every x st r =
     (case ft_left st of
        m # ms \<Rightarrow> do {
          st \<leftarrow> feed_message clock pace snap_every x m (attach_feed r st);
          r \<leftarrow> mb_rec (fr_sys (ft_replay st));
          Some (st\<lparr>ft_left := ms\<rparr>, r)
        }
      | [] \<Rightarrow> if ft_done st then Some (st, r)
        else do {
          let st = attach_feed r st;
          sys \<leftarrow> record_quote clock (fr_sys (ft_replay st));
          r \<leftarrow> mb_rec sys;
          Some (st\<lparr>ft_replay := (ft_replay st)\<lparr>fr_sys := sys\<rparr>, ft_done := True\<rparr>, r)
        })"

definition feed_start :: "order_book \<Rightarrow> bytes \<Rightarrow> message list \<Rightarrow> feed_thread" where
  "feed_start b symbol ms =
     \<lparr>ft_replay = \<lparr>fr_sys = \<lparr>mb_book = b, mb_rec = None, mb_ticks = 0\<rparr>, fr_counts = mk_replay b symbol\<rparr>,
      ft_msgs = 0, ft_base = None, ft_stop = False, ft_left = ms, ft_done = False\<rparr>"

text \<open>The messages \<open>parseBuffer\<close> passes to its callback, and its count.\<close>

definition parsed :: "bytes \<Rightarrow> (nat \<times> message list) option" where
  "parsed data = parseBuffer data (length data) (\<lambda>m ms. Some (ms @ [m])) []"

definition snap_period :: "u64 \<Rightarrow> u64" where
  "snap_period n = (if n = 0 then 8192 else n)"

definition feed_main ::
    "u64 \<Rightarrow> (nat \<Rightarrow> u64) \<Rightarrow> double \<Rightarrow> u64 \<Rightarrow> bytes \<Rightarrow> bytes \<Rightarrow> u64 \<Rightarrow> feed_input schedule \<Rightarrow> u64
     \<Rightarrow> (nat \<times> feed_thread \<times> pipeline) option" where
  "feed_main hz clock pace snap_every symbol data t_start turns t_end = do {
     b \<leftarrow> mk_book 1 500000 (2 ^ 21);
     a \<leftarrow> mk_aggregator (ns_per_tick hz) (d_of_int 5);
     (n, ms) \<leftarrow> parsed data;
     (st, pl) \<leftarrow> demo_run (feed_iteration clock pace (snap_period snap_every)) (\<lambda>_. None) t_start turns t_end
       (feed_start b symbol ms) (mk_recorder 0) a;
     require (ft_done st);
     Some (n, st, pl)
   }"

section \<open>The parser runs its callback over the parsed messages\<close>

lemma deliver_collect:
  "deliver (\<lambda>m ms. Some (ms @ [m])) bodies c ms0
     = Some (c + length (modelled_messages bodies), ms0 @ modelled_messages bodies)"
proof (induction bodies arbitrary: c ms0)
  case (Cons body bodies)
  then show ?case
    by (cases "decode_layout body new_message") (auto simp: modelled_messages_def split: bool.split)
qed (simp add: modelled_messages_def)

lemma parsed_frames:
  assumes "\<forall>body \<in> set bodies. 0 < length body \<and> length body < 65536"
  shows "parsed (concat (map frame bodies)) = Some (length (modelled_messages bodies), modelled_messages bodies)"
  unfolding parsed_def parseBuffer_def
  using parse_frames [of bodies 0 "concat (map frame bodies)" "\<lambda>m ms. Some (ms @ [m])" 0 "[]"] assms
  by (simp add: deliver_collect)

lemma deliver_fold:
  "deliver fn bodies c s = map_option (Pair (c + length (modelled_messages bodies)))
     (fold_opt fn (modelled_messages bodies) s)"
proof (induction bodies arbitrary: c s)
  case (Cons body bodies)
  obtain k m where d: "decode_layout body new_message = (k, m)" by (cases "decode_layout body new_message")
  show ?case
  proof (cases k)
    case True
    then have "modelled_messages (body # bodies) = m # modelled_messages bodies" by (simp add: modelled_messages_def d)
    then show ?thesis using True Cons by (cases "fn m s") (simp_all add: d)
  next
    case False
    then have "modelled_messages (body # bodies) = modelled_messages bodies" by (simp add: modelled_messages_def d)
    then show ?thesis using False Cons by (simp add: d)
  qed
qed (simp add: modelled_messages_def)

section \<open>Waiting for a message's time\<close>

text \<open>A clock that reaches every reading, or a stop flag that is seen before it does.\<close>

definition ticking :: "feed_input \<Rightarrow> bool" where
  "ticking x \<longleftrightarrow> (\<forall>t. \<exists>k. t \<le> fi_now x k \<or> fi_stops x k)"

text \<open>Full speed, or at least a ten thousandth of the speed of the feed.\<close>

definition pace_ok :: "double \<Rightarrow> bool" where
  "pace_ok pace \<longleftrightarrow> \<not> d_less d_zero pace \<or> 1 / 10000 \<le> val pace"

text \<open>A time stamp has 48 bits.\<close>

definition stamped :: "message \<Rightarrow> bool" where
  "stamped m \<longleftrightarrow> unat (m_timestamp m) < 2 ^ 48"

lemma field_stamp: "unat (field body 5 6 :: u64) < 2 ^ 48"
proof -
  have small: "be_val xs < 256 ^ length xs" for xs
  proof (induction xs rule: rev_induct)
    case (snoc x xs)
    have "be_val xs + 1 \<le> 256 ^ length xs" using snoc by simp
    then have "(be_val xs + 1) * 256 \<le> 256 ^ length xs * 256" by (rule mult_le_mono1)
    moreover have "be_val (xs @ [x]) = be_val xs * 256 + unat x" by (simp add: be_val_def)
    ultimately show ?case using unat_u8 [of x] by simp
  qed (simp add: be_val_def)
  let ?xs = "take 6 (drop 5 body)"
  have "(256::nat) ^ length ?xs \<le> 256 ^ 6" by (intro power_increasing) simp_all
  then have "be_val ?xs < 2 ^ 48" using small [of ?xs] by (simp del: length_take)
  then show ?thesis using unat_of_nat_u64 [of "be_val ?xs"] by (simp add: field_def)
qed

lemma modelled_stamped: "\<forall>m \<in> set (modelled_messages bodies). stamped m"
proof -
  have "stamped m" if "decode_layout body new_message = (True, m)" for body m
    using that field_stamp [of body] by (auto simp: decode_layout_def layout_def stamped_def Let_def new_message_def split: if_splits)
  then show ?thesis by (auto simp: modelled_messages_def)
qed

lemma pace_message_returns:
  assumes pace: "pace_ok pace" and x: "ticking x" and m: "stamped m"
  shows "\<exists>base. pace_message pace x m st = Some (st\<lparr>ft_base := base\<rparr>)"
proof -
  have same: "st = st\<lparr>ft_base := ft_base st\<rparr>" by simp
  show ?thesis
  proof (cases "d_less d_zero pace")
    case True
    then have p: "1 / 10000 \<le> val pace" using pace by (simp add: pace_ok_def)
    show ?thesis
    proof (cases "ft_base st")
      case None
      then show ?thesis using True by (auto simp: pace_message_def)
    next
      case (Some base)
      obtain itch0 wall0 where b: "ft_base st = Some (itch0, wall0)" using Some by (cases base) simp
      let ?el = "if m_timestamp m \<ge> itch0 then m_timestamp m - itch0 else 0"
      have "unat ?el \<le> unat (m_timestamp m)" using unat_diff [of itch0 "m_timestamp m"] by (simp add: word_le_nat_alt)
      then have "unat ?el < 2 ^ 48" using m unfolding stamped_def by linarith
      then have "int (unat ?el) < int (2 ^ 48)" by (simp only: of_nat_less_iff)
      then have "uint ?el < 2 ^ 48" unfolding uint_nat by simp
      then have "(of_int (uint ?el) :: rat) < of_int (2 ^ 48)" by (simp only: of_int_less_iff)
      moreover have "(0::rat) \<le> of_int (uint ?el)" by (simp only: of_int_0_le_iff uint_ge_0)
      ultimately have el: "0 \<le> val (d_of_int (uint ?el))" "val (d_of_int (uint ?el)) \<le> 11 / 10 * 2 ^ 48"
        using d_of_int_between [of "uint ?el"] by simp_all
      let ?q = "d_div (d_of_int (uint ?el)) pace"
      have "val (d_of_int (uint ?el)) / val pace \<le> (11 / 10 * 2 ^ 48) / (1 / 10000)" using el p by (intro frac_le) simp_all
      moreover have "0 \<le> val (d_of_int (uint ?el)) / val pace" using el(1) p by simp
      ultimately have q: "0 \<le> val ?q" "val ?q < of_int (2 ^ 64)" using d_div_between [OF el(1), of pace] p by simp_all
      then have "\<lfloor>val ?q\<rfloor> < 2 ^ 64" by (simp only: floor_less_iff)
      then obtain w where w: "int_to_u64 (d_floor ?q) = Some w" using q(1) by (auto simp: int_to_u64_def d_floor_val)
      obtain k where "wall0 + w \<le> fi_now x k \<or> fi_stops x k" using x unfolding ticking_def by blast
      then obtain ss where "pace_to (fi_now x) (fi_stops x) (wall0 + w) 0 [] = Some ss"
        using pace_to_returns [of "wall0 + w" "fi_now x" 0 k "fi_stops x" "[]"] by auto
      then have "pace_message pace x m st = Some st" using True w by (simp add: pace_message_def b Let_def)
      then show ?thesis using same by metis
    qed
  next
    case False
    then show ?thesis by (intro exI [of _ "ft_base st"]) (simp add: pace_message_def)
  qed
qed

section \<open>The contract of a hot thread\<close>

text \<open>
  After \<open>n\<close> of the \<open>tot\<close> messages: unless the run was interrupted, the messages left lead from the orders of the book
  to \<open>goal\<close>.
\<close>

definition feed_ok :: "u64 \<Rightarrow> (order_id \<Rightarrow> resting_order option) \<Rightarrow> nat \<Rightarrow> nat \<Rightarrow> feed_thread \<Rightarrow> bool" where
  "feed_ok target goal tot n st \<longleftrightarrow>
     (let b = mb_book (fr_sys (ft_replay st)); in_book = (\<lambda>p. 1 \<le> p \<and> p \<le> 500000)
      in api_inv b \<and> inRange b = in_book \<and> r_target (fr_counts (ft_replay st)) = target
         \<and> (ft_stop st \<or> fresh_stream target in_book (ft_left st) (order_map b)
              \<and> fold (apply_message target in_book) (ft_left st) (order_map b) = goal)
         \<and> (\<forall>m \<in> set (ft_left st). stamped m)
         \<and> length (ft_left st) = tot - n \<and> (ft_done st \<longleftrightarrow> n > tot))"

text \<open>The calls of the recorder still to be made: of the messages left, the quotes among them and the last quote.\<close>

definition feed_due :: "u64 \<Rightarrow> u64 \<Rightarrow> feed_thread \<Rightarrow> nat" where
  "feed_due target every st =
     stream_calls target (\<lambda>p. 1 \<le> p \<and> p \<le> 500000) (ft_left st) (order_map (mb_book (fr_sys (ft_replay st))))
     + quotes_due every (ft_msgs st) (length (ft_left st)) + (if ft_done st then 0 else 1)"

definition feed_emits :: "u64 \<Rightarrow> u64 \<Rightarrow> feed_thread \<Rightarrow> feed_thread \<Rightarrow> recording list \<Rightarrow> bool" where
  "feed_emits target every st st' cs \<longleftrightarrow> list_all call_spread cs \<and> (ft_stop st \<longrightarrow> ft_stop st')
     \<and> (ft_stop st' \<or> feed_due target every st = feed_due target every st' + length cs)"

lemma feed_emits_none: "feed_emits target every st st []"
  by (simp add: feed_emits_def)

lemma feed_emits_trans:
  "feed_emits target every st st1 cs \<Longrightarrow> feed_emits target every st1 st2 ds \<Longrightarrow> feed_emits target every st st2 (cs @ ds)"
  by (auto simp: feed_emits_def)

lemma feed_emits_attach: "feed_emits target every (attach_feed r st) st' cs = feed_emits target every st st' cs"
  by (simp add: feed_emits_def feed_due_def attach_feed_def setMetrics_def)

lemma feed_narrow: "feed_ok target goal tot n st \<Longrightarrow> narrow (mb_book (fr_sys (ft_replay st)))"
  unfolding feed_ok_def narrow_def Let_def by (intro conjI exI [of _ 500000]) simp_all

lemma feed_ok_attach: "feed_ok target goal tot n (attach_feed r st) = feed_ok target goal tot n st"
  by (simp add: feed_ok_def attach_feed_def setMetrics_def Let_def)

lemma attach_feed_recorder:
  "ring_inv ring_cap (rec_ring r) \<Longrightarrow> with_recorder (fr_sys (ft_replay (attach_feed r st)))"
  "mb_rec (fr_sys (ft_replay (attach_feed r st))) = Some r" "ft_left (attach_feed r st) = ft_left st" "ft_done (attach_feed r st) = ft_done st"
  by (simp_all add: attach_feed_def setMetrics_def with_recorder_def recorder_ok_def)

lemma feed_message_works:
  assumes ok: "feed_ok target goal tot n st" "ft_left st = m # ms" and on: "with_recorder (fr_sys (ft_replay st))"
    and pace: "pace_ok pace" and tick: "ticking x"
  shows "\<exists>st' k. feed_message clock pace snap_every x m st = Some st' \<and> feed_ok target goal tot (Suc n) (st'\<lparr>ft_left := ms\<rparr>)
    \<and> recorded k (fr_sys (ft_replay st)) (fr_sys (ft_replay st')) \<and> k \<le> 3 \<and> (ft_stop st \<longrightarrow> ft_stop st')
    \<and> (ft_stop st' \<or> feed_due target snap_every st = feed_due target snap_every (st'\<lparr>ft_left := ms\<rparr>) + k)"
proof -
  let ?st = "st\<lparr>ft_stop := ft_stop st \<or> fi_stop x\<rparr>"
  let ?f = "ft_replay st" and ?in = "\<lambda>p. 1 \<le> p \<and> p \<le> 500000"
  have n: "length ms = tot - Suc n" "\<not> ft_done st" "n < tot" "stamped m" "\<forall>m \<in> set ms. stamped m"
    using ok by (auto simp: feed_ok_def Let_def)
  show ?thesis
  proof (cases "ft_stop st \<or> fi_stop x")
    case True
    then have "feed_message clock pace snap_every x m st = Some ?st" by (simp add: feed_message_def)
    moreover have "feed_ok target goal tot (Suc n) (?st\<lparr>ft_left := ms\<rparr>)" using True ok n by (simp add: feed_ok_def Let_def)
    ultimately show ?thesis using recorded_none [OF on] True by (intro exI [of _ ?st] exI [of _ 0]) auto
  next
    case False
    have b: "api_inv (mb_book (fr_sys ?f))" "inRange (mb_book (fr_sys ?f)) = ?in" "r_target (fr_counts ?f) = target"
      "fresh_refs m (order_map (mb_book (fr_sys ?f)))"
      "fresh_stream target ?in ms (apply_message target ?in m (order_map (mb_book (fr_sys ?f))))"
      "fold (apply_message target ?in) ms (apply_message target ?in m (order_map (mb_book (fr_sys ?f)))) = goal"
      using ok False by (simp_all add: feed_ok_def Let_def)
    have pt: "r_target (plain ?f) = target" using b(3) by (simp add: plain_def)
    obtain r' where r': "onMessage m (plain ?f) = Some r'" "replay_ok r' (apply_message target ?in m (order_map (mb_book (fr_sys ?f))))"
      "r_target r' = target" "inRange (r_book r') = ?in"
      using onMessage_refines [of "plain ?f" m] b(1,2,4) pt by auto
    define j where "j = message_calls (pack8 (m_rawStock m) = target) (order_map (mb_book (fr_sys ?f)) (m_orderRef m) \<noteq> None) m"
    have j: "j = message_calls (isTarget (fr_counts ?f) m) (getOrder (mb_book (fr_sys ?f)) (m_orderRef m) \<noteq> None) m" "j \<le> 2"
      using b(3) message_calls_le by (simp_all add: j_def isTarget_def getOrder_map(1) [OF b(1)])
    obtain f where f: "m_onMessage clock m ?f = Some f" "plain f = r'" "recorded j (fr_sys ?f) (fr_sys f)"
      using m_onMessage_follows [OF on, of m clock] r'(1) unfolding follows_def j(1) by blast
    have book: "mb_book (fr_sys f) = r_book r'" using f(2) by (auto simp: plain_def)
    have nar: "narrow (mb_book (fr_sys f))" unfolding book narrow_def
      using r'(2,4) by (intro conjI exI [of _ 500000]) (simp_all add: replay_ok_def)
    define quote where "quote = quote_due snap_every (ft_msgs st + 1)"
    obtain sys where sys: "(if quote then record_quote clock (fr_sys f) else Some (fr_sys f)) = Some sys"
      "mb_book sys = mb_book (fr_sys f)" "recorded (if quote then 1 else 0) (fr_sys f) sys"
      using record_quote_works [OF recorded_on [OF f(3)] nar, of clock] recorded_none [OF recorded_on [OF f(3)]] by (cases quote) auto
    obtain base where base: "pace_message pace x m ?st = Some (?st\<lparr>ft_base := base\<rparr>)"
      using pace_message_returns [OF pace tick n(4)] by blast
    let ?st' = "?st\<lparr>ft_base := base, ft_replay := f\<lparr>fr_sys := sys\<rparr>, ft_msgs := ft_msgs st + 1\<rparr>"
    have run: "feed_message clock pace snap_every x m st = Some ?st'"
      using False f(1) sys(1) base by (simp add: feed_message_def Let_def flip: quote_def)
    have "r_book r' = mb_book sys" "r_target (fr_counts f) = r_target r'" using f(2) sys(2) by (auto simp: plain_def)
    then have "feed_ok target goal tot (Suc n) (?st'\<lparr>ft_left := ms\<rparr>)"
      using r'(2-4) b(5,6) n False by (simp add: feed_ok_def Let_def replay_ok_def)
    moreover have "feed_due target snap_every st = feed_due target snap_every (?st'\<lparr>ft_left := ms\<rparr>) + (j + (if quote then 1 else 0))"
      using r'(2) ok(2) by (simp add: feed_due_def sys(2) book replay_ok_def add.commute j_def quote_def)
    ultimately show ?thesis using run recorded_trans [OF f(3) sys(3)] j(2) False
      by (intro exI [of _ ?st'] exI [of _ "j + (if quote then 1 else 0)"]) simp
  qed
qed

lemma feed_iteration_works:
  assumes ok: "feed_ok target goal tot n st" and r: "ring_inv ring_cap (rec_ring r)" and pace: "pace_ok pace" and tick: "ticking x"
  shows "\<exists>st' r' cs. feed_iteration clock pace snap_every x st r = Some (st', r') \<and> feed_ok target goal tot (Suc n) st'
    \<and> record_calls cs r = Some r' \<and> feed_emits target snap_every st st' cs \<and> length cs \<le> 3"
proof (cases "ft_left st")
  case (Cons m ms)
  let ?st = "attach_feed r st"
  have at: "feed_ok target goal tot n ?st" "ft_left ?st = m # ms" "with_recorder (fr_sys (ft_replay ?st))"
    using ok Cons r by (simp_all add: feed_ok_attach attach_feed_recorder)
  obtain st' k where m: "feed_message clock pace snap_every x m ?st = Some st'" "feed_ok target goal tot (Suc n) (st'\<lparr>ft_left := ms\<rparr>)"
    "recorded k (fr_sys (ft_replay ?st)) (fr_sys (ft_replay st'))" "k \<le> 3"
    "ft_stop ?st \<longrightarrow> ft_stop st'"
    "ft_stop st' \<or> feed_due target snap_every ?st = feed_due target snap_every (st'\<lparr>ft_left := ms\<rparr>) + k"
    using feed_message_works [OF at pace tick, of clock snap_every] by blast
  obtain r' cs where r': "mb_rec (fr_sys (ft_replay st')) = Some r'" "record_calls cs r = Some r'" "length cs = k"
    "list_all call_spread cs" using m(3) by (auto simp: recorded_def attach_feed_recorder)
  then have "feed_emits target snap_every st (st'\<lparr>ft_left := ms\<rparr>) cs"
    using m(5,6) unfolding feed_emits_attach [of _ _ r st, symmetric] by (simp add: feed_emits_def)
  then show ?thesis using Cons m r' by (auto simp: feed_iteration_def)
next
  case Nil
  show ?thesis
  proof (cases "ft_done st")
    case True
    have "feed_ok target goal tot (Suc n) st" using ok Nil True by (simp add: feed_ok_def Let_def)
    then show ?thesis using Nil True feed_emits_none by (intro exI [of _ st] exI [of _ r] exI [of _ "[]"]) (simp add: feed_iteration_def)
  next
    case False
    let ?st = "attach_feed r st"
    obtain sys where sys: "record_quote clock (fr_sys (ft_replay ?st)) = Some sys" "mb_book sys = mb_book (fr_sys (ft_replay ?st))"
      "recorded 1 (fr_sys (ft_replay ?st)) sys" using record_quote_works [OF attach_feed_recorder(1) [OF r] feed_narrow] ok unfolding feed_ok_attach by blast
    obtain r' cs where r': "mb_rec sys = Some r'" "record_calls cs r = Some r'" "length cs = 1"
      "list_all call_spread cs" using sys(3) by (auto simp: recorded_def attach_feed_recorder)
    let ?st' = "?st\<lparr>ft_replay := (ft_replay ?st)\<lparr>fr_sys := sys\<rparr>, ft_done := True\<rparr>"
    have "n = tot" using ok Nil False by (auto simp: feed_ok_def Let_def)
    moreover have "feed_ok target goal tot n ?st" using ok by (simp add: feed_ok_attach)
    ultimately have "feed_ok target goal tot (Suc n) ?st'" using sys(2) Nil by (simp add: feed_ok_def Let_def attach_feed_recorder)
    moreover have "feed_emits target snap_every st ?st' cs" using r'(3,4) Nil False unfolding feed_emits_attach [of _ _ r st, symmetric]
      by (simp add: feed_emits_def feed_due_def attach_feed_recorder sys(2))
    ultimately show ?thesis using Nil False sys(1) r'
      by (intro exI [of _ ?st'] exI [of _ r'] exI [of _ cs]) (simp add: feed_iteration_def Let_def)
  qed
qed

lemma feed_stops:
  assumes "feed_iteration clock pace snap_every x st r = Some (st', r')" "ft_done st"
  shows "ft_done st'"
proof (cases "ft_left st")
  case (Cons m ms)
  have keep: "pace_message pace x m s = Some s' \<Longrightarrow> ft_done s' = ft_done s" for s s'
    by (auto simp: pace_message_def split: if_splits option.splits)
  show ?thesis using assms Cons
    by (auto simp: feed_iteration_def feed_message_def attach_feed_recorder Let_def split: if_splits dest!: keep)
qed (use assms in \<open>auto simp: feed_iteration_def\<close>)

lemma feed_uninterrupted: "\<not> fi_stop x \<Longrightarrow> keeps (feed_iteration clock pace snap_every) x (\<lambda>st. \<not> ft_stop st)"
proof -
  have keep: "pace_message pace x m s = Some s' \<Longrightarrow> ft_stop s' = ft_stop s" for m s s'
    by (auto simp: pace_message_def split: if_splits option.splits)
  have at: "ft_stop (attach_feed r st) = ft_stop st" for r st by (simp add: attach_feed_def)
  assume "\<not> fi_stop x"
  then show ?thesis
    by (auto simp: keeps_def feed_iteration_def feed_message_def at Let_def split: if_splits list.splits dest!: keep)
qed

text \<open>The pace of a run is part of what every state of it keeps.\<close>

interpretation feed: hot_thread "feed_iteration clock pace snap_every" "\<lambda>_. None"
    "\<lambda>n st. pace_ok pace \<and> feed_ok target goal tot n st" "feed_emits target snap_every" "\<lambda>_. False" ft_done "2 ^ 62" 3 ticking
  for clock pace snap_every target goal tot
proof
  fix n st x and r :: recorder
  assume "ticking x" "pace_ok pace \<and> feed_ok target goal tot n st" "ring_inv ring_cap (rec_ring r)"
  then show "\<exists>st' r' cs. feed_iteration clock pace snap_every x st r = Some (st', r') \<and> (pace_ok pace \<and> feed_ok target goal tot (Suc n) st')
    \<and> record_calls cs r = Some r' \<and> feed_emits target snap_every st st' cs \<and> length cs \<le> 3"
    using feed_iteration_works [of target goal tot n st r pace x clock snap_every] by simp
next
  fix x st st' and r r' :: recorder
  assume "feed_iteration clock pace snap_every x st r = Some (st', r')" "False \<or> ft_done st"
  then show "ft_done st'" using feed_stops by blast
qed (use feed_emits_none feed_emits_trans in simp_all)

text \<open>
  The whole program on a capture: it ends once the schedule lets the parsing thread pass every message, and if it is not
  interrupted the book holds the orders that the messages describe.
\<close>

lemma feed_book: "\<exists>b. mk_book 1 500000 2097152 = Some b"
  by (simp add: mk_book_def int64_range_def Let_def)

lemma feed_main_works:
  fixes bodies :: "bytes list" and turns :: "feed_input schedule"
  defines "ms \<equiv> modelled_messages bodies" and "in_book \<equiv> \<lambda>p. 1 \<le> p \<and> p \<le> (500000::int)"
  assumes framed: "\<forall>body \<in> set bodies. 0 < length body \<and> length body < 65536"
    and fresh: "fresh_stream (pack8 (padded symbol)) in_book ms Map.empty"
    and sched: "length ms < length (inputs_of turns)" "length (inputs_of turns) < 2 ^ 60"
    and go: "\<forall>x \<in> set (inputs_of turns). \<not> fi_stop x \<and> ticking x" and pace: "pace_ok pace"
  shows "\<exists>st pl. feed_main hz clock pace snap_every symbol (concat (map frame bodies)) t_start turns t_end
      = Some (length ms, st, pl)
    \<and> book_wf (mb_book (fr_sys (ft_replay st)))
    \<and> order_map (mb_book (fr_sys (ft_replay st))) = fold (apply_message (pack8 (padded symbol)) in_book) ms Map.empty
    \<and> ring_contents ring_cap (rec_ring (pl_rec pl)) = [] \<and> s_final (last (pl_out pl))
    \<and> s_events (last (pl_out pl)) = ag_consumed (pl_agg pl) \<and> s_drops (last (pl_out pl)) = rec_drops (pl_rec pl)
    \<and> unat (ag_consumed (pl_agg pl)) + unat (rec_drops (pl_rec pl))
        = stream_calls (pack8 (padded symbol)) in_book ms Map.empty + length ms div unat (snap_period snap_every) + 1
    \<and> (\<forall>s \<in> set (pl_out pl). snapshot_ok s \<and> spread_ok s)"
proof -
  let ?goal = "fold (apply_message (pack8 (padded symbol)) in_book) ms Map.empty"
  obtain a where a: "mk_aggregator (ns_per_tick hz) (d_of_int 5) = Some a" using demo_aggregator by blast
  obtain b where b: "mk_book 1 500000 2097152 = Some b" using feed_book by blast
  have "reachable b" by (rule reachable.new [OF b]) (simp_all add: int64_range_def)
  then have inv: "api_inv b" by (rule reachable_inv)
  have "orders b = Map.empty" and range: "inRange b = in_book"
    using b by (auto simp: mk_book_def Let_def inRange_def in_book_def split: if_splits)
  then have empty: "order_map b = Map.empty" by (simp add: order_map_def fun_eq_iff)
  have start: "feed_ok (pack8 (padded symbol)) ?goal (length ms) 0 (feed_start b symbol ms)"
    using inv range empty fresh modelled_stamped [of bodies]
    by (simp add: feed_ok_def feed_start_def mk_replay_target Let_def in_book_def ms_def)
  obtain st pl cs es d where run: "demo_run (feed_iteration clock pace (snap_period snap_every)) (\<lambda>_. None) t_start turns t_end
      (feed_start b symbol ms) (mk_recorder 0) a = Some (st, pl)"
    "feed_ok (pack8 (padded symbol)) ?goal (length ms) (length (inputs_of turns)) st" "settled 0 cs pl es d"
    "feed_emits (pack8 (padded symbol)) (snap_period snap_every) (feed_start b symbol ms) st cs" "length cs < 2 ^ 63"
    using feed.demo_accounts [OF a conjI [OF pace start], where turns = turns and t_start = t_start and t_end = t_end
        and clock = clock and snap_every = "snap_period snap_every"] sched(2) go by auto
  have fin: "ft_done st" "ft_left st = []" using run(2) sched(1) by (auto simp: feed_ok_def Let_def)
  have "feed_main hz clock pace snap_every symbol (concat (map frame bodies)) t_start turns t_end = Some (length ms, st, pl)"
    using fin(1) parsed_frames [OF framed] by (simp add: feed_main_def a b run(1) flip: ms_def)
  moreover have going: "\<not> ft_stop st"
    by (rule demo_run_keeps [OF run(1)]) (use go feed_uninterrupted in \<open>auto simp: feed_start_def\<close>)
  have "feed_due (pack8 (padded symbol)) (snap_period snap_every) (feed_start b symbol ms) = length cs"
    using run(4) going fin by (simp add: feed_emits_def feed_due_def)
  then have "length cs = stream_calls (pack8 (padded symbol)) in_book ms Map.empty + length ms div unat (snap_period snap_every) + 1"
    using quotes_due_div [of "snap_period snap_every" 0 "length ms"] sched
    by (simp add: feed_due_def feed_start_def empty in_book_def snap_period_def)
  moreover have "unat (ag_consumed (pl_agg pl)) + unat (rec_drops (pl_rec pl)) = length cs"
    using settled_total [OF run(3)] run(5) by simp
  moreover have "api_inv (mb_book (fr_sys (ft_replay st)))" "order_map (mb_book (fr_sys (ft_replay st))) = ?goal"
    using run(2) fin(2) going by (auto simp: feed_ok_def Let_def in_book_def)
  moreover have "\<forall>s \<in> set (pl_out pl). snapshot_ok s \<and> spread_ok s"
    using settled_frames [OF run(3)] run(4) by (simp add: feed_emits_def)
  moreover have "ring_contents ring_cap (rec_ring (pl_rec pl)) = []" "s_final (last (pl_out pl))" using run(3) by (simp_all add: settled_def)
  ultimately show ?thesis using settled_frame [OF run(3)]
    by (intro exI [of _ st] exI [of _ pl]) (simp add: api_inv_def)
qed

end
