(* ===== verification/C_Text.thy ===== *)
theory C_Text
  imports Metrics_Snapshot
begin

text \<open>
  The functions of the C library with which the programs read their arguments and print numbers. Strings end before
  their terminating null character. Where the library leaves a result undefined, and where the result has no
  counterpart in \<open>Ieee_Double\<close> (infinities, NaN, subnormals, a negative zero, hexadecimal notation), the value is \<open>None\<close>.
\<close>

section \<open>Strings\<close>

text \<open>\<open>strncmp(s, p, strlen(p)) == 0\<close>.\<close>

definition starts_with :: "string \<Rightarrow> string \<Rightarrow> bool" where
  "starts_with p s \<longleftrightarrow> take (length p) s = p"

text \<open>The position of the last \<open>c\<close>.\<close>

primrec strrchr :: "char \<Rightarrow> string \<Rightarrow> nat option" where
  "strrchr c [] = None"
| "strrchr c (x # xs) = (case strrchr c xs of Some n \<Rightarrow> Some (Suc n) | None \<Rightarrow> if x = c then Some 0 else None)"

definition is_space :: "char \<Rightarrow> bool" where
  "is_space c \<longleftrightarrow> c = CHR '' '' \<or> 9 \<le> (of_char c :: nat) \<and> (of_char c :: nat) \<le> 13"

definition is_digit :: "char \<Rightarrow> bool" where
  "is_digit c \<longleftrightarrow> 48 \<le> (of_char c :: nat) \<and> (of_char c :: nat) \<le> 57"

definition lower :: "char \<Rightarrow> char" where
  "lower c = (if 65 \<le> (of_char c :: nat) \<and> (of_char c :: nat) \<le> 90 then char_of (of_char c + 32 :: nat) else c)"

section \<open>Reading numbers\<close>

text \<open>A sign, and what follows it.\<close>

fun sign_of :: "string \<Rightarrow> bool \<times> string" where
  "sign_of [] = (False, [])"
| "sign_of (c # t) = (if c = CHR ''-'' then (True, t) else if c = CHR ''+'' then (False, t) else (False, c # t))"

definition number_start :: "string \<Rightarrow> bool \<times> string" where
  "number_start s = sign_of (dropWhile is_space s)"

text \<open>\<open>strtoull(s, nullptr, 10)\<close>: a value out of range is \<open>ULLONG_MAX\<close>, a minus sign negates modulo \<open>2 ^ 64\<close>.\<close>

definition strtoull :: "string \<Rightarrow> u64" where
  "strtoull s = (case number_start s of (neg, t) \<Rightarrow>
     let n = parse_dec (takeWhile is_digit t)
     in if n \<ge> 2 ^ 64 then - 1 else if neg then - of_nat n else of_nat n)"

definition atoi :: "string \<Rightarrow> int option" where
  "atoi s = (case number_start s of (neg, t) \<Rightarrow> do {
     let n = int (parse_dec (takeWhile is_digit t));
     let v = (if neg then - n else n);
     require (- (2 ^ 31) \<le> v \<and> v < 2 ^ 31);
     Some v
   })"

text \<open>The exponent after a mantissa.\<close>

definition exponent_of :: "string \<Rightarrow> int" where
  "exponent_of t = (case t of [] \<Rightarrow> 0
     | c # u \<Rightarrow> if lower c = CHR ''e''
               then (case sign_of u of (neg, u) \<Rightarrow> let n = int (parse_dec (takeWhile is_digit u)) in if neg then - n else n)
               else 0)"

text \<open>The fraction after the digits before the point, and what follows it.\<close>

definition fraction_of :: "string \<Rightarrow> string \<times> string" where
  "fraction_of t = (case t of [] \<Rightarrow> ([], [])
     | c # u \<Rightarrow> if c = CHR ''.'' then (takeWhile is_digit u, dropWhile is_digit u) else ([], t))"

definition d_normal :: "double \<Rightarrow> bool" where
  "d_normal x \<longleftrightarrow> mant x = 0 \<or> - 1074 \<le> expt x \<and> (expt x < 971 \<or> expt x = 971 \<and> \<bar>mant x\<bar> < 2 ^ 53)"

definition atof :: "string \<Rightarrow> double option" where
  "atof s = (case number_start s of (neg, t) \<Rightarrow> case fraction_of (dropWhile is_digit t) of (fs, rest) \<Rightarrow>
     let digits = takeWhile is_digit t @ fs
     in if digits = [] then do {
          require (\<not> starts_with ''inf'' (map lower t) \<and> \<not> starts_with ''nan'' (map lower t));
          Some d_zero
        }
        else do {
          require (\<not> starts_with ''0x'' (map lower t));
          let n = int (parse_dec digits);
          require (\<not> (neg \<and> n = 0));
          let m = (if neg then - n else n);
          let e = exponent_of rest - int (length fs);
          let x = (if e \<ge> 0 then round_frac (m * 10 ^ nat e) 1 else round_frac m (10 ^ nat (- e)));
          require (d_normal x);
          Some x
        })"

section \<open>Printing numbers\<close>

text \<open>\<open>%d\<close> and \<open>%u\<close>.\<close>

definition fmt_u :: "u16 \<Rightarrow> string" where
  "fmt_u x = dec (unat x)"

text \<open>
  \<open>%g\<close>: six significant digits, without trailing zeros. \<open>scaled_digits a b x\<close> are the digits of \<open>a / b\<close> if its first one
  has the weight \<open>10\<^sup>x\<close>.
\<close>

definition scaled_digits :: "int \<Rightarrow> int \<Rightarrow> int \<Rightarrow> int" where
  "scaled_digits a b x = (if x \<le> 5 then round_div (a * 10 ^ nat (5 - x)) b else round_div a (b * 10 ^ nat (x - 5)))"

definition decimal_exponent :: "int \<Rightarrow> int \<Rightarrow> int" where
  "decimal_exponent a b =
     (let k = int (length (dec (nat a))) - int (length (dec (nat b)))
      in if (if k \<ge> 0 then a \<ge> b * 10 ^ nat k else a * 10 ^ nat (- k) \<ge> b) then k else k - 1)"

definition strip_zeros :: "string \<Rightarrow> string" where
  "strip_zeros t = rev (dropWhile (\<lambda>c. c = CHR ''0'') (rev t))"

definition pointed :: "string \<Rightarrow> string \<Rightarrow> string" where
  "pointed whole fs = (let f = strip_zeros fs in whole @ (if f = [] then [] else ''.'' @ f))"

definition fmt_general :: "double \<Rightarrow> string" where
  "fmt_general x =
     (if mant x = 0 then ''0''
      else let a = (if expt x \<ge> 0 then \<bar>mant x\<bar> * 2 ^ nat (expt x) else \<bar>mant x\<bar>);
               b = (if expt x \<ge> 0 then 1 else 2 ^ nat (- expt x));
               e0 = decimal_exponent a b; r0 = scaled_digits a b e0;
               e = (if r0 = 1000000 then e0 + 1 else e0);
               ds = dec (nat (if r0 = 1000000 then 100000 else r0))
           in (if mant x < 0 then ''-'' else '''') @
              (if - 4 \<le> e \<and> e < 6
               then if e \<ge> 0 then pointed (take (nat e + 1) ds) (drop (nat e + 1) ds)
                    else pointed ''0'' (replicate (nat (- e) - 1) (CHR ''0'') @ ds)
               else pointed (take 1 ds) (drop 1 ds) @ (if e < 0 then ''e-'' else ''e+'')
                    @ (let t = dec (nat \<bar>e\<bar>) in replicate (2 - length t) (CHR ''0'') @ t)))"

text \<open>\<open>%w.kf\<close>.\<close>

definition fmt_width :: "nat \<Rightarrow> string \<Rightarrow> string" where
  "fmt_width w t = replicate (w - length t) CHR '' '' @ t"

section \<open>How a program ends\<close>

text \<open>The exit status, what \<open>main\<close> wrote to its two outputs, and the state it ended in, if it got that far.\<close>

record 'a program_exit =
  x_status :: int
  x_out :: string
  x_err :: string
  x_end :: "'a option"

definition gives_up :: "string \<Rightarrow> string \<Rightarrow> 'a program_exit" where
  "gives_up out err = \<lparr>x_status = 1, x_out = out, x_err = err, x_end = None\<rparr>"

definition line_end :: string where "line_end = [CHR 0x0A]"

text \<open>The arguments: \<open>argv[i]\<close> where there is one, and a default.\<close>

definition arg_or :: "string list \<Rightarrow> nat \<Rightarrow> (string \<Rightarrow> 'a option) \<Rightarrow> 'a \<Rightarrow> 'a option" where
  "arg_or argv i read dflt = (if length argv > i then do { s \<leftarrow> vec_get argv (int i); read s } else Some dflt)"

section \<open>Printed numbers are read back\<close>

lemma dec_digits: "list_all is_digit (dec n) \<and> dec n \<noteq> []"
proof (induction n rule: dec.induct)
  case (1 n)
  have d: "is_digit (char_of (48 + k))" if "k < 10" for k :: nat
    using that by (simp add: is_digit_def of_char_digit)
  show ?case using 1 d [of n] d [of "n mod 10"] by (subst (1 2) dec.simps) simp
qed

lemma takeWhile_digits: "list_all is_digit ds \<Longrightarrow> takeWhile is_digit (ds @ t) = ds @ takeWhile is_digit t"
  "list_all is_digit ds \<Longrightarrow> dropWhile is_digit (ds @ t) = dropWhile is_digit t"
  by (induction ds) auto

lemma is_digit_not: "is_digit c \<Longrightarrow> \<not> is_space c \<and> c \<noteq> CHR ''-'' \<and> c \<noteq> CHR ''+'' \<and> c \<noteq> CHR ''.'' \<and> c \<noteq> CHR '':''"
  by (auto simp: is_digit_def is_space_def)

lemma number_start_dec: "number_start (dec n @ t) = (False, dec n @ t)"
proof -
  obtain c u where c: "dec n = c # u" "is_digit c" using dec_digits [of n] by (cases "dec n") auto
  then show ?thesis using is_digit_not [OF c(2)] by (simp add: number_start_def)
qed

lemma read_dec: "takeWhile is_digit (dec n) = dec n" "dropWhile is_digit (dec n) = []"
  using takeWhile_digits [of "dec n" "[]"] dec_digits [of n] by simp_all

lemma strtoull_dec: "n < 2 ^ 64 \<Longrightarrow> strtoull (dec n) = of_nat n"
  using number_start_dec [of n "[]"] by (simp add: strtoull_def read_dec parse_dec_dec)

lemma strtoull_llu [simp]: "strtoull (fmt_llu x) = x"
  using strtoull_dec [of "unat x"] unsigned_less [of x] by (simp add: fmt_llu_def)

lemma atoi_dec: "n < 2 ^ 31 \<Longrightarrow> atoi (dec n) = Some (int n)"
proof -
  assume "n < 2 ^ 31"
  then have "int n < int (2 ^ 31)" by (simp only: of_nat_less_iff)
  then show ?thesis using number_start_dec [of n "[]"] by (simp add: atoi_def read_dec parse_dec_dec)
qed

lemma atoi_u [simp]: "atoi (fmt_u x) = Some (int (unat x))"
proof -
  have "unat x < 65536" using unsigned_less [of x] by simp
  then show ?thesis using atoi_dec [of "unat x"] by (simp add: fmt_u_def)
qed

lemma strrchr_append: "strrchr c (xs @ ys) = (case strrchr c ys of Some n \<Rightarrow> Some (length xs + n) | None \<Rightarrow> strrchr c xs)"
  by (induction xs) (auto split: option.splits)

lemma strrchr_None: "strrchr c xs = None \<longleftrightarrow> c \<notin> set xs"
  by (induction xs) (auto split: option.splits)

lemma strrchr_Some: "strrchr c xs = Some n \<Longrightarrow> n < length xs \<and> xs ! n = c \<and> c \<notin> set (drop (Suc n) xs)"
proof (induction xs arbitrary: n)
  case (Cons x xs)
  then show ?case by (cases "strrchr c xs") (auto simp: strrchr_None split: if_splits)
qed simp

lemma starts_with_append [simp]: "starts_with p (p @ t)"
  by (simp add: starts_with_def)

end
