(* ===== verification/Feed_Options.thy ===== *)
theory Feed_Options
  imports C_Text
begin

text \<open>
  The command line of \<^verbatim>\<open>metrics/itch_metrics_replay.cpp\<close>: the loop over the options with the buffer of 64 characters
  that takes the host, and what the loop makes of options in their printed form.
\<close>

section \<open>The code\<close>

text \<open>A C string in an array ends at its first null character.\<close>

definition c_string :: "char list \<Rightarrow> string" where
  "c_string buf = takeWhile (\<lambda>c. c \<noteq> CHR 0x00) buf"

record feed_options =
  fo_pace :: double
  fo_snap :: u64
  fo_prefault :: bool
  fo_udp :: bool
  fo_host :: "char list"
  fo_port :: u16

definition feed_defaults :: feed_options where
  "feed_defaults = \<lparr>fo_pace = d_zero, fo_snap = 8192, fo_prefault = True, fo_udp = False,
     fo_host = ''127.0.0.1'' @ replicate 55 CHR 0x00, fo_port = 9099\<rparr>"

text \<open>\<open>memcpy(udp_host, hp, hlen); udp_host[hlen] = 0;\<close>\<close>

definition copy_host :: "string \<Rightarrow> nat \<Rightarrow> char list \<Rightarrow> char list option" where
  "copy_host hp hlen buf = do {
     require (hlen \<le> length hp \<and> hlen \<le> length buf);
     vec_set (take hlen hp @ drop hlen buf) (int hlen) CHR 0x00
   }"

text \<open>\<open>Inl\<close> is an unknown option, at which \<open>main\<close> ends.\<close>

definition feed_option :: "string \<Rightarrow> feed_options \<Rightarrow> (string + feed_options) option" where
  "feed_option a f =
     (if starts_with ''--pace='' a then do { p \<leftarrow> atof (drop 7 a); Some (Inr (f\<lparr>fo_pace := p\<rparr>)) }
      else if starts_with ''--snap='' a then Some (Inr (f\<lparr>fo_snap := strtoull (drop 7 a)\<rparr>))
      else if a = ''--no-prefault'' then Some (Inr (f\<lparr>fo_prefault := False\<rparr>))
      else if a = ''--udp'' then Some (Inr (f\<lparr>fo_udp := True\<rparr>))
      else if starts_with ''--udp='' a then
        (let f = f\<lparr>fo_udp := True\<rparr>; hp = drop 6 a
         in case strrchr CHR '':'' hp of
              Some colon \<Rightarrow> do {
                let hlen = (if colon \<ge> 64 then 63 else colon);
                host \<leftarrow> copy_host hp hlen (fo_host f);
                n \<leftarrow> atoi (drop (colon + 1) hp);
                Some (Inr (f\<lparr>fo_host := host, fo_port := of_int n\<rparr>))
              }
            | None \<Rightarrow> do { n \<leftarrow> atoi hp; Some (Inr (f\<lparr>fo_port := of_int n\<rparr>)) })
      else Some (Inl a))"

primrec feed_option_loop :: "string list \<Rightarrow> feed_options \<Rightarrow> (string + feed_options) option" where
  "feed_option_loop [] f = Some (Inr f)"
| "feed_option_loop (a # as) f = do { r \<leftarrow> feed_option a f; case r of Inl e \<Rightarrow> Some (Inl e) | Inr f \<Rightarrow> feed_option_loop as f }"

text \<open>\<open>if (snap_every == 0) snap_every = 8192; if (pace < 0) pace = 0.0;\<close>\<close>

definition feed_checked :: "feed_options \<Rightarrow> feed_options" where
  "feed_checked f =
     (let f = (if fo_snap f = 0 then f\<lparr>fo_snap := 8192\<rparr> else f)
      in if d_less (fo_pace f) d_zero then f\<lparr>fo_pace := d_zero\<rparr> else f)"

section \<open>Options as they are meant\<close>

text \<open>A whole number for the pace, and a host without a null character.\<close>

datatype feed_flag = Pace nat | Snap u64 | No_Prefault | Udp | Udp_Port u16 | Udp_Target string u16

fun flag_text :: "feed_flag \<Rightarrow> string" where
  "flag_text (Pace n) = ''--pace='' @ dec n"
| "flag_text (Snap n) = ''--snap='' @ fmt_llu n"
| "flag_text No_Prefault = ''--no-prefault''"
| "flag_text Udp = ''--udp''"
| "flag_text (Udp_Port p) = ''--udp='' @ fmt_u p"
| "flag_text (Udp_Target h p) = ''--udp='' @ h @ '':'' @ fmt_u p"

fun flag_ok :: "feed_flag \<Rightarrow> bool" where
  "flag_ok (Pace n) \<longleftrightarrow> n < 2 ^ 53"
| "flag_ok (Udp_Target h p) \<longleftrightarrow> CHR 0x00 \<notin> set h"
| "flag_ok _ \<longleftrightarrow> True"

text \<open>What a flag asks for: a host is cut to 63 characters.\<close>

record feed_request =
  rq_pace :: rat
  rq_snap :: u64
  rq_prefault :: bool
  rq_udp :: bool
  rq_host :: string
  rq_port :: u16

definition default_request :: feed_request where
  "default_request = \<lparr>rq_pace = 0, rq_snap = 8192, rq_prefault = True, rq_udp = False, rq_host = ''127.0.0.1'', rq_port = 9099\<rparr>"

fun apply_flag :: "feed_flag \<Rightarrow> feed_request \<Rightarrow> feed_request" where
  "apply_flag (Pace n) q = q\<lparr>rq_pace := of_nat n\<rparr>"
| "apply_flag (Snap n) q = q\<lparr>rq_snap := (if n = 0 then 8192 else n)\<rparr>"
| "apply_flag No_Prefault q = q\<lparr>rq_prefault := False\<rparr>"
| "apply_flag Udp q = q\<lparr>rq_udp := True\<rparr>"
| "apply_flag (Udp_Port p) q = q\<lparr>rq_udp := True, rq_port := p\<rparr>"
| "apply_flag (Udp_Target h p) q = q\<lparr>rq_udp := True, rq_host := take 63 h, rq_port := p\<rparr>"

text \<open>The options in the program that stand for a request, once checked.\<close>

definition means :: "feed_options \<Rightarrow> feed_request \<Rightarrow> bool" where
  "means f q \<longleftrightarrow> val (fo_pace f) = rq_pace q \<and> (if fo_snap f = 0 then 8192 else fo_snap f) = rq_snap q \<and> fo_prefault f = rq_prefault q
     \<and> fo_udp f = rq_udp q \<and> length (fo_host f) = 64 \<and> CHR 0x00 \<in> set (fo_host f) \<and> c_string (fo_host f) = rq_host q
     \<and> fo_port f = rq_port q"

section \<open>A flag is read as it is meant\<close>

lemma digit_lower: "is_digit c \<Longrightarrow> lower c = c \<and> c \<noteq> CHR ''x'' \<and> c \<noteq> CHR ''i'' \<and> c \<noteq> CHR ''n''"
  by (auto simp: is_digit_def lower_def)

lemma dec_not_hex: "\<not> starts_with ''0x'' (map lower (dec n))"
proof
  assume "starts_with ''0x'' (map lower (dec n))"
  then obtain a b t where "dec n = a # b # t" "lower b = CHR ''x''"
    by (cases "dec n"; cases "tl (dec n)") (auto simp: starts_with_def)
  then have "is_digit b" using dec_digits [of n] by simp
  with digit_lower [of b] \<open>lower b = CHR ''x''\<close> show False by metis
qed

lemma bitlen_small: "n < 2 ^ k \<Longrightarrow> bitlen (int n) \<le> int k"
proof (cases "n = 0")
  case True
  then show ?thesis by (simp add: bitlen.simps)
next
  case False
  assume "n < 2 ^ k"
  then have n: "int n < 2 ^ k" using of_nat_less_iff [of n "2 ^ k", where 'a = int] by simp
  have b: "0 < bitlen (int n)" "2 ^ nat (bitlen (int n) - 1) \<le> int n" using bitlen_bounds [of "int n"] False by simp_all
  show "bitlen (int n) \<le> int k"
  proof (rule ccontr)
    assume "\<not> bitlen (int n) \<le> int k"
    then have "(2::int) ^ k \<le> 2 ^ nat (bitlen (int n) - 1)" by (intro power_increasing) auto
    then show False using n b(2) by linarith
  qed
qed

lemma d_of_nat_normal: "n < 2 ^ 53 \<Longrightarrow> d_normal (d_of_int (int n))"
proof -
  assume n: "n < 2 ^ 53"
  have one: "bitlen 1 = 1" by (simp add: bitlen.simps)
  have "0 < bitlen (int n)" if "n \<noteq> 0" using bitlen_bounds [of "int n"] that by simp
  then have "- 53 \<le> round_exponent (int n) 1 \<and> round_exponent (int n) 1 \<le> 0" if "n \<noteq> 0"
    using bitlen_small [OF n] that by (auto simp: round_exponent_def Let_def one split: prod.split)
  then show ?thesis by (auto simp: d_normal_def d_of_int_def round_frac_def Let_def split: prod.split)
qed

lemma atof_dec:
  assumes "n < 2 ^ 53"
  shows "atof (dec n) = Some (d_of_int (int n))"
proof -
  have s: "number_start (dec n) = (False, dec n)" using number_start_dec [of n "[]"] by simp
  show ?thesis using d_of_nat_normal [OF assms] dec_digits [of n] dec_not_hex [of n]
    by (simp add: atof_def s read_dec fraction_of_def exponent_of_def parse_dec_dec Let_def d_of_int_def)
qed

lemma host_copied:
  assumes buf: "length buf = 64" and h: "CHR 0x00 \<notin> set h" "hlen = min 63 (length h)" and hp: "hp = h @ t"
  shows "\<exists>buf'. copy_host hp hlen buf = Some buf' \<and> length buf' = 64 \<and> CHR 0x00 \<in> set buf' \<and> c_string buf' = take 63 h"
proof -
  let ?fore = "take hlen hp" and ?rear = "drop hlen buf"
  have f: "?fore = take 63 h" "length ?fore = hlen" "hlen < 64" using h(2) by (auto simp: hp min_def)
  have "copy_host hp hlen buf = Some ((?fore @ ?rear)[hlen := CHR 0x00])"
    using f buf h(2) vec_set_in [of hlen "?fore @ ?rear" "CHR 0x00"] by (simp add: copy_host_def hp)
  moreover have "(?fore @ ?rear)[hlen := CHR 0x00] = take 63 h @ CHR 0x00 # drop (Suc hlen) buf"
  proof -
    have "?rear = buf ! hlen # drop (Suc hlen) buf" using f(3) buf by (simp add: Cons_nth_drop_Suc)
    then show ?thesis using f(2) by (simp add: list_update_append flip: f(1))
  qed
  moreover have "c_string (take 63 h @ CHR 0x00 # u) = take 63 h" for u
    using h(1) in_set_takeD [of _ 63 h] by (subst c_string_def, subst takeWhile_append2) auto
  moreover have "length (take 63 h @ CHR 0x00 # drop (Suc hlen) buf) = 64" using f buf h(2) by simp
  ultimately show ?thesis by (metis in_set_conv_decomp)
qed

lemma colon_of_target: "strrchr CHR '':'' (h @ '':'' @ fmt_u p) = Some (length h)" "strrchr CHR '':'' (fmt_u p) = None"
proof -
  have "CHR '':'' \<notin> set (fmt_u p)" using dec_digits [of "unat p"] is_digit_not by (auto simp: fmt_u_def list_all_iff)
  then show "strrchr CHR '':'' (fmt_u p) = None" by (simp add: strrchr_None)
  then show "strrchr CHR '':'' (h @ '':'' @ fmt_u p) = Some (length h)" by (simp add: strrchr_append)
qed

lemma flag_read:
  assumes "flag_ok a" "means f q"
  shows "\<exists>f'. feed_option (flag_text a) f = Some (Inr f') \<and> means f' (apply_flag a q)"
proof (cases a)
  case (Udp_Target h p)
  let ?hlen = "if length h \<ge> 64 then 63 else length h"
  have "length (fo_host f) = 64" "CHR 0x00 \<notin> set h" "?hlen = min 63 (length h)" using assms Udp_Target by (auto simp: means_def)
  from host_copied [OF this refl, of "'':'' @ fmt_u p"] obtain buf where
    "copy_host (h @ '':'' @ fmt_u p) ?hlen (fo_host f) = Some buf" "length buf = 64" "CHR 0x00 \<in> set buf" "c_string buf = take 63 h" by blast
  then show ?thesis using assms(2) colon_of_target(1) [of h p]
    by (auto simp: feed_option_def starts_with_def Udp_Target means_def Let_def)
qed (use assms colon_of_target(2) in
    \<open>auto simp: feed_option_def starts_with_def means_def atof_dec val_d_of_int Let_def\<close>)

lemma flags_read:
  "\<forall>a \<in> set as. flag_ok a \<Longrightarrow> means f q \<Longrightarrow>
     \<exists>f'. feed_option_loop (map flag_text as) f = Some (Inr f') \<and> means f' (fold apply_flag as q)"
proof (induction as arbitrary: f q)
  case (Cons a as)
  obtain f1 where f1: "feed_option (flag_text a) f = Some (Inr f1)" "means f1 (apply_flag a q)"
    using flag_read [of a f q] Cons.prems by auto
  then show ?case using Cons.IH [OF _ f1(2)] Cons.prems(1) by simp
qed simp

lemma defaults_mean: "means feed_defaults default_request"
  by (simp add: means_def feed_defaults_def default_request_def c_string_def)

lemma checked_means: "means f q \<Longrightarrow> 0 \<le> rq_pace q \<Longrightarrow> means (feed_checked f) q"
  by (auto simp: means_def feed_checked_def Let_def d_less_val)

lemma flags_pace: "0 \<le> rq_pace q \<Longrightarrow> 0 \<le> rq_pace (fold apply_flag as q)"
proof (induction as arbitrary: q)
  case (Cons a as)
  then have "0 \<le> rq_pace (apply_flag a q)" by (cases a) simp_all
  then show ?case using Cons.IH by simp
qed simp

lemma options_read:
  assumes "\<forall>a \<in> set as. flag_ok a"
  shows "\<exists>f. feed_option_loop (map flag_text as) feed_defaults = Some (Inr f)
    \<and> means (feed_checked f) (fold apply_flag as default_request)"
proof -
  obtain f where f: "feed_option_loop (map flag_text as) feed_defaults = Some (Inr f)" "means f (fold apply_flag as default_request)"
    using flags_read [OF assms defaults_mean] by blast
  have "0 \<le> rq_pace (fold apply_flag as default_request)" by (rule flags_pace) (simp add: default_request_def)
  then show ?thesis using f checked_means by blast
qed

text \<open>Whatever the options, the host buffer keeps its size and holds a string, and a checked snapshot period is not zero.\<close>

definition options_ok :: "feed_options \<Rightarrow> bool" where
  "options_ok f \<longleftrightarrow> length (fo_host f) = 64 \<and> CHR 0x00 \<in> set (fo_host f)"

lemma defaults_ok: "options_ok feed_defaults"
  by (simp add: options_ok_def feed_defaults_def)

lemma copy_host_ok:
  assumes "copy_host hp hlen buf = Some buf'"
  shows "length buf' = length buf \<and> CHR 0x00 \<in> set buf'"
proof -
  have h: "hlen \<le> length hp" "hlen < length (take hlen hp @ drop hlen buf)" "hlen \<le> length buf"
    and b: "buf' = (take hlen hp @ drop hlen buf)[hlen := CHR 0x00]"
    using assms by (auto simp: copy_host_def vec_set_def split: if_splits)
  then show ?thesis using set_update_memI [OF h(2), of "CHR 0x00"] by simp
qed

lemma feed_option_ok: "feed_option a f = Some (Inr f') \<Longrightarrow> options_ok f \<Longrightarrow> options_ok f'"
  by (auto simp: feed_option_def options_ok_def Let_def dest!: copy_host_ok split: if_splits option.splits)

lemma option_loop_ok: "feed_option_loop as f = Some (Inr f') \<Longrightarrow> options_ok f \<Longrightarrow> options_ok f'"
proof (induction as arbitrary: f)
  case (Cons a as)
  then obtain r where r: "feed_option a f = Some r" "(case r of Inl e \<Rightarrow> Some (Inl e) | Inr f \<Rightarrow> feed_option_loop as f) = Some (Inr f')"
    by auto
  then obtain f1 where "feed_option a f = Some (Inr f1)" "feed_option_loop as f1 = Some (Inr f')" by (cases r) auto
  then show ?case using Cons.IH feed_option_ok Cons.prems(2) by blast
qed simp

lemma feed_checked_ok: "options_ok f \<Longrightarrow> options_ok (feed_checked f) \<and> fo_snap (feed_checked f) \<noteq> 0 \<and> 0 \<le> val (fo_pace (feed_checked f))"
  by (auto simp: options_ok_def feed_checked_def Let_def d_less_val)

text \<open>An option's copy of the host is inside the buffer: only an unreadable number is undefined.\<close>

lemma feed_option_defined:
  assumes "options_ok f" "feed_option a f = None"
  shows "(\<exists>t. a = ''--pace='' @ t \<and> atof t = None) \<or> (\<exists>t k. a = ''--udp='' @ t \<and> k \<le> length t \<and> atoi (drop k t) = None)"
proof -
  have split: "a = p @ drop (length p) a" if "starts_with p a" for p
    using that append_take_drop_id [of "length p" a] by (simp add: starts_with_def)
  have host: "\<exists>buf'. copy_host hp (if k \<ge> 64 then 63 else k) (fo_host f) = Some buf'" if "strrchr CHR '':'' hp = Some k" for hp k
  proof -
    let ?n = "if k \<ge> 64 then 63 else k"
    have "?n < length hp" "?n < 64" using strrchr_Some [OF that] by auto
    then show ?thesis using assms(1) vec_set_in [of ?n "take ?n hp @ drop ?n (fo_host f)" "CHR 0x00"]
      by (simp add: copy_host_def options_ok_def)
  qed
  show ?thesis
  proof (cases "starts_with ''--pace='' a")
    case True
    then have "atof (drop 7 a) = None" using assms(2) by (cases "atof (drop 7 a)") (simp_all add: feed_option_def)
    moreover have "a = ''--pace='' @ drop 7 a" using split [OF True] by (simp add: numeral_eq_Suc)
    ultimately show ?thesis by blast
  next
    case False
    then have udp: "starts_with ''--udp='' a" using assms(2) by (auto simp: feed_option_def split: if_splits)
    have a: "a = ''--udp='' @ drop 6 a" using split [OF udp] by (simp add: numeral_eq_Suc)
    show ?thesis
    proof (cases "strrchr CHR '':'' (drop 6 a)")
      case None
      then have "atoi (drop 6 a) = None"
        using assms(2) False udp by (cases "atoi (drop 6 a)") (auto simp: feed_option_def Let_def split: if_splits)
      then show ?thesis using a by (metis drop0 le0)
    next
      case (Some k)
      obtain buf' where buf': "copy_host (drop 6 a) (if k \<ge> 64 then 63 else k) (fo_host f) = Some buf'" using host [OF Some] by blast
      have "atoi (drop (k + 1) (drop 6 a)) = None"
        using assms(2) False udp Some buf'
        by (cases "atoi (drop (k + 1) (drop 6 a))") (auto simp: feed_option_def Let_def split: if_splits)
      then show ?thesis using a strrchr_Some [OF Some] by (metis Suc_eq_plus1 Suc_leI)
    qed
  qed
qed

end
