(* ===== verification/Feed_Tools.thy ===== *)
theory Feed_Tools
  imports Book_Replay C_Text
begin

text \<open>
  The programs that run the parser over a capture: \<^verbatim>\<open>fpga/tools/itch_dump.cpp\<close>, which prints a line for every message
  and is the reference of the hardware parser's tests, and \<^verbatim>\<open>benchmarks/itch_replay.cpp\<close>, which counts the messages by
  type, both from their arguments to their output; and the loop that touches every page of a mapped file before it is parsed. Files are byte lists.
\<close>

section \<open>itch_dump\<close>

definition hex_digit :: "nat \<Rightarrow> char" where
  "hex_digit n = ''0123456789abcdef'' ! n"

text \<open>\<open>%02x\<close> of a byte.\<close>

definition hex2 :: "u8 \<Rightarrow> string" where
  "hex2 x = [hex_digit (unat x div 16), hex_digit (unat x mod 16)]"

text \<open>The loop over the eight bytes of the symbol.\<close>

primrec hex_stock :: "bytes \<Rightarrow> nat \<Rightarrow> nat \<Rightarrow> string option" where
  "hex_stock s 0 i = Some []"
| "hex_stock s (Suc k) i = do { x \<leftarrow> vec_get s (int i); t \<leftarrow> hex_stock s k (Suc i); Some (hex2 x @ t) }"

definition dump_line :: "bool \<Rightarrow> message \<Rightarrow> string option" where
  "dump_line modeled m = do {
     stock \<leftarrow> hex_stock (m_rawStock m) 8 0;
     Some (''typ='' @ hex2 (m_type m) @ '' mod='' @ (if modeled then ''1'' else ''0'') @ '' ts='' @ fmt_llu (m_timestamp m)
       @ '' ref='' @ fmt_llu (m_orderRef m) @ '' nref='' @ fmt_llu (m_newOrderRef m) @ '' side='' @ hex2 (m_side m)
       @ '' sh='' @ dec (unat (m_shares m)) @ '' px='' @ dec (unat (m_price m)) @ '' stock='' @ stock @ [CHR 0x0A])
   }"

text \<open>The framing walk; \<open>n\<close> messages were reported so far.\<close>

function dump_from :: "bytes \<Rightarrow> nat \<Rightarrow> nat \<Rightarrow> nat \<Rightarrow> string list \<Rightarrow> string list option" where
  "dump_from data maxn off n out =
     (if off + 2 \<le> length data \<and> n < maxn then do {
        len \<leftarrow> rdU16 (drop off data);
        if len = 0 then Some out
        else if off + 2 + unat len > length data then Some out
        else do {
          (modeled, m) \<leftarrow> decode (drop (off + 2) data) (unat len) new_message;
          line \<leftarrow> dump_line modeled m;
          dump_from data maxn (off + (2 + unat len)) (n + 1) (out @ [line])
        }
      } else Some out)"
  by pat_completeness auto
termination
  by (relation "measure (\<lambda>(data, maxn, off, n, out). length data - off)") auto

declare dump_from.simps [simp del]

definition itch_dump :: "bytes \<Rightarrow> nat \<Rightarrow> string list option" where
  "itch_dump data maxn = dump_from data maxn 0 0 []"

text \<open>What is printed for a message body.\<close>

definition line_of :: "bytes \<Rightarrow> string" where
  "line_of body = (case decode_layout body new_message of (modeled, m) \<Rightarrow> the (dump_line modeled m))"

lemma hex_stock_defined: "i + k \<le> length s \<Longrightarrow> \<exists>t. hex_stock s k i = Some t \<and> length t = 2 * k"
proof (induction k arbitrary: i)
  case (Suc k)
  then obtain t where "hex_stock s k (Suc i) = Some t" "length t = 2 * k" by (metis add_Suc_shift)
  then show ?case using Suc.prems by (simp add: hex2_def)
qed simp

lemma dump_line_defined:
  assumes "decode_layout body new_message = (modeled, m)"
  shows "dump_line modeled m = Some (line_of body)"
proof -
  have "length (m_rawStock m) = 8"
  proof (cases "modeled \<and> m_type m \<in> {65, 70}")
    case True
    then show ?thesis using assms by (auto simp: decode_layout_def Let_def layout_def new_message_def split: if_splits)
  next
    case False
    then show ?thesis using assms by (auto simp: decode_layout_def Let_def layout_def new_message_def split: if_splits)
  qed
  then obtain t where "hex_stock (m_rawStock m) 8 0 = Some t" using hex_stock_defined [of 0 8 "m_rawStock m"] by auto
  then have "dump_line modeled m \<noteq> None" by (simp add: dump_line_def)
  then show ?thesis using assms by (auto simp: line_of_def)
qed

text \<open>Every message of a framed capture is reported, in order, up to \<open>maxn\<close>.\<close>

lemma dump_frames:
  assumes "\<And>body. body \<in> set bodies \<Longrightarrow> 0 < length body \<and> length body < 65536"
    and "drop off data = concat (map frame bodies)" "off \<le> length data"
  shows "dump_from data maxn off n out = Some (out @ map line_of (take (maxn - n) bodies))"
  using assms
proof (induction bodies arbitrary: off n out)
  case Nil
  then show ?case by (subst dump_from.simps) simp
next
  case (Cons body bodies)
  have body: "0 < length body" "length body < 65536" using Cons.prems(1) by auto
  have d: "drop off data = frame body @ concat (map frame bodies)" using Cons.prems(2) by simp
  have len: "length data = off + (2 + length body + length (concat (map frame bodies)))"
    using arg_cong [OF d, of length] Cons.prems(3) by (simp add: frame_def)
  show ?case
  proof (cases "n < maxn")
    case False
    then show ?thesis by (subst dump_from.simps) simp
  next
    case True
    have "rdU16 (drop off data) = Some (of_nat (length body))"
      unfolding d using body by (simp add: rdU16_val frame_def)
    moreover have "drop (off + 2) data = body @ concat (map frame bodies)"
      using arg_cong [OF d, of "drop 2"] by (simp add: frame_def add.commute)
    moreover have "unat (of_nat (length body) :: u16) = length body" "of_nat (length body) \<noteq> (0::u16)"
      using body by (simp_all add: unat_of_nat word_of_nat_eq_0_iff nat_dvd_not_less)
    moreover obtain modeled m where m: "decode_layout body new_message = (modeled, m)" by (cases "decode_layout body new_message")
    ultimately have "dump_from data maxn off n out
        = dump_from data maxn (off + (2 + length body)) (n + 1) (out @ [line_of body])"
      using len True dump_line_defined [OF m] by (subst dump_from.simps) (simp add: decode_as_layout)
    moreover have "drop (off + (2 + length body)) data = concat (map frame bodies)"
      using arg_cong [OF d, of "drop (2 + length body)"] by (simp add: frame_def add.commute)
    moreover have "maxn - n = Suc (maxn - (n + 1))" using True by simp
    ultimately show ?thesis using Cons.IH [of "off + (2 + length body)" "n + 1" "out @ [line_of body]"] Cons.prems(1) len by simp
  qed
qed

lemma itch_dump_frames:
  assumes "\<forall>body \<in> set bodies. 0 < length body \<and> length body < 65536"
  shows "itch_dump (concat (map frame bodies)) maxn = Some (map line_of (take maxn bodies))"
  unfolding itch_dump_def using assms dump_frames [of bodies 0 "concat (map frame bodies)" maxn 0 "[]"] by simp

text \<open>On any file the walk ends and reads inside it.\<close>

lemma dump_from_safe: "\<exists>ls. dump_from data maxn off n out = Some (out @ ls)"
proof (induction "length data - off" arbitrary: off n out rule: less_induct)
  case less
  show ?case
  proof (cases "off + 2 \<le> length data \<and> n < maxn")
    case False
    then show ?thesis by (subst dump_from.simps) auto
  next
    case True
    then obtain len where len: "rdU16 (drop off data) = Some len" by (auto simp: rdU16_val)
    show ?thesis
    proof (cases "len = 0 \<or> off + 2 + unat len > length data")
      case t: True
      then show ?thesis using True len by (subst dump_from.simps) auto
    next
      case False
      let ?body = "take (unat len) (drop (off + 2) data)"
      obtain modeled m where m: "decode_layout ?body new_message = (modeled, m)" by (cases "decode_layout ?body new_message")
      have fits: "unat len \<le> length (drop (off + 2) data)" using False by auto
      have "decode (drop (off + 2) data) (unat len) new_message = Some (modeled, m)" unfolding decode_as_layout [OF fits] m ..
      then have "dump_from data maxn off n out = dump_from data maxn (off + (2 + unat len)) (n + 1) (out @ [line_of ?body])"
        using True False len dump_line_defined [OF m] by (subst dump_from.simps) simp
      moreover have "length data - (off + (2 + unat len)) < length data - off" using True by auto
      ultimately show ?thesis using less.hyps [of "off + (2 + unat len)" "n + 1" "out @ [line_of ?body]"] by auto
    qed
  qed
qed

section \<open>The dump from its command line\<close>

text \<open>
  \<open>main\<close>: \<open>file\<close> gives the contents of a file that can be opened and the number of bytes that \<open>fread\<close> delivers,
  \<open>err\<close> the text of \<open>strerror\<close>.
\<close>

definition dump_main :: "(string \<Rightarrow> (bytes \<times> nat) option) \<Rightarrow> (string \<Rightarrow> string) \<Rightarrow> string list \<Rightarrow> nat program_exit option" where
  "dump_main files err argv =
     (if length argv < 2 then Some (gives_up [] (''usage: itch_dump <framed.bin> [max_msgs]'' @ line_end))
      else do {
        path \<leftarrow> vec_get argv 1;
        case files path of
          None \<Rightarrow> Some (gives_up [] (path @ '': '' @ err path @ line_end))
        | Some (data, got) \<Rightarrow>
            if length data > 0 \<and> got \<noteq> length data then Some (gives_up [] (''short read'' @ line_end))
            else do {
              maxn \<leftarrow> arg_or argv 2 (\<lambda>s. Some (strtoull s)) (- 1);
              ls \<leftarrow> itch_dump data (unat maxn);
              Some \<lparr>x_status = 0, x_out = concat ls, x_err = [], x_end = Some (length ls)\<rparr>
            }
      })"

text \<open>Every message of a framed capture, or as many as were asked for.\<close>

lemma dump_main_works:
  fixes bodies :: "bytes list" and asked :: "u64 option"
  defines "data \<equiv> concat (map frame bodies)" and "limit \<equiv> (case asked of None \<Rightarrow> - 1 | Some k \<Rightarrow> k)"
  assumes framed: "\<forall>body \<in> set bodies. 0 < length body \<and> length body < 65536"
    and capture: "files path = Some (data, length data)"
  shows "dump_main files err (name # path # (case asked of None \<Rightarrow> [] | Some k \<Rightarrow> [fmt_llu k]))
    = Some \<lparr>x_status = 0, x_out = concat (map line_of (take (unat limit) bodies)), x_err = [],
            x_end = Some (min (length bodies) (unat limit))\<rparr>"
  using itch_dump_frames [OF framed, of "unat limit"] capture
  by (cases asked) (simp_all add: dump_main_def vec_get_def arg_or_def limit_def data_def)

section \<open>Counting by type\<close>

text \<open>\<open>counts[(unsigned char)m.type & 127]++\<close> on 128 counters.\<close>

definition count_message :: "message \<Rightarrow> u64 list \<Rightarrow> u64 list option" where
  "count_message m counts = do {
     let k = int (unat (m_type m AND 127));
     c \<leftarrow> vec_get counts k;
     vec_set counts k (c + 1)
   }"

definition itch_replay :: "bytes \<Rightarrow> (nat \<times> u64 list) option" where
  "itch_replay data = parseBuffer data (length data) count_message (replicate 128 0)"

definition type_count :: "message list \<Rightarrow> nat \<Rightarrow> u64" where
  "type_count ms k = of_nat (length (filter (\<lambda>m. unat (m_type m AND 127) = k) ms))"

lemma counter_index: "unat ((x::u8) AND 127) < 128"
proof -
  have "x AND 127 = take_bit 7 x" by (simp add: take_bit_eq_mask mask_eq_exp_minus_1)
  then show ?thesis using take_bit_nat_less_exp [of 7 "unat x"] by (simp add: unsigned_take_bit_eq)
qed

lemma count_message_works:
  assumes "length counts = 128"
  shows "count_message m counts = Some (counts[unat (m_type m AND 127) := counts ! unat (m_type m AND 127) + 1])"
proof -
  obtain k where k: "unat (m_type m AND 127) = k" "k < 128" using counter_index by blast
  show ?thesis unfolding count_message_def k(1) using assms k(2) by (simp add: Let_def)
qed

lemma deliver_counts:
  "length counts = 128 \<Longrightarrow> deliver count_message bodies c counts = Some (c + length (modelled_messages bodies),
     map (\<lambda>k. counts ! k + type_count (modelled_messages bodies) k) [0..<128])"
proof (induction bodies arbitrary: c counts)
  case Nil
  then have "map (\<lambda>k. counts ! k) [0..<128] = counts" by (metis map_nth)
  then show ?case by (simp add: modelled_messages_def type_count_def)
next
  case (Cons body bodies)
  obtain ok m where d: "decode_layout body new_message = (ok, m)" by (cases "decode_layout body new_message")
  show ?case
  proof (cases ok)
    case False
    then have "modelled_messages (body # bodies) = modelled_messages bodies" by (simp add: modelled_messages_def d)
    then show ?thesis using False Cons by (simp add: d)
  next
    case True
    then have ms: "modelled_messages (body # bodies) = m # modelled_messages bodies" by (simp add: modelled_messages_def d)
    let ?k = "unat (m_type m AND 127)"
    have "counts[?k := counts ! ?k + 1] ! k + type_count (modelled_messages bodies) k
        = counts ! k + type_count (m # modelled_messages bodies) k" if "k < 128" for k
      using that Cons.prems by (simp add: type_count_def nth_list_update)
    then have "map (\<lambda>k. counts[?k := counts ! ?k + 1] ! k + type_count (modelled_messages bodies) k) [0..<128]
        = map (\<lambda>k. counts ! k + type_count (m # modelled_messages bodies) k) [0..<128]" by simp
    then show ?thesis using True Cons.IH [of "counts[?k := counts ! ?k + 1]" "c + 1"] Cons.prems
      by (simp add: d ms count_message_works)
  qed
qed

lemma itch_replay_counts:
  assumes "\<forall>body \<in> set bodies. 0 < length body \<and> length body < 65536"
  shows "\<exists>counts. itch_replay (concat (map frame bodies)) = Some (length (modelled_messages bodies), counts)
    \<and> length counts = 128 \<and> (\<forall>k < 128. counts ! k = type_count (modelled_messages bodies) k)"
  unfolding itch_replay_def parseBuffer_def
  using parse_frames [of bodies 0 "concat (map frame bodies)" count_message 0 "replicate 128 0"] assms
    deliver_counts [of "replicate 128 0" bodies 0] by simp

text \<open>
  \<open>main\<close>, with the counts printed for each type. The files are those that can be opened and mapped: neither the argument nor
  the results of \<open>open\<close> and \<open>mmap\<close> are checked, so the program is undefined without a readable file.
\<close>

definition replay_line :: "u64 list \<Rightarrow> char \<Rightarrow> string option" where
  "replay_line counts t = do { c \<leftarrow> vec_get counts (of_char t); Some (''  '' @ [t] @ '' : '' @ fmt_llu c @ line_end) }"

primrec replay_lines :: "u64 list \<Rightarrow> char list \<Rightarrow> string \<Rightarrow> string option" where
  "replay_lines counts [] out = Some out"
| "replay_lines counts (t # ts) out = do { l \<leftarrow> replay_line counts t; replay_lines counts ts (out @ l) }"

definition replay_main :: "(string \<Rightarrow> bytes option) \<Rightarrow> string list \<Rightarrow> nat program_exit option" where
  "replay_main files argv = do {
     path \<leftarrow> vec_get argv 1;
     data \<leftarrow> files path;
     (n, counts) \<leftarrow> itch_replay data;
     out \<leftarrow> replay_lines counts ''AFECXDU'' (''modeled messages: '' @ dec n @ line_end);
     Some \<lparr>x_status = 0, x_out = out, x_err = [], x_end = Some n\<rparr>
   }"

lemma replay_lines_work:
  "length counts = 128 \<Longrightarrow> \<forall>t \<in> set ts. of_char t < (128 :: nat) \<Longrightarrow>
     replay_lines counts ts out = Some (out @ concat (map (\<lambda>t. ''  '' @ [t] @ '' : '' @ fmt_llu (counts ! of_char t) @ line_end) ts))"
proof (induction ts arbitrary: out)
  case (Cons t ts)
  have "vec_get counts (of_char t) = Some (counts ! of_char t)" using Cons.prems vec_get_in [of "of_char t" counts] by (simp add: of_nat_of_char)
  then show ?case using Cons by (simp add: replay_line_def)
qed simp

lemma replay_main_works:
  assumes framed: "\<forall>body \<in> set bodies. 0 < length body \<and> length body < 65536"
    and capture: "files path = Some (concat (map frame bodies))"
  shows "replay_main files (name # path # rest) = Some \<lparr>x_status = 0,
      x_out = ''modeled messages: '' @ dec (length (modelled_messages bodies)) @ line_end
        @ concat (map (\<lambda>t. ''  '' @ [t] @ '' : '' @ fmt_llu (type_count (modelled_messages bodies) (of_char t)) @ line_end) ''AFECXDU''),
      x_err = [], x_end = Some (length (modelled_messages bodies))\<rparr>"
proof -
  obtain counts where counts: "itch_replay (concat (map frame bodies)) = Some (length (modelled_messages bodies), counts)"
    "length counts = 128" "\<forall>k < 128. counts ! k = type_count (modelled_messages bodies) k" using itch_replay_counts [OF framed] by blast
  have types: "\<forall>t \<in> set ''AFECXDU''. of_char t < (128 :: nat)" by code_simp
  then have same: "map (\<lambda>t. ''  '' @ [t] @ '' : '' @ fmt_llu (counts ! of_char t) @ line_end) ''AFECXDU''
      = map (\<lambda>t. ''  '' @ [t] @ '' : '' @ fmt_llu (type_count (modelled_messages bodies) (of_char t)) @ line_end) ''AFECXDU''"
    using counts(3) by (intro map_cong [OF refl]) auto
  have "vec_get (name # path # rest) 1 = Some path" by (simp add: vec_get_def)
  then show ?thesis
    using replay_lines_work [OF counts(2) types, of "''modeled messages: '' @ dec (length (modelled_messages bodies)) @ line_end"]
    unfolding same replay_main_def by (simp only: bind.bind_lunit capture counts(1) prod.case append_assoc)
qed

section \<open>Touching every page\<close>

text \<open>\<open>for (size_t i = 0; i < size; i += 4096) t += data[i]\<close>.\<close>

function touch_pages :: "bytes \<Rightarrow> nat \<Rightarrow> u64 \<Rightarrow> u64 option" where
  "touch_pages data i t =
     (if i < length data then do { x \<leftarrow> vec_get data (int i); touch_pages data (i + 4096) (t + ucast x) } else Some t)"
  by pat_completeness auto
termination
  by (relation "measure (\<lambda>(data, i, t). length data - i)") auto

declare touch_pages.simps [simp del]

lemma touch_pages_returns: "\<exists>t'. touch_pages data i t = Some t'"
proof (induction "length data - i" arbitrary: i t rule: less_induct)
  case less
  show ?case
  proof (cases "i < length data")
    case True
    then have "length data - (i + 4096) < length data - i" by simp
    then show ?thesis using less.hyps True by (subst touch_pages.simps) simp
  next
    case False
    then show ?thesis by (subst touch_pages.simps) simp
  qed
qed

end
