(* ===== verification/Demo_Aggregator.thy ===== *)
theory Demo_Aggregator
  imports Demo_Run
begin

text \<open>
  \<^verbatim>\<open>metrics/aggregator_demo.cpp\<close>: a producer that times synthetic work and records trades and quotes, the aggregator
  on the other side of the ring, and the self-check at the end. The run flag and the clock are inputs of an iteration,
  the time stamp counter is a stream.
\<close>

unbundle bit_operations_syntax

section \<open>The producer\<close>

record agg_thread =
  at_sink :: u64
  at_ticks :: nat
  at_i :: u64
  at_p :: u64
  at_running :: bool
  at_produced :: u64

primrec work_loop :: "nat \<Rightarrow> u64 \<Rightarrow> u64" where
  "work_loop 0 a = a"
| "work_loop (Suc n) a = work_loop n (a * 6364136223846793005 + 1)"

text \<open>\<open>do_work\<close> adds its result to the global \<open>sink\<close>.\<close>

definition do_work :: "u64 \<Rightarrow> nat \<Rightarrow> u64 \<Rightarrow> u64" where
  "do_work x iters sink = (let a = work_loop iters x in sink + a)"

text \<open>A block with a \<open>ScopedLatency\<close>, the work and \<open>++p\<close>.\<close>

definition timed_work ::
    "(nat \<Rightarrow> u64) \<Rightarrow> op_type \<Rightarrow> u64 \<Rightarrow> nat \<Rightarrow> agg_thread \<times> recorder \<Rightarrow> (agg_thread \<times> recorder) option" where
  "timed_work clock op x iters sr = (case sr of (st, r) \<Rightarrow> do {
     let t0 = clock (at_ticks st);
     let st = st\<lparr>at_sink := do_work x iters (at_sink st), at_p := at_p st + 1\<rparr>;
     let t1 = clock (at_ticks st + 1);
     r \<leftarrow> scoped_latency op t0 t1 (Some r);
     r \<leftarrow> r;
     Some (st\<lparr>at_ticks := at_ticks st + 2\<rparr>, r)
   })"

definition trade_and_quote :: "(nat \<Rightarrow> u64) \<Rightarrow> agg_thread \<times> recorder \<Rightarrow> (agg_thread \<times> recorder) option" where
  "trade_and_quote clock sr = (case sr of (st, r) \<Rightarrow> do {
     let i = at_i st;
     r \<leftarrow> recordTrade (clock (at_ticks st)) (100500 + int (unat (i mod 50))) (1 + ucast (i mod 7)) (ucast (i mod 9)) r;
     let st = st\<lparr>at_p := at_p st + 1\<rparr>;
     r \<leftarrow> recordSnapshot (clock (at_ticks st + 1)) (28753 - int (unat (i mod 3))) (28758 + int (unat (i mod 4))) r;
     Some (st\<lparr>at_p := at_p st + 1, at_ticks := at_ticks st + 2\<rparr>, r)
   })"

definition agg_stop :: "agg_thread \<Rightarrow> agg_thread" where
  "agg_stop st = st\<lparr>at_running := False, at_produced := at_p st\<rparr>"

text \<open>An iteration; the input is the run flag and the clock reading.\<close>

definition agg_iteration ::
    "(nat \<Rightarrow> u64) \<Rightarrow> u64 \<Rightarrow> bool \<times> u64 \<Rightarrow> agg_thread \<Rightarrow> recorder \<Rightarrow> (agg_thread \<times> recorder) option" where
  "agg_iteration clock dl x st r =
     (if \<not> at_running st then Some (st, r)
      else if \<not> fst x then Some (agg_stop st, r)
      else do {
        let i = at_i st;
        sr \<leftarrow> timed_work clock Op_Add i 18 (st, r);
        sr \<leftarrow> timed_work clock Op_Cancel (i XOR 7) 14 sr;
        sr \<leftarrow> (if i AND 3 = 0 then timed_work clock Op_Modify (i * 3) 22 sr else Some sr);
        (st, r) \<leftarrow> (if i mod 2000 = 0 then trade_and_quote clock sr else Some sr);
        let st = st\<lparr>at_i := i + 1\<rparr>;
        Some (if deadline_passed dl (i + 1) (snd x) then agg_stop st else st, r)
      })"

definition agg_start :: agg_thread where
  "agg_start = \<lparr>at_sink = 0, at_ticks = 0, at_i = 0, at_p = 0, at_running = True, at_produced = 0\<rparr>"

text \<open>\<open>main\<close>, with the exit code.\<close>

definition agg_main ::
    "u64 \<Rightarrow> (nat \<Rightarrow> u64) \<Rightarrow> double \<Rightarrow> u64 \<Rightarrow> u64 \<Rightarrow> (bool \<times> u64) schedule \<Rightarrow> u64 \<Rightarrow> (agg_thread \<times> pipeline \<times> int) option" where
  "agg_main hz clock secs t_hot t_start turns t_end = do {
     dl \<leftarrow> hot_deadline secs t_hot;
     a \<leftarrow> mk_aggregator (ns_per_tick hz) (d_of_int 5);
     (st, pl) \<leftarrow> demo_run (agg_iteration clock dl) (\<lambda>_. None) t_start turns t_end agg_start (mk_recorder 0) a;
     require (\<not> at_running st);
     let prod = at_produced st;
     let cons = ag_consumed (pl_agg pl);
     let drops = rec_drops (pl_rec pl);
     Some (st, pl, if cons + drops = prod then 0 else 1)
   }"

section \<open>It keeps the contract of a hot thread\<close>

text \<open>\<open>counts k sr f\<close>: the step makes \<open>k\<close> calls of the recorder and counts them.\<close>

definition counts :: "nat \<Rightarrow> (agg_thread \<times> recorder \<Rightarrow> (agg_thread \<times> recorder) option) \<Rightarrow> agg_thread \<times> recorder \<Rightarrow> bool" where
  "counts k f sr \<longleftrightarrow> (\<exists>st' r' cs. f sr = Some (st', r') \<and> ring_inv ring_cap (rec_ring r') \<and> record_calls cs (snd sr) = Some r'
     \<and> length cs = k \<and> at_p st' = at_p (fst sr) + of_nat k \<and> at_running st' = at_running (fst sr))"

lemma scoped_call:
  "scoped_latency op t0 t1 (Some r) = map_option Some (record_call (Rec_Latency op (ucast (t1 - t0)) t1) r)"
  by (simp add: scoped_latency_def)

lemma timed_work_counts:
  assumes "ring_inv ring_cap (rec_ring r)"
  shows "counts 1 (timed_work clock op x n) (st, r)"
proof -
  let ?t0 = "clock (at_ticks st)" and ?t1 = "clock (at_ticks st + 1)"
  obtain r' where r': "recordLatency op (ucast (?t1 - ?t0)) ?t1 r = Some r'" "ring_inv ring_cap (rec_ring r')"
    using record_call_works [OF assms, of "Rec_Latency op (ucast (?t1 - ?t0)) ?t1"] by auto
  then have "record_calls [Rec_Latency op (ucast (?t1 - ?t0)) ?t1] r = Some r'" by simp
  then show ?thesis using r'
    by (auto simp: counts_def timed_work_def scoped_call Let_def simp del: record_calls.simps
        intro!: exI [of _ "[Rec_Latency op (ucast (?t1 - ?t0)) ?t1]"])
qed

lemma trade_and_quote_counts:
  assumes "ring_inv ring_cap (rec_ring r)"
  shows "counts 2 (trade_and_quote clock) (st, r)"
proof -
  let ?i = "at_i st"
  let ?c = "Rec_Trade (clock (at_ticks st)) (100500 + int (unat (?i mod 50))) (1 + ucast (?i mod 7)) (ucast (?i mod 9))"
  let ?d = "Rec_Snapshot (clock (at_ticks st + 1)) (28753 - int (unat (?i mod 3))) (28758 + int (unat (?i mod 4)))"
  obtain r1 where r1: "record_call ?c r = Some r1" "ring_inv ring_cap (rec_ring r1)"
    using record_call_works [OF assms, of ?c] by blast
  obtain r2 where r2: "record_call ?d r1 = Some r2" "ring_inv ring_cap (rec_ring r2)"
    using record_call_works [OF r1(2), of ?d] by blast
  have cs: "record_calls [?c, ?d] r = Some r2" using r1 r2 by simp
  have run: "trade_and_quote clock (st, r) = Some (st\<lparr>at_p := at_p st + 1 + 1, at_ticks := at_ticks st + 2\<rparr>, r2)"
    using r1 r2 by (simp add: trade_and_quote_def Let_def)
  show ?thesis unfolding counts_def using run r2(2) cs
    by (intro exI [of _ "st\<lparr>at_p := at_p st + 1 + 1, at_ticks := at_ticks st + 2\<rparr>"] exI [of _ r2] exI [of _ "[?c, ?d]"]) simp
qed

lemma counts_bind:
  assumes "counts j f sr" and "\<And>st r. ring_inv ring_cap (rec_ring r) \<Longrightarrow> counts k g (st, r)"
  shows "counts (j + k) (\<lambda>sr. Option.bind (f sr) g) sr"
proof -
  obtain st1 r1 cs where 1: "f sr = Some (st1, r1)" "ring_inv ring_cap (rec_ring r1)" "record_calls cs (snd sr) = Some r1"
    "length cs = j" "at_p st1 = at_p (fst sr) + of_nat j" "at_running st1 = at_running (fst sr)"
    using assms(1) by (auto simp: counts_def)
  obtain st2 r2 ds where 2: "g (st1, r1) = Some (st2, r2)" "ring_inv ring_cap (rec_ring r2)" "record_calls ds r1 = Some r2"
    "length ds = k" "at_p st2 = at_p st1 + of_nat k" "at_running st2 = at_running st1"
    using assms(2) [OF 1(2), of st1] by (auto simp: counts_def)
  have "record_calls (cs @ ds) (snd sr) = Some r2" using 1(3) 2(3) by (simp add: record_calls_append)
  then show ?thesis unfolding counts_def using 1 2
    by (intro exI [of _ st2] exI [of _ r2] exI [of _ "cs @ ds"]) simp
qed

lemma counts_skip: "ring_inv ring_cap (rec_ring r) \<Longrightarrow> counts 0 Some (st, r)"
  unfolding counts_def by (intro exI [of _ st] exI [of _ r] exI [of _ "[]"]) simp

definition agg_ok :: "nat \<Rightarrow> agg_thread \<Rightarrow> bool" where
  "agg_ok n st \<longleftrightarrow> at_running st \<or> at_produced st = at_p st"

definition agg_emits :: "agg_thread \<Rightarrow> agg_thread \<Rightarrow> recording list \<Rightarrow> bool" where
  "agg_emits st st' cs \<longleftrightarrow> at_p st' = at_p st + of_nat (length cs)"

lemma agg_body_counts:
  assumes "ring_inv ring_cap (rec_ring r)"
  shows "\<exists>k\<le>5. counts k (\<lambda>sr. do {
        sr \<leftarrow> timed_work clock Op_Add i 18 sr;
        sr \<leftarrow> timed_work clock Op_Cancel (i XOR 7) 14 sr;
        sr \<leftarrow> (if i AND 3 = 0 then timed_work clock Op_Modify (i * 3) 22 sr else Some sr);
        if i mod 2000 = 0 then trade_and_quote clock sr else Some sr }) (st, r)"
proof -
  define m where "m = (if i AND 3 = 0 then 1 else 0 :: nat)"
  define q where "q = (if i mod 2000 = 0 then 2 else 0 :: nat)"
  have 3: "counts m (\<lambda>sr. if i AND 3 = 0 then timed_work clock Op_Modify (i * 3) 22 sr else Some sr) (st, r)"
    if "ring_inv ring_cap (rec_ring r)" for st r
    using timed_work_counts [OF that] counts_skip [OF that] by (simp add: m_def)
  have 4: "counts q (\<lambda>sr. if i mod 2000 = 0 then trade_and_quote clock sr else Some sr) (st, r)"
    if "ring_inv ring_cap (rec_ring r)" for st r
    using trade_and_quote_counts [OF that] counts_skip [OF that] unfolding q_def by (cases "i mod 2000 = 0") simp_all
  have "counts (1 + (1 + (m + q))) (\<lambda>sr. do {
        sr \<leftarrow> timed_work clock Op_Add i 18 sr;
        sr \<leftarrow> timed_work clock Op_Cancel (i XOR 7) 14 sr;
        sr \<leftarrow> (if i AND 3 = 0 then timed_work clock Op_Modify (i * 3) 22 sr else Some sr);
        if i mod 2000 = 0 then trade_and_quote clock sr else Some sr }) (st, r)"
    by (intro counts_bind timed_work_counts 3 4 assms)
  moreover have "1 + (1 + (m + q)) \<le> 5" by (simp add: m_def q_def)
  ultimately show ?thesis by blast
qed

lemma agg_iteration_works:
  assumes ok: "agg_ok n st" and r: "ring_inv ring_cap (rec_ring r)"
  shows "\<exists>st' r' cs. agg_iteration clock dl x st r = Some (st', r') \<and> agg_ok (Suc n) st' \<and> record_calls cs r = Some r'
    \<and> agg_emits st st' cs \<and> length cs \<le> 5"
proof (cases "at_running st \<and> fst x")
  case False
  then show ?thesis using ok
    by (auto simp: agg_iteration_def agg_stop_def agg_ok_def agg_emits_def intro!: exI [of _ "[]"])
next
  case True
  let ?i = "at_i st"
  let ?body = "\<lambda>sr. do {
        sr \<leftarrow> timed_work clock Op_Add ?i 18 sr;
        sr \<leftarrow> timed_work clock Op_Cancel (?i XOR 7) 14 sr;
        sr \<leftarrow> (if ?i AND 3 = 0 then timed_work clock Op_Modify (?i * 3) 22 sr else Some sr);
        if ?i mod 2000 = 0 then trade_and_quote clock sr else Some sr }"
  obtain k st1 r1 cs where k: "k \<le> 5" "?body (st, r) = Some (st1, r1)" "record_calls cs r = Some r1" "length cs = k"
    "at_p st1 = at_p st + of_nat k" "at_running st1 = at_running st"
    using agg_body_counts [OF r, of clock ?i st] unfolding counts_def by auto
  let ?done = "deadline_passed dl (?i + 1) (snd x)"
  let ?st = "st1\<lparr>at_i := ?i + 1\<rparr>"
  have "agg_iteration clock dl x st r = Option.bind (?body (st, r))
      (\<lambda>(st, r). Some (if ?done then agg_stop (st\<lparr>at_i := ?i + 1\<rparr>) else st\<lparr>at_i := ?i + 1\<rparr>, r))"
    using True unfolding agg_iteration_def by (simp only: Let_def if_False if_True simp_thms Option.bind_assoc)
  then have "agg_iteration clock dl x st r = Some (if ?done then agg_stop ?st else ?st, r1)" unfolding k(2) by simp
  then show ?thesis using True k
    by (intro exI [of _ "if ?done then agg_stop ?st else ?st"] exI [of _ r1] exI [of _ cs])
      (simp add: agg_stop_def agg_ok_def agg_emits_def)
qed

lemma agg_stops:
  assumes "agg_iteration clock dl x st r = Some (st', r')" "\<not> fst x \<or> \<not> at_running st"
  shows "\<not> at_running st'"
  using assms by (auto simp: agg_iteration_def agg_stop_def split: if_splits)

interpretation agg_demo: hot_thread "agg_iteration clock dl" "\<lambda>_. None" agg_ok agg_emits "\<lambda>x. \<not> fst x"
    "\<lambda>st. \<not> at_running st" "2 ^ 62" 5 "\<lambda>_. True" for clock dl
proof
  fix n st x and r :: recorder assume "agg_ok n st" "ring_inv ring_cap (rec_ring r)"
  then show "\<exists>st' r' cs. agg_iteration clock dl x st r = Some (st', r') \<and> agg_ok (Suc n) st' \<and> record_calls cs r = Some r'
    \<and> agg_emits st st' cs \<and> length cs \<le> 5" by (rule agg_iteration_works)
next
  fix x st st' and r r' :: recorder assume "agg_iteration clock dl x st r = Some (st', r')" "\<not> fst x \<or> \<not> at_running st"
  then show "\<not> at_running st'" by (rule agg_stops)
qed (simp_all add: agg_emits_def)

text \<open>The self-check passes: the demo exits with code 0.\<close>

lemma agg_main_works:
  assumes stop: "\<exists>x \<in> set (inputs_of turns). \<not> fst x" and secs: "val secs \<le> 1000000000" and n: "length (inputs_of turns) < 2 ^ 60"
  shows "\<exists>st pl. agg_main hz clock secs t_hot t_start turns t_end = Some (st, pl, 0)"
proof -
  obtain dl where dl: "hot_deadline secs t_hot = Some dl" using hot_deadline_defined [OF secs] by blast
  have "render_interval (d_of_int 5) \<noteq> None" by code_simp
  then obtain a where a: "mk_aggregator (ns_per_tick hz) (d_of_int 5) = Some a"
    by (auto simp: mk_aggregator_def)
  have start: "agg_ok 0 agg_start" by (simp add: agg_ok_def agg_start_def)
  obtain st pl cs es d where run: "demo_run (agg_iteration clock dl) (\<lambda>_. None) t_start turns t_end agg_start
      (mk_recorder 0) a = Some (st, pl)" "agg_ok (length (inputs_of turns)) st" "agg_emits agg_start st cs"
    "settled 0 cs pl es d" "\<not> at_running st"
    using agg_demo.demo_accounts [OF a start, where turns = turns and t_start = t_start and t_end = t_end
        and clock = clock and dl = dl] n stop by auto
  have "at_produced st = of_nat (length cs)" using run(2,3,5) by (simp add: agg_ok_def agg_emits_def agg_start_def)
  then show ?thesis using run(5) settled_counts [OF run(4)] by (simp add: agg_main_def dl a run(1) Let_def)
qed

end
