(* ===== verification/Demo_Dashboard.thy ===== *)
theory Demo_Dashboard
  imports Demo_Engine Market_Depth
begin

text \<open>
  \<^verbatim>\<open>metrics/book_dashboard_demo.cpp\<close>: the hot thread fills both sides of the book, crosses it with market orders whose
  trades it records, and publishes the depth through the sequence lock; the aggregator's frames go to the UDP sink.
\<close>

section \<open>The hot loop\<close>

record dash_thread = demo_thread +
  da_taker :: order_id
  da_pub :: "book_view publisher"

text \<open>\<open>{ ob[k].price, (int64_t)ob[k].qty }\<close>.\<close>

definition depth_of :: "depth_level \<Rightarrow> depth_rec" where
  "depth_of d = \<lparr>dr_px = dl_price d, dr_qty = sint (dl_qty d)\<rparr>"

definition depth_array :: "depth_level list \<Rightarrow> depth_rec list option" where
  "depth_array ds = copy_items (\<lambda>k. map_option depth_of (vec_get ds (int k))) (length ds) 0
     (replicate MAX_DEPTH \<lparr>dr_px = 0, dr_qty = 0\<rparr>)"

definition publishDepth :: "order_book \<Rightarrow> book_view publisher \<Rightarrow> book_view publisher option" where
  "publishDepth b p = do {
     (bs, as) \<leftarrow> getDepth b (int MAX_DEPTH);
     xs \<leftarrow> depth_array bs;
     ys \<leftarrow> depth_array as;
     Some (publish \<lparr>bv_nbids = length bs, bv_nasks = length as, bv_bids = xs, bv_asks = ys\<rparr> p)
   }"

primrec record_trades :: "(nat \<Rightarrow> u64) \<Rightarrow> trade list \<Rightarrow> metered \<Rightarrow> metered option" where
  "record_trades clock [] st = Some st"
| "record_trades clock (t # ts) st = do {
     r \<leftarrow> mb_rec st;
     r \<leftarrow> recordTrade (clock (mb_ticks st)) (t_price t) (ucast (t_quantity t)) (ucast (t_makerId t)) r;
     record_trades clock ts (st\<lparr>mb_rec := Some r, mb_ticks := mb_ticks st + 1\<rparr>)
   }"

definition cross :: "(nat \<Rightarrow> u64) \<Rightarrow> u64 \<Rightarrow> u64 \<Rightarrow> order_id \<Rightarrow> trader \<Rightarrow> trader option" where
  "cross clock d1 d2 taker tr = do {
     let aggressor = (if d1 AND 1 \<noteq> 0 then BUY else SELL);
     (sys, trades) \<leftarrow> m_submitMarket clock (tr_sys tr) aggressor (1 + d2 mod 30) taker;
     sys \<leftarrow> record_trades clock trades sys;
     Some (tr\<lparr>tr_sys := sys\<rparr>)
   }"

definition dash_step :: "(nat \<Rightarrow> u64) \<Rightarrow> (nat \<Rightarrow> u64) \<Rightarrow> trader \<times> order_id \<Rightarrow> (trader \<times> order_id) option" where
  "dash_step clock d x = (case x of (tr, taker) \<Rightarrow>
     let r = d 0 mod 100; too_big = length (tr_live tr) > 2 ^ 15
     in if \<not> too_big \<and> r < 88 then do { tr \<leftarrow> banded_add clock 10 50 (d 1) (d 2) (d 3) tr; Some (tr, taker) }
        else if \<not> too_big \<and> r < 94 then do { tr \<leftarrow> cross clock (d 1) (d 2) taker tr; Some (tr, taker + 1) }
        else if tr_live tr \<noteq> [] then do { tr \<leftarrow> random_cancel clock (d 1) tr; Some (tr, taker) }
        else Some (tr, taker))"

definition dash_publish :: "(nat \<Rightarrow> u64) \<Rightarrow> u64 \<Rightarrow> trader \<times> book_view publisher \<Rightarrow> (trader \<times> book_view publisher) option" where
  "dash_publish clock i x = (case x of (tr, p) \<Rightarrow>
     if quote_due 256 i then do {
       p \<leftarrow> publishDepth (mb_book (tr_sys tr)) p;
       sys \<leftarrow> record_quote clock (tr_sys tr);
       Some (tr\<lparr>tr_sys := sys\<rparr>, p)
     } else Some (tr, p))"

definition dash_iteration ::
    "(nat \<Rightarrow> u64) \<Rightarrow> u64 \<Rightarrow> hot_input \<Rightarrow> dash_thread \<Rightarrow> recorder \<Rightarrow> (dash_thread \<times> recorder) option" where
  "dash_iteration clock dl x st r =
     (if \<not> dt_running st then Some (st, r)
      else if \<not> in_run x then Some (st\<lparr>dt_running := False\<rparr>, r)
      else do {
        (tr, taker) \<leftarrow> dash_step clock (in_draws x) (attach r (dt_trader st), da_taker st);
        (tr, p) \<leftarrow> dash_publish clock (dt_i st) (tr, da_pub st);
        let i = dt_i st + 1;
        r \<leftarrow> mb_rec (tr_sys tr);
        Some (st\<lparr>dt_trader := tr, dt_i := i, da_taker := taker, da_pub := p,
                 dt_running := \<not> deadline_passed dl i (in_now x)\<rparr>, r)
      })"

definition dash_start :: "order_book \<Rightarrow> dash_thread" where
  "dash_start b = \<lparr>dt_trader = start_trader b, dt_i = 0, dt_running = True, da_taker = 1000000000,
     da_pub = \<lparr>seq = 0, pub_data = empty_view\<rparr>\<rparr>"

definition dash_main ::
    "u64 \<Rightarrow> (nat \<Rightarrow> u64) \<Rightarrow> double \<Rightarrow> u64 \<Rightarrow> u64 \<Rightarrow> hot_input schedule \<Rightarrow> u64 \<Rightarrow> (int \<Rightarrow> address option \<Rightarrow> string \<Rightarrow> int) \<Rightarrow> char list \<Rightarrow> udp
     \<Rightarrow> (dash_thread \<times> pipeline \<times> udp) option" where
  "dash_main hz clock secs t_hot t_start turns t_end sendto buf u = do {
     require (u_ok u);
     dl \<leftarrow> hot_deadline secs t_hot;
     b \<leftarrow> mk_book 1 200000 65536;
     a \<leftarrow> mk_aggregator (ns_per_tick hz) (d_of_int 5);
     (st, pl) \<leftarrow> demo_run (dash_iteration clock dl) (\<lambda>st. Some (da_pub st)) t_start turns t_end (dash_start b) (mk_recorder 0) a;
     require (\<not> dt_running st);
     u \<leftarrow> send_frames sendto buf (pl_out pl) u;
     Some (st, pl, u)
   }"

section \<open>Publishing the depth\<close>

definition depth_view :: "order_book \<Rightarrow> book_view \<Rightarrow> bool" where
  "depth_view b bv \<longleftrightarrow> view_ok bv
     \<and> take (bv_nbids bv) (bv_bids bv) = map depth_of (take MAX_DEPTH (price_groups (view b BUY)))
     \<and> take (bv_nasks bv) (bv_asks bv) = map depth_of (take MAX_DEPTH (price_groups (view b SELL)))"

lemma depth_array_works:
  assumes "length ds \<le> MAX_DEPTH"
  shows "\<exists>xs. depth_array ds = Some xs \<and> length xs = MAX_DEPTH \<and> take (length ds) xs = map depth_of ds"
proof -
  let ?z = "replicate MAX_DEPTH \<lparr>dr_px = 0, dr_qty = 0 :: int\<rparr>"
  have src: "\<forall>j. 0 \<le> j \<and> j < 0 + length ds \<longrightarrow> map_option depth_of (vec_get ds (int j)) = Some (depth_of (ds ! j))" by simp
  have fits: "0 + length ds \<le> length ?z" using assms by simp
  have "map (\<lambda>k. depth_of (ds ! k)) [0..<length ds] = map depth_of ds" by (rule nth_equalityI) simp_all
  then have "depth_array ds = Some (map depth_of ds @ drop (length ds) ?z)"
    using copy_items_works [OF src fits] by (simp only: depth_array_def take_0 append_Nil add_0)
  then show ?thesis using assms by simp
qed

lemma publishDepth_works:
  assumes "book_wf b" "seq p AND 1 = 0"
  shows "\<exists>p'. publishDepth b p = Some p' \<and> seq p' AND 1 = 0 \<and> depth_view b (pub_data p')"
proof -
  obtain Q where rep: "book_rep b Q" using assms(1) by (auto simp: book_wf_def)
  let ?bs = "take MAX_DEPTH (price_groups (view b BUY))" and ?as = "take MAX_DEPTH (price_groups (view b SELL))"
  have d: "getDepth b (int MAX_DEPTH) = Some (?bs, ?as)" using getDepth_view [OF rep, of "int MAX_DEPTH"] by simp
  obtain xs ys where xs: "depth_array ?bs = Some xs" "length xs = MAX_DEPTH" "take (length ?bs) xs = map depth_of ?bs"
    and ys: "depth_array ?as = Some ys" "length ys = MAX_DEPTH" "take (length ?as) ys = map depth_of ?as"
    using depth_array_works [of ?bs] depth_array_works [of ?as] by auto
  let ?bv = "\<lparr>bv_nbids = length ?bs, bv_nasks = length ?as, bv_bids = xs, bv_asks = ys\<rparr>"
  have "publishDepth b p = Some (publish ?bv p)" using d xs(1) ys(1) by (simp add: publishDepth_def)
  moreover have "depth_view b ?bv" using xs(2,3) ys(2,3) by (simp add: depth_view_def view_ok_def)
  ultimately show ?thesis using publish_even [OF assms(2), of ?bv] by auto
qed

section \<open>Crossing the book\<close>

lemma record_trades_works:
  "with_recorder st \<Longrightarrow> \<exists>st'. record_trades clock ts st = Some st' \<and> mb_book st' = mb_book st \<and> recorded (length ts) st st'"
proof (induction ts arbitrary: st)
  case (Cons t ts)
  obtain r where r: "mb_rec st = Some r" "ring_inv ring_cap (rec_ring r)"
    using Cons.prems by (auto simp: with_recorder_def recorder_ok_def)
  let ?c = "Rec_Trade (clock (mb_ticks st)) (t_price t) (ucast (t_quantity t)) (ucast (t_makerId t))"
  obtain r' where r': "record_call ?c r = Some r'" "ring_inv ring_cap (rec_ring r')"
    using record_call_works [OF r(2), of ?c] by blast
  let ?st = "st\<lparr>mb_rec := Some r', mb_ticks := mb_ticks st + 1\<rparr>"
  have one: "recorded 1 st ?st" using recorded_one [OF r(1) r'] by simp
  obtain st' where "record_trades clock ts ?st = Some st'" "mb_book st' = mb_book st" "recorded (length ts) ?st st'"
    using Cons.IH [OF recorded_on [OF one]] by auto
  then show ?case using recorded_trans [OF one] r(1) r'(1) by auto
qed (use recorded_none in auto)

lemma market_book:
  assumes ok: "trader_ok n tr" and b: "b = mb_book (tr_sys tr)" and q: "unat q < 2 ^ 63"
  shows "\<exists>b' trs. submitMarket b s q t = Some (b', trs) \<and> trader_ok n (tr\<lparr>tr_sys := (tr_sys tr)\<lparr>mb_book := b'\<rparr>\<rparr>)
    \<and> length trs \<le> 2 ^ 15 + 1"
proof -
  have inv: "api_inv b" "banded b" "dom (order_map b) \<subseteq> set (tr_live tr)" "length (tr_live tr) \<le> 2 ^ 15 + 1"
    "inRange b = (\<lambda>p. 1 \<le> p \<and> p \<le> 200000)" using ok by (simp_all add: trader_ok_def b)
  then obtain Q where rep: "book_rep b Q" by (auto simp: api_inv_def book_wf_def)
  obtain b' rem trs where m: "submitMarket b s q t = Some (b', trs)" "matched_side (opp s) b b'"
    "fill_entries s (\<lambda>_. True) t q (view b (opp s)) = (view b' (opp s), rem, trs)" by (rule submitMarket_view [OF rep q])
  have inv': "api_inv b'" using submitMarket_api [OF inv(1) q, of s t] m(1) by auto
  then obtain Q' where rep': "book_rep b' Q'" by (auto simp: api_inv_def book_wf_def)
  have "e_price ` set (view b' u) \<subseteq> e_price ` set (view b u)" for u
    using fill_entries_subset [OF m(3)] m(2) by (cases "u = opp s") (auto simp: matched_side_def)
  then have band: "banded b'" using inv(2) unfolding banded_view [OF inv(1)] banded_view [OF inv'] by blast
  have "\<not> resting b i \<Longrightarrow> \<not> resting b' i" for i by (rule matched_resting [OF rep m(2,3)])
  then have "dom (order_map b') \<subseteq> dom (order_map b)"
    unfolding resting_def by (metis domIff order_map_None [OF rep] order_map_None [OF rep'] subsetI)
  then have dom: "dom (order_map b') \<subseteq> set (tr_live tr)" using inv(3) by blast
  have same: "next_order_id b' = next_order_id b" "inRange b' = inRange b"
    using m(2) by (simp_all add: matched_side_def inRange_def fun_eq_iff)
  have "trader_ok n (tr\<lparr>tr_sys := (tr_sys tr)\<lparr>mb_book := b'\<rparr>\<rparr>)" using ok inv' band dom same by (simp add: trader_ok_def b)
  moreover have "length trs \<le> length (view b (opp s))"
    using arg_cong [of _ _ length, OF conjunct1 [OF fill_entries_priority [OF m(3)]]] by simp
  moreover have "length (view b (opp s)) \<le> card (dom (order_map b))"
    unfolding card_order_map [OF rep] card_entries [OF rep] by (cases s) simp_all
  moreover have "card (dom (order_map b)) \<le> length (tr_live tr)"
    using card_mono [OF _ inv(3)] card_length [of "tr_live tr"] by simp
  ultimately show ?thesis using m(1) inv(4) by (intro exI [of _ b'] exI [of _ trs]) linarith
qed

lemma trader_ok_book: "mb_book sys = mb_book (tr_sys tr) \<Longrightarrow> trader_ok n (tr\<lparr>tr_sys := sys\<rparr>) = trader_ok n tr"
  by (simp add: trader_ok_def)

lemma cross_works:
  assumes ok: "trader_ok n tr" "with_recorder (tr_sys tr)"
  shows "\<exists>tr' k. cross clock d1 d2 taker tr = Some tr' \<and> trader_ok n tr' \<and> recorded k (tr_sys tr) (tr_sys tr') \<and> k \<le> 2 ^ 16 + 2"
proof -
  let ?s = "if d1 AND 1 \<noteq> 0 then BUY else SELL" and ?q = "1 + d2 mod 30"
  have q: "unat ?q < 2 ^ 63" using small_draw [of 30 d2] by simp
  obtain b' trs where m: "submitMarket (mb_book (tr_sys tr)) ?s ?q taker = Some (b', trs)"
    "trader_ok n (tr\<lparr>tr_sys := (tr_sys tr)\<lparr>mb_book := b'\<rparr>\<rparr>)" "length trs \<le> 2 ^ 15 + 1"
    using market_book [OF ok(1) refl q] by blast
  have rok: "recorder_ok (mb_rec (tr_sys tr))" using ok(2) by (simp add: with_recorder_def)
  obtain sys j where sys: "m_submitMarket clock (tr_sys tr) ?s ?q taker = Some (sys, trs)" "mb_book sys = b'"
    "recorder_ok (mb_rec sys)" "meters (mb_rec (tr_sys tr)) (mb_rec sys) (replicate j Op_Cancel)" "j \<le> length trs"
    using m_submitMarket_works [OF m(1) rok] by blast
  have r1: "recorded j (tr_sys tr) sys" using meters_recorded [OF sys(4) ok(2) sys(3)] by simp
  obtain sys' where sys': "record_trades clock trs sys = Some sys'" "mb_book sys' = b'" "recorded (length trs) sys sys'"
    using record_trades_works [OF recorded_on [OF r1], of clock trs] sys(2) by blast
  have "trader_ok n (tr\<lparr>tr_sys := sys'\<rparr>)" using m(2) sys'(2) by (simp add: trader_ok_def)
  moreover have "cross clock d1 d2 taker tr = Some (tr\<lparr>tr_sys := sys'\<rparr>)" using sys(1) sys'(1) by (simp add: cross_def Let_def)
  ultimately show ?thesis using recorded_trans [OF r1 sys'(3)] sys(5) m(3)
    by (intro exI [of _ "tr\<lparr>tr_sys := sys'\<rparr>"] exI [of _ "j + length trs"]) simp
qed

lemma dash_step_works:
  assumes ok: "trader_ok n tr" "with_recorder (tr_sys tr)" and n: "n < 2 ^ 62"
  shows "\<exists>tr' taker' k. dash_step clock d (tr, taker) = Some (tr', taker') \<and> trader_ok (Suc n) tr'
    \<and> recorded k (tr_sys tr) (tr_sys tr') \<and> k \<le> 2 ^ 16 + 2"
proof -
  let ?r = "d 0 mod 100" and ?big = "length (tr_live tr) > 2 ^ 15"
  consider (add) "\<not> ?big" "?r < 88" | (cross) "\<not> ?big" "\<not> ?r < 88" "?r < 94"
    | (cancel) "?big \<or> \<not> ?r < 94" "tr_live tr \<noteq> []" | (idle) "?big \<or> \<not> ?r < 94" "tr_live tr = []" by blast
  then show ?thesis
  proof cases
    case add
    then obtain tr' where "banded_add clock 10 50 (d 1) (d 2) (d 3) tr = Some tr'" "trader_ok (Suc n) tr'"
      "recorded 1 (tr_sys tr) (tr_sys tr')"
      using banded_add_works [OF ok n, of 10 50 clock "d 1" "d 2" "d 3"] by (auto simp: trades_on_def)
    then show ?thesis using add by (intro exI [of _ tr'] exI [of _ taker] exI [of _ 1]) (simp add: dash_step_def)
  next
    case cross
    obtain tr' k where c: "cross clock (d 1) (d 2) taker tr = Some tr'" "trader_ok n tr'" "recorded k (tr_sys tr) (tr_sys tr')"
      "k \<le> 2 ^ 16 + 2" using cross_works [OF ok] by blast
    then show ?thesis using cross trader_ok_Suc [OF c(2)]
      by (intro exI [of _ tr'] exI [of _ "taker + 1"] exI [of _ k]) (simp add: dash_step_def)
  next
    case cancel
    then obtain tr' where c: "random_cancel clock (d 1) tr = Some tr'" "trader_ok (Suc n) tr'" "recorded 1 (tr_sys tr) (tr_sys tr')"
      using random_cancel_works [OF ok, of clock "d 1"] by (auto simp: trades_on_def)
    have "\<not> (\<not> ?big \<and> ?r < 88)" "\<not> (\<not> ?big \<and> ?r < 94)" using cancel(1) by (auto simp: word_less_nat_alt)
    then show ?thesis using cancel c
      by (intro exI [of _ tr'] exI [of _ taker] exI [of _ 1]) (simp add: dash_step_def Let_def if_not_P)
  next
    case idle
    have "\<not> (\<not> ?big \<and> ?r < 88)" "\<not> (\<not> ?big \<and> ?r < 94)" using idle(1) by (auto simp: word_less_nat_alt)
    then show ?thesis using idle ok(1) trader_ok_Suc recorded_none [OF ok(2)]
      by (intro exI [of _ tr] exI [of _ taker] exI [of _ 0]) (simp add: dash_step_def Let_def if_not_P)
  qed
qed

section \<open>It keeps the contract of a hot thread\<close>

text \<open>
  The publisher is between updates, and what it holds is the empty view or the depth of a book with its bids
  below the middle price and its asks above.
\<close>

definition dash_ok :: "nat \<Rightarrow> dash_thread \<Rightarrow> bool" where
  "dash_ok n st \<longleftrightarrow> trader_ok n (dt_trader st) \<and> seq (da_pub st) AND 1 = 0
     \<and> (pub_data (da_pub st) = empty_view \<or> (\<exists>b. api_inv b \<and> banded b \<and> depth_view b (pub_data (da_pub st))))"

lemma dash_publish_works:
  assumes ok: "trader_ok n tr" "with_recorder (tr_sys tr)" and p: "seq p AND 1 = 0"
    and data: "pub_data p = empty_view \<or> (\<exists>b. api_inv b \<and> banded b \<and> depth_view b (pub_data p))"
  shows "\<exists>tr' p' k. dash_publish clock i (tr, p) = Some (tr', p') \<and> trader_ok n tr' \<and> recorded k (tr_sys tr) (tr_sys tr')
    \<and> k \<le> 1 \<and> seq p' AND 1 = 0
    \<and> (pub_data p' = empty_view \<or> (\<exists>b. api_inv b \<and> banded b \<and> depth_view b (pub_data p')))"
proof (cases "quote_due 256 i")
  case True
  let ?b = "mb_book (tr_sys tr)"
  have b: "api_inv ?b" "banded ?b" using ok(1) by (simp_all add: trader_ok_def)
  then obtain p' where p': "publishDepth ?b p = Some p'" "seq p' AND 1 = 0" "depth_view ?b (pub_data p')"
    using publishDepth_works [OF _ p, of ?b] by (auto simp: api_inv_def)
  obtain sys where "record_quote clock (tr_sys tr) = Some sys" "mb_book sys = ?b" "recorded 1 (tr_sys tr) sys"
    using record_quote_works [OF ok(2) trader_narrow [OF ok(1)]] by blast
  then show ?thesis using True p' b ok(1) trader_ok_book [of sys tr n]
    by (intro exI [of _ "tr\<lparr>tr_sys := sys\<rparr>"] exI [of _ p'] exI [of _ 1]) (auto simp: dash_publish_def)
qed (use recorded_none [OF ok(2)] ok(1) p data in \<open>auto simp: dash_publish_def intro!: exI [of _ 0]\<close>)

lemma dash_iteration_works:
  assumes ok: "dash_ok n st" and n: "n < 2 ^ 62" and r: "ring_inv ring_cap (rec_ring r)"
  shows "\<exists>st' r' cs. dash_iteration clock dl x st r = Some (st', r') \<and> dash_ok (Suc n) st' \<and> record_calls cs r = Some r'
    \<and> list_all call_spread cs \<and> length cs \<le> 2 ^ 16 + 3"
proof (cases "dt_running st \<and> in_run x")
  case False
  then show ?thesis using ok trader_ok_Suc [of n "dt_trader st"]
    by (auto simp: dash_iteration_def dash_ok_def intro!: exI [of _ "[]"])
next
  case True
  have tr: "trader_ok n (attach r (dt_trader st))" "with_recorder (tr_sys (attach r (dt_trader st)))"
    using ok r by (simp_all add: dash_ok_def attach_ok)
  obtain tr1 taker j where 1: "dash_step clock (in_draws x) (attach r (dt_trader st), da_taker st) = Some (tr1, taker)"
    "trader_ok (Suc n) tr1" "recorded j (tr_sys (attach r (dt_trader st))) (tr_sys tr1)" "j \<le> 2 ^ 16 + 2"
    using dash_step_works [OF tr n, of clock "in_draws x" "da_taker st"] by blast
  obtain tr2 p k where 2: "dash_publish clock (dt_i st) (tr1, da_pub st) = Some (tr2, p)" "trader_ok (Suc n) tr2"
    "recorded k (tr_sys tr1) (tr_sys tr2)" "k \<le> 1" "seq p AND 1 = 0"
    "pub_data p = empty_view \<or> (\<exists>b. api_inv b \<and> banded b \<and> depth_view b (pub_data p))"
    using dash_publish_works [OF 1(2) recorded_on [OF 1(3)], of "da_pub st" clock "dt_i st"] ok by (auto simp: dash_ok_def)
  obtain r' cs where r': "mb_rec (tr_sys tr2) = Some r'" "record_calls cs r = Some r'" "length cs = j + k"
    "list_all call_spread cs" using recorded_trans [OF 1(3) 2(3)] by (auto simp: recorded_def attach_ok)
  let ?st = "st\<lparr>dt_trader := tr2, dt_i := dt_i st + 1, da_taker := taker, da_pub := p,
    dt_running := \<not> deadline_passed dl (dt_i st + 1) (in_now x)\<rparr>"
  have "dash_iteration clock dl x st r = Some (?st, r')" using True 1(1) 2(1) r'(1) by (simp add: dash_iteration_def Let_def)
  moreover have "dash_ok (Suc n) ?st" using 2(2,5,6) by (simp add: dash_ok_def)
  ultimately show ?thesis using r'(2-4) 1(4) 2(4) by (intro exI [of _ ?st] exI [of _ r'] exI [of _ cs]) simp
qed

lemma published_view:
  assumes "dash_ok n st" "read_view (da_pub st) = Some bv"
  shows "bv = pub_data (da_pub st) \<and> view_ok bv"
proof -
  have "bv = pub_data (da_pub st)" using assms read_view_even [of "da_pub st"] by (simp add: dash_ok_def)
  moreover have "view_ok empty_view" by (simp add: view_ok_def empty_view_def)
  ultimately show ?thesis using assms(1) by (auto simp: dash_ok_def depth_view_def)
qed

interpretation dashboard: hot_thread "dash_iteration clock dl" "\<lambda>st. Some (da_pub st)" dash_ok "\<lambda>_ _. list_all call_spread" "\<lambda>x. \<not> in_run x"
    "\<lambda>st. \<not> dt_running st" "2 ^ 62" "2 ^ 16 + 3" "\<lambda>_. True" for clock dl
proof
  fix n st x and r :: recorder assume "dash_ok n st" "n < 2 ^ 62" "ring_inv ring_cap (rec_ring r)"
  from dash_iteration_works [OF this, of clock dl x]
  show "\<exists>st' r' cs. dash_iteration clock dl x st r = Some (st', r') \<and> dash_ok (Suc n) st' \<and> record_calls cs r = Some r'
    \<and> list_all call_spread cs \<and> length cs \<le> 2 ^ 16 + 3" .
next
  fix n st p bv assume "dash_ok n st" "Some (da_pub st) = Some p" "read_view p = Some bv"
  then show "view_ok bv" using published_view by auto
qed (auto simp: dash_iteration_def split: if_splits)

section \<open>The demo\<close>

lemma price_groups_prices: "dl_price ` set (price_groups es) = e_price ` set es"
proof (induction es)
  case (Cons e es)
  then show ?case by (cases "price_groups es") auto
qed simp

text \<open>A published view of a banded book: every bid is below every ask.\<close>

lemma depth_view_uncrossed:
  assumes "api_inv b" "banded b" "depth_view b bv" "x \<in> set (take (bv_nbids bv) (bv_bids bv))"
    "y \<in> set (take (bv_nasks bv) (bv_asks bv))"
  shows "dr_px x < dr_px y"
proof -
  have "dr_px x \<in> dl_price ` set (price_groups (view b BUY))" "dr_px y \<in> dl_price ` set (price_groups (view b SELL))"
    using assms(3-5) by (auto simp: depth_view_def depth_of_def dest: in_set_takeD)
  then have "dr_px x < MID" "MID < dr_px y"
    using assms(2) unfolding banded_view [OF assms(1)] price_groups_prices by fastforce+
  then show ?thesis by simp
qed

lemma dash_main_works:
  assumes stop: "\<exists>x \<in> set (inputs_of turns). \<not> in_run x" and secs: "val secs \<le> 1000000000" and n: "length (inputs_of turns) < 2 ^ 46"
    and buf: "length buf = 4096" and u: "u_ok u" "u_sent u = 0" "u_errors u = 0"
  shows "\<exists>st pl u' bv cs es d. dash_main hz clock secs t_hot t_start turns t_end sendto buf u = Some (st, pl, u')
    \<and> settled 0 cs pl es d \<and> u_sent u' + u_errors u' = of_nat (length (pl_out pl))
    \<and> book_wf (mb_book (tr_sys (dt_trader st))) \<and> uncrossed (mb_book (tr_sys (dt_trader st)))
    \<and> read_view (da_pub st) = Some bv
    \<and> (\<forall>x \<in> set (take (bv_nbids bv) (bv_bids bv)). \<forall>y \<in> set (take (bv_nasks bv) (bv_asks bv)). dr_px x < dr_px y)"
proof -
  obtain dl where dl: "hot_deadline secs t_hot = Some dl" using hot_deadline_defined [OF secs] by blast
  obtain a where a: "mk_aggregator (ns_per_tick hz) (d_of_int 5) = Some a" using demo_aggregator by blast
  obtain b where b: "mk_book 1 200000 65536 = Some b" using demo_book by blast
  have start: "dash_ok 0 (dash_start b)"
    using new_trader_ok [OF b] by (simp add: dash_ok_def dash_start_def start_trader_def)
  obtain st pl cs es d where run: "demo_run (dash_iteration clock dl) (\<lambda>st. Some (da_pub st)) t_start turns t_end (dash_start b)
      (mk_recorder 0) a = Some (st, pl)" "dash_ok (length (inputs_of turns)) st" "settled 0 cs pl es d" "\<not> dt_running st"
    "list_all call_spread cs" using dashboard.demo_accounts [OF a start, where turns = turns and t_start = t_start and t_end = t_end
        and clock = clock and dl = dl] n stop by auto
  have "\<forall>s \<in> set (pl_out pl). snapshot_ok s \<and> spread_ok s" using settled_frames [OF run(3,5)] by blast
  from send_frames_works [OF buf u(1) this, of sendto] obtain u' where
    u': "send_frames sendto buf (pl_out pl) u = Some u'" "u_sent u' + u_errors u' = of_nat (length (pl_out pl))" by (auto simp: u)
  have main: "dash_main hz clock secs t_hot t_start turns t_end sendto buf u = Some (st, pl, u')"
    using run(4) u'(1) by (simp add: dash_main_def dl u(1) a b run(1))
  let ?bv = "pub_data (da_pub st)"
  have bv: "read_view (da_pub st) = Some ?bv" using run(2) by (intro read_view_even) (simp add: dash_ok_def)
  have "\<forall>x \<in> set (take (bv_nbids ?bv) (bv_bids ?bv)). \<forall>y \<in> set (take (bv_nasks ?bv) (bv_asks ?bv)). dr_px x < dr_px y"
    using run(2) depth_view_uncrossed unfolding dash_ok_def by (auto simp: empty_view_def)
  then show ?thesis using main run(2,3) u'(2) bv trader_book(1,2) [of _ "dt_trader st"] unfolding dash_ok_def
    by (intro exI [of _ st] exI [of _ pl] exI [of _ u'] exI [of _ ?bv] exI [of _ cs] exI [of _ es] exI [of _ d]) blast
qed

end
