(* ===== verification/Demo_Json.thy ===== *)
theory Demo_Json
  imports Demo_Engine
begin

text \<open>
  \<^verbatim>\<open>metrics/json_snapshot_demo.cpp\<close>: the hot loop of the UDP demo, word for word, with a sink that writes each snapshot
  to the standard output as a line of JSON. The output is a string.
\<close>

definition json_sink :: "char list \<Rightarrow> snapshot \<Rightarrow> string \<Rightarrow> string option" where
  "json_sink buf s out = do { (b, n) \<leftarrow> writeJson s buf 4096; Some (out @ take n b @ [CHR 0x0A]) }"

primrec json_lines :: "char list \<Rightarrow> snapshot list \<Rightarrow> string \<Rightarrow> string option" where
  "json_lines buf [] out = Some out"
| "json_lines buf (s # ss) out = do { out \<leftarrow> json_sink buf s out; json_lines buf ss out }"

definition json_main ::
    "u64 \<Rightarrow> (nat \<Rightarrow> u64) \<Rightarrow> double \<Rightarrow> u64 \<Rightarrow> u64 \<Rightarrow> hot_input schedule \<Rightarrow> u64 \<Rightarrow> char list \<Rightarrow> (demo_thread \<times> pipeline \<times> string) option"
where
  "json_main hz clock secs t_hot t_start turns t_end buf = do {
     dl \<leftarrow> hot_deadline secs t_hot;
     b \<leftarrow> mk_book 1 200000 65536;
     a \<leftarrow> mk_aggregator (ns_per_tick hz) (d_of_int 5);
     (st, pl) \<leftarrow> demo_run (udp_iteration clock dl) (\<lambda>_. None) t_start turns t_end
       \<lparr>dt_trader = start_trader b, dt_i = 0, dt_running = True\<rparr> (mk_recorder 0) a;
     require (\<not> dt_running st);
     out \<leftarrow> json_lines buf (pl_out pl) [];
     Some (st, pl, out)
   }"

text \<open>The line of a frame, cut to the buffer.\<close>

definition json_line :: "snapshot \<Rightarrow> string" where
  "json_line s = take 4095 (the (json_text s)) @ [CHR 0x0A]"

lemma json_sink_line:
  assumes "length buf = 4096" "snapshot_ok s \<and> spread_ok s"
  shows "json_sink buf s out = Some (out @ json_line s)"
proof -
  obtain t where t: "json_text s = Some t" using json_text_defined [of s] assms(2) by blast
  obtain b n where "writeJson s buf 4096 = Some (b, n)" "take n b = take 4095 t"
    using writeJson_text [OF t _ assms(1)] by auto
  then show ?thesis by (simp add: json_sink_def json_line_def t)
qed

lemma json_lines_work:
  "length buf = 4096 \<Longrightarrow> \<forall>s \<in> set ss. snapshot_ok s \<and> spread_ok s \<Longrightarrow> json_lines buf ss out = Some (out @ concat (map json_line ss))"
  by (induction ss arbitrary: out) (simp_all add: json_sink_line)

lemma json_main_works:
  assumes stop: "\<exists>x \<in> set (inputs_of turns). \<not> in_run x" and secs: "val secs \<le> 1000000000" and n: "length (inputs_of turns) < 2 ^ 61" and buf: "length buf = 4096"
  shows "\<exists>st pl cs es d. json_main hz clock secs t_hot t_start turns t_end buf = Some (st, pl, concat (map json_line (pl_out pl)))
    \<and> settled 0 cs pl es d \<and> uncrossed (mb_book (tr_sys (dt_trader st)))"
proof -
  obtain dl where dl: "hot_deadline secs t_hot = Some dl" using hot_deadline_defined [OF secs] by blast
  obtain a where a: "mk_aggregator (ns_per_tick hz) (d_of_int 5) = Some a" using demo_aggregator by blast
  obtain b where b: "mk_book 1 200000 65536 = Some b" using demo_book by blast
  obtain st pl cs es d where run: "demo_run (udp_iteration clock dl) (\<lambda>_. None) t_start turns t_end
      \<lparr>dt_trader = start_trader b, dt_i = 0, dt_running = True\<rparr> (mk_recorder 0) a = Some (st, pl)"
    "settled 0 cs pl es d" "\<not> dt_running st" "uncrossed (mb_book (tr_sys (dt_trader st)))" "\<forall>s \<in> set (pl_out pl). snapshot_ok s \<and> spread_ok s"
    using udp_run_works [OF stop n b a] by blast
  have "json_main hz clock secs t_hot t_start turns t_end buf = Some (st, pl, concat (map json_line (pl_out pl)))"
    using run(3) by (simp add: json_main_def dl a b run(1) json_lines_work [OF buf run(5)])
  then show ?thesis using run(2,4) by blast
qed

end
