(* ===== verification/Demo_Programs.thy ===== *)
theory Demo_Programs
  imports Demo_Aggregator Demo_Dashboard Demo_Json Tsc_Clock C_Text
begin

text \<open>
  The demos of \<^verbatim>\<open>metrics/\<close> from their command lines to their reports and exit codes: the arguments, the calibration
  of the time stamp counter, the socket, the run, and what \<open>main\<close> itself prints. The frames that the aggregator's
  thread paints on the same output while the run lasts are those of \<open>Console_View\<close>.
\<close>

section \<open>What the demos share\<close>

text \<open>\<open>argv[1]\<close>, the seconds to run, the host and the port.\<close>

definition seconds_arg :: "string list \<Rightarrow> int \<Rightarrow> double option" where
  "seconds_arg argv dflt = arg_or argv 1 atof (d_of_int dflt)"

definition host_arg :: "string list \<Rightarrow> string option" where
  "host_arg argv = arg_or argv 2 Some ''127.0.0.1''"

definition port_arg :: "string list \<Rightarrow> u16 option" where
  "port_arg argv = arg_or argv 3 (\<lambda>s. map_option of_int (atoi s)) 9099"

definition accounting :: "u64 \<Rightarrow> u64 \<Rightarrow> u64 \<Rightarrow> string" where
  "accounting produced eaten drops = ''produced='' @ fmt_llu produced @ ''  consumed='' @ fmt_llu eaten @ ''  drops='' @ fmt_llu drops
     @ ''  ->  '' @ (if eaten + drops = produced then ''ACCOUNTING OK (nothing lost)'' else ''ACCOUNTING MISMATCH'') @ line_end"

section \<open>The engine demo\<close>

definition engine_report :: "engine_thread \<Rightarrow> pipeline \<Rightarrow> string" where
  "engine_report st pl =
     (let b = mb_book (tr_sys (dt_trader st))
      in line_end @ ''engine ops timed.  '' @ accounting (et_produced st) (ag_consumed (pl_agg pl)) (rec_drops (pl_rec pl))
         @ ''final book: best_bid='' @ fmt_lld (getBestBid b) @ '' best_ask='' @ fmt_lld (getBestAsk b)
         @ '' spread='' @ fmt_lld (getSpread b) @ '' live_orders='' @ fmt_llu (getTotalOrders b) @ line_end)"

definition engine_program ::
    "string list \<Rightarrow> calibration \<Rightarrow> (nat \<Rightarrow> u64) \<Rightarrow> u64 \<Rightarrow> u64 \<Rightarrow> hot_input schedule \<Rightarrow> u64
     \<Rightarrow> (engine_thread \<times> pipeline) program_exit option" where
  "engine_program argv cal clock t_hot t_start turns t_end = do {
     secs \<leftarrow> seconds_arg argv 8;
     hz \<leftarrow> mk_clock cal;
     (st, pl, code) \<leftarrow> engine_main hz clock secs t_hot t_start turns t_end;
     Some \<lparr>x_status = code, x_out = engine_report st pl, x_err = [], x_end = Some (st, pl)\<rparr>
   }"

lemma engine_program_works:
  assumes args: "seconds_arg argv 8 = Some secs" "val secs \<le> 1000000000" and hz: "mk_clock cal = Some hz"
    and stop: "\<exists>x \<in> set (inputs_of turns). \<not> in_run x" and n: "length (inputs_of turns) < 2 ^ 61"
  shows "\<exists>st pl. engine_program argv cal clock t_hot t_start turns t_end
      = Some \<lparr>x_status = 0, x_out = engine_report st pl, x_err = [], x_end = Some (st, pl)\<rparr>
    \<and> et_produced st = ag_consumed (pl_agg pl) + rec_drops (pl_rec pl)
    \<and> ring_contents ring_cap (rec_ring (pl_rec pl)) = []
    \<and> book_wf (mb_book (tr_sys (dt_trader st))) \<and> uncrossed (mb_book (tr_sys (dt_trader st)))
    \<and> holds_live (dt_trader st) \<and> (\<forall>s \<in> set (pl_out pl). spread_ok s)
    \<and> length (tr_live (dt_trader st)) \<le> 2 ^ 15 + 1"
proof -
  obtain st pl where run: "engine_main hz clock secs t_hot t_start turns t_end = Some (st, pl, 0)"
    "ring_contents ring_cap (rec_ring (pl_rec pl)) = [] \<and> book_wf (mb_book (tr_sys (dt_trader st)))
    \<and> uncrossed (mb_book (tr_sys (dt_trader st)))
    \<and> holds_live (dt_trader st) \<and> (\<forall>s \<in> set (pl_out pl). spread_ok s)
    \<and> length (tr_live (dt_trader st)) \<le> 2 ^ 15 + 1"
    using engine_main_works [OF stop args(2) n] by blast
  have "engine_program argv cal clock t_hot t_start turns t_end
      = Some \<lparr>x_status = 0, x_out = engine_report st pl, x_err = [], x_end = Some (st, pl)\<rparr>"
    by (simp add: engine_program_def args(1) hz run(1))
  then show ?thesis using run(2) engine_exit [OF run(1)] by blast
qed

section \<open>The UDP demo and the dashboard demo\<close>

text \<open>The results of \<open>socket\<close> and \<open>inet_pton\<close>.\<close>

definition open_target :: "int \<Rightarrow> (string \<Rightarrow> int) \<Rightarrow> string \<Rightarrow> u16 \<Rightarrow> udp" where
  "open_target sock pton host port = mk_udp sock (pton host) host port"

definition target_text :: "string \<Rightarrow> u16 \<Rightarrow> string" where
  "target_text host port = host @ '':'' @ fmt_u port"

definition udp_report :: "udp \<Rightarrow> pipeline \<Rightarrow> string" where
  "udp_report u pl = ''udp_publish_demo: done  datagrams sent='' @ fmt_llu (u_sent u) @ '' errors='' @ fmt_llu (u_errors u)
     @ ''  (events='' @ fmt_llu (ag_consumed (pl_agg pl)) @ '' drops='' @ fmt_llu (rec_drops (pl_rec pl)) @ '')'' @ line_end"

definition udp_program ::
    "string list \<Rightarrow> calibration \<Rightarrow> (nat \<Rightarrow> u64) \<Rightarrow> u64 \<Rightarrow> u64 \<Rightarrow> hot_input schedule \<Rightarrow> u64 \<Rightarrow> int \<Rightarrow> (string \<Rightarrow> int)
     \<Rightarrow> (int \<Rightarrow> address option \<Rightarrow> string \<Rightarrow> int) \<Rightarrow> char list \<Rightarrow> (demo_thread \<times> pipeline \<times> udp) program_exit option" where
  "udp_program argv cal clock t_hot t_start turns t_end sock pton sendto buf = do {
     secs \<leftarrow> seconds_arg argv 8;
     host \<leftarrow> host_arg argv;
     port \<leftarrow> port_arg argv;
     let u = open_target sock pton host port;
     if \<not> u_ok u then Some (gives_up [] (''udp_publish_demo: bad host/port '' @ target_text host port @ line_end))
     else do {
       let hello = ''udp_publish_demo: publishing snapshots to '' @ target_text host port @ '' for '' @ fmt_fixed 0 secs @ ''s'' @ line_end;
       hz \<leftarrow> mk_clock cal;
       (st, pl, u) \<leftarrow> udp_main hz clock secs t_hot t_start turns t_end sendto buf u;
       Some \<lparr>x_status = 0, x_out = [], x_err = hello @ udp_report u pl, x_end = Some (st, pl, u)\<rparr>
     }
   }"

definition dash_report :: "udp \<Rightarrow> pipeline \<Rightarrow> string" where
  "dash_report u pl = ''book_dashboard_demo: done  datagrams='' @ fmt_llu (u_sent u)
     @ ''  events='' @ fmt_llu (ag_consumed (pl_agg pl)) @ '' drops='' @ fmt_llu (rec_drops (pl_rec pl)) @ line_end"

definition dash_program ::
    "string list \<Rightarrow> calibration \<Rightarrow> (nat \<Rightarrow> u64) \<Rightarrow> u64 \<Rightarrow> u64 \<Rightarrow> hot_input schedule \<Rightarrow> u64 \<Rightarrow> int \<Rightarrow> (string \<Rightarrow> int)
     \<Rightarrow> (int \<Rightarrow> address option \<Rightarrow> string \<Rightarrow> int) \<Rightarrow> char list \<Rightarrow> (dash_thread \<times> pipeline \<times> udp) program_exit option" where
  "dash_program argv cal clock t_hot t_start turns t_end sock pton sendto buf = do {
     secs \<leftarrow> seconds_arg argv 30;
     host \<leftarrow> host_arg argv;
     port \<leftarrow> port_arg argv;
     let u = open_target sock pton host port;
     if \<not> u_ok u then Some (gives_up [] (''bad host/port '' @ target_text host port @ line_end))
     else do {
       let hello = ''book_dashboard_demo: depth+tape -> '' @ target_text host port @ '' for '' @ fmt_fixed 0 secs @ ''s'' @ line_end;
       hz \<leftarrow> mk_clock cal;
       (st, pl, u) \<leftarrow> dash_main hz clock secs t_hot t_start turns t_end sendto buf u;
       Some \<lparr>x_status = 0, x_out = [], x_err = hello @ dash_report u pl, x_end = Some (st, pl, u)\<rparr>
     }
   }"

lemma open_target_new:
  "u_sent (open_target sock pton host port) = 0" "u_errors (open_target sock pton host port) = 0"
  "u_ok (open_target sock pton host port) \<longleftrightarrow> 0 \<le> sock \<and> pton host = 1"
  by (simp_all add: open_target_def mk_udp_def Let_def not_less)

text \<open>A socket that cannot be opened, or a host that is not an address, ends the demo with status 1 before anything runs.\<close>

lemma bad_target_exits:
  assumes "host_arg argv = Some host" "port_arg argv = Some port" "\<not> (0 \<le> sock \<and> pton host = 1)"
  shows "seconds_arg argv 8 = Some secs \<Longrightarrow>
      \<exists>err. udp_program argv cal clock t_hot t_start turns t_end sock pton sendto buf = Some (gives_up [] err)"
    and "seconds_arg argv 30 = Some secs \<Longrightarrow>
      \<exists>err. dash_program argv cal clock t_hot t_start turns t_end sock pton sendto buf = Some (gives_up [] err)"
  using assms by (simp_all add: udp_program_def dash_program_def Let_def open_target_new) (rule exI, rule refl)+

lemma udp_program_works:
  assumes args: "seconds_arg argv 8 = Some secs" "val secs \<le> 1000000000" "host_arg argv = Some host" "port_arg argv = Some port"
    and hz: "mk_clock cal = Some hz" and target: "0 \<le> sock" "pton host = 1"
    and stop: "\<exists>x \<in> set (inputs_of turns). \<not> in_run x" and n: "length (inputs_of turns) < 2 ^ 61" and buf: "length buf = 4096"
  shows "\<exists>err st pl u cs es d. udp_program argv cal clock t_hot t_start turns t_end sock pton sendto buf
      = Some \<lparr>x_status = 0, x_out = [], x_err = err @ udp_report u pl, x_end = Some (st, pl, u)\<rparr>
    \<and> u_sent u + u_errors u = of_nat (length (pl_out pl)) \<and> settled 0 cs pl es d \<and> uncrossed (mb_book (tr_sys (dt_trader st)))"
proof -
  let ?u = "open_target sock pton host port"
  have u: "u_ok ?u" "u_sent ?u = 0" "u_errors ?u = 0" using target by (simp_all add: open_target_new)
  obtain st pl u' cs es d where run: "udp_main hz clock secs t_hot t_start turns t_end sendto buf ?u = Some (st, pl, u')"
    "u_sent u' + u_errors u' = of_nat (length (pl_out pl)) \<and> settled 0 cs pl es d \<and> uncrossed (mb_book (tr_sys (dt_trader st)))"
    using udp_main_works [OF stop args(2) n buf u] by blast
  have "\<exists>err. udp_program argv cal clock t_hot t_start turns t_end sock pton sendto buf
      = Some \<lparr>x_status = 0, x_out = [], x_err = err @ udp_report u' pl, x_end = Some (st, pl, u')\<rparr>"
    by (simp add: udp_program_def args hz u(1) run(1) Let_def)
  then show ?thesis using run(2) by blast
qed

lemma dash_program_works:
  assumes args: "seconds_arg argv 30 = Some secs" "val secs \<le> 1000000000" "host_arg argv = Some host" "port_arg argv = Some port"
    and hz: "mk_clock cal = Some hz" and target: "0 \<le> sock" "pton host = 1"
    and stop: "\<exists>x \<in> set (inputs_of turns). \<not> in_run x" and n: "length (inputs_of turns) < 2 ^ 46" and buf: "length buf = 4096"
  shows "\<exists>err st pl u bv cs es d. dash_program argv cal clock t_hot t_start turns t_end sock pton sendto buf
      = Some \<lparr>x_status = 0, x_out = [], x_err = err @ dash_report u pl, x_end = Some (st, pl, u)\<rparr>
    \<and> settled 0 cs pl es d \<and> u_sent u + u_errors u = of_nat (length (pl_out pl))
    \<and> book_wf (mb_book (tr_sys (dt_trader st))) \<and> uncrossed (mb_book (tr_sys (dt_trader st)))
    \<and> read_view (da_pub st) = Some bv
    \<and> (\<forall>x \<in> set (take (bv_nbids bv) (bv_bids bv)). \<forall>y \<in> set (take (bv_nasks bv) (bv_asks bv)). dr_px x < dr_px y)"
proof -
  let ?u = "open_target sock pton host port"
  have u: "u_ok ?u" "u_sent ?u = 0" "u_errors ?u = 0" using target by (simp_all add: open_target_new)
  obtain st pl u' bv cs es d where run: "dash_main hz clock secs t_hot t_start turns t_end sendto buf ?u = Some (st, pl, u')"
    "settled 0 cs pl es d" "u_sent u' + u_errors u' = of_nat (length (pl_out pl))"
    "book_wf (mb_book (tr_sys (dt_trader st)))" "uncrossed (mb_book (tr_sys (dt_trader st)))" "read_view (da_pub st) = Some bv"
    "\<forall>x \<in> set (take (bv_nbids bv) (bv_bids bv)). \<forall>y \<in> set (take (bv_nasks bv) (bv_asks bv)). dr_px x < dr_px y"
    using dash_main_works [OF stop args(2) n buf u] by metis
  have "\<exists>err. dash_program argv cal clock t_hot t_start turns t_end sock pton sendto buf
      = Some \<lparr>x_status = 0, x_out = [], x_err = err @ dash_report u' pl, x_end = Some (st, pl, u')\<rparr>"
    by (simp add: dash_program_def args hz u(1) run(1) Let_def)
  then show ?thesis using run(2-7) by blast
qed

section \<open>The JSON demo\<close>

definition json_report :: "pipeline \<Rightarrow> string" where
  "json_report pl = ''json_snapshot_demo: done (events='' @ fmt_llu (ag_consumed (pl_agg pl))
     @ '' drops='' @ fmt_llu (rec_drops (pl_rec pl)) @ '')'' @ line_end"

definition json_program ::
    "string list \<Rightarrow> calibration \<Rightarrow> (nat \<Rightarrow> u64) \<Rightarrow> u64 \<Rightarrow> u64 \<Rightarrow> hot_input schedule \<Rightarrow> u64 \<Rightarrow> char list
     \<Rightarrow> (demo_thread \<times> pipeline) program_exit option" where
  "json_program argv cal clock t_hot t_start turns t_end buf = do {
     secs \<leftarrow> seconds_arg argv 6;
     hz \<leftarrow> mk_clock cal;
     (st, pl, out) \<leftarrow> json_main hz clock secs t_hot t_start turns t_end buf;
     Some \<lparr>x_status = 0, x_out = out, x_err = json_report pl, x_end = Some (st, pl)\<rparr>
   }"

text \<open>The standard output is nothing but the lines of the frames.\<close>

lemma json_program_works:
  assumes args: "seconds_arg argv 6 = Some secs" "val secs \<le> 1000000000" and hz: "mk_clock cal = Some hz"
    and stop: "\<exists>x \<in> set (inputs_of turns). \<not> in_run x" and n: "length (inputs_of turns) < 2 ^ 61" and buf: "length buf = 4096"
  shows "\<exists>st pl cs es d. json_program argv cal clock t_hot t_start turns t_end buf
      = Some \<lparr>x_status = 0, x_out = concat (map json_line (pl_out pl)), x_err = json_report pl, x_end = Some (st, pl)\<rparr>
    \<and> settled 0 cs pl es d \<and> uncrossed (mb_book (tr_sys (dt_trader st)))"
proof -
  obtain st pl cs es d where run: "json_main hz clock secs t_hot t_start turns t_end buf = Some (st, pl, concat (map json_line (pl_out pl)))"
    "settled 0 cs pl es d \<and> uncrossed (mb_book (tr_sys (dt_trader st)))" using json_main_works [OF stop args(2) n buf] by blast
  have "json_program argv cal clock t_hot t_start turns t_end buf
      = Some \<lparr>x_status = 0, x_out = concat (map json_line (pl_out pl)), x_err = json_report pl, x_end = Some (st, pl)\<rparr>"
    by (simp add: json_program_def args(1) hz run(1))
  then show ?thesis using run(2) by blast
qed

section \<open>The aggregator demo\<close>

definition agg_program ::
    "string list \<Rightarrow> calibration \<Rightarrow> (nat \<Rightarrow> u64) \<Rightarrow> u64 \<Rightarrow> u64 \<Rightarrow> (bool \<times> u64) schedule \<Rightarrow> u64
     \<Rightarrow> (agg_thread \<times> pipeline) program_exit option" where
  "agg_program argv cal clock t_hot t_start turns t_end = do {
     secs \<leftarrow> seconds_arg argv 8;
     hz \<leftarrow> mk_clock cal;
     (st, pl, code) \<leftarrow> agg_main hz clock secs t_hot t_start turns t_end;
     Some \<lparr>x_status = code, x_out = line_end @ accounting (at_produced st) (ag_consumed (pl_agg pl)) (rec_drops (pl_rec pl)),
           x_err = [], x_end = Some (st, pl)\<rparr>
   }"

lemma agg_exit:
  "agg_main hz clock secs t_hot t_start turns t_end = Some (st, pl, 0) \<Longrightarrow>
     at_produced st = ag_consumed (pl_agg pl) + rec_drops (pl_rec pl)"
  by (auto simp: agg_main_def Let_def split: if_splits)

lemma agg_program_works:
  assumes args: "seconds_arg argv 8 = Some secs" "val secs \<le> 1000000000" and hz: "mk_clock cal = Some hz"
    and stop: "\<exists>x \<in> set (inputs_of turns). \<not> fst x" and n: "length (inputs_of turns) < 2 ^ 60"
  shows "\<exists>st pl. agg_program argv cal clock t_hot t_start turns t_end = Some \<lparr>x_status = 0,
      x_out = line_end @ accounting (at_produced st) (ag_consumed (pl_agg pl)) (rec_drops (pl_rec pl)), x_err = [], x_end = Some (st, pl)\<rparr>
    \<and> at_produced st = ag_consumed (pl_agg pl) + rec_drops (pl_rec pl)"
proof -
  obtain st pl where run: "agg_main hz clock secs t_hot t_start turns t_end = Some (st, pl, 0)"
    using agg_main_works [OF stop args(2) n] by blast
  have "agg_program argv cal clock t_hot t_start turns t_end = Some \<lparr>x_status = 0,
      x_out = line_end @ accounting (at_produced st) (ag_consumed (pl_agg pl)) (rec_drops (pl_rec pl)), x_err = [], x_end = Some (st, pl)\<rparr>"
    by (simp add: agg_program_def args(1) hz run)
  then show ?thesis using agg_exit [OF run] by blast
qed

section \<open>The defaults\<close>

lemma default_args:
  "length argv \<le> 1 \<Longrightarrow> seconds_arg argv dflt = Some (d_of_int dflt)" "length argv \<le> 2 \<Longrightarrow> host_arg argv = Some ''127.0.0.1''"
  "length argv \<le> 3 \<Longrightarrow> port_arg argv = Some 9099"
  by (simp_all add: seconds_arg_def host_arg_def port_arg_def arg_or_def)

text \<open>A port given in decimal is the port used.\<close>

lemma port_given: "length argv > 3 \<Longrightarrow> argv ! 3 = fmt_u p \<Longrightarrow> port_arg argv = Some p"
  using vec_get_in [of 3 argv] by (simp add: port_arg_def arg_or_def)

end
