(* ===== verification/Feed_Program.thy ===== *)
theory Feed_Program
  imports Feed_Run Feed_Options Feed_Tools Demo_Programs
begin

text \<open>
  \<open>main\<close> of \<^verbatim>\<open>metrics/itch_metrics_replay.cpp\<close> from the command line to the summary: the usage and option errors, opening
  and mapping the capture, the optional UDP target, the run of \<open>Feed_Run\<close>, and the report. What the system calls give
  is an argument.
\<close>

section \<open>The environment\<close>

text \<open>
  The contents of a file that can be opened, whether \<open>mmap\<close> succeeds on a file that is not empty (on an empty one it
  fails), the texts of \<open>strerror\<close>, the clock readings around the page touching loop, the results of \<open>socket\<close> and
  \<open>inet_pton\<close>, \<open>sendto\<close>, and whether the stop flag is set after the last message.
\<close>

record feed_system =
  fy_file :: "string \<Rightarrow> bytes option"
  fy_maps :: bool
  fy_error :: "string \<Rightarrow> string"
  fy_load :: "u64 \<times> u64"
  fy_socket :: int
  fy_pton :: "string \<Rightarrow> int"
  fy_sendto :: "int \<Rightarrow> address option \<Rightarrow> string \<Rightarrow> int"
  fy_late_stop :: bool

definition perror :: "feed_system \<Rightarrow> string \<Rightarrow> string" where
  "perror y s = s @ '': '' @ fy_error y s @ line_end"

section \<open>The texts\<close>

definition feed_usage :: "string \<Rightarrow> string" where
  "feed_usage name = ''usage: '' @ name @ '' <itch_file> <SYMBOL> [options]'' @ line_end
     @ ''  --pace=<F>     replay speed: 0=max (default), 1=real-time, 10=10x'' @ line_end
     @ ''  --snap=<N>     snapshot every N messages (default 8192)'' @ line_end
     @ ''  --no-prefault  lazy load (live view instant; early samples carry one-time'' @ line_end
     @ ''                 page-fault jitter) instead of MAP_POPULATE prefault'' @ line_end
     @ ''  --udp[=H:P]    also publish each snapshot as a UDP datagram (default'' @ line_end
     @ ''                 127.0.0.1:9099) -> bridge -> browser dashboard'' @ line_end"

definition pace_text :: "double \<Rightarrow> string" where
  "pace_text pace = truncated 40
     (if \<not> d_less d_zero pace then ''max (flat-out)''
      else fmt_general pace @ '' x'' @ (if val pace = 1 then '' (real-time)'' else ''''))"

definition megabytes :: "bytes \<Rightarrow> string" where
  "megabytes data = fmt_fixed 1 (d_div (d_of_int (int (length data))) (d_of_int 1000000))"

definition feed_banner :: "string \<Rightarrow> string \<Rightarrow> bytes \<Rightarrow> feed_options \<Rightarrow> string" where
  "feed_banner path symb data f = ''ITCH metrics replay: '' @ symb @ ''   ('' @ path @ '', '' @ megabytes data @ '' MB)'' @ line_end
     @ ''pace: '' @ pace_text (fo_pace f) @ ''   prefault: '' @ (if fo_prefault f then ''on'' else ''off (lazy)'')
     @ ''   snapshot: every '' @ fmt_llu (fo_snap f) @ '' msgs'' @ line_end"

text \<open>Loading the file: every page is touched once, or none.\<close>

definition feed_load :: "feed_system \<Rightarrow> feed_options \<Rightarrow> bytes \<Rightarrow> string option" where
  "feed_load y f data = do {
     text \<leftarrow> (if fo_prefault f then do {
         t \<leftarrow> touch_pages data 0 0;
         Some (''loading '' @ megabytes data @ '' MB into RAM (prefault)... done in ''
           @ fmt_fixed 2 (seconds (snd (fy_load y) - fst (fy_load y))) @ '' s'' @ line_end)
       } else Some (''lazy load - pages fault as the parser reaches them'' @ line_end));
     Some (text @ ''starting hot thread (parse+book) + aggregator thread...'' @ line_end @ line_end)
   }"

definition dollars :: "price \<Rightarrow> string" where
  "dollars p = fmt_fixed 2 (d_div (d_of_int p) (d_of_int 100))"

definition book_report :: "order_book \<Rightarrow> string" where
  "book_report b =
     (if getActiveBids b \<noteq> 0 \<and> getActiveAsks b \<noteq> 0
      then ''final book      : best_bid=$'' @ dollars (getBestBid b) @ '' best_ask=$'' @ dollars (getBestAsk b)
           @ '' spread=$'' @ dollars (getSpread b) @ '' live='' @ fmt_llu (getTotalOrders b) @ line_end
      else ''final book      : one side empty (wrong symbol, or full-day file drained)'' @ line_end)"

definition feed_summary :: "string \<Rightarrow> bool \<Rightarrow> nat \<Rightarrow> feed_thread \<Rightarrow> pipeline \<Rightarrow> udp option \<Rightarrow> string" where
  "feed_summary symb stopped n st pl pub =
     (let r = fr_counts (ft_replay st); b = mb_book (fr_sys (ft_replay st))
      in line_end @ ''--- replay summary ('' @ symb @ '') ---'' @ line_end
         @ (if stopped then ''** stopped early (Ctrl-C) after '' @ fmt_llu (ft_msgs st) @ '' processed messages **'' @ line_end else '''')
         @ ''messages parsed : '' @ dec n @ ''   (book-affecting: adds='' @ fmt_llu (r_added r) @ '' deletes='' @ fmt_llu (r_deleted r)
         @ '' reduces='' @ fmt_llu (r_reduced r) @ '' replaces='' @ fmt_llu (r_replaced r) @ '')'' @ line_end
         @ ''metric events   : consumed='' @ fmt_llu (ag_consumed (pl_agg pl)) @ ''  drops='' @ fmt_llu (rec_drops (pl_rec pl))
         @ ''  (book/ladder prices are in cents)'' @ line_end
         @ (case pub of None \<Rightarrow> '''' | Some u \<Rightarrow> ''udp datagrams   : sent='' @ fmt_llu (u_sent u) @ '' errors='' @ fmt_llu (u_errors u) @ line_end)
         @ book_report b)"

section \<open>The program\<close>

text \<open>The characters of a C string as bytes.\<close>

definition raw_bytes :: "string \<Rightarrow> bytes" where
  "raw_bytes s = map of_char s"

text \<open>The optional publisher: \<open>Inl\<close> if its target is bad.\<close>

definition feed_target :: "feed_system \<Rightarrow> feed_options \<Rightarrow> string + udp option" where
  "feed_target y f =
     (if \<not> fo_udp f then Inr None
      else let host = c_string (fo_host f); u = open_target (fy_socket y) (fy_pton y) host (fo_port f)
           in if u_ok u then Inr (Some u) else Inl (''bad --udp target '' @ target_text host (fo_port f) @ line_end))"

definition feed_send :: "feed_system \<Rightarrow> char list \<Rightarrow> snapshot list \<Rightarrow> udp option \<Rightarrow> udp option option" where
  "feed_send y buf ss pub = (case pub of None \<Rightarrow> Some None | Some u \<Rightarrow> map_option Some (send_frames (fy_sendto y) buf ss u))"

text \<open>From the opened file on; \<open>out\<close> is what has been printed.\<close>

definition feed_session ::
    "feed_system \<Rightarrow> string \<Rightarrow> string \<Rightarrow> feed_options \<Rightarrow> bytes \<Rightarrow> calibration \<Rightarrow> (nat \<Rightarrow> u64) \<Rightarrow> u64 \<Rightarrow> feed_input schedule \<Rightarrow> u64
     \<Rightarrow> char list \<Rightarrow> (feed_thread \<times> pipeline \<times> udp option) program_exit option" where
  "feed_session y path symb f data cal clock t_start turns t_end buf =
     (let out = feed_banner path symb data f
      in if \<not> (fy_maps y \<and> data \<noteq> []) then Some (gives_up out (perror y ''mmap''))
         else do {
           loaded \<leftarrow> feed_load y f data;
           hz \<leftarrow> mk_clock cal;
           case feed_target y f of
             Inl e \<Rightarrow> Some (gives_up (out @ loaded) e)
           | Inr pub \<Rightarrow> do {
               let hello = (if pub = None then '''' else ''publishing snapshots to udp '' @ target_text (c_string (fo_host f)) (fo_port f)
                 @ ''  (start the bridge, open the dashboard)'' @ line_end);
               (n, st, pl) \<leftarrow> feed_main hz clock (fo_pace f) (fo_snap f) (raw_bytes symb) data t_start turns t_end;
               pub \<leftarrow> feed_send y buf (pl_out pl) pub;
               Some \<lparr>x_status = 0, x_out = out @ loaded @ hello @ feed_summary symb (ft_stop st \<or> fy_late_stop y) n st pl pub,
                     x_err = [], x_end = Some (st, pl, pub)\<rparr>
             }
         })"

definition feed_program ::
    "feed_system \<Rightarrow> string list \<Rightarrow> calibration \<Rightarrow> (nat \<Rightarrow> u64) \<Rightarrow> u64 \<Rightarrow> feed_input schedule \<Rightarrow> u64 \<Rightarrow> char list
     \<Rightarrow> (feed_thread \<times> pipeline \<times> udp option) program_exit option" where
  "feed_program y argv cal clock t_start turns t_end buf = do {
     name \<leftarrow> vec_get argv 0;
     if length argv < 3 then Some (gives_up [] (feed_usage name))
     else do {
       path \<leftarrow> vec_get argv 1;
       symb \<leftarrow> vec_get argv 2;
       r \<leftarrow> feed_option_loop (drop 3 argv) feed_defaults;
       case r of
         Inl a \<Rightarrow> Some (gives_up [] (''unknown option: '' @ a @ line_end))
       | Inr f \<Rightarrow>
           let f = feed_checked f
           in (case fy_file y path of
                 None \<Rightarrow> Some (gives_up [] (perror y ''open''))
               | Some data \<Rightarrow> feed_session y path symb f data cal clock t_start turns t_end buf)
     }
   }"

section \<open>What it does\<close>

lemma feed_load_returns: "\<exists>t. feed_load y f data = Some t"
  using touch_pages_returns [of data 0 0] by (auto simp: feed_load_def)

lemma feed_target_new: "feed_target y f = Inr (Some u) \<Longrightarrow> u_ok u \<and> u_sent u = 0 \<and> u_errors u = 0"
  by (auto simp: feed_target_def Let_def open_target_new split: if_splits)

lemma feed_send_works:
  assumes "length buf = 4096" "\<forall>s \<in> set ss. snapshot_ok s \<and> spread_ok s" "\<forall>u. pub = Some u \<longrightarrow> u_ok u \<and> u_sent u = 0 \<and> u_errors u = 0"
  shows "\<exists>pub'. feed_send y buf ss pub = Some pub' \<and> (pub' = None \<longleftrightarrow> pub = None)
    \<and> (\<forall>u. pub' = Some u \<longrightarrow> u_sent u + u_errors u = of_nat (length ss))"
proof (cases pub)
  case None
  then show ?thesis by (simp add: feed_send_def)
next
  case (Some u)
  then have "u_ok u" "u_sent u = 0" "u_errors u = 0" using assms(3) by simp_all
  then show ?thesis using send_frames_works [OF assms(1) _ assms(2), of u "fy_sendto y"] Some by (auto simp: feed_send_def)
qed

text \<open>The exits before the run.\<close>

lemma feed_program_errors:
  "argv = [name] \<or> (\<exists>a. argv = [name, a]) \<Longrightarrow>
     feed_program y argv cal clock t_start turns t_end buf = Some (gives_up [] (feed_usage name))"
  "argv = name # path # symb # opts \<Longrightarrow> feed_option_loop opts feed_defaults = Some (Inl a) \<Longrightarrow>
     feed_program y argv cal clock t_start turns t_end buf = Some (gives_up [] (''unknown option: '' @ a @ line_end))"
  "argv = name # path # symb # opts \<Longrightarrow> feed_option_loop opts feed_defaults = Some (Inr f) \<Longrightarrow> fy_file y path = None \<Longrightarrow>
     feed_program y argv cal clock t_start turns t_end buf = Some (gives_up [] (perror y ''open''))"
  "argv = name # path # symb # opts \<Longrightarrow> feed_option_loop opts feed_defaults = Some (Inr f) \<Longrightarrow> fy_file y path = Some [] \<Longrightarrow>
     feed_program y argv cal clock t_start turns t_end buf
       = Some (gives_up (feed_banner path symb [] (feed_checked f)) (perror y ''mmap''))"
  by (auto simp: feed_program_def feed_session_def vec_get_def Let_def)

text \<open>
  The run: whatever the pace, the clocks and the schedule, the program ends with status 0, the live orders are those
  that the messages describe, and the summary has the totals.
\<close>

lemma feed_program_works:
  fixes bodies :: "bytes list" and turns :: "feed_input schedule" and symb :: string
  defines "ms \<equiv> modelled_messages bodies" and "in_book \<equiv> \<lambda>p. 1 \<le> p \<and> p \<le> (500000::int)"
    and "target \<equiv> pack8 (padded (raw_bytes symb))"
  assumes framed: "\<forall>body \<in> set bodies. 0 < length body \<and> length body < 65536" "bodies \<noteq> []"
    and fresh: "fresh_stream target in_book ms Map.empty"
    and sched: "length ms < length (inputs_of turns)" "length (inputs_of turns) < 2 ^ 60"
    and go: "\<forall>x \<in> set (inputs_of turns). \<not> fi_stop x \<and> ticking x" and buf: "length buf = 4096"
    and opts: "feed_option_loop opts feed_defaults = Some (Inr g)" "pace_ok (fo_pace (feed_checked g))"
    and capture: "fy_file y path = Some (concat (map frame bodies))" "fy_maps y" and hz: "mk_clock cal = Some hz"
    and pub: "fo_udp g \<Longrightarrow> 0 \<le> fy_socket y \<and> fy_pton y (c_string (fo_host g)) = 1"
  shows "\<exists>out st pl pub. feed_program y (name # path # symb # opts) cal clock t_start turns t_end buf
      = Some \<lparr>x_status = 0, x_out = out @ feed_summary symb (ft_stop st \<or> fy_late_stop y) (length ms) st pl pub, x_err = [],
              x_end = Some (st, pl, pub)\<rparr>
    \<and> book_wf (mb_book (fr_sys (ft_replay st)))
    \<and> order_map (mb_book (fr_sys (ft_replay st))) = fold (apply_message target in_book) ms Map.empty
    \<and> ring_contents ring_cap (rec_ring (pl_rec pl)) = [] \<and> s_final (last (pl_out pl))
    \<and> s_events (last (pl_out pl)) = ag_consumed (pl_agg pl) \<and> s_drops (last (pl_out pl)) = rec_drops (pl_rec pl)
    \<and> unat (ag_consumed (pl_agg pl)) + unat (rec_drops (pl_rec pl))
        = stream_calls target in_book ms Map.empty + length ms div unat (fo_snap (feed_checked g)) + 1
    \<and> (pub = None \<longleftrightarrow> \<not> fo_udp g) \<and> (\<forall>u. pub = Some u \<longrightarrow> u_sent u + u_errors u = of_nat (length (pl_out pl)))"
proof -
  let ?f = "feed_checked g" and ?data = "concat (map frame bodies)"
  have keep: "fo_udp ?f = fo_udp g" "fo_host ?f = fo_host g" "fo_port ?f = fo_port g" by (simp_all add: feed_checked_def Let_def)
  have snap: "snap_period (fo_snap ?f) = fo_snap ?f" by (simp add: feed_checked_def snap_period_def Let_def)
  obtain st pl where run: "feed_main hz clock (fo_pace ?f) (fo_snap ?f) (raw_bytes symb) ?data t_start turns t_end = Some (length ms, st, pl)"
    "book_wf (mb_book (fr_sys (ft_replay st)))
    \<and> order_map (mb_book (fr_sys (ft_replay st))) = fold (apply_message target in_book) ms Map.empty
    \<and> ring_contents ring_cap (rec_ring (pl_rec pl)) = [] \<and> s_final (last (pl_out pl))
    \<and> s_events (last (pl_out pl)) = ag_consumed (pl_agg pl) \<and> s_drops (last (pl_out pl)) = rec_drops (pl_rec pl)
    \<and> unat (ag_consumed (pl_agg pl)) + unat (rec_drops (pl_rec pl))
        = stream_calls target in_book ms Map.empty + length ms div unat (fo_snap ?f) + 1"
    "\<forall>s \<in> set (pl_out pl). snapshot_ok s \<and> spread_ok s"
    using feed_main_works [OF framed(1) fresh [unfolded target_def in_book_def ms_def] sched(1) [unfolded ms_def] sched(2) go opts(2),
        of hz clock "fo_snap ?f" t_start t_end] unfolding target_def in_book_def ms_def snap by blast
  obtain p0 where p0: "feed_target y ?f = Inr p0" "p0 = None \<longleftrightarrow> \<not> fo_udp g" "\<forall>u. p0 = Some u \<longrightarrow> u_ok u \<and> u_sent u = 0 \<and> u_errors u = 0"
  proof (cases "fo_udp g")
    case True
    let ?u = "open_target (fy_socket y) (fy_pton y) (c_string (fo_host g)) (fo_port g)"
    have "feed_target y ?f = Inr (Some ?u)" using pub [OF True] True keep by (simp add: feed_target_def Let_def open_target_new)
    then show ?thesis using that [of "Some ?u"] True feed_target_new by blast
  next
    case False
    then show ?thesis using that [of None] keep by (simp add: feed_target_def)
  qed
  obtain p1 where p1: "feed_send y buf (pl_out pl) p0 = Some p1" "p1 = None \<longleftrightarrow> p0 = None"
    "\<forall>u. p1 = Some u \<longrightarrow> u_sent u + u_errors u = of_nat (length (pl_out pl))" using feed_send_works [OF buf run(3) p0(3)] by blast
  obtain t where t: "feed_load y ?f ?data = Some t" using feed_load_returns by blast
  have "frame b \<noteq> []" for b by (simp add: frame_def numeral_2_eq_2)
  then have data: "?data \<noteq> []" using framed(2) by (cases bodies) auto
  let ?hello = "if p0 = None then '''' else ''publishing snapshots to udp '' @ target_text (c_string (fo_host ?f)) (fo_port ?f)
      @ ''  (start the bridge, open the dashboard)'' @ line_end"
  have session: "feed_session y path symb ?f ?data cal clock t_start turns t_end buf
      = Some \<lparr>x_status = 0, x_out = (feed_banner path symb ?data ?f @ t @ ?hello)
          @ feed_summary symb (ft_stop st \<or> fy_late_stop y) (length ms) st pl p1, x_err = [], x_end = Some (st, pl, p1)\<rparr>"
    using data by (simp add: feed_session_def capture(2) t hz p0(1) run(1) p1(1) Let_def)
  have "feed_program y (name # path # symb # opts) cal clock t_start turns t_end buf
      = feed_session y path symb ?f ?data cal clock t_start turns t_end buf"
    by (simp add: feed_program_def vec_get_def opts(1) capture(1) Let_def)
  then show ?thesis unfolding session using run(2) p0(2) p1(2,3) by blast
qed

end
