(* ===== verification/Sample_Runs.thy ===== *)
theory Sample_Runs
  imports Sample_Feed Feed_Program
begin

text \<open>
  A small run of the replay program: the environment with one readable capture, the one of \<open>Sample_Feed\<close>, and a turn of
  the hot thread whose clock goes on.
\<close>

definition sample_system :: feed_system where
  "sample_system = \<lparr>fy_file = \<lambda>path. Some (concat (map frame sample_bodies)), fy_maps = True, fy_error = \<lambda>path. [],
     fy_load = (0, 1000), fy_socket = 3, fy_pton = \<lambda>host. 1, fy_sendto = \<lambda>fd dst t. int (length t), fy_late_stop = False\<rparr>"

definition sample_turn :: feed_input where
  "sample_turn = \<lparr>fi_stop = False, fi_wall = 0, fi_now = \<lambda>n. of_nat n, fi_stops = \<lambda>n. False\<rparr>"

lemma sample_turn_ok: "\<not> fi_stop sample_turn" "ticking sample_turn"
proof -
  have "\<exists>k. t \<le> of_nat k" for t :: u64 by (rule exI [of _ "unat t"]) simp
  then show "ticking sample_turn" by (simp add: ticking_def sample_turn_def)
qed (simp add: sample_turn_def)

text \<open>Real time, and a UDP target at the default address.\<close>

lemma sample_flags_read:
  obtains g where "feed_option_loop [''--pace=1'', ''--udp''] feed_defaults = Some (Inr g)" "pace_ok (fo_pace (feed_checked g))"
    "c_string (fo_host g) = ''127.0.0.1''"
proof -
  have flags: "map flag_text [Pace 1, Udp] = [''--pace=1'', ''--udp'']" by code_simp
  obtain g where g: "feed_option_loop [''--pace=1'', ''--udp''] feed_defaults = Some (Inr g)"
    "means (feed_checked g) (fold apply_flag [Pace 1, Udp] default_request)"
    using options_read [of "[Pace 1, Udp]"] unfolding flags by auto
  have "fo_host (feed_checked g) = fo_host g" by (simp add: feed_checked_def Let_def)
  then have "pace_ok (fo_pace (feed_checked g))" "c_string (fo_host g) = ''127.0.0.1''"
    using g(2) by (simp_all add: means_def default_request_def pace_ok_def)
  then show ?thesis using that g(1) by blast
qed

end
