(* ===== verification/Console_View.thy ===== *)
theory Console_View
  imports Frame_Size
begin

text \<open>
  The console readout of \<open>render\<close> in \<^verbatim>\<open>metrics/include/aggregator.hpp\<close>: the text assembled in the 4096-byte
  buffer of a cycle. The rows are printed in the loop over the operations; here they are a function
  of the histograms as that loop finds them. The C strings of a row are cut to their 24-byte buffers.
\<close>

section \<open>Formatting\<close>

definition pad_left :: "nat \<Rightarrow> string \<Rightarrow> string" where
  "pad_left w t = replicate (w - length t) CHR '' '' @ t"

definition pad_right :: "nat \<Rightarrow> string \<Rightarrow> string" where
  "pad_right w t = t @ replicate (w - length t) CHR '' ''"

text \<open>\<open>n += snprintf(buf + n, sizeof buf - n, \<dots>)\<close>: \<open>None\<close> if the text does not fit, as the next call would then
  be given a position outside the buffer.\<close>

definition print_text :: "string \<Rightarrow> string \<Rightarrow> string option" where
  "print_text out t = do { require (length out + length t < 4096); Some (out @ t) }"

primrec print_all :: "string list \<Rightarrow> string \<Rightarrow> string option" where
  "print_all [] out = Some out"
| "print_all (t # ts) out = do { out \<leftarrow> print_text out t; print_all ts out }"

definition fmt_ticks :: "double \<Rightarrow> u32 \<Rightarrow> string" where
  "fmt_ticks ns_per_tick ticks = truncated 24
     (if \<not> d_less d_zero ns_per_tick then dec (unat ticks) @ '' tk''
      else let ns = d_mult (d_of_int (uint ticks)) ns_per_tick
           in if d_less ns (d_of_int 1000) then fmt_fixed 0 ns @ '' ns''
              else if d_less ns (d_of_int 1000000) then fmt_fixed 2 (d_div ns (d_of_int 1000)) @ '' us''
              else fmt_fixed 2 (d_div ns (d_of_int 1000000)) @ '' ms'')"

section \<open>The parts of the readout\<close>

definition newline :: string where "newline = [CHR 0x0A]"

definition title_line :: "double \<Rightarrow> bool \<Rightarrow> aggregator \<Rightarrow> string" where
  "title_line up_s final a = ''  ORDER-BOOK LIVE METRICS'' @ (if final then ''  (final)'' else '''') @ ''   up ''
     @ pad_left 6 (fmt_fixed 1 up_s) @ ''s   refresh ''
     @ fmt_fixed 0 (d_div (d_of_int 1000000000) (d_of_int (uint (ag_render_ns a)))) @ ''Hz'' @ newline"

definition totals_line :: "u64 \<Rightarrow> aggregator \<Rightarrow> string" where
  "totals_line drops a = ''  events '' @ pad_right 12 (fmt_llu (ag_consumed a)) @ ''  trades ''
     @ pad_right 8 (fmt_llu (ag_trades a)) @ ''  snaps '' @ pad_right 8 (fmt_llu (ag_snaps a)) @ ''  drops ''
     @ pad_right 10 (fmt_llu drops) @ newline"

text \<open>The spread is an \<open>int64_t\<close> difference, undefined where it overflows.\<close>

definition book_line :: "aggregator \<Rightarrow> string option" where
  "book_line a = do {
     require (int64_range (ag_best_ask a - ag_best_bid a));
     let spread = ag_best_ask a - ag_best_bid a;
     Some (''  book   bid '' @ pad_right 12 (fmt_lld (ag_best_bid a)) @ '' ask ''
       @ pad_right 12 (fmt_lld (ag_best_ask a)) @ '' spread '' @ pad_right 8 (fmt_lld spread)
       @ ''  last_px '' @ pad_right 12 (fmt_lld (ag_last_px a)) @ '' vol '' @ fmt_llu (ag_volume a) @ newline)
   }"

definition column_line :: string where
  "column_line = newline @ ''  '' @ pad_right 8 ''OP'' @ '' '' @ pad_left 12 ''ops/s'' @ '' '' @ pad_left 12 ''count'' @ '' ''
     @ pad_left 10 ''p50'' @ '' '' @ pad_left 10 ''p99'' @ '' '' @ pad_left 10 ''p99.9'' @ '' '' @ pad_left 10 ''max'' @ newline"

definition console_header :: "bool \<Rightarrow> double \<Rightarrow> bool \<Rightarrow> u64 \<Rightarrow> aggregator \<Rightarrow> string list option" where
  "console_header ansi up_s final drops a = do {
     book \<leftarrow> (if ag_snaps a \<noteq> 0 then do { t \<leftarrow> book_line a; Some [t] } else Some []);
     Some ((if ansi then [[CHR 0x1B] @ ''[H''] else []) @ [title_line up_s final a, totals_line drops a] @ book
       @ [column_line])
   }"

definition console_row :: "double \<Rightarrow> aggregator \<Rightarrow> nat \<Rightarrow> string list option" where
  "console_row win_s a op = do {
     w \<leftarrow> vec_get (ag_win a) (int op);
     c \<leftarrow> vec_get (ag_cum a) (int op);
     let c = h_merge c w;
     if h_count c = 0 then Some []
     else do {
       let opsps = (if d_less d_zero win_s then d_div (d_of_int (uint (h_count w))) win_s else d_zero);
       t50 \<leftarrow> h_percentile (d_of_int 50) w;
       t99 \<leftarrow> h_percentile (d_of_int 99) w;
       t999 \<leftarrow> h_percentile (round_frac 999 10) w;
       let fmt = fmt_ticks (ag_ns_per_tick a);
       Some [''  '' @ pad_right 8 (opName op) @ '' '' @ pad_left 12 (fmt_fixed 0 opsps) @ '' ''
         @ pad_left 12 (fmt_llu (h_count c)) @ '' '' @ pad_left 10 (fmt t50) @ '' '' @ pad_left 10 (fmt t99) @ '' ''
         @ pad_left 10 (fmt t999) @ '' '' @ pad_left 10 (fmt (h_max c)) @ newline]
     }
   }"

primrec console_rows :: "double \<Rightarrow> aggregator \<Rightarrow> nat \<Rightarrow> nat \<Rightarrow> string list option" where
  "console_rows win_s a 0 op = Some []"
| "console_rows win_s a (Suc k) op = do {
     t \<leftarrow> console_row win_s a op;
     ts \<leftarrow> console_rows win_s a k (Suc op);
     Some (t @ ts)
   }"

primrec console_alerts :: "snapshot \<Rightarrow> nat \<Rightarrow> nat \<Rightarrow> string list option" where
  "console_alerts s 0 i = Some []"
| "console_alerts s (Suc k) i = do {
     a \<leftarrow> vec_get (s_alerts s) (int i);
     ts \<leftarrow> console_alerts s k (Suc i);
     Some ((''  ALERT ['' @ al_level a @ ''] '' @ al_text a @ newline) # ts)
   }"

text \<open>The text written to the console in a cycle that starts in \<open>a\<close> and ends with the snapshot \<open>snap\<close>.\<close>

definition console_text :: "bool \<Rightarrow> u64 \<Rightarrow> u64 \<Rightarrow> bool \<Rightarrow> u64 \<Rightarrow> aggregator \<Rightarrow> snapshot \<Rightarrow> string option" where
  "console_text ansi t_now t_start final drops a snap = do {
     let win_s = seconds (t_now - ag_last_render a);
     let up_s = seconds (t_now - t_start);
     header \<leftarrow> console_header ansi up_s final drops a;
     rows \<leftarrow> console_rows win_s a NUM_OPS 0;
     alerts \<leftarrow> console_alerts snap (s_num_alerts snap) 0;
     print_all (header @ rows @ alerts @ (if ansi then [[CHR 0x1B] @ ''[J''] else [])) []
   }"

text \<open>A whole cycle with its text, for a console that is on or off.\<close>

definition render_cycle ::
    "bool \<Rightarrow> bool \<Rightarrow> u64 \<Rightarrow> u64 \<Rightarrow> bool \<Rightarrow> u64 \<Rightarrow> book_view publisher option \<Rightarrow> aggregator
     \<Rightarrow> (aggregator \<times> snapshot \<times> string) option" where
  "render_cycle console ansi t_now t_start final drops bookpub a = do {
     (a', snap) \<leftarrow> render t_now t_start final drops bookpub a;
     text \<leftarrow> (if console then console_text ansi t_now t_start final drops a snap else Some []);
     Some (a', snap, text)
   }"

section \<open>The text fits\<close>

lemma length_pads:
  "length t \<le> m \<Longrightarrow> w \<le> m \<Longrightarrow> length (pad_left w t) \<le> m" "length t \<le> m \<Longrightarrow> w \<le> m \<Longrightarrow> length (pad_right w t) \<le> m"
  by (simp_all add: pad_left_def pad_right_def)

lemma length_newline [simp]: "length newline = 1"
  by (simp add: newline_def)

lemma length_fmt_ticks: "length (fmt_ticks ns t) \<le> 23"
  by (simp add: fmt_ticks_def truncated_def)

lemma print_all_works: "length out + length (concat ts) < 4096 \<Longrightarrow> print_all ts out = Some (out @ concat ts)"
proof (induction ts arbitrary: out)
  case (Cons t ts)
  then have "print_all ts (out @ t) = Some (out @ t @ concat ts)" using Cons.IH [of "out @ t"] by simp
  then show ?case using Cons.prems by (simp add: print_text_def)
qed simp

text \<open>Every line has at most 180 characters.\<close>

definition short_lines :: "nat \<Rightarrow> string list \<Rightarrow> bool" where
  "short_lines n ts \<longleftrightarrow> length ts \<le> n \<and> list_all (\<lambda>t. length t \<le> 180) ts"

lemma short_lines_append: "short_lines m ts \<Longrightarrow> short_lines n us \<Longrightarrow> short_lines (m + n) (ts @ us)"
  by (simp add: short_lines_def)

lemma short_lines_concat: "short_lines n ts \<Longrightarrow> length (concat ts) \<le> 180 * n"
proof -
  have "list_all (\<lambda>t. length t \<le> 180) ts \<Longrightarrow> length (concat ts) \<le> 180 * length ts" for ts :: "string list"
    by (induction ts) auto
  then show "short_lines n ts \<Longrightarrow> length (concat ts) \<le> 180 * n" by (fastforce simp: short_lines_def)
qed

lemma refresh_small:
  assumes "0 < n"
  shows "0 \<le> val (d_div (d_of_int 1000000000) (d_of_int (uint (n::u64))))
    \<and> 2 * val (d_div (d_of_int 1000000000) (d_of_int (uint n))) \<le> 10 ^ 10"
proof -
  have "0 < uint n" using assms by (simp add: word_less_def)
  then have "1 \<le> uint n" by simp
  then have "(of_int 1 :: rat) \<le> of_int (uint n)" by (simp only: of_int_le_iff)
  then have n: "9 / 10 \<le> val (d_of_int (uint n))" using d_of_int_between [of "uint n"] by simp
  have "1000000000 / val (d_of_int (uint n)) \<le> 1000000000 / (9 / 10)" using n by (intro frac_le) simp_all
  moreover have "0 \<le> 1000000000 / val (d_of_int (uint n))" using n by simp
  ultimately show ?thesis using d_div_between [of "d_of_int 1000000000" "d_of_int (uint n)"] n val_giga by simp
qed

lemma pad_llu: "w \<le> 20 \<Longrightarrow> length (pad_right w (fmt_llu x)) \<le> 20" "w \<le> 20 \<Longrightarrow> length (pad_left w (fmt_llu x)) \<le> 20"
  by (intro length_pads length_llu; assumption)+

lemma pad_lld: "int64_range x \<Longrightarrow> w \<le> 20 \<Longrightarrow> length (pad_right w (fmt_lld x)) \<le> 20"
  using length_lld [of x 19] int64_small [of x] by (intro length_pads) simp_all

lemma title_short: "0 < ag_render_ns a \<Longrightarrow> length (title_line (seconds u) final a) \<le> 180"
proof -
  assume "0 < ag_render_ns a"
  then have "length (fmt_fixed 0 (d_div (d_of_int 1000000000) (d_of_int (uint (ag_render_ns a))))) \<le> 10"
    using length_fixed [of "d_div (d_of_int 1000000000) (d_of_int (uint (ag_render_ns a)))" 10 0] refresh_small by simp
  moreover have "length (fmt_fixed 1 (seconds u)) \<le> 13" using length_fixed [of "seconds u" 11 1] seconds_small [of u] by simp
  then have "length (pad_left 6 (fmt_fixed 1 (seconds u))) \<le> 13" by (intro length_pads) simp_all
  ultimately show ?thesis by (simp add: title_line_def)
qed

lemma totals_short: "length (totals_line drops a) \<le> 180"
  using pad_llu(1) [of 12 "ag_consumed a"] pad_llu(1) [of 8 "ag_trades a"] pad_llu(1) [of 8 "ag_snaps a"]
    pad_llu(1) [of 10 drops] by (simp add: totals_line_def)

text \<open>The last quote and trade the aggregator took in.\<close>

definition quote_int64 :: "aggregator \<Rightarrow> bool" where
  "quote_int64 a \<longleftrightarrow> int64_range (ag_best_bid a) \<and> int64_range (ag_best_ask a)
     \<and> int64_range (ag_best_ask a - ag_best_bid a) \<and> int64_range (ag_last_px a)"

lemma book_line_short:
  assumes "quote_int64 a"
  shows "\<exists>t. book_line a = Some t \<and> length t \<le> 180"
proof -
  have q: "int64_range (ag_best_bid a)" "int64_range (ag_best_ask a)" "int64_range (ag_best_ask a - ag_best_bid a)"
    "int64_range (ag_last_px a)" using assms by (simp_all add: quote_int64_def)
  show ?thesis
    using pad_lld [OF q(1), of 12] pad_lld [OF q(2), of 12] pad_lld [OF q(3), of 8] pad_lld [OF q(4), of 12]
      length_llu [of "ag_volume a"] q(3) by (simp add: book_line_def Let_def)
qed

lemma header_short:
  assumes "0 < ag_render_ns a" "ag_snaps a \<noteq> 0 \<longrightarrow> quote_int64 a"
  shows "\<exists>ts. console_header ansi (seconds u) final drops a = Some ts \<and> short_lines 5 ts"
proof -
  obtain book where "(if ag_snaps a \<noteq> 0 then do { t \<leftarrow> book_line a; Some [t] } else Some []) = Some book" "short_lines 1 book"
  proof (cases "ag_snaps a = 0")
    case False
    then obtain t where "book_line a = Some t" "length t \<le> 180" using book_line_short assms(2) by blast
    then show ?thesis using False that [of "[t]"] by (simp add: short_lines_def)
  qed (simp add: short_lines_def)
  then show ?thesis
    using title_short [OF assms(1), of u final] totals_short [of drops a]
    by (simp add: short_lines_def console_header_def column_line_def pad_left_def pad_right_def)
qed

text \<open>A row is printed for each operation seen so far, and it is short.\<close>

lemma console_row_short:
  assumes cum: "hist_rep (ag_cum a ! op) (latencies op old)" and win: "hist_rep (ag_win a ! op) (latencies op new)"
    and len: "op < length (ag_cum a)" "op < length (ag_win a)" and n: "length (old @ new) < 2 ^ 63"
  shows "\<exists>ts. console_row (seconds w) a op = Some ts \<and> short_lines 1 ts"
proof (cases "h_count (h_merge (ag_cum a ! op) (ag_win a ! op)) = 0")
  case True
  then show ?thesis using len by (simp add: console_row_def short_lines_def Let_def)
next
  case False
  let ?w = "ag_win a ! op" and ?fmt = "fmt_ticks (ag_ns_per_tick a)"
  have nw: "length (latencies op new) < 2 ^ 63" using latencies_length [of op new] n by simp
  have p: "\<exists>t. h_percentile q ?w = Some t" if "0 \<le> val q \<and> val q \<le> 100" for q
    using h_percentile_pct [OF win nw] that by blast
  obtain t50 t99 t999 where t: "h_percentile (d_of_int 50) ?w = Some t50" "h_percentile (d_of_int 99) ?w = Some t99"
    "h_percentile (round_frac 999 10) ?w = Some t999" using p percentages by blast
  have f: "length (pad_left 10 (?fmt t)) \<le> 23" for t using length_fmt_ticks by (intro length_pads) simp_all
  define rate where "rate = (if d_less d_zero (seconds w) then d_div (d_of_int (uint (h_count ?w))) (seconds w) else d_zero)"
  have "uint (h_count ?w) = int (length (latencies op new))"
    using win nw by (simp add: hist_rep_def uint_nat unat_of_nat_u64)
  then have "0 \<le> val rate \<and> 2 * val rate \<le> 10 ^ 29"
    using rate_small [OF nw, of w] by (simp add: rate_def d_less_val)
  then have "length (fmt_fixed 0 rate) \<le> 29" using length_fixed [of rate 29 0] by simp
  then have "length (pad_left 12 (fmt_fixed 0 rate)) \<le> 29" by (intro length_pads) simp_all
  moreover have "length (pad_right 8 (opName op)) \<le> 8" using length_opName [of op] by (intro length_pads) simp_all
  ultimately show ?thesis
    using False len t pad_llu(2) [of 12 "h_count (h_merge (ag_cum a ! op) ?w)"] f [of t50] f [of t99] f [of t999]
      f [of "h_max (h_merge (ag_cum a ! op) ?w)"]
    by (simp add: console_row_def Let_def short_lines_def flip: rate_def)
qed

lemma console_rows_short:
  assumes rep: "hists_rep (ag_cum a) old" "hists_rep (ag_win a) new" and n: "length (old @ new) < 2 ^ 63"
  shows "op + k \<le> NUM_OPS \<Longrightarrow> \<exists>ts. console_rows (seconds w) a k op = Some ts \<and> short_lines k ts"
proof (induction k arbitrary: op)
  case 0
  then show ?case by (simp add: short_lines_def)
next
  case (Suc k)
  then have op: "op < NUM_OPS" by simp
  obtain t where t: "console_row (seconds w) a op = Some t" "short_lines 1 t"
    using console_row_short [of a op old new w] rep op n by (auto simp: hists_rep_def)
  obtain ts where "console_rows (seconds w) a k (Suc op) = Some ts" "short_lines k ts" using Suc.IH [of "Suc op"] Suc.prems by auto
  then show ?case using t short_lines_append [OF t(2)] by auto
qed

lemma console_alerts_short:
  assumes "list_all alert_small (take (s_num_alerts s) (s_alerts s))" "s_num_alerts s \<le> length (s_alerts s)"
  shows "i + k \<le> s_num_alerts s \<Longrightarrow> \<exists>ts. console_alerts s k i = Some ts \<and> short_lines k ts"
proof (induction k arbitrary: i)
  case 0
  then show ?case by (simp add: short_lines_def)
next
  case (Suc k)
  then have i: "i < s_num_alerts s" by simp
  then have "alert_small (s_alerts s ! i)" using assms by (auto simp: list_all_length)
  then have "length (''  ALERT ['' @ al_level (s_alerts s ! i) @ ''] '' @ al_text (s_alerts s ! i) @ newline) \<le> 180"
    by (simp add: alert_small_def)
  moreover obtain ts where "console_alerts s k (Suc i) = Some ts" "short_lines k ts" using Suc.IH [of "Suc i"] Suc.prems by auto
  ultimately show ?case using i assms(2) by (simp add: short_lines_def)
qed

text \<open>The readout of a cycle fits in its buffer.\<close>

lemma quotes_int64:
  assumes rep: "totals_rep a es" and ev: "\<forall>e \<in> set es. payload_int64 (ev_payload e)"
  shows "quote_int64 a"
proof -
  have "int64_range (ag_best_bid a) \<and> int64_range (ag_best_ask a) \<and> int64_range (ag_best_ask a - ag_best_bid a)"
  proof (cases "quotes_of es = []")
    case True
    then show ?thesis using rep by (simp add: totals_rep_def int64_range_def)
  next
    case False
    then have "(ag_best_bid a, ag_best_ask a) = last (quotes_of es)" using rep by (simp add: totals_rep_def)
    then show ?thesis using quotes_small [OF ev last_in_set [OF False]] by (metis fst_conv snd_conv)
  qed
  moreover have "int64_range (ag_last_px a)"
    using rep trades_small [OF ev last_in_set [of "trades_of es"]] by (auto simp: totals_rep_def int64_range_def)
  ultimately show ?thesis by (simp add: quote_int64_def)
qed

lemma console_fits:
  assumes rep: "agg_rep a old new" and n: "length (old @ new) < 2 ^ 63" and hz: "0 < ag_render_ns a"
    and ev: "\<forall>e \<in> set (old @ new). payload_int64 (ev_payload e)"
    and view: "\<forall>p bv. bookpub = Some p \<and> read_view p = Some bv \<longrightarrow> view_ok bv"
    and ren: "render t_now t_start final drops bookpub a = Some (a', snap)"
  shows "\<exists>t. console_text ansi t_now t_start final drops a snap = Some t \<and> length t < 4096"
proof -
  have snap: "snapshot_ok snap"
    "take (s_num_alerts snap) (s_alerts snap) = take CAP (due_alerts snap (ag_alert_cfg a) (ag_last_drops a))"
    using render_works [OF rep n view, of t_now t_start final drops] ren by auto
  have al: "s_num_alerts snap \<le> length (s_alerts snap)" using snap(1) by (simp add: snapshot_ok_def)
  then have "s_num_alerts snap = length (take (s_num_alerts snap) (s_alerts snap))" by simp
  also have "\<dots> \<le> 8" unfolding snap(2) by (simp add: CAP_def)
  finally have al8: "s_num_alerts snap \<le> 8" .
  have "list_all alert_small (take (s_num_alerts snap) (s_alerts snap))"
    unfolding snap(2) by (rule list_all_take [OF due_alerts_small])
  from console_alerts_short [OF this al, of 0 "s_num_alerts snap"] obtain as where
    as: "console_alerts snap (s_num_alerts snap) 0 = Some as" "short_lines (s_num_alerts snap) as" by auto
  have h: "hists_rep (ag_cum a) old" "hists_rep (ag_win a) new" "totals_rep a (old @ new)" using rep by (simp_all add: agg_rep_def)
  obtain rows where rows: "console_rows (seconds (t_now - ag_last_render a)) a NUM_OPS 0 = Some rows" "short_lines NUM_OPS rows"
    using console_rows_short [OF h(1,2) n, of 0 NUM_OPS] by auto
  let ?foot = "if ansi then [[CHR 0x1B] @ ''[J''] else []"
  obtain head where head: "console_header ansi (seconds (t_now - t_start)) final drops a = Some head" "short_lines 5 head"
    using header_short [OF hz] quotes_int64 [OF h(3) ev] by blast
  have "short_lines 1 ?foot" by (simp add: short_lines_def)
  with head(2) have "short_lines (5 + (NUM_OPS + (s_num_alerts snap + 1))) (head @ rows @ as @ ?foot)"
    using rows(2) as(2) by (intro short_lines_append)
  from short_lines_concat [OF this] al8 have len: "length (concat (head @ rows @ as @ ?foot)) < 4096"
    by (simp add: NUM_OPS_def)
  then have "print_all (head @ rows @ as @ ?foot) [] = Some (concat (head @ rows @ as @ ?foot))"
    using print_all_works [of "[]"] by (simp del: concat_append)
  then show ?thesis using head(1) rows(1) as(1) len by (simp add: console_text_def Let_def)
qed

lemma cycle_works:
  assumes rep: "agg_rep a old new" and n: "length (old @ new) < 2 ^ 63" and hz: "0 < ag_render_ns a"
    and ev: "\<forall>e \<in> set (old @ new). payload_int64 (ev_payload e)"
    and view: "\<forall>p bv. bookpub = Some p \<and> read_view p = Some bv \<longrightarrow> view_ok bv"
  shows "\<exists>a' snap t. render_cycle console ansi t_now t_start final drops bookpub a = Some (a', snap, t)
    \<and> render t_now t_start final drops bookpub a = Some (a', snap) \<and> length t < 4096"
proof -
  obtain a' snap where ren: "render t_now t_start final drops bookpub a = Some (a', snap)"
    using render_works [OF rep n view, of t_now t_start final drops] by blast
  show ?thesis using console_fits [OF assms ren, of ansi] by (cases console) (auto simp: render_cycle_def ren)
qed

end
