(* ===== verification/Bench_Ring.thy ===== *)
theory Bench_Ring
  imports Metrics_Recorder
begin

text \<open>
  The stream of \<^verbatim>\<open>metrics/benchmark_false_sharing.cpp\<close>: a producer that tries each of its items until the ring takes it
  and a consumer that adds up the time stamps of \<open>N\<close> items. The scheduler is an argument, a list of the passes of the
  two loops, each a whole call of the ring; the ring is used again in the next repetition. The timing and the report are in
  \<open>Bench_Programs\<close>.
\<close>

section \<open>The code\<close>

definition fs_ring_cap :: u64 where "fs_ring_cap = 1024"

definition fs_item :: "u64 \<Rightarrow> event" where
  "fs_item i = \<lparr>ev_tsc = i, ev_latency = 7, ev_etype = Latency_Event, ev_otype = Op_Add, ev_flags = 0, ev_payload = Raw\<rparr>"

record stream =
  sm_ring :: "event ring"
  sm_i :: u64
  sm_c :: u64
  sm_local :: u64

datatype move = Send | Receive

text \<open>A pass of the producer's inner loop, \<open>i\<close> going on when the item was taken, and of the consumer's loop.\<close>

fun fs_step :: "u64 \<Rightarrow> move \<Rightarrow> stream \<Rightarrow> stream option" where
  "fs_step N Send st =
     (if sm_i st < N then do {
        (r, ok) \<leftarrow> try_push fs_ring_cap (fs_item (sm_i st)) (sm_ring st);
        Some (st\<lparr>sm_ring := r, sm_i := (if ok then sm_i st + 1 else sm_i st)\<rparr>)
      } else Some st)"
| "fs_step N Receive st =
     (if sm_c st < N then do {
        (r, e) \<leftarrow> try_pop fs_ring_cap (sm_ring st);
        Some (case e of None \<Rightarrow> st\<lparr>sm_ring := r\<rparr>
          | Some e \<Rightarrow> st\<lparr>sm_ring := r, sm_local := sm_local st + ev_tsc e, sm_c := sm_c st + 1\<rparr>)
      } else Some st)"

primrec fs_steps :: "u64 \<Rightarrow> move list \<Rightarrow> stream \<Rightarrow> stream option" where
  "fs_steps N [] st = Some st"
| "fs_steps N (m # ms) st = do { st \<leftarrow> fs_step N m st; fs_steps N ms st }"

text \<open>A repetition: \<open>None\<close> if a loop has not ended by the end of the schedule.\<close>

definition fs_rep :: "u64 \<Rightarrow> move list \<Rightarrow> event ring \<Rightarrow> (event ring \<times> u64) option" where
  "fs_rep N moves ring = do {
     st \<leftarrow> fs_steps N moves \<lparr>sm_ring = ring, sm_i = 0, sm_c = 0, sm_local = 0\<rparr>;
     require (\<not> sm_i st < N \<and> \<not> sm_c st < N);
     Some (sm_ring st, sm_local st)
   }"

primrec fs_reps :: "u64 \<Rightarrow> move list list \<Rightarrow> event ring \<Rightarrow> u64 \<Rightarrow> (event ring \<times> u64) option" where
  "fs_reps N [] ring sink = Some (ring, sink)"
| "fs_reps N (x # xs) ring sink = do { (ring, acc) \<leftarrow> fs_rep N x ring; fs_reps N xs ring (sink + acc) }"

section \<open>The abstract stream\<close>

text \<open>Items sent and received.\<close>

fun advance :: "nat \<Rightarrow> move \<Rightarrow> nat \<times> nat \<Rightarrow> nat \<times> nat" where
  "advance N Send (i, c) = (if i < N \<and> i - c < 1024 then (i + 1, c) else (i, c))"
| "advance N Receive (i, c) = (if c < i then (i, c + 1) else (i, c))"

definition advances :: "nat \<Rightarrow> move list \<Rightarrow> nat \<times> nat \<Rightarrow> nat \<times> nat" where
  "advances N ms x = fold (advance N) ms x"

definition streaming :: "nat \<Rightarrow> nat \<times> nat \<Rightarrow> bool" where
  "streaming N x \<longleftrightarrow> snd x \<le> fst x \<and> fst x \<le> N \<and> fst x - snd x \<le> 1024"

lemma advance_streaming: "streaming N x \<Longrightarrow> streaming N (advance N m x)"
  by (cases x; cases m) (auto simp: streaming_def)

lemma advances_streaming: "streaming N x \<Longrightarrow> streaming N (advances N ms x)"
  unfolding advances_def by (induction ms arbitrary: x) (simp_all add: advance_streaming)

lemma advance_grows: "fst x + snd x \<le> fst (advance N m x) + snd (advance N m x)"
  by (cases x; cases m) auto

lemma advances_grow: "fst x + snd x \<le> fst (advances N ms x) + snd (advances N ms x)"
proof (induction ms arbitrary: x)
  case (Cons m ms)
  have "advances N (m # ms) x = advances N ms (advance N m x)" by (simp add: advances_def)
  then show ?case using order_trans [OF advance_grows Cons.IH] by simp
qed (simp add: advances_def)

lemma advance_stays: "fst (advance N m x) + snd (advance N m x) = fst x + snd x \<Longrightarrow> advance N m x = x"
  by (cases x; cases m) (auto split: if_splits)

text \<open>A schedule in which the sums stay the same has only moves that are blocked.\<close>

lemma advances_stay:
  "fst (advances N ms x) + snd (advances N ms x) = fst x + snd x \<Longrightarrow> m \<in> set ms \<Longrightarrow> advance N m x = x"
proof (induction ms)
  case (Cons k ms)
  have step: "advances N (k # ms) x = advances N ms (advance N k x)" by (simp add: advances_def)
  have "advance N k x = x"
    using Cons.prems(1) advances_grow [of "advance N k x" N ms] advance_grows [of x N k] unfolding step
    by (intro advance_stays) linarith
  then show ?case using Cons step by auto
qed simp

lemma not_both_blocked: "streaming N (i, c) \<Longrightarrow> c < N \<Longrightarrow> advance N Send (i, c) = (i, c) \<Longrightarrow> advance N Receive (i, c) \<noteq> (i, c)"
  by (auto simp: streaming_def split: if_splits)

text \<open>If both threads come to run in each of \<open>2 * N\<close> rounds, all items are received.\<close>

lemma round_advances:
  assumes "streaming N x" "{Send, Receive} \<subseteq> set ms" "snd x < N"
  shows "fst x + snd x < fst (advances N ms x) + snd (advances N ms x)"
proof (rule ccontr)
  assume "\<not> ?thesis"
  then have "fst (advances N ms x) + snd (advances N ms x) = fst x + snd x"
    using advances_grow [of x N ms] by linarith
  then have "advance N Send x = x" "advance N Receive x = x" using advances_stay assms(2) by blast+
  then show False using not_both_blocked [of N "fst x" "snd x"] assms(1,3) by simp
qed

lemma rounds_advance:
  "streaming N x \<Longrightarrow> \<forall>ms \<in> set rounds. {Send, Receive} \<subseteq> set ms \<Longrightarrow>
     min (2 * N) (fst x + snd x + length rounds) \<le> fst (advances N (concat rounds) x) + snd (advances N (concat rounds) x)"
proof (induction rounds arbitrary: x)
  case (Cons ms rounds)
  let ?y = "advances N ms x"
  have y: "streaming N ?y" by (rule advances_streaming [OF Cons.prems(1)])
  have split: "advances N (concat (ms # rounds)) x = advances N (concat rounds) ?y" by (simp add: advances_def)
  have IH: "min (2 * N) (fst ?y + snd ?y + length rounds) \<le> fst (advances N (concat rounds) ?y) + snd (advances N (concat rounds) ?y)"
    using Cons.IH [OF y] Cons.prems(2) by simp
  show ?case
  proof (cases "snd x < N")
    case True
    then have "fst x + snd x < fst ?y + snd ?y" using round_advances [OF Cons.prems(1)] Cons.prems(2) by simp
    then show ?thesis unfolding split using IH by simp
  next
    case False
    then have "2 * N \<le> fst x + snd x" using Cons.prems(1) by (simp add: streaming_def)
    then show ?thesis unfolding split using IH advances_grow [of x N ms] by simp
  qed
qed (simp add: advances_def)

lemma rounds_finish:
  assumes "\<forall>ms \<in> set rounds. {Send, Receive} \<subseteq> set ms" "2 * N \<le> length rounds"
  shows "advances N (concat rounds) (0, 0) = (N, N)"
proof -
  have "streaming N (0, 0)" by (simp add: streaming_def)
  from rounds_advance [OF this assms(1)] advances_streaming [OF this, of "concat rounds"] assms(2)
  show ?thesis by (cases "advances N (concat rounds) (0, 0)") (auto simp: streaming_def)
qed

section \<open>The code follows it\<close>

definition fs_rep_of :: "u64 \<Rightarrow> stream \<Rightarrow> nat \<times> nat \<Rightarrow> bool" where
  "fs_rep_of N st x \<longleftrightarrow> streaming (unat N) x \<and> ring_inv fs_ring_cap (sm_ring st)
     \<and> ring_contents fs_ring_cap (sm_ring st) = map (\<lambda>k. fs_item (of_nat k)) [snd x..<fst x]
     \<and> sm_i st = of_nat (fst x) \<and> sm_c st = of_nat (snd x) \<and> sm_local st = of_nat (\<Sum>{..<snd x})"

lemma fs_cap: "valid_cap fs_ring_cap" "unat fs_ring_cap = 1024"
proof -
  have "fs_ring_cap = 2 ^ 10" by (simp add: fs_ring_cap_def)
  then show "valid_cap fs_ring_cap" unfolding valid_cap_def by (intro image_eqI [of _ _ 10]) simp_all
qed (simp add: fs_ring_cap_def)

lemma of_nat_less_u64: "n \<le> unat N \<Longrightarrow> (of_nat n < (N :: u64)) = (n < unat N)"
  using cap_less [of N] unat_of_nat_u64 [of n] by (simp add: word_less_nat_alt)

lemma fs_step_follows:
  assumes "fs_rep_of N st x"
  shows "\<exists>st'. fs_step N m st = Some st' \<and> fs_rep_of N st' (advance (unat N) m x)"
proof -
  obtain i c where x: "x = (i, c)" by (cases x)
  have s: "c \<le> i" "i \<le> unat N" "i - c \<le> 1024" and inv: "ring_inv fs_ring_cap (sm_ring st)"
    and con: "ring_contents fs_ring_cap (sm_ring st) = map (\<lambda>k. fs_item (of_nat k)) [c..<i]"
    and st: "sm_i st = of_nat i" "sm_c st = of_nat c" "sm_local st = of_nat (\<Sum>{..<c})"
    using assms by (simp_all add: fs_rep_of_def streaming_def x)
  have str: "streaming (unat N) (advance (unat N) m x)"
    using assms by (simp add: fs_rep_of_def advance_streaming)
  have less: "(sm_i st < N) = (i < unat N)" "(sm_c st < N) = (c < unat N)"
    unfolding st using s by (simp_all add: of_nat_less_u64)
  show ?thesis
  proof (cases m)
    case Send
    obtain r where r: "try_push fs_ring_cap (fs_item (of_nat i)) (sm_ring st) = Some (r, i - c < 1024)" "ring_inv fs_ring_cap r"
      "ring_contents fs_ring_cap r = map (\<lambda>k. fs_item (of_nat k)) [c..<i] @ (if i - c < 1024 then [fs_item (of_nat i)] else [])"
      using ring_push [OF fs_cap(1) inv, of "fs_item (of_nat i)"] by (auto simp: fs_cap con)
    show ?thesis
    proof (cases "i < unat N")
      case True
      then have "fs_step N Send st = Some (st\<lparr>sm_ring := r, sm_i := (if i - c < 1024 then sm_i st + 1 else sm_i st)\<rparr>)"
        using r(1) True less(1) unfolding st by (cases "i - c < 1024") (auto simp: st)
      moreover have "fs_rep_of N (st\<lparr>sm_ring := r, sm_i := (if i - c < 1024 then sm_i st + 1 else sm_i st)\<rparr>) (advance (unat N) m x)"
        using str r(2,3) s True by (simp add: fs_rep_of_def x Send st)
      ultimately show ?thesis by (simp add: Send)
    next
      case False
      then show ?thesis using assms less(1) by (simp add: Send x)
    qed
  next
    case Receive
    obtain r where r: "try_pop fs_ring_cap (sm_ring st) = Some (r, first_of (map (\<lambda>k. fs_item (of_nat k)) [c..<i]))" "ring_inv fs_ring_cap r"
      "ring_contents fs_ring_cap r = tl (map (\<lambda>k. fs_item (of_nat k)) [c..<i])"
      using ring_pop [OF fs_cap(1) inv] by (auto simp: con)
    show ?thesis
    proof (cases "c < i")
      case True
      then have r': "try_pop fs_ring_cap (sm_ring st) = Some (r, Some (fs_item (of_nat c)))"
        "ring_contents fs_ring_cap r = map (\<lambda>k. fs_item (of_nat k)) [Suc c..<i]"
        using r by (simp_all add: upt_conv_Cons)
      let ?st = "st\<lparr>sm_ring := r, sm_local := sm_local st + of_nat c, sm_c := sm_c st + 1\<rparr>"
      have "fs_step N Receive st = Some ?st" using True s r'(1) by (simp add: less(2) fs_item_def)
      moreover have "fs_rep_of N ?st (advance (unat N) m x)"
        using str r(2) r'(2) True by (simp add: fs_rep_of_def x Receive st lessThan_Suc add.commute)
      ultimately show ?thesis by (simp add: Receive)
    next
      case False
      then have "try_pop fs_ring_cap (sm_ring st) = Some (r, None)" "ring_contents fs_ring_cap r = []" using r by simp_all
      then have "fs_step N Receive st = Some (if c < unat N then st\<lparr>sm_ring := r\<rparr> else st)" by (simp add: less(2))
      moreover have "fs_rep_of N (st\<lparr>sm_ring := r\<rparr>) x"
        using assms r(2) False \<open>ring_contents fs_ring_cap r = []\<close> by (simp add: fs_rep_of_def x)
      ultimately show ?thesis using assms False by (simp add: Receive x)
    qed
  qed
qed

lemma fs_steps_follow:
  "fs_rep_of N st x \<Longrightarrow> \<exists>st'. fs_steps N ms st = Some st' \<and> fs_rep_of N st' (advances (unat N) ms x)"
proof (induction ms arbitrary: st x)
  case (Cons m ms)
  obtain st1 where "fs_step N m st = Some st1" "fs_rep_of N st1 (advance (unat N) m x)"
    using fs_step_follows [OF Cons.prems] by blast
  then show ?case using Cons.IH [of st1] by (auto simp: advances_def)
qed (simp add: advances_def)

lemma fs_rep_works:
  assumes "ring_inv fs_ring_cap ring" "ring_contents fs_ring_cap ring = []"
    and "\<forall>ms \<in> set rounds. {Send, Receive} \<subseteq> set ms" "2 * unat N \<le> length rounds"
  shows "\<exists>ring'. fs_rep N (concat rounds) ring = Some (ring', of_nat (\<Sum>{..<unat N}))
    \<and> ring_inv fs_ring_cap ring' \<and> ring_contents fs_ring_cap ring' = []"
proof -
  let ?st = "\<lparr>sm_ring = ring, sm_i = 0, sm_c = 0, sm_local = 0\<rparr>"
  have "fs_rep_of N ?st (0, 0)" using assms(1,2) by (simp add: fs_rep_of_def streaming_def)
  from fs_steps_follow [OF this, of "concat rounds"] obtain st where
    "fs_steps N (concat rounds) ?st = Some st" "fs_rep_of N st (unat N, unat N)"
    unfolding rounds_finish [OF assms(3,4)] by blast
  then show ?thesis by (auto simp: fs_rep_def fs_rep_of_def)
qed

lemma fs_reps_work:
  "ring_inv fs_ring_cap ring \<Longrightarrow> ring_contents fs_ring_cap ring = [] \<Longrightarrow>
   \<forall>rounds \<in> set reps. 2 * unat N \<le> length rounds \<and> (\<forall>ms \<in> set rounds. {Send, Receive} \<subseteq> set ms) \<Longrightarrow>
     \<exists>ring'. fs_reps N (map concat reps) ring sink = Some (ring', sink + of_nat (length reps) * of_nat (\<Sum>{..<unat N}))
       \<and> ring_inv fs_ring_cap ring' \<and> ring_contents fs_ring_cap ring' = []"
proof (induction reps arbitrary: ring sink)
  case (Cons rounds reps)
  obtain ring1 where 1: "fs_rep N (concat rounds) ring = Some (ring1, of_nat (\<Sum>{..<unat N}))"
    "ring_inv fs_ring_cap ring1" "ring_contents fs_ring_cap ring1 = []"
    using fs_rep_works [OF Cons.prems(1,2), of rounds N] Cons.prems(3) by auto
  from Cons.IH [OF 1(2,3), of "sink + of_nat (\<Sum>{..<unat N})"] Cons.prems(3) show ?case
    by (auto simp: 1(1) algebra_simps)
qed simp

end
