(* ===== verification/Bench_Overhead.thy ===== *)
theory Bench_Overhead
  imports Demo_Trader Tsc_Clock
begin

text \<open>
  \<^verbatim>\<open>metrics/benchmark_overhead.cpp\<close>: adds on a fresh book, timed in one batch and one by one, without a recorder and
  with one that a second thread drains. Readings of the time stamp counter, random draws and the number of pops the
  second thread makes before each add are arguments. The command line and the report are in \<open>Bench_Programs\<close>.
\<close>

section \<open>The code\<close>

record bench_input =
  bi_side :: side
  bi_price :: price
  bi_qty :: quantity

text \<open>The draws of the three distributions, in the order of the initialiser.\<close>

definition makeInputs :: "(int \<times> int \<times> int) list \<Rightarrow> bench_input list" where
  "makeInputs draws = map (\<lambda>(s, p, q). \<lparr>bi_side = (if s \<noteq> 0 then SELL else BUY), bi_price = p, bi_qty = of_int q\<rparr>) draws"

primrec consume :: "nat \<Rightarrow> recorder \<Rightarrow> recorder option" where
  "consume 0 r = Some r"
| "consume (Suc n) r = do { (q, e) \<leftarrow> try_pop ring_cap (rec_ring r); consume n (r\<lparr>rec_ring := q\<rparr>) }"

text \<open>An add, after \<open>k\<close> pops of the other thread.\<close>

definition bench_add :: "(nat \<Rightarrow> u64) \<Rightarrow> nat \<Rightarrow> bench_input \<Rightarrow> metered \<Rightarrow> metered option" where
  "bench_add clock k x st = do {
     r \<leftarrow> (case mb_rec st of None \<Rightarrow> Some None | Some r \<Rightarrow> map_option Some (consume k r));
     (st, _) \<leftarrow> m_addOrder_auto clock (st\<lparr>mb_rec := r\<rparr>) (bi_side x) (bi_price x) (bi_qty x);
     Some st
   }"

text \<open>\<open>sched n\<close> is the number of pops before the add number \<open>n\<close>.\<close>

primrec bench_adds :: "(nat \<Rightarrow> u64) \<Rightarrow> (nat \<Rightarrow> nat) \<Rightarrow> nat \<Rightarrow> bench_input list \<Rightarrow> metered \<Rightarrow> metered option" where
  "bench_adds clock sched n [] st = Some st"
| "bench_adds clock sched n (x # xs) st = do { st \<leftarrow> bench_add clock (sched n) x st; bench_adds clock sched (Suc n) xs st }"

definition bench_attach :: "recorder option \<Rightarrow> metered \<Rightarrow> metered" where
  "bench_attach r st = (if r \<noteq> None then setMetrics r st else st)"

definition warm_levels :: "bench_input list" where
  "warm_levels = map (\<lambda>p. \<lparr>bi_side = BUY, bi_price = p, bi_qty = 1\<rparr>) [9000..11000]"

definition batchNs ::
    "u64 \<Rightarrow> (nat \<Rightarrow> u64) \<Rightarrow> (nat \<Rightarrow> nat) \<Rightarrow> u64 \<times> u64 \<Rightarrow> bench_input list \<Rightarrow> recorder option \<Rightarrow> (double \<times> recorder option) option"
where
  "batchNs hz clock sched readings xs r = do {
     b \<leftarrow> mk_book 1 20000 (2 ^ 20);
     let st = bench_attach r \<lparr>mb_book = b, mb_rec = None, mb_ticks = 0\<rparr>;
     st \<leftarrow> bench_adds clock sched 0 warm_levels st;
     let s = fst readings;
     st \<leftarrow> bench_adds clock sched (length warm_levels) xs st;
     let e = snd readings;
     require (xs \<noteq> []);
     Some (d_div (ticksToNs hz (e - s)) (d_of_int (int (length xs))), mb_rec st)
   }"

text \<open>The warm-up \<open>in[w % in.size()]\<close> divides by zero on an empty vector.\<close>

definition warm_path :: "bench_input list \<Rightarrow> bench_input list option" where
  "warm_path xs = do { require (xs \<noteq> []); Some (map (\<lambda>w. xs ! (w mod length xs)) [0..<20000]) }"

primrec timed_adds ::
    "(nat \<Rightarrow> u64) \<Rightarrow> (nat \<Rightarrow> nat) \<Rightarrow> (nat \<Rightarrow> u64 \<times> u64) \<Rightarrow> u64 \<Rightarrow> nat \<Rightarrow> bench_input list \<Rightarrow> metered \<times> u64 list
     \<Rightarrow> (metered \<times> u64 list) option" where
  "timed_adds clock sched readings overhead n [] x = Some x"
| "timed_adds clock sched readings overhead n (x # xs) y = (case y of (st, ticks) \<Rightarrow> do {
     let s = fst (readings n);
     st \<leftarrow> bench_add clock (sched n) x st;
     let e = snd (readings n);
     let d = e - s;
     timed_adds clock sched readings overhead (Suc n) xs (st, ticks @ [if d > overhead then d - overhead else 0])
   })"

definition perOpNs ::
    "u64 \<Rightarrow> (nat \<Rightarrow> u64) \<Rightarrow> (nat \<Rightarrow> nat) \<Rightarrow> (nat \<Rightarrow> u64 \<times> u64) \<Rightarrow> u64 \<Rightarrow> bench_input list \<Rightarrow> recorder option
     \<Rightarrow> (double list \<times> recorder option) option" where
  "perOpNs hz clock sched readings overhead xs r = do {
     b \<leftarrow> mk_book 1 20000 (2 ^ 20);
     let st = bench_attach r \<lparr>mb_book = b, mb_rec = None, mb_ticks = 0\<rparr>;
     st \<leftarrow> bench_adds clock sched 0 warm_levels st;
     warm \<leftarrow> warm_path xs;
     st \<leftarrow> bench_adds clock sched (length warm_levels) warm st;
     (st, ticks) \<leftarrow> timed_adds clock sched readings overhead (length warm_levels + length warm) xs (st, []);
     Some (map (ticksToNs hz) (sort ticks), mb_rec st)
   }"

definition bench_median :: "double list \<Rightarrow> double" where
  "bench_median v = (if v = [] then d_zero else sort_key val v ! (length v div 2))"

definition bench_pct :: "double list \<Rightarrow> double \<Rightarrow> double option" where
  "bench_pct ns p = do {
     i \<leftarrow> int_to_u64 (d_floor (d_mult (d_of_int (int (length ns))) p));
     let i = (if unat i \<ge> length ns then length ns - 1 else unat i);
     vec_get ns (int i)
   }"

text \<open>What a repetition adds to the four vectors: \<open>p50s\<close>, \<open>p99s\<close>, \<open>p999s\<close>, \<open>maxes\<close>.\<close>

type_synonym percentiles = "double list \<times> double list \<times> double list \<times> double list"

definition add_percentiles :: "double list \<Rightarrow> percentiles \<Rightarrow> percentiles option" where
  "add_percentiles ns acc = (case acc of (p50s, p99s, p999s, maxes) \<Rightarrow> do {
     p50 \<leftarrow> bench_pct ns (round_frac 1 2);
     p99 \<leftarrow> bench_pct ns (round_frac 99 100);
     p999 \<leftarrow> bench_pct ns (round_frac 999 1000);
     mx \<leftarrow> vec_get ns (int (length ns) - 1);
     Some (p50s @ [p50], p99s @ [p99], p999s @ [p999], maxes @ [mx])
   })"

record bench_result =
  br_batch :: double
  br_p50 :: double
  br_p99 :: double
  br_p999 :: double
  br_max :: double

text \<open>What the environment supplies for one measurement; the counters start anew in every run over the inputs.\<close>

record bench_env =
  be_clock :: "nat \<Rightarrow> nat \<Rightarrow> u64"
  be_sched :: "nat \<Rightarrow> nat \<Rightarrow> nat"
  be_batch :: "u64 \<times> u64"
  be_ops :: "nat \<Rightarrow> nat \<Rightarrow> u64 \<times> u64"

primrec bench_reps ::
    "u64 \<Rightarrow> bench_env \<Rightarrow> u64 \<Rightarrow> bench_input list \<Rightarrow> nat \<Rightarrow> nat \<Rightarrow> percentiles \<times> recorder option \<Rightarrow> (percentiles \<times> recorder option) option"
where
  "bench_reps hz env overhead xs 0 rep x = Some x"
| "bench_reps hz env overhead xs (Suc k) rep x = (case x of (acc, r) \<Rightarrow> do {
     (ns, r) \<leftarrow> perOpNs hz (be_clock env (Suc rep)) (be_sched env (Suc rep)) (be_ops env rep) overhead xs r;
     acc \<leftarrow> add_percentiles ns acc;
     bench_reps hz env overhead xs k (Suc rep) (acc, r)
   })"

definition measure_adds ::
    "u64 \<Rightarrow> bench_env \<Rightarrow> u64 \<Rightarrow> bench_input list \<Rightarrow> recorder option \<Rightarrow> (bench_result \<times> recorder option) option" where
  "measure_adds hz env overhead xs r = do {
     (batch, r) \<leftarrow> batchNs hz (be_clock env 0) (be_sched env 0) (be_batch env) xs r;
     ((p50s, p99s, p999s, maxes), r) \<leftarrow> bench_reps hz env overhead xs 7 0 (([], [], [], []), r);
     Some (\<lparr>br_batch = batch, br_p50 = bench_median p50s, br_p99 = bench_median p99s, br_p999 = bench_median p999s,
            br_max = bench_median maxes\<rparr>, r)
   }"

text \<open>\<open>main\<close> of the build with metrics: without a recorder, then with one, and the final drain of the other thread.\<close>

definition overhead_main ::
    "u64 \<Rightarrow> (u64 \<times> u64) list \<Rightarrow> (int \<times> int \<times> int) list \<Rightarrow> bench_env \<Rightarrow> bench_env \<Rightarrow> (bench_result \<times> bench_result \<times> u64) option"
where
  "overhead_main hz readings draws env env' = do {
     let overhead = measureTimerOverhead readings;
     let xs = makeInputs draws;
     (det, _) \<leftarrow> measure_adds hz env overhead xs None;
     (att, r) \<leftarrow> measure_adds hz env' overhead xs (Some (mk_recorder 0));
     r \<leftarrow> r;
     (q, _) \<leftarrow> drain (try_pop ring_cap) 65537 (\<lambda>e s. Some s) (rec_ring r) ();
     Some (det, att, rec_drops r)
   }"

section \<open>The adds stay in the book's contract\<close>

text \<open>After \<open>n\<close> adds: ids were assigned by the book.\<close>

definition bench_ok :: "nat \<Rightarrow> metered \<Rightarrow> bool" where
  "bench_ok n st \<longleftrightarrow> api_inv (mb_book st) \<and> inRange (mb_book st) = (\<lambda>p. 1 \<le> p \<and> p \<le> 20000) \<and> recorder_ok (mb_rec st)
     \<and> next_order_id (mb_book st) = of_nat (Suc n) \<and> (\<forall>i \<in> dom (order_map (mb_book st)). unat i \<le> n)"

definition input_ok :: "bench_input \<Rightarrow> bool" where
  "input_ok x \<longleftrightarrow> 1 \<le> bi_price x \<and> bi_price x \<le> 20000 \<and> unat (bi_qty x) < 2 ^ 63"

lemma consume_works: "ring_inv ring_cap (rec_ring r) \<Longrightarrow> \<exists>r'. consume k r = Some r' \<and> ring_inv ring_cap (rec_ring r')"
proof (induction k arbitrary: r)
  case (Suc k)
  obtain q where "try_pop ring_cap (rec_ring r) = Some (q, first_of (ring_contents ring_cap (rec_ring r)))" "ring_inv ring_cap q"
    using event_ring.pop_cases [OF Suc.prems] by blast
  then show ?case using Suc.IH [of "r\<lparr>rec_ring := q\<rparr>"] by simp
qed simp

lemma meters_attached: "meters r r' ops \<Longrightarrow> r' = None \<longleftrightarrow> r = None"
  unfolding meters_def by (cases r) auto

lemma bench_add_works:
  assumes ok: "bench_ok n st" and x: "input_ok x" and n: "n < 2 ^ 62"
  shows "\<exists>st'. bench_add clock k x st = Some st' \<and> bench_ok (Suc n) st' \<and> (mb_rec st' = None \<longleftrightarrow> mb_rec st = None)"
proof -
  obtain r where r: "(case mb_rec st of None \<Rightarrow> Some None | Some r \<Rightarrow> map_option Some (consume k r)) = Some r"
    "recorder_ok r" "r = None \<longleftrightarrow> mb_rec st = None"
  proof (cases "mb_rec st")
    case (Some a)
    then have "ring_inv ring_cap (rec_ring a)" using ok by (simp add: bench_ok_def recorder_ok_def)
    from consume_works [OF this, of k] obtain a' where "consume k a = Some a'" "ring_inv ring_cap (rec_ring a')" by blast
    then show ?thesis using Some that [of "Some a'"] by (simp add: recorder_ok_def)
  qed (use that [of None] in \<open>simp add: recorder_ok_def\<close>)
  let ?i = "next_order_id (mb_book st)"
  let ?b1 = "(mb_book st)\<lparr>next_order_id := ?i + 1\<rparr>"
  have ui: "unat ?i = Suc n" using ok n unat_of_nat_u64 [of "Suc n"] by (simp add: bench_ok_def)
  have inv: "api_inv ?b1" using ok by (simp add: bench_ok_def)
  have fresh: "order_map ?b1 ?i = None" using ok ui by (force simp: bench_ok_def)
  have rng: "inRange ?b1 (bi_price x)" using ok x by (simp add: bench_ok_def input_ok_def)
  obtain b' where b': "addOrder ?b1 (bi_side x) (bi_price x) (bi_qty x) ?i = Some (b', ?i)" "api_inv b'"
    "order_map b' = (order_map (mb_book st))(?i \<mapsto> (bi_side x, bi_price x, bi_qty x))" "inRange b' = inRange (mb_book st)"
    using book.add_stores [OF inv _ fresh rng, of "bi_qty x" "bi_side x"] x by (auto simp: input_ok_def)
  let ?st = "st\<lparr>mb_rec := r, mb_book := ?b1\<rparr>"
  obtain st' where st': "metrics_scope clock Op_Add (\<lambda>b. addOrder b (bi_side x) (bi_price x) (bi_qty x) ?i) ?st = Some (st', ?i)"
    "mb_book st' = b'" "recorder_ok (mb_rec st')" "meters (mb_rec ?st) (mb_rec st') [Op_Add]"
    using metrics_scope_works [of "\<lambda>b. addOrder b (bi_side x) (bi_price x) (bi_qty x) ?i" ?st b' ?i clock Op_Add] b'(1) r(2) by auto
  have run: "bench_add clock k x st = Some st'"
    using st'(1) by (simp add: bench_add_def r(1) m_addOrder_auto_def m_addOrder_def Let_def)
  have nid: "next_order_id b' = of_nat (Suc (Suc n))" using next_id_kept(1) [OF b'(1)] ok by (simp add: bench_ok_def)
  have old: "\<forall>j \<in> dom (order_map (mb_book st)). unat j \<le> n" using ok by (simp add: bench_ok_def)
  have "unat j \<le> Suc n" if "j \<in> dom (order_map b')" for j
  proof (cases "j = ?i")
    case False
    then have "unat j \<le> n" using that old by (auto simp: b'(3))
    then show ?thesis by simp
  qed (simp add: ui)
  moreover have "inRange (mb_book st) = (\<lambda>p. 1 \<le> p \<and> p \<le> 20000)" using ok by (simp add: bench_ok_def)
  ultimately have "bench_ok (Suc n) st'" unfolding bench_ok_def st'(2) b'(4) using st'(3) b'(2) nid by simp
  moreover have "mb_rec st' = None \<longleftrightarrow> r = None" using meters_attached [OF st'(4)] by simp
  ultimately show ?thesis using run r(3) by (intro exI [of _ st']) simp
qed

lemma bench_adds_work:
  "bench_ok n st \<Longrightarrow> \<forall>x \<in> set xs. input_ok x \<Longrightarrow> n + length xs < 2 ^ 62 \<Longrightarrow>
     \<exists>st'. bench_adds clock sched k xs st = Some st' \<and> bench_ok (n + length xs) st' \<and> (mb_rec st' = None \<longleftrightarrow> mb_rec st = None)"
proof (induction xs arbitrary: n k st)
  case (Cons x xs)
  obtain st1 where 1: "bench_add clock (sched k) x st = Some st1" "bench_ok (Suc n) st1" "mb_rec st1 = None \<longleftrightarrow> mb_rec st = None"
    using bench_add_works [OF Cons.prems(1), of x clock "sched k"] Cons.prems(2,3) by auto
  from Cons.IH [OF 1(2), of "Suc k"] Cons.prems(2,3) show ?case by (auto simp: 1)
qed simp

text \<open>The ticks of the add number \<open>n\<close>, without those of the timer.\<close>

definition net_ticks :: "(nat \<Rightarrow> u64 \<times> u64) \<Rightarrow> u64 \<Rightarrow> nat \<Rightarrow> u64" where
  "net_ticks readings overhead n =
     (let d = snd (readings n) - fst (readings n) in if d > overhead then d - overhead else 0)"

lemma timed_adds_work:
  "bench_ok n st \<Longrightarrow> \<forall>x \<in> set xs. input_ok x \<Longrightarrow> n + length xs < 2 ^ 62 \<Longrightarrow>
     \<exists>st'. timed_adds clock sched readings overhead k xs (st, ticks)
         = Some (st', ticks @ map (\<lambda>i. net_ticks readings overhead (k + i)) [0..<length xs])
       \<and> bench_ok (n + length xs) st' \<and> (mb_rec st' = None \<longleftrightarrow> mb_rec st = None)"
proof (induction xs arbitrary: n k st ticks)
  case (Cons x xs)
  obtain st1 where 1: "bench_add clock (sched k) x st = Some st1" "bench_ok (Suc n) st1" "mb_rec st1 = None \<longleftrightarrow> mb_rec st = None"
    using bench_add_works [OF Cons.prems(1), of x clock "sched k"] Cons.prems(2,3) by auto
  let ?t = "net_ticks readings overhead k"
  have ts: "map (\<lambda>i. net_ticks readings overhead (k + i)) [0..<length (x # xs)]
      = ?t # map (\<lambda>i. net_ticks readings overhead (Suc k + i)) [0..<length xs]"
    by (simp add: map_upt_Suc del: upt_Suc)
  obtain st' where "timed_adds clock sched readings overhead (Suc k) xs (st1, ticks @ [?t])
      = Some (st', (ticks @ [?t]) @ map (\<lambda>i. net_ticks readings overhead (Suc k + i)) [0..<length xs])"
    "bench_ok (Suc n + length xs) st'" "mb_rec st' = None \<longleftrightarrow> mb_rec st1 = None"
    using Cons.IH [OF 1(2), of "Suc k" "ticks @ [?t]"] Cons.prems(2,3) by auto
  then show ?case using 1 unfolding ts by (intro exI [of _ st']) (simp add: net_ticks_def Let_def)
qed simp

lemma bench_book_ok:
  assumes "recorder_ok r"
  shows "\<exists>b. mk_book 1 20000 1048576 = Some b \<and> bench_ok 0 (bench_attach r \<lparr>mb_book = b, mb_rec = None, mb_ticks = 0\<rparr>)
    \<and> mb_rec (bench_attach r \<lparr>mb_book = b, mb_rec = None, mb_ticks = 0\<rparr>) = r"
proof -
  obtain b where b: "mk_book 1 20000 1048576 = Some b" by (simp add: mk_book_def int64_range_def Let_def)
  have "reachable b" by (rule reachable.new [OF b]) (simp_all add: int64_range_def)
  then have inv: "api_inv b" by (rule reachable_inv)
  have "orders b = Map.empty" "next_order_id b = 1" "inRange b = (\<lambda>p. 1 \<le> p \<and> p \<le> 20000)"
    using b by (auto simp: mk_book_def Let_def inRange_def split: if_splits)
  then show ?thesis using b inv assms
    by (auto simp: bench_ok_def bench_attach_def setMetrics_def order_map_def dom_def recorder_ok_def)
qed

lemma warm_levels_ok: "\<forall>x \<in> set warm_levels. input_ok x" "length warm_levels = 2001"
proof -
  show "\<forall>x \<in> set warm_levels. input_ok x" unfolding warm_levels_def set_map set_upto by (auto simp: input_ok_def)
  show "length warm_levels = 2001" unfolding warm_levels_def length_map length_upto by simp
qed

lemma warm_path_works:
  assumes "xs \<noteq> []" "\<forall>x \<in> set xs. input_ok x"
  shows "\<exists>ws. warm_path xs = Some ws \<and> length ws = 20000 \<and> (\<forall>x \<in> set ws. input_ok x)"
  using assms by (auto simp: warm_path_def)

section \<open>The percentiles are in order\<close>

definition sorted_by_value :: "double list \<Rightarrow> bool" where
  "sorted_by_value ns \<longleftrightarrow> (\<forall>i j. i \<le> j \<longrightarrow> j < length ns \<longrightarrow> val (ns ! i) \<le> val (ns ! j))"

lemma ticksToNs_mono:
  assumes "0 < hz" "v \<le> w"
  shows "val (ticksToNs hz v) \<le> val (ticksToNs hz w)"
proof -
  have nn: "0 \<le> val (d_of_int (uint x))" for x :: u64 using round_frac_between [of "uint x" 1] by (simp add: d_of_int_def)
  obtain m where m: "uint hz = m" "0 < m" using assms(1) by (auto simp: word_less_def)
  have "(0::rat) < 9 / 10 * of_int m" using m(2) by simp
  also have "\<dots> \<le> val (d_of_int m)" using d_of_int_between [of m] m(2) by simp
  finally have hz: "0 < val (d_of_int (uint hz))" by (simp only: m(1))
  have "val (d_of_int (uint v)) \<le> val (d_of_int (uint w))" using assms(2) by (intro d_of_int_mono) (simp_all add: word_le_def)
  moreover have "0 \<le> val (d_of_int 1000000000)" by (simp add: val_d_of_int)
  ultimately have "val (d_mult (d_of_int (uint v)) (d_of_int 1000000000)) \<le> val (d_mult (d_of_int (uint w)) (d_of_int 1000000000))"
    using nn by (intro d_mult_mono) simp_all
  moreover have "0 \<le> val (d_mult (d_of_int (uint v)) (d_of_int 1000000000))"
    using d_mult_between [OF nn, of "d_of_int 1000000000" v] by (simp add: val_d_of_int)
  ultimately show ?thesis unfolding ticksToNs_def using hz by (intro d_div_mono)
qed

lemma sorted_ticks: "0 < hz \<Longrightarrow> sorted_by_value (map (ticksToNs hz) (sort ticks))"
  by (auto simp: sorted_by_value_def intro!: ticksToNs_mono sorted_nth_mono)

text \<open>
  The times of the adds of a repetition, in ascending order: they come from the readings alone, those after
  the 2001 adds of the levels and the 20000 that warm the path.
\<close>

definition op_times :: "u64 \<Rightarrow> u64 \<Rightarrow> (nat \<Rightarrow> u64 \<times> u64) \<Rightarrow> nat \<Rightarrow> double list" where
  "op_times hz overhead readings n =
     map (ticksToNs hz) (sort (map (\<lambda>i. net_ticks readings overhead (22001 + i)) [0..<n]))"

lemma op_times_simps: "length (op_times hz overhead readings n) = n" "0 < hz \<Longrightarrow> sorted_by_value (op_times hz overhead readings n)"
  by (simp_all add: op_times_def sorted_ticks)

lemma perOpNs_works:
  assumes xs: "xs \<noteq> []" "\<forall>x \<in> set xs. input_ok x" "length xs < 2 ^ 53" and r: "recorder_ok r"
  shows "\<exists>r'. perOpNs hz clock sched readings overhead xs r = Some (op_times hz overhead readings (length xs), r')
    \<and> recorder_ok r' \<and> (r' = None \<longleftrightarrow> r = None)"
proof -
  obtain b where b: "mk_book 1 20000 1048576 = Some b" and st: "bench_ok 0 (bench_attach r \<lparr>mb_book = b, mb_rec = None, mb_ticks = 0\<rparr>)"
    "mb_rec (bench_attach r \<lparr>mb_book = b, mb_rec = None, mb_ticks = 0\<rparr>) = r"
    using bench_book_ok [OF r] by blast
  let ?st = "bench_attach r \<lparr>mb_book = b, mb_rec = None, mb_ticks = 0\<rparr>"
  obtain st1 where 1: "bench_adds clock sched 0 warm_levels ?st = Some st1" "bench_ok 2001 st1" "mb_rec st1 = None \<longleftrightarrow> r = None"
    using bench_adds_work [OF st(1) warm_levels_ok(1), of clock sched 0] st(2) by (auto simp: warm_levels_ok(2))
  obtain ws where ws: "warm_path xs = Some ws" "length ws = 20000" "\<forall>x \<in> set ws. input_ok x"
    using warm_path_works [OF xs(1,2)] by blast
  obtain st2 where 2: "bench_adds clock sched 2001 ws st1 = Some st2" "bench_ok 22001 st2" "mb_rec st2 = None \<longleftrightarrow> mb_rec st1 = None"
    using bench_adds_work [OF 1(2) ws(3), of clock sched 2001] by (auto simp: ws(2))
  let ?ts = "map (\<lambda>i. net_ticks readings overhead (22001 + i)) [0..<length xs]"
  obtain st3 where 3: "timed_adds clock sched readings overhead 22001 xs (st2, []) = Some (st3, [] @ ?ts)"
    "bench_ok (22001 + length xs) st3" "mb_rec st3 = None \<longleftrightarrow> mb_rec st2 = None"
    using timed_adds_work [OF 2(2) xs(2), of clock sched readings overhead 22001 "[]"] xs(3) by auto
  have "perOpNs hz clock sched readings overhead xs r = Some (map (ticksToNs hz) (sort ?ts), mb_rec st3)"
    by (simp add: perOpNs_def b 1(1) ws(1,2) warm_levels_ok(2) 2(1) 3(1) [unfolded append_Nil])
  then show ?thesis using 1(3) 2(3) 3(2,3) by (auto simp: bench_ok_def op_times_def)
qed

text \<open>The place of a quantile among \<open>n\<close> times.\<close>

definition pct_index :: "nat \<Rightarrow> double \<Rightarrow> nat" where
  "pct_index n p = (let i = unat (the (int_to_u64 (d_floor (d_mult (d_of_int (int n)) p)))) in if i \<ge> n then n - 1 else i)"

lemma pct_index_less: "0 < n \<Longrightarrow> pct_index n p < n"
  by (simp add: pct_index_def Let_def)

lemma pct_rank:
  assumes n: "n < 2 ^ 53" and p: "0 \<le> val p" "val p \<le> 1"
  shows "\<exists>i. int_to_u64 (d_floor (d_mult (d_of_int (int n)) p)) = Some i \<and> uint i = \<lfloor>val (d_mult (d_of_int (int n)) p)\<rfloor>"
proof -
  let ?n = "d_of_int (int n)"
  have vn: "val ?n = of_nat n" using n val_d_of_int [of "int n"] by simp
  have v: "0 \<le> val (d_mult ?n p)" "val (d_mult ?n p) \<le> 11 / 10 * (of_nat n * val p)"
    using d_mult_between [of ?n p] p(1) vn by simp_all
  have "(of_nat n :: rat) * val p \<le> of_nat n * 1" using p(2) by (intro mult_left_mono) simp_all
  moreover have "(of_nat n :: rat) < of_nat (2 ^ 53)" using n by (simp only: of_nat_less_iff)
  ultimately have "val (d_mult ?n p) < of_int (2 ^ 64)" using v(2) by simp
  then have "\<lfloor>val (d_mult ?n p)\<rfloor> < 2 ^ 64" by (simp only: floor_less_iff)
  then obtain i where "int_to_u64 (d_floor (d_mult ?n p)) = Some i"
    using v(1) by (auto simp: int_to_u64_def d_floor_val)
  then show ?thesis using int_to_u64_val by (auto simp: d_floor_val)
qed

lemma pct_index_mono:
  assumes n: "n < 2 ^ 53" and pq: "0 \<le> val p" "val p \<le> val q" "val q \<le> 1"
  shows "pct_index n p \<le> pct_index n q"
proof -
  have p: "0 \<le> val p" "val p \<le> 1" and q: "0 \<le> val q" "val q \<le> 1" using pq by simp_all
  obtain i where i: "int_to_u64 (d_floor (d_mult (d_of_int (int n)) p)) = Some i" "uint i = \<lfloor>val (d_mult (d_of_int (int n)) p)\<rfloor>"
    using pct_rank [OF n p] by blast
  obtain j where j: "int_to_u64 (d_floor (d_mult (d_of_int (int n)) q)) = Some j" "uint j = \<lfloor>val (d_mult (d_of_int (int n)) q)\<rfloor>"
    using pct_rank [OF n q] by blast
  have "val (d_of_int (int n)) = of_nat n" using n val_d_of_int [of "int n"] by simp
  then have "val (d_mult (d_of_int (int n)) p) \<le> val (d_mult (d_of_int (int n)) q)" using pq by (intro d_mult_mono) simp_all
  then have "uint i \<le> uint j" unfolding i(2) j(2) by (rule floor_mono)
  then have "unat i \<le> unat j" by (simp add: word_le_def flip: word_le_nat_alt)
  then show ?thesis by (auto simp: pct_index_def i(1) j(1) Let_def)
qed

lemma bench_pct_works:
  assumes "0 < length ns" "length ns < 2 ^ 53" "0 \<le> val p" "val p \<le> 1"
  shows "bench_pct ns p = Some (ns ! pct_index (length ns) p)" "pct_index (length ns) p < length ns"
proof -
  show less: "pct_index (length ns) p < length ns" by (rule pct_index_less [OF assms(1)])
  obtain i where i: "int_to_u64 (d_floor (d_mult (d_of_int (int (length ns))) p)) = Some i" using pct_rank [OF assms(2-4)] by blast
  have "bench_pct ns p = vec_get ns (int (pct_index (length ns) p))" by (simp add: bench_pct_def pct_index_def i Let_def)
  then show "bench_pct ns p = Some (ns ! pct_index (length ns) p)" using less by simp
qed

section \<open>Medians of ordered lists are ordered\<close>

definition pointwise :: "double list \<Rightarrow> double list \<Rightarrow> bool" where
  "pointwise xs ys \<longleftrightarrow> list_all2 (\<lambda>x y. val x \<le> val y) xs ys"

lemma count_below:
  fixes f :: "'a \<Rightarrow> 'b::linorder"
  assumes "sorted (map f xs)" "i < length xs"
  shows "f (xs ! i) \<le> t \<longleftrightarrow> i < length (filter (\<lambda>x. f x \<le> t) xs)"
proof -
  have parts: "length (filter P xs) = length (filter P (take k xs)) + length (filter P (drop k xs))" for P k
    by (metis append_take_drop_id filter_append length_append)
  have below: "f (xs ! j) \<le> f (xs ! i)" if "j \<le> i" for j
    using sorted_nth_mono [OF assms(1) that] assms(2) that by simp
  have above: "f (xs ! i) \<le> f (xs ! j)" if "i \<le> j" "j < length xs" for j
    using sorted_nth_mono [OF assms(1) that(1)] that by simp
  show ?thesis
  proof
    assume t: "f (xs ! i) \<le> t"
    have "f x \<le> t" if "x \<in> set (take (Suc i) xs)" for x
    proof -
      obtain j where "j < Suc i" "x = xs ! j" using \<open>x \<in> _\<close> assms(2) by (auto simp: in_set_conv_nth)
      then show ?thesis using below [of j] t by simp
    qed
    then have "filter (\<lambda>x. f x \<le> t) (take (Suc i) xs) = take (Suc i) xs" by simp
    then show "i < length (filter (\<lambda>x. f x \<le> t) xs)"
      using assms(2) parts [of "\<lambda>x. f x \<le> t" "Suc i"] by simp
  next
    assume n: "i < length (filter (\<lambda>x. f x \<le> t) xs)"
    show "f (xs ! i) \<le> t"
    proof (rule ccontr)
      assume t: "\<not> f (xs ! i) \<le> t"
      have "\<not> f x \<le> t" if "x \<in> set (drop i xs)" for x
      proof -
        obtain j where j: "j < length xs - i" "x = xs ! (i + j)" using \<open>x \<in> _\<close> assms(2) by (auto simp: in_set_conv_nth)
        then have "f (xs ! i) \<le> f x" unfolding j(2) by (intro above) simp_all
        then show ?thesis using t by (meson order_trans)
      qed
      then have none: "length (filter (\<lambda>x. f x \<le> t) (drop i xs)) = 0" by (simp add: filter_empty_conv)
      have "length (filter (\<lambda>x. f x \<le> t) (take i xs)) \<le> i"
        using length_filter_le [of "\<lambda>x. f x \<le> t" "take i xs"] by simp
      then show False using n none parts [of "\<lambda>x. f x \<le> t" i] by linarith
    qed
  qed
qed

lemma pointwise_count: "pointwise xs ys \<Longrightarrow> length (filter (\<lambda>y. val y \<le> t) ys) \<le> length (filter (\<lambda>x. val x \<le> t) xs)"
  unfolding pointwise_def by (induction rule: list_all2_induct) auto

lemma length_filter_sort: "length (filter P (sort_key f xs)) = length (filter P xs)"
  by (metis filter_sort length_sort)

lemma median_ordered:
  assumes "pointwise xs ys"
  shows "val (bench_median xs) \<le> val (bench_median ys)"
proof (cases "xs = []")
  case True
  then show ?thesis using assms by (simp add: bench_median_def pointwise_def)
next
  case False
  let ?i = "length xs div 2"
  have len: "length ys = length xs" using assms by (simp add: pointwise_def list_all2_lengthD)
  then have i: "?i < length (sort_key val xs)" "?i < length (sort_key val ys)" using False by (cases xs; simp)+
  let ?t = "val (sort_key val ys ! ?i)"
  have "?i < length (filter (\<lambda>y. val y \<le> ?t) (sort_key val ys))" using count_below [OF sorted_sort_key i(2), of ?t] by simp
  also have "\<dots> \<le> length (filter (\<lambda>x. val x \<le> ?t) (sort_key val xs))"
    unfolding length_filter_sort by (rule pointwise_count [OF assms])
  finally have "val (sort_key val xs ! ?i) \<le> ?t" using count_below [OF sorted_sort_key i(1), of ?t] by simp
  moreover have "ys \<noteq> []" using False len by auto
  ultimately show ?thesis using False len by (simp add: bench_median_def)
qed

text \<open>
  A median: one of the values, with at least half of them not above it, and more than half when that can be, and at least half
  not below.
\<close>

definition is_median :: "double \<Rightarrow> double list \<Rightarrow> bool" where
  "is_median v xs \<longleftrightarrow> v \<in> set xs \<and> length xs < 2 * length (filter (\<lambda>x. val x \<le> val v) xs)
     \<and> length xs \<le> 2 * length (filter (\<lambda>x. val v \<le> val x) xs)"

lemma bench_median_works:
  assumes "xs \<noteq> []"
  shows "is_median (bench_median xs) xs"
proof -
  let ?ys = "sort_key val xs" and ?i = "length xs div 2"
  have i: "?i < length ?ys" using assms by (cases xs) simp_all
  have m: "bench_median xs = ?ys ! ?i" using assms by (simp add: bench_median_def)
  have "?i < length (filter (\<lambda>x. val x \<le> val (?ys ! ?i)) ?ys)" using count_below [OF sorted_sort_key i] by blast
  then have "length xs < 2 * length (filter (\<lambda>x. val x \<le> val (?ys ! ?i)) xs)" unfolding length_filter_sort by simp
  moreover have "filter (\<lambda>x. val (?ys ! ?i) \<le> val x) (drop ?i ?ys) = drop ?i ?ys"
  proof (rule filter_True, rule ballI)
    fix x assume "x \<in> set (drop ?i ?ys)"
    then obtain j where "j < length ?ys - ?i" "x = ?ys ! (?i + j)" using i by (auto simp: in_set_conv_nth)
    then show "val (?ys ! ?i) \<le> val x" using sorted_nth_mono [OF sorted_sort_key [of val xs], of ?i "?i + j"] by simp
  qed
  then have "length xs - ?i \<le> length (filter (\<lambda>x. val (?ys ! ?i) \<le> val x) ?ys)"
    by (metis append_take_drop_id filter_append le_add2 length_append length_drop length_sort)
  then have "length xs \<le> 2 * length (filter (\<lambda>x. val (?ys ! ?i) \<le> val x) xs)" unfolding length_filter_sort by simp
  moreover have "?ys ! ?i \<in> set xs" using nth_mem [OF i] by simp
  ultimately show ?thesis by (simp add: is_median_def m)
qed

section \<open>A measurement\<close>

lemma pointwise_map: "(\<And>x. x \<in> set xs \<Longrightarrow> val (f x) \<le> val (g x)) \<Longrightarrow> pointwise (map f xs) (map g xs)"
  by (simp add: pointwise_def list_all2_map1 list_all2_map2 list.rel_refl_strong)

lemma quantiles:
  "0 \<le> val (round_frac 1 2)" "val (round_frac 1 2) \<le> val (round_frac 99 100)" "val (round_frac 99 100) \<le> val (round_frac 999 1000)"
  "val (round_frac 999 1000) \<le> 1"
proof -
  show "0 \<le> val (round_frac 1 2)" using round_frac_between [of 1 2] by simp
  show "val (round_frac 1 2) \<le> val (round_frac 99 100)" "val (round_frac 99 100) \<le> val (round_frac 999 1000)"
    by (rule round_frac_mono; simp)+
  have "val (round_frac 999 1000) \<le> val (d_of_int 1)" unfolding d_of_int_def by (rule round_frac_mono) simp_all
  then show "val (round_frac 999 1000) \<le> 1" by (simp add: val_d_of_int)
qed

lemma add_percentiles_works:
  assumes ns: "0 < length ns" "length ns < 2 ^ 53"
  shows "add_percentiles ns (p50s, p99s, p999s, maxes) = Some (p50s @ [ns ! pct_index (length ns) (round_frac 1 2)],
    p99s @ [ns ! pct_index (length ns) (round_frac 99 100)], p999s @ [ns ! pct_index (length ns) (round_frac 999 1000)],
    maxes @ [ns ! (length ns - 1)])"
proof -
  have q: "val (round_frac 1 2) \<le> 1" "0 \<le> val (round_frac 99 100)" "val (round_frac 99 100) \<le> 1" "0 \<le> val (round_frac 999 1000)"
    using quantiles by linarith+
  have "vec_get ns (int (length ns) - 1) = Some (ns ! (length ns - 1))"
    using ns(1) vec_get_in [of "length ns - 1" ns] by (simp add: of_nat_diff Suc_le_eq)
  then show ?thesis using bench_pct_works(1) [OF ns quantiles(1) q(1)] bench_pct_works(1) [OF ns q(2,3)]
      bench_pct_works(1) [OF ns q(4) quantiles(4)] by (simp add: add_percentiles_def)
qed

text \<open>The times at one place of the repetitions \<open>i\<close>, \<open>i + 1\<close>, \<dots>, \<open>j - 1\<close>.\<close>

definition times_at :: "u64 \<Rightarrow> u64 \<Rightarrow> bench_env \<Rightarrow> nat \<Rightarrow> nat \<Rightarrow> nat list \<Rightarrow> double list" where
  "times_at hz overhead env n k reps = map (\<lambda>i. op_times hz overhead (be_ops env i) n ! k) reps"

lemma times_at_simps [simp]:
  "times_at hz overhead env n k [] = []"
  "times_at hz overhead env n k (i # is) = op_times hz overhead (be_ops env i) n ! k # times_at hz overhead env n k is"
  by (simp_all add: times_at_def)

lemma bench_reps_work:
  assumes xs: "xs \<noteq> []" "\<forall>x \<in> set xs. input_ok x" "length xs < 2 ^ 53"
  defines "n \<equiv> length xs"
  shows "recorder_ok r \<Longrightarrow> \<exists>r'. bench_reps hz env overhead xs k rep ((p50s, p99s, p999s, maxes), r)
      = Some ((p50s @ times_at hz overhead env n (pct_index n (round_frac 1 2)) [rep..<rep + k],
               p99s @ times_at hz overhead env n (pct_index n (round_frac 99 100)) [rep..<rep + k],
               p999s @ times_at hz overhead env n (pct_index n (round_frac 999 1000)) [rep..<rep + k],
               maxes @ times_at hz overhead env n (n - 1) [rep..<rep + k]), r')
    \<and> recorder_ok r' \<and> (r' = None \<longleftrightarrow> r = None)"
proof (induction k arbitrary: rep p50s p99s p999s maxes r)
  case (Suc k)
  obtain r1 where 1: "perOpNs hz (be_clock env (Suc rep)) (be_sched env (Suc rep)) (be_ops env rep) overhead xs r
      = Some (op_times hz overhead (be_ops env rep) n, r1)" "recorder_ok r1" "r1 = None \<longleftrightarrow> r = None"
    using perOpNs_works [OF xs Suc.prems] unfolding n_def by blast
  let ?ns = "op_times hz overhead (be_ops env rep) n"
  have "0 < length ?ns" "length ?ns < 2 ^ 53" using xs by (simp_all add: op_times_simps(1) n_def)
  note 2 = add_percentiles_works [OF this, unfolded op_times_simps(1)]
  have reps: "[rep..<rep + Suc k] = rep # [Suc rep..<Suc rep + k]" by (simp add: upt_rec)
  obtain r' where "bench_reps hz env overhead xs k (Suc rep) ((p50s @ [?ns ! pct_index n (round_frac 1 2)],
      p99s @ [?ns ! pct_index n (round_frac 99 100)], p999s @ [?ns ! pct_index n (round_frac 999 1000)], maxes @ [?ns ! (n - 1)]), r1)
    = Some (((p50s @ [?ns ! pct_index n (round_frac 1 2)]) @ times_at hz overhead env n (pct_index n (round_frac 1 2)) [Suc rep..<Suc rep + k],
             (p99s @ [?ns ! pct_index n (round_frac 99 100)]) @ times_at hz overhead env n (pct_index n (round_frac 99 100)) [Suc rep..<Suc rep + k],
             (p999s @ [?ns ! pct_index n (round_frac 999 1000)]) @ times_at hz overhead env n (pct_index n (round_frac 999 1000)) [Suc rep..<Suc rep + k],
             (maxes @ [?ns ! (n - 1)]) @ times_at hz overhead env n (n - 1) [Suc rep..<Suc rep + k]), r')"
    "recorder_ok r'" "r' = None \<longleftrightarrow> r1 = None" using Suc.IH [OF 1(2)] by blast
  then show ?case using 1(3) unfolding reps by (simp add: 1(1) 2)
qed simp

text \<open>What a measurement reports: the mean of its batch, and of the seven repetitions the medians of the times at four places.\<close>

definition summarises :: "u64 \<Rightarrow> u64 \<Rightarrow> bench_env \<Rightarrow> nat \<Rightarrow> nat \<times> nat \<times> nat \<Rightarrow> bench_result \<Rightarrow> bool" where
  "summarises hz overhead env n places x \<longleftrightarrow> (case places of (i, j, k) \<Rightarrow>
     br_batch x = d_div (ticksToNs hz (snd (be_batch env) - fst (be_batch env))) (d_of_int (int n))
   \<and> is_median (br_p50 x) (times_at hz overhead env n i [0..<7])
   \<and> is_median (br_p99 x) (times_at hz overhead env n j [0..<7])
   \<and> is_median (br_p999 x) (times_at hz overhead env n k [0..<7])
   \<and> is_median (br_max x) (times_at hz overhead env n (n - 1) [0..<7])
   \<and> val (br_p50 x) \<le> val (br_p99 x) \<and> val (br_p99 x) \<le> val (br_p999 x) \<and> val (br_p999 x) \<le> val (br_max x))"

lemma summarises_ordered: "summarises hz overhead env n places x \<Longrightarrow> val (br_p50 x) \<le> val (br_p99 x)"
  by (simp add: summarises_def split: prod.splits)

definition quantile_places :: "nat \<Rightarrow> nat \<times> nat \<times> nat" where
  "quantile_places n = (pct_index n (round_frac 1 2), pct_index n (round_frac 99 100), pct_index n (round_frac 999 1000))"

lemma times_ordered:
  assumes "0 < hz" "i \<le> j" "j < n"
  shows "pointwise (times_at hz overhead env n i reps) (times_at hz overhead env n j reps)"
  unfolding times_at_def using op_times_simps [of hz overhead _ n] assms by (intro pointwise_map) (simp add: sorted_by_value_def)

lemma measure_works:
  assumes xs: "xs \<noteq> []" "\<forall>x \<in> set xs. input_ok x" "length xs < 2 ^ 53" and hz: "0 < hz" and r: "recorder_ok r"
  shows "\<exists>x r'. measure_adds hz env overhead xs r = Some (x, r') \<and> summarises hz overhead env (length xs) (quantile_places (length xs)) x
    \<and> recorder_ok r' \<and> (r' = None \<longleftrightarrow> r = None)"
proof -
  obtain b where b: "mk_book 1 20000 1048576 = Some b" and st: "bench_ok 0 (bench_attach r \<lparr>mb_book = b, mb_rec = None, mb_ticks = 0\<rparr>)"
    "mb_rec (bench_attach r \<lparr>mb_book = b, mb_rec = None, mb_ticks = 0\<rparr>) = r"
    using bench_book_ok [OF r] by blast
  let ?st = "bench_attach r \<lparr>mb_book = b, mb_rec = None, mb_ticks = 0\<rparr>" and ?c = "be_clock env 0" and ?s = "be_sched env 0"
  obtain st1 where 1: "bench_adds ?c ?s 0 warm_levels ?st = Some st1" "bench_ok 2001 st1" "mb_rec st1 = None \<longleftrightarrow> r = None"
    using bench_adds_work [OF st(1) warm_levels_ok(1), of ?c ?s 0] st(2) by (auto simp: warm_levels_ok(2))
  obtain st2 where 2: "bench_adds ?c ?s 2001 xs st1 = Some st2" "bench_ok (2001 + length xs) st2" "mb_rec st2 = None \<longleftrightarrow> mb_rec st1 = None"
    using bench_adds_work [OF 1(2) xs(2), of ?c ?s 2001] xs(3) by auto
  let ?v = "d_div (ticksToNs hz (snd (be_batch env) - fst (be_batch env))) (d_of_int (int (length xs)))"
  have v: "batchNs hz ?c ?s (be_batch env) xs r = Some (?v, mb_rec st2)"
    using xs(1) by (simp add: batchNs_def b 1(1) warm_levels_ok(2) 2(1) Let_def)
  have ok: "recorder_ok (mb_rec st2)" using 2(2) by (simp add: bench_ok_def)
  let ?n = "length xs"
  let ?at = "\<lambda>k. times_at hz overhead env ?n k [0..<7]"
  obtain i j k where p: "quantile_places ?n = (i, j, k)" by (cases "quantile_places ?n")
  have ijk: "i = pct_index ?n (round_frac 1 2)" "j = pct_index ?n (round_frac 99 100)" "k = pct_index ?n (round_frac 999 1000)"
    using p by (simp_all add: quantile_places_def)
  have q: "val (round_frac 99 100) \<le> 1" "0 \<le> val (round_frac 99 100)" using quantiles by linarith+
  have "0 < ?n" using xs(1) by simp
  note less = pct_index_less [OF this]
  have le: "i \<le> j" "j \<le> k" "k \<le> ?n - 1" "k < ?n" "j < ?n"
    unfolding ijk using pct_index_mono [OF xs(3) quantiles(1,2) q(1)] pct_index_mono [OF xs(3) q(2) quantiles(3,4)]
      less [of "round_frac 99 100"] less [of "round_frac 999 1000"] by linarith+
  obtain r' where 3: "bench_reps hz env overhead xs 7 0 (([], [], [], []), mb_rec st2)
      = Some ((?at i, ?at j, ?at k, ?at (?n - 1)), r')" "recorder_ok r'" "r' = None \<longleftrightarrow> mb_rec st2 = None"
    using bench_reps_work [OF xs ok, of hz env overhead 7 0 "[]" "[]" "[]" "[]"] unfolding ijk [symmetric] append_Nil add_0
    by (elim exE conjE) (rule that; assumption)
  have ne: "?at m \<noteq> []" for m by (simp add: times_at_def)
  let ?x = "\<lparr>br_batch = ?v, br_p50 = bench_median (?at i), br_p99 = bench_median (?at j), br_p999 = bench_median (?at k),
      br_max = bench_median (?at (?n - 1))\<rparr>"
  have "measure_adds hz env overhead xs r = Some (?x, r')" by (simp add: measure_adds_def v 3(1))
  moreover have "?n - 1 < ?n" using xs(1) by simp
  then have "summarises hz overhead env ?n (quantile_places ?n) ?x"
    unfolding summarises_def p prod.case using bench_median_works [OF ne] median_ordered times_ordered [OF hz] le
    by (simp del: upt_rec_numeral)
  ultimately show ?thesis using 3(2,3) 1(3) 2(3) by (intro exI [of _ ?x] exI [of _ r'] conjI) simp_all
qed

lemma overhead_main_works:
  assumes draws: "draws \<noteq> []" "\<forall>(s, p, q) \<in> set draws. 9000 \<le> p \<and> p \<le> 11000 \<and> 100 \<le> q \<and> q \<le> 1000" "length draws < 2 ^ 53"
    and hz: "0 < hz"
  shows "\<exists>det att drops. overhead_main hz readings draws env env' = Some (det, att, drops)
    \<and> summarises hz (measureTimerOverhead readings) env (length draws) (quantile_places (length draws)) det
    \<and> summarises hz (measureTimerOverhead readings) env' (length draws) (quantile_places (length draws)) att"
proof -
  let ?xs = "makeInputs draws" and ?o = "measureTimerOverhead readings"
  have q: "unat (of_int q :: u64) < 2 ^ 63" if "100 \<le> q" "q \<le> 1000" for q
  proof -
    have "0 \<le> q" using that by simp
    then obtain n where n: "q = int n" by (rule nonneg_int_cases)
    then have "n \<le> 1000" using that by simp
    with n show ?thesis using unat_of_nat_u64 [of n] by simp
  qed
  have xs: "?xs \<noteq> []" "\<forall>x \<in> set ?xs. input_ok x" "length ?xs < 2 ^ 53" and len: "length ?xs = length draws"
    using draws q by (auto simp: makeInputs_def input_ok_def)
  obtain det where det: "measure_adds hz env ?o ?xs None = Some (det, None)"
    "summarises hz ?o env (length draws) (quantile_places (length draws)) det" unfolding len [symmetric]
    using measure_works [OF xs hz, of None env ?o] by (auto simp: recorder_ok_def)
  have "recorder_ok (Some (mk_recorder 0))" using new_recorder [of 0] by (simp add: recorder_ok_def)
  from measure_works [OF xs hz this, of env' ?o] obtain att r where att: "measure_adds hz env' ?o ?xs (Some (mk_recorder 0)) = Some (att, Some r)"
    "summarises hz ?o env' (length draws) (quantile_places (length draws)) att"
    "ring_inv ring_cap (rec_ring r)" unfolding len [symmetric] by (auto simp: recorder_ok_def)
  have n: "65537 > length (ring_contents ring_cap (rec_ring r))" using event_ring.bounded [OF att(3)] by simp
  have "fold_opt (\<lambda>e s. Some s) es () = Some ()" for es :: "event list" by (induction es) simp_all
  from event_ring.drain_fold [OF att(3) n this] obtain q where
    "drain (try_pop ring_cap) 65537 (\<lambda>e s. Some s) (rec_ring r) () = Some (q, ())" by blast
  then show ?thesis using det att(2) by (simp add: overhead_main_def Let_def att(1))
qed

end
