(* ===== verification/Bench_Programs.thy ===== *)
theory Bench_Programs
  imports Bench_Ring Bench_Overhead C_Text Aggregator
begin

text \<open>
  The two benchmarks of \<^verbatim>\<open>metrics/\<close> from their command lines to their reports: \<^verbatim>\<open>benchmark_false_sharing.cpp\<close> with its
  timing, in either layout of the ring, and \<^verbatim>\<open>benchmark_overhead.cpp\<close> in the builds with and without metrics. A time
  of zero would make a printed quotient infinite, which is \<open>None\<close>. Pinning a thread to a core changes no state.
\<close>

section \<open>The ring benchmark\<close>

text \<open>A repetition's schedule, and the two clock readings around it.\<close>

record fs_run =
  ru_moves :: "move list"
  ru_begin :: u64
  ru_finish :: u64

definition fs_rep_line :: "nat \<Rightarrow> double \<Rightarrow> double \<Rightarrow> string" where
  "fs_rep_line r m per_item = ''  rep '' @ dec (r + 1) @ '': '' @ fmt_width 7 (fmt_fixed 1 m) @ '' M items/s   (''
     @ fmt_fixed 2 per_item @ '' ns/item)'' @ line_end"

record fs_total =
  tt_ring :: "event ring"
  tt_sink :: u64
  tt_mops :: "double list"
  tt_text :: string

definition fs_timed :: "u64 \<Rightarrow> fs_run \<Rightarrow> nat \<Rightarrow> fs_total \<Rightarrow> fs_total option" where
  "fs_timed N x r tot = do {
     (ring, acc) \<leftarrow> fs_rep N (ru_moves x) (tt_ring tot);
     let sink = tt_sink tot + acc;
     let secs = seconds (ru_finish x - ru_begin x);
     per_s \<leftarrow> d_quot (d_of_int (uint N)) secs;
     let m = d_div per_s (d_of_int 1000000);
     per_item \<leftarrow> d_quot (d_mult secs (d_of_int 1000000000)) (d_of_int (uint N));
     Some \<lparr>tt_ring = ring, tt_sink = sink, tt_mops = tt_mops tot @ [m], tt_text = tt_text tot @ fs_rep_line r m per_item\<rparr>
   }"

text \<open>The loop, with \<open>k\<close> repetitions left.\<close>

primrec fs_timed_reps :: "u64 \<Rightarrow> (nat \<Rightarrow> fs_run) \<Rightarrow> nat \<Rightarrow> nat \<Rightarrow> fs_total \<Rightarrow> fs_total option" where
  "fs_timed_reps N runs 0 r tot = Some tot"
| "fs_timed_reps N runs (Suc k) r tot = do { tot \<leftarrow> fs_timed N (runs r) r tot; fs_timed_reps N runs k (Suc r) tot }"

definition fs_mode :: "bool \<Rightarrow> string" where
  "fs_mode no_pad = (if no_pad then ''NO-PAD  (head_/tail_/buf_ packed -> false sharing)''
     else ''PADDED  (head_ / tail_ / buf_ on separate 64B lines)'')"

definition fs_banner :: "bool \<Rightarrow> int \<Rightarrow> int \<Rightarrow> u64 \<Rightarrow> string" where
  "fs_banner no_pad pcore ccore N = ''=== SPSC ring false-sharing A/B ==='' @ line_end
     @ ''build mode : '' @ fs_mode no_pad @ line_end
     @ ''ring cap   : '' @ fmt_llu fs_ring_cap @ '' slots x 32 B'' @ line_end
     @ ''cores      : producer '' @ fmt_lld pcore @ '', consumer '' @ fmt_lld ccore @ line_end
     @ ''workload   : '' @ fmt_llu N @ '' items/rep, median of 5, retry-on-full (no drops)'' @ line_end @ line_end"

definition fs_main :: "bool \<Rightarrow> string list \<Rightarrow> (nat \<Rightarrow> fs_run) \<Rightarrow> fs_total program_exit option" where
  "fs_main no_pad argv runs = do {
     pcore \<leftarrow> arg_or argv 1 atoi 2;
     ccore \<leftarrow> arg_or argv 2 atoi 3;
     N \<leftarrow> arg_or argv 3 (\<lambda>s. Some (strtoull s)) 50000000;
     tot \<leftarrow> fs_timed_reps N runs 5 0 \<lparr>tt_ring = mk_ring fs_ring_cap, tt_sink = 0, tt_mops = [], tt_text = []\<rparr>;
     let mops = sort_key val (tt_mops tot);
     mid \<leftarrow> vec_get mops (int (length mops div 2));
     Some \<lparr>x_status = 0, x_out = fs_banner no_pad pcore ccore N @ tt_text tot @ line_end @ ''median throughput: ''
             @ fmt_fixed 1 mid @ '' M items/s   ['' @ fs_mode no_pad @ '']'' @ line_end, x_err = [], x_end = Some tot\<rparr>
   }"

text \<open>The timed repetitions are the repetitions.\<close>

lemma seconds_pos: "n \<noteq> 0 \<Longrightarrow> 0 < val (seconds n)"
proof -
  assume "n \<noteq> 0"
  then have "uint n \<noteq> 0" by (simp add: uint_0_iff)
  then have "0 < uint n" using uint_ge_0 [of n] by linarith
  then show ?thesis unfolding seconds_def using d_of_int_pos by (intro d_div_pos) simp_all
qed

lemma fs_timed_works:
  assumes rep: "fs_rep N (ru_moves x) (tt_ring tot) = Some (ring, acc)" and t: "ru_finish x \<noteq> ru_begin x" and N: "N \<noteq> 0"
  shows "\<exists>tot'. fs_timed N x r tot = Some tot' \<and> tt_ring tot' = ring \<and> tt_sink tot' = tt_sink tot + acc
    \<and> length (tt_mops tot') = Suc (length (tt_mops tot))"
proof -
  have "0 < val (seconds (ru_finish x - ru_begin x))" using t by (intro seconds_pos) simp
  moreover have "uint N \<noteq> 0" using N by (simp add: uint_0_iff)
  then have "0 < val (d_of_int (uint N))" using uint_ge_0 [of N] by (intro d_of_int_pos) linarith
  ultimately show ?thesis by (simp add: fs_timed_def rep d_quot_pos Let_def)
qed

lemma fs_timed_reps_work:
  assumes N: "N \<noteq> 0"
  shows "ring_inv fs_ring_cap (tt_ring tot) \<Longrightarrow> ring_contents fs_ring_cap (tt_ring tot) = [] \<Longrightarrow>
     \<forall>i < k. ru_finish (runs (r + i)) \<noteq> ru_begin (runs (r + i)) \<and> (\<exists>rounds. ru_moves (runs (r + i)) = concat rounds
       \<and> 2 * unat N \<le> length rounds \<and> (\<forall>ms \<in> set rounds. {Send, Receive} \<subseteq> set ms)) \<Longrightarrow>
     \<exists>tot'. fs_timed_reps N runs k r tot = Some tot' \<and> ring_contents fs_ring_cap (tt_ring tot') = []
       \<and> tt_sink tot' = tt_sink tot + of_nat (k * (\<Sum>{..<unat N})) \<and> length (tt_mops tot') = length (tt_mops tot) + k"
proof (induction k arbitrary: r tot)
  case (Suc k)
  have first: "ru_finish (runs r) \<noteq> ru_begin (runs r)" "\<exists>rounds. ru_moves (runs r) = concat rounds
       \<and> 2 * unat N \<le> length rounds \<and> (\<forall>ms \<in> set rounds. {Send, Receive} \<subseteq> set ms)"
    using Suc.prems(3) [rule_format, of 0] by simp_all
  have later: "\<forall>i < k. ru_finish (runs (Suc r + i)) \<noteq> ru_begin (runs (Suc r + i)) \<and> (\<exists>rounds. ru_moves (runs (Suc r + i)) = concat rounds
       \<and> 2 * unat N \<le> length rounds \<and> (\<forall>ms \<in> set rounds. {Send, Receive} \<subseteq> set ms))"
    using Suc.prems(3) [rule_format, of "Suc i" for i] by simp
  from first(2) obtain rounds where rounds: "ru_moves (runs r) = concat rounds" "2 * unat N \<le> length rounds"
    "\<forall>ms \<in> set rounds. {Send, Receive} \<subseteq> set ms" by blast
  obtain ring where ring: "fs_rep N (ru_moves (runs r)) (tt_ring tot) = Some (ring, of_nat (\<Sum>{..<unat N}))"
    "ring_inv fs_ring_cap ring" "ring_contents fs_ring_cap ring = []"
    using fs_rep_works [OF Suc.prems(1,2) rounds(3,2)] rounds(1) by auto
  obtain tot1 where tot1: "fs_timed N (runs r) r tot = Some tot1" "tt_ring tot1 = ring"
    "tt_sink tot1 = tt_sink tot + of_nat (\<Sum>{..<unat N})" "length (tt_mops tot1) = Suc (length (tt_mops tot))"
    using fs_timed_works [OF ring(1) first(1) N, of r] by blast
  obtain tot' where "fs_timed_reps N runs k (Suc r) tot1 = Some tot'" "ring_contents fs_ring_cap (tt_ring tot') = []"
    "tt_sink tot' = tt_sink tot1 + of_nat (k * (\<Sum>{..<unat N}))" "length (tt_mops tot') = length (tt_mops tot1) + k"
    using Suc.IH [of tot1 "Suc r"] ring(2,3) tot1(2) later by auto
  then show ?case using tot1 by (simp add: algebra_simps)
qed simp

lemma fs_main_works:
  assumes args: "arg_or argv 1 atoi 2 = Some pcore" "arg_or argv 2 atoi 3 = Some ccore"
      "arg_or argv 3 (\<lambda>s. Some (strtoull s)) 50000000 = Some N" and N: "N \<noteq> 0"
    and runs: "\<forall>i < 5. ru_finish (runs i) \<noteq> ru_begin (runs i) \<and> (\<exists>rounds. ru_moves (runs i) = concat rounds
       \<and> 2 * unat N \<le> length rounds \<and> (\<forall>ms \<in> set rounds. {Send, Receive} \<subseteq> set ms))"
  shows "\<exists>tot out. fs_main no_pad argv runs = Some \<lparr>x_status = 0, x_out = out, x_err = [], x_end = Some tot\<rparr>
    \<and> ring_contents fs_ring_cap (tt_ring tot) = [] \<and> tt_sink tot = of_nat (5 * (\<Sum>{..<unat N})) \<and> length (tt_mops tot) = 5"
proof -
  let ?start = "\<lparr>tt_ring = mk_ring fs_ring_cap, tt_sink = 0, tt_mops = [], tt_text = []\<rparr>"
  have start: "ring_inv fs_ring_cap (tt_ring ?start)" "ring_contents fs_ring_cap (tt_ring ?start) = []"
    using ring_new [OF fs_cap(1)] by auto
  have "\<forall>i < 5. ru_finish (runs (0 + i)) \<noteq> ru_begin (runs (0 + i)) \<and> (\<exists>rounds. ru_moves (runs (0 + i)) = concat rounds
       \<and> 2 * unat N \<le> length rounds \<and> (\<forall>ms \<in> set rounds. {Send, Receive} \<subseteq> set ms))" using runs by simp
  from fs_timed_reps_work [OF N start this] obtain tot where tot: "fs_timed_reps N runs 5 0 ?start = Some tot"
    "ring_contents fs_ring_cap (tt_ring tot) = []" "tt_sink tot = of_nat (5 * (\<Sum>{..<unat N}))" "length (tt_mops tot) = 5"
    by auto
  have "vec_get (sort_key val (tt_mops tot)) (int (length (sort_key val (tt_mops tot)) div 2)) = Some (sort_key val (tt_mops tot) ! 2)"
    using vec_get_in [of 2 "sort_key val (tt_mops tot)"] tot(4) by simp
  then show ?thesis using tot unfolding fs_main_def args by (simp add: Let_def)
qed

section \<open>The overhead benchmark\<close>

definition overhead_report :: "string \<Rightarrow> bench_result \<Rightarrow> string option" where
  "overhead_report label r = do {
     rate \<leftarrow> d_quot (d_of_int 1000) (br_batch r);
     let ns = (\<lambda>x. fmt_width 6 (fmt_fixed 2 x) @ '' ns'');
     Some (''['' @ label @ '']'' @ line_end
       @ ''  batch mean : '' @ ns (br_batch r) @ ''/op   ('' @ fmt_fixed 2 rate @ '' M ops/s)'' @ line_end
       @ ''  p50        : '' @ ns (br_p50 r) @ line_end
       @ ''  p99        : '' @ ns (br_p99 r) @ line_end
       @ ''  p99.9      : '' @ ns (br_p999 r) @ line_end
       @ ''  max        : '' @ ns (br_max r) @ line_end @ line_end)
   }"

text \<open>\<open>hw\<close> is the number of hardware threads.\<close>

definition bench_core :: "int \<Rightarrow> string list \<Rightarrow> int option" where
  "bench_core hw argv = arg_or argv 1 atoi (if hw > 1 then hw - 1 else 0)"

definition consumer_core :: "int \<Rightarrow> int \<Rightarrow> int" where
  "consumer_core hw core = (if core \<ge> 1 then core - 1 else if hw > 1 then 1 else 0)"

definition overhead_banner :: "int \<Rightarrow> u64 \<Rightarrow> u64 \<Rightarrow> string" where
  "overhead_banner core hz overhead = ''=== addOrder instrumentation overhead A/B ==='' @ line_end
     @ ''pinned core   : '' @ fmt_lld core @ line_end
     @ ''TSC frequency : '' @ fmt_fixed 4 (d_div (d_of_int (uint hz)) (d_of_int 1000000000)) @ '' GHz'' @ line_end
     @ ''timer overhead: '' @ fmt_fixed 2 (ticksToNs hz overhead) @ '' ns [subtracted per-op]'' @ line_end"

text \<open>The build with metrics; the timer overhead is measured in 200000 iterations, the inputs are 200000.\<close>

definition overhead_program ::
    "int \<Rightarrow> string list \<Rightarrow> calibration \<Rightarrow> (nat \<Rightarrow> u64 \<times> u64) \<Rightarrow> (nat \<Rightarrow> int \<times> int \<times> int) \<Rightarrow> bench_env \<Rightarrow> bench_env
     \<Rightarrow> (bench_result \<times> bench_result) program_exit option" where
  "overhead_program hw argv cal readings draw env env' = do {
     core \<leftarrow> bench_core hw argv;
     hz \<leftarrow> mk_clock cal;
     let readings = map readings [0..<200000];
     (det, att, drops) \<leftarrow> overhead_main hz readings (map draw [0..<200000]) env env';
     det_text \<leftarrow> overhead_report ''detached  (instrumentation compiled in, no recorder attached)'' det;
     att_text \<leftarrow> overhead_report ''attached  (rdtsc x2 + build 32B event + ring push, every op)'' att;
     Some \<lparr>x_status = 0, x_out = overhead_banner core hz (measureTimerOverhead readings)
         @ ''BUILD         : METRICS_ENABLED=1 (instrumented)'' @ line_end @ line_end @ det_text
         @ ''consumer core : '' @ fmt_lld (consumer_core hw core) @ ''   drops during attached run: '' @ fmt_llu drops
         @ line_end @ line_end @ att_text,
       x_err = [], x_end = Some (det, att)\<rparr>
   }"

text \<open>The build without: nothing is ever attached to the book.\<close>

definition baseline_program ::
    "int \<Rightarrow> string list \<Rightarrow> calibration \<Rightarrow> (nat \<Rightarrow> u64 \<times> u64) \<Rightarrow> (nat \<Rightarrow> int \<times> int \<times> int) \<Rightarrow> bench_env
     \<Rightarrow> bench_result program_exit option" where
  "baseline_program hw argv cal readings draw env = do {
     core \<leftarrow> bench_core hw argv;
     hz \<leftarrow> mk_clock cal;
     let overhead = measureTimerOverhead (map readings [0..<200000]);
     (base, _) \<leftarrow> measure_adds hz env overhead (makeInputs (map draw [0..<200000])) None;
     text \<leftarrow> overhead_report ''baseline  (no instrumentation compiled in)'' base;
     Some \<lparr>x_status = 0, x_out = overhead_banner core hz overhead
         @ ''BUILD         : METRICS_ENABLED=0 (clean baseline)'' @ line_end @ line_end @ text,
       x_err = [], x_end = Some base\<rparr>
   }"

lemma ticksToNs_pos: "0 < hz \<Longrightarrow> t \<noteq> 0 \<Longrightarrow> 0 < val (ticksToNs hz t)"
proof -
  assume hz: "0 < hz" and "t \<noteq> 0"
  then have "uint t \<noteq> 0" by (simp add: uint_0_iff)
  then have t: "0 < uint t" using uint_ge_0 [of t] by linarith
  have "0 < uint hz" using hz by (simp add: word_less_def)
  then show ?thesis unfolding ticksToNs_def using t by (intro d_div_pos d_mult_pos d_of_int_pos) simp_all
qed

text \<open>A batch that takes time has a rate.\<close>

lemma batch_pos:
  assumes "measure_adds hz env overhead xs r = Some (x, r')" "0 < hz" "fst (be_batch env) \<noteq> snd (be_batch env)"
  shows "0 < val (br_batch x)"
proof -
  obtain batch r1 where b: "batchNs hz (be_clock env 0) (be_sched env 0) (be_batch env) xs r = Some (batch, r1)" "br_batch x = batch"
    using assms(1) by (auto simp: measure_adds_def)
  then have xs: "xs \<noteq> []" "batch = d_div (ticksToNs hz (snd (be_batch env) - fst (be_batch env))) (d_of_int (int (length xs)))"
    by (auto simp: batchNs_def Let_def)
  then show ?thesis unfolding b(2) using assms(2,3) by (auto intro!: d_div_pos ticksToNs_pos d_of_int_pos)
qed

lemma overhead_report_defined: "0 < val (br_batch x) \<Longrightarrow> \<exists>t. overhead_report label x = Some t"
  by (simp add: overhead_report_def d_quot_pos)

text \<open>The places of the quantiles among 200000 times, as the products round in doubles.\<close>

lemma places_of_inputs: "quantile_places 200000 = (100000, 198000, 199800)"
proof -
  have "int_to_u64 (d_floor (d_mult (d_of_int 200000) (round_frac 1 2))) = Some 100000"
    "int_to_u64 (d_floor (d_mult (d_of_int 200000) (round_frac 99 100))) = Some 198000"
    "int_to_u64 (d_floor (d_mult (d_of_int 200000) (round_frac 999 1000))) = Some 199800" by code_simp+
  then show ?thesis by (simp add: quantile_places_def pct_index_def)
qed

lemma overhead_program_works:
  fixes readings :: "nat \<Rightarrow> u64 \<times> u64"
  assumes args: "bench_core hw argv = Some core" and hz: "mk_clock cal = Some hz"
    and draws: "\<forall>n. case draw n of (s, p, q) \<Rightarrow> 9000 \<le> p \<and> p \<le> 11000 \<and> 100 \<le> q \<and> q \<le> 1000"
    and time: "fst (be_batch env) \<noteq> snd (be_batch env)" "fst (be_batch env') \<noteq> snd (be_batch env')"
  defines "overhead \<equiv> measureTimerOverhead (map readings [0..<200000])"
  shows "\<exists>det att drops t1 t2. overhead_program hw argv cal readings draw env env'
      = Some \<lparr>x_status = 0, x_out = overhead_banner core hz overhead
          @ ''BUILD         : METRICS_ENABLED=1 (instrumented)'' @ line_end @ line_end @ t1
          @ ''consumer core : '' @ fmt_lld (consumer_core hw core) @ ''   drops during attached run: '' @ fmt_llu drops
          @ line_end @ line_end @ t2, x_err = [], x_end = Some (det, att)\<rparr>
    \<and> overhead_main hz (map readings [0..<200000]) (map draw [0..<200000]) env env' = Some (det, att, drops)
    \<and> overhead_report ''detached  (instrumentation compiled in, no recorder attached)'' det = Some t1
    \<and> overhead_report ''attached  (rdtsc x2 + build 32B event + ring push, every op)'' att = Some t2
    \<and> summarises hz overhead env 200000 (100000, 198000, 199800) det
    \<and> summarises hz overhead env' 200000 (100000, 198000, 199800) att"
proof -
  let ?rs = "map readings [0..<200000]" and ?ds = "map draw [0..<200000]"
  have pos: "0 < hz" using hz by (auto simp: mk_clock_def word_neq_0_conv)
  have ds: "?ds \<noteq> []" "\<forall>(s, p, q) \<in> set ?ds. 9000 \<le> p \<and> p \<le> 11000 \<and> 100 \<le> q \<and> q \<le> 1000" "length ?ds < 2 ^ 53"
    and len: "length ?ds = 200000" using draws by (auto simp del: upt_rec_numeral)
  obtain det att drops where run: "overhead_main hz ?rs ?ds env env' = Some (det, att, drops)"
    "summarises hz overhead env 200000 (100000, 198000, 199800) det"
    "summarises hz overhead env' 200000 (100000, 198000, 199800) att"
    using overhead_main_works [OF ds pos, of ?rs env env'] unfolding len places_of_inputs overhead_def by blast
  have "0 < val (br_batch det)" "0 < val (br_batch att)"
    using run(1) batch_pos [OF _ pos time(1)] batch_pos [OF _ pos time(2)] by (auto simp: overhead_main_def Let_def)
  then obtain t1 t2 where t: "overhead_report ''detached  (instrumentation compiled in, no recorder attached)'' det = Some t1"
    "overhead_report ''attached  (rdtsc x2 + build 32B event + ring push, every op)'' att = Some t2"
    using overhead_report_defined by blast
  show ?thesis unfolding overhead_program_def args hz Let_def Option.bind.bind_lunit run(1) prod.case overhead_def [symmetric]
    by (rule exI [of _ det], rule exI [of _ att], rule exI [of _ drops], rule exI [of _ t1], rule exI [of _ t2])
      (use run t in \<open>simp only: Option.bind.bind_lunit simp_thms\<close>)
qed

end
