(* ===== verification/Price_Text.thy ===== *)
theory Price_Text
  imports Metrics_Snapshot Order_Types
begin

text \<open>
  The conversions of \<^verbatim>\<open>include/types.hpp\<close> between prices in ticks and amounts in dollars. \<open>std::to_string\<close> of a \<^verbatim>\<open>double\<close>
  prints six decimals.
\<close>

section \<open>The code\<close>

primrec price_divisor :: "nat \<Rightarrow> double \<Rightarrow> double" where
  "price_divisor 0 x = x"
| "price_divisor (Suc k) x = price_divisor k (d_mult x (d_of_int 10))"

definition priceToString :: "price \<Rightarrow> int \<Rightarrow> string" where
  "priceToString p decimals =
     (let divisor = price_divisor (nat decimals) (d_of_int 1) in fmt_fixed 6 (d_div (d_of_int p) divisor))"

primrec price_multiplier :: "nat \<Rightarrow> price \<Rightarrow> price option" where
  "price_multiplier 0 m = Some m"
| "price_multiplier (Suc k) m = do { require (int64_range (m * 10)); price_multiplier k (m * 10) }"

text \<open>The cast drops the fraction; outside the range of a price it is undefined.\<close>

definition d_trunc :: "double \<Rightarrow> int" where
  "d_trunc x = (if mant x < 0 then d_ceil x else d_floor x)"

definition dollarToPrice :: "double \<Rightarrow> int \<Rightarrow> price option" where
  "dollarToPrice dollars decimals = do {
     m \<leftarrow> price_multiplier (nat decimals) 1;
     let n = d_trunc (d_mult dollars (d_of_int m));
     require (int64_range n);
     Some n
   }"

section \<open>Printing cents\<close>

text \<open>The rounded value printed is the integer less than a half away.\<close>

lemma fixed_nearest:
  assumes x: "0 \<le> val x" and near: "\<bar>val x * 10 ^ k - of_nat n\<bar> < 1 / 2"
  shows "fmt_fixed k x = dec (n div 10 ^ k)
    @ (if k = 0 then '''' else ''.'' @ replicate (k - length (dec (n mod 10 ^ k))) (CHR ''0'') @ dec (n mod 10 ^ k))"
proof -
  have m: "0 \<le> mant x" by (rule mant_sign(2) [OF x])
  let ?m = "\<bar>mant x\<bar> * 10 ^ k"
  let ?r = "if expt x \<ge> 0 then ?m * 2 ^ nat (expt x) else round_div ?m (2 ^ nat (- expt x))"
  have "\<bar>of_int ?r - val x * 10 ^ k\<bar> \<le> (1 / 2 :: rat)"
  proof (cases "expt x \<ge> 0")
    case True
    then show ?thesis using m by (simp add: val_def power_int_def)
  next
    case False
    let ?b = "2 ^ nat (- expt x) :: int"
    have b: "?b > 0" by simp
    have "2 * \<bar>round_div ?m ?b * ?b - ?m\<bar> \<le> ?b" by (rule round_div_near [OF b])
    then have "(of_int (2 * \<bar>round_div ?m ?b * ?b - ?m\<bar>) :: rat) \<le> of_int ?b" by (simp only: of_int_le_iff)
    then have "2 * \<bar>of_int (round_div ?m ?b) * of_int ?b - of_int ?m\<bar> \<le> (of_int ?b :: rat)" by simp
    moreover have v: "val x * 10 ^ k = of_int ?m / of_int ?b"
      using m False by (simp add: val_def power_int_def field_simps)
    moreover have "(of_int ?b :: rat) > 0" using b by (simp only: of_int_0_less_iff)
    ultimately have "\<bar>(of_int (round_div ?m ?b) - val x * 10 ^ k) * of_int ?b\<bar> \<le> 1 / 2 * (of_int ?b :: rat)"
      by (simp add: left_diff_distrib)
    then have "\<bar>of_int (round_div ?m ?b) - val x * 10 ^ k\<bar> * of_int ?b \<le> 1 / 2 * (of_int ?b :: rat)" by (simp add: abs_mult)
    then have "\<bar>of_int (round_div ?m ?b) - val x * 10 ^ k\<bar> \<le> (1 / 2 :: rat)"
      using \<open>(of_int ?b :: rat) > 0\<close> by (simp only: mult_le_cancel_right_pos)
    then show ?thesis using False by simp
  qed
  then have "\<bar>of_int ?r - of_nat n\<bar> < (1 :: rat)" using near by linarith
  then have "of_int \<bar>?r - int n\<bar> < (of_int 1 :: rat)" by simp
  then have "\<bar>?r - int n\<bar> < 1" by (simp only: of_int_less_iff)
  then have "nat ?r = n" by linarith
  then show ?thesis using m unfolding fmt_fixed_def Let_def by auto
qed

lemma divisor_2: "val (price_divisor 2 (d_of_int 1)) = 100"
proof -
  have "price_divisor 2 (d_of_int 1) = d_of_int 100" by code_simp
  then show ?thesis by (simp add: val_d_of_int)
qed

lemma char_zero: "char_of (48 :: nat) = CHR ''0''" "char_of (Suc 47) = CHR ''0''"
  by code_simp+

lemma replicate_4: "replicate 4 (CHR ''0'') = ''0000''"
  by code_simp

lemma dec_digit: "n < 10 \<Longrightarrow> dec n = [char_of (48 + n)]"
  by (subst dec.simps) simp

lemma dec_snoc: "0 < n \<Longrightarrow> c < 10 \<Longrightarrow> dec (n * 10 + c) = dec n @ [char_of (48 + c)]"
  by (subst dec.simps) simp

lemma dec_zeros: "0 < n \<Longrightarrow> dec (n * 10 ^ k) = dec n @ replicate k (CHR ''0'')"
proof (induction k)
  case (Suc k)
  have "n * 10 ^ Suc k = n * 10 ^ k * 10 + 0" by simp
  moreover have "dec (n * 10 ^ k * 10 + 0) = dec (n * 10 ^ k) @ [char_of (48 + 0 :: nat)]" using Suc.prems by (intro dec_snoc) simp_all
  ultimately have "dec (n * 10 ^ Suc k) = dec (n * 10 ^ k) @ ''0''" by (simp only: add_0_right char_zero)
  then show ?case using Suc by (simp only: append_assoc replicate_Suc replicate_append_same flip: replicate_append_same)
qed simp

lemma cents_digits:
  assumes "c < (100::nat)"
  shows "replicate (6 - length (dec (c * 10000))) (CHR ''0'') @ dec (c * 10000)
    = [char_of (48 + c div 10), char_of (48 + c mod 10)] @ ''0000''"
proof (cases "c = 0")
  case True
  have "replicate 5 (CHR ''0'') = ''00000''" by code_simp
  then show ?thesis using True by (simp add: dec_digit char_zero)
next
  case False
  then have zeros: "dec (c * 10000) = dec c @ ''0000''" using dec_zeros [of c 4] replicate_4 by simp
  show ?thesis
  proof (cases "c < 10")
    case True
    then show ?thesis by (simp add: zeros dec_digit char_zero)
  next
    case F: False
    then have "dec c = [char_of (48 + c div 10), char_of (48 + c mod 10)]"
      using dec_snoc [of "c div 10" "c mod 10"] assms by (simp add: dec_digit)
    then show ?thesis by (simp add: zeros)
  qed
qed

lemma priceToString_cents:
  assumes "n < 2 ^ 38"
  shows "priceToString (int n) 2 = dec (n div 100) @ ''.'' @ [char_of (48 + n mod 100 div 10), char_of (48 + n mod 10)] @ ''0000''"
proof -
  let ?y = "price_divisor 2 (d_of_int 1)" and ?x = "d_div (d_of_int (int n)) (price_divisor 2 (d_of_int 1))"
  have v: "val (d_of_int (int n)) = of_nat n" using assms by (simp add: val_d_of_int)
  obtain a b where ab: "b > 0" "?x = round_frac a b" "of_int a / of_int b = val (d_of_int (int n)) / val ?y"
    using d_div_frac [of ?y "d_of_int (int n)"] by (auto simp: divisor_2)
  have err: "\<bar>val ?x - of_nat n / 100\<bar> \<le> of_nat n / 100 / 2 ^ 53"
    using round_frac_error [OF ab(1), of a] unfolding ab(2,3) v divisor_2 by simp
  have "(of_nat n :: rat) < of_nat (2 ^ 38)" using assms by (simp only: of_nat_less_iff)
  then have n: "(of_nat n :: rat) < 2 ^ 38" by simp
  then have "\<bar>val ?x * 10 ^ 6 - of_nat n * 10000\<bar> < 1 / 2" using err by (simp add: abs_if split: if_splits)
  then have near: "\<bar>val ?x * 10 ^ 6 - of_nat (n * 10000)\<bar> < 1 / 2" by simp
  have "0 \<le> val ?x" using err n by (simp add: abs_if split: if_splits)
  from fixed_nearest [OF this near] have "priceToString (int n) 2 = dec (n * 10000 div 10 ^ 6)
      @ ''.'' @ replicate (6 - length (dec (n * 10000 mod 10 ^ 6))) (CHR ''0'') @ dec (n * 10000 mod 10 ^ 6)"
    by (simp add: priceToString_def)
  moreover have "n * 10000 div 10 ^ 6 = n div 100" by simp
  moreover have "n * 10000 mod 10 ^ 6 = n mod 100 * 10000" using mult_mod_left [of n 100 10000] by simp
  moreover have "n mod 100 mod 10 = n mod 10" by (simp add: mod_mod_cancel)
  ultimately show ?thesis using cents_digits [of "n mod 100"] by simp
qed

section \<open>Reading dollars\<close>

lemma d_trunc_nearby:
  assumes "\<bar>val x - of_int p\<bar> < 1"
  shows "\<bar>d_trunc x - p\<bar> \<le> 1" "0 \<le> p \<Longrightarrow> d_trunc x \<le> p"
proof -
  have v: "p - 1 \<le> \<lfloor>val x\<rfloor>" "\<lfloor>val x\<rfloor> \<le> p" "p \<le> \<lceil>val x\<rceil>" "\<lceil>val x\<rceil> \<le> p + 1"
    using assms by (simp_all add: le_floor_iff floor_le_iff le_ceiling_iff ceiling_le_iff abs_less_iff)
  then show "\<bar>d_trunc x - p\<bar> \<le> 1" by (simp add: d_trunc_def d_floor_val d_ceil_val)
  have "val x < 0" if "mant x < 0" using that by (simp add: val_def mult_neg_pos)
  then have "\<lceil>val x\<rceil> \<le> p" if "mant x < 0" "0 \<le> p" using that by (meson ceiling_le_zero less_imp_le order_trans)
  then show "d_trunc x \<le> p" if "0 \<le> p"
    using that v(2) by (cases "mant x < 0") (simp_all add: d_trunc_def d_floor_val d_ceil_val)
qed

text \<open>The double nearest to an amount of whole cents is read as that amount or as one cent less.\<close>

lemma dollarToPrice_cents:
  assumes p: "0 \<le> p" "p < 2 ^ 51"
  shows "\<exists>n. dollarToPrice (round_frac p 100) 2 = Some n \<and> p - 1 \<le> n \<and> n \<le> p"
proof -
  let ?d = "round_frac p 100" and ?x = "d_mult (round_frac p 100) (d_of_int 100)"
  have m: "price_multiplier 2 1 = Some 100" by (simp add: numeral_2_eq_2 int64_range_def)
  have h: "val (d_of_int 100) = 100" by (simp add: val_d_of_int)
  have e1: "\<bar>val ?d - of_int p / 100\<bar> \<le> of_int p / 100 / 2 ^ 53"
    using round_frac_error [of 100 p] p(1) by simp
  have e2: "\<bar>val ?x - val ?d * 100\<bar> \<le> \<bar>val ?d * 100\<bar> / 2 ^ 53"
    using d_mult_error [of ?d "d_of_int 100"] unfolding h .
  have "(of_int p :: rat) < of_int (2 ^ 51)" using p(2) by (simp only: of_int_less_iff)
  then have "(of_int p :: rat) < 2 ^ 51" by simp
  moreover have "(0::rat) \<le> of_int p" using p(1) by simp
  ultimately have "\<bar>val ?x - of_int p\<bar> < 1" using e1 e2 by (simp add: abs_if split: if_splits)
  note n = d_trunc_nearby(1) [OF this] d_trunc_nearby(2) [OF this p(1)]
  then have "int64_range (d_trunc ?x)" using p by (simp add: int64_range_def)
  then show ?thesis using n by (simp add: dollarToPrice_def m Let_def)
qed

lemma dollarToPrice_loses_a_cent: "dollarToPrice (round_frac 115 100) 2 = Some 114"
  by code_simp

end
