(* ===== verification/Book_Text.thy ===== *)
theory Book_Text
  imports Book_Spec Price_Text C_Text
begin

text \<open>
  Printing orders and price levels (\<^verbatim>\<open>Order::print\<close>, \<^verbatim>\<open>PriceLevel::print\<close>). A print is the text written to the standard
  output. Printing a level of a well-formed book lists its entries in the order in which they trade.
\<close>

section \<open>The code\<close>

text \<open>The default constructor.\<close>

definition new_order :: order where
  "new_order = \<lparr>o_id = 0, o_price = 0, o_quantity = 0, o_next = None, o_prev = None, o_timestamp = 0, o_side = BUY, o_type = LIMIT\<rparr>"

definition getPrice :: "price_level \<Rightarrow> price" where
  "getPrice l = pl_price l"

definition getOrderCount :: "price_level \<Rightarrow> u64" where
  "getOrderCount l = order_count l"

definition print_order :: "order \<Rightarrow> string" where
  "print_order x = ''Order{id='' @ fmt_llu (o_id x) @ '', side='' @ (if o_side x = BUY then ''BUY'' else ''SELL'')
     @ '', price='' @ priceToString (o_price x) 2 @ '', qty='' @ fmt_llu (o_quantity x) @ ''}'' @ line_end"

text \<open>The loop along the list; one that does not end is \<open>None\<close>.\<close>

partial_function (option) print_from :: "heap \<Rightarrow> addr option \<Rightarrow> string \<Rightarrow> string option" where
  "print_from m cur out = (case cur of
       None \<Rightarrow> Some out
     | Some a \<Rightarrow> do { x \<leftarrow> load m a; print_from m (o_next x) (out @ ''  '' @ print_order x) })"

definition print_level :: "heap \<Rightarrow> price_level \<Rightarrow> string option" where
  "print_level m l = print_from m (pl_head l) (''PriceLevel{price='' @ priceToString (pl_price l) 2
     @ '', total_qty='' @ fmt_llu (total_quantity l) @ '', orders='' @ fmt_llu (order_count l) @ ''}'' @ line_end)"

section \<open>What is printed\<close>

definition entry_text :: "side \<Rightarrow> entry \<Rightarrow> string" where
  "entry_text s e = ''  Order{id='' @ fmt_llu (e_id e) @ '', side='' @ (if s = BUY then ''BUY'' else ''SELL'')
     @ '', price='' @ priceToString (e_price e) 2 @ '', qty='' @ fmt_llu (e_qty e) @ ''}'' @ line_end"

definition level_text :: "side \<Rightarrow> price \<Rightarrow> entry list \<Rightarrow> string" where
  "level_text s p es = ''PriceLevel{price='' @ priceToString p 2 @ '', total_qty='' @ fmt_llu (sum_list (map e_qty es))
     @ '', orders='' @ fmt_llu (of_nat (length es)) @ ''}'' @ line_end @ concat (map (entry_text s) es)"

lemma print_order_entry: "load m a = Some x \<Longrightarrow> ''  '' @ print_order x = entry_text (o_side x) (entry_of m a)"
  by (simp add: print_order_def entry_text_def entry_of_def)

lemma print_from_list:
  "dll m p as None \<Longrightarrow> \<forall>a \<in> set as. \<exists>x. load m a = Some x \<and> o_side x = s \<Longrightarrow>
     print_from m (first_of as) out = Some (out @ concat (map (entry_text s \<circ> entry_of m) as))"
proof (induction as arbitrary: p out)
  case Nil
  then show ?case by (subst print_from.simps) simp
next
  case (Cons a as)
  obtain x where x: "load m a = Some x" "o_next x = first_of as" "o_side x = s" "dll m (Some a) as None"
    using Cons.prems by (auto split: if_splits)
  have "print_from m (first_of (a # as)) out = print_from m (first_of as) (out @ entry_text s (entry_of m a))"
    using x print_order_entry [OF x(1)] by (subst print_from.simps) (simp flip: append_assoc)
  then show ?case using Cons.IH [OF x(4), of "out @ entry_text s (entry_of m a)"] Cons.prems(2) by simp
qed

lemma print_level_list:
  assumes rep: "level_rep m l as" and side: "\<forall>a \<in> set as. \<exists>x. load m a = Some x \<and> o_side x = s"
  shows "print_level m l = Some (level_text s (pl_price l) (map (entry_of m) as))"
proof -
  have "map (qty m) as = map (e_qty \<circ> entry_of m) as"
    by (auto simp: qty_def entry_of_def split: option.splits)
  then have total: "total_quantity l = sum_list (map (e_qty \<circ> entry_of m) as)" using rep by (simp only: level_rep_def)
  have "pl_head l = first_of as" "dll m None as None" "order_count l = of_nat (length as)" using rep by (simp_all add: level_rep_def)
  then show ?thesis using print_from_list [OF _ side, of None] by (simp add: print_level_def level_text_def total)
qed

text \<open>The entries of one price are those of its level.\<close>

lemma level_entries:
  assumes rep: "book_rep b Q" and k: "k < num_levels b"
  shows "filter (\<lambda>e. e_price e = min_price b + int k) (view b s) = map (entry_of (mem b)) (Q s k)"
proof -
  have price: "e_price e = min_price b + int i" if "e \<in> set (map (entry_of (mem b)) (Q s i))" for e i
    using that book_rep_entry_price [OF rep] by auto
  have none: "filter (\<lambda>e. e_price e = min_price b + int k) (concat (map (\<lambda>i. map (entry_of (mem b)) (Q s i)) is)) = []"
    if "k \<notin> set is" for "is"
    using that by (auto simp: filter_empty_conv book_rep_entry_price [OF rep])
  have all: "filter (\<lambda>e. e_price e = min_price b + int k) (map (entry_of (mem b)) (Q s k)) = map (entry_of (mem b)) (Q s k)"
    using price by (intro filter_True) blast
  have out: "k \<notin> set (levels_before s (num_levels b) k)" "k \<notin> set (levels_after s (num_levels b) k)"
    by (cases s; simp add: levels_before_def levels_after_def)+
  show ?thesis unfolding view_rep [OF rep] flat_def by_priority_split [OF k] map_append concat_append filter_append
    using none [OF out(1)] none [OF out(2)] all by simp
qed

lemma print_book_level:
  assumes wf: "book_wf b" and p: "inRange b p"
  shows "\<exists>l. vec_get (levels (ladder_of s b)) (priceToIndex b p) = Some l
    \<and> print_level (mem b) l = Some (level_text s p (filter (\<lambda>e. e_price e = p) (view b s)))"
proof -
  obtain Q where rep: "book_rep b Q" using wf by (auto simp: book_wf_def)
  define k where "k = nat (p - min_price b)"
  have k: "p = min_price b + int k" "k < num_levels b" using p rep by (auto simp: inRange_def k_def book_rep_def heap_rep_def)
  have lad: "ladder_rep s (mem b) (min_price b) (num_levels b) (ladder_of s b) (Q s)" by (rule book_rep_ladder [OF rep])
  let ?l = "levels (ladder_of s b) ! k"
  have l: "level_rep (mem b) ?l (Q s k)" "pl_price ?l = p" "length (levels (ladder_of s b)) = num_levels b"
    using lad k by (simp_all add: ladder_rep_def)
  have "\<forall>a \<in> set (Q s k). \<exists>x. load (mem b) a = Some x \<and> o_side x = s" using ladder_rep_order [OF lad] by blast
  from print_level_list [OF l(1) this] have "print_level (mem b) ?l = Some (level_text s p (filter (\<lambda>e. e_price e = p) (view b s)))"
    unfolding l(2) using level_entries [OF rep k(2), of s] by (simp add: k(1))
  moreover have "vec_get (levels (ladder_of s b)) (priceToIndex b p) = Some ?l" using k l(3) by (simp add: priceToIndex_def)
  ultimately show ?thesis by blast
qed

end
