(* ===== verification/Matching_Test.thy ===== *)
theory Matching_Test
  imports Demo_Trader Book_Replay C_Text
begin

text \<open>
  The repository's test of the matching engine, \<^verbatim>\<open>test_matching.cpp\<close>, run on the model: none of its checks fails. The
  ladder of its book has 100000 levels, so the run goes through the refinement lemmas, on the lists of resting orders.
\<close>

section \<open>The test\<close>

text \<open>\<open>CHK\<close>: the messages of the checks that failed.\<close>

definition check :: "bool \<Rightarrow> string \<Rightarrow> string list \<Rightarrow> string list" where
  "check c msg fails = (if c then fails else fails @ [msg])"

definition notCrossed :: "order_book \<Rightarrow> string \<Rightarrow> string list \<Rightarrow> string list" where
  "notCrossed b place fails =
     (let bb = getBestBid b; ba = getBestAsk b in if bb \<noteq> 0 \<and> ba \<noteq> 0 then check (bb < ba) place fails else fails)"

definition fill_is :: "trade list \<Rightarrow> nat \<Rightarrow> order_id \<Rightarrow> quantity \<Rightarrow> price \<Rightarrow> bool option" where
  "fill_is ts k i q p = do { t \<leftarrow> vec_get ts (int k); Some (t_makerId t = i \<and> t_quantity t = q \<and> t_price t = p) }"

text \<open>\<open>b.getOrder(i) && b.getOrder(i)->quantity == q\<close>.\<close>

definition left_is :: "order_book \<Rightarrow> order_id \<Rightarrow> quantity \<Rightarrow> bool option" where
  "left_is b i q = (case getOrder b i of None \<Rightarrow> Some False | Some a \<Rightarrow> do { x \<leftarrow> load (mem b) a; Some (o_quantity x = q) })"

definition test_resting :: "order_book \<Rightarrow> string list \<Rightarrow> (order_book \<times> string list) option" where
  "test_resting b fails = do {
     (b, _) \<leftarrow> addOrder b SELL 1000 100 1;
     (b, _) \<leftarrow> addOrder b SELL 1000 50 2;
     (b, _) \<leftarrow> addOrder b SELL 1001 200 3;
     (b, _) \<leftarrow> addOrder b BUY 999 100 4;
     let fails = check (getBestAsk b = 1000 \<and> getBestBid b = 999) ''initial best prices'' fails;
     Some (b, notCrossed b ''after resting book'' fails)
   }"

definition test_buy_120 :: "order_book \<Rightarrow> string list \<Rightarrow> (order_book \<times> string list) option" where
  "test_buy_120 b fails = do {
     (b, t) \<leftarrow> submitLimit b BUY 1000 120 100;
     let fails = check (length t = 2) ''trade1: two fills'' fails;
     c \<leftarrow> fill_is t 0 1 100 1000;
     let fails = check c ''trade1[0]: id1 x100 @1000 (FIFO head)'' fails;
     c \<leftarrow> fill_is t 1 2 20 1000;
     let fails = check c ''trade1[1]: id2 x20  @1000'' fails;
     let fails = check (getOrder b 1 = None) ''id1 fully filled -> gone'' fails;
     c \<leftarrow> left_is b 2 30;
     let fails = check c ''id2 partially filled -> 30 left, stays'' fails;
     let fails = check (getOrder b 100 = None) ''taker 100 fully filled -> did not rest'' fails;
     let fails = check (getBestAsk b = 1000) ''best ask still $10.00 (id2 remains)'' fails;
     Some (b, notCrossed b ''after trade1'' fails)
   }"

definition test_buy_250 :: "order_book \<Rightarrow> string list \<Rightarrow> (order_book \<times> string list) option" where
  "test_buy_250 b fails = do {
     (b, t) \<leftarrow> submitLimit b BUY 1001 250 101;
     let fails = check (length t = 2) ''trade2: two fills across two levels'' fails;
     c \<leftarrow> fill_is t 0 2 30 1000;
     let fails = check c ''trade2[0]: id2 x30 @1000 (price priority)'' fails;
     c \<leftarrow> fill_is t 1 3 200 1001;
     let fails = check c ''trade2[1]: id3 x200 @1001'' fails;
     let fails = check (getOrder b 2 = None \<and> getOrder b 3 = None) ''id2,id3 fully filled -> gone'' fails;
     let fails = check (getActiveAsks b = 0) ''ask side now empty'' fails;
     c \<leftarrow> left_is b 101 20;
     let fails = check c ''taker 101 rested 20 as a bid'' fails;
     let fails = check (getBestBid b = 1001) ''best bid now $10.01 (rested remainder)'' fails;
     Some (b, notCrossed b ''after trade2'' fails)
   }"

definition test_sell_60 :: "order_book \<Rightarrow> string list \<Rightarrow> (order_book \<times> string list) option" where
  "test_sell_60 b fails = do {
     (b, t) \<leftarrow> submitLimit b SELL 999 60 102;
     let fails = check (length t = 2) ''trade3: two fills'' fails;
     c \<leftarrow> fill_is t 0 101 20 1001;
     let fails = check c ''trade3[0]: id101 x20 @1001 (best bid first)'' fails;
     c \<leftarrow> fill_is t 1 4 40 999;
     let fails = check c ''trade3[1]: id4 x40 @999'' fails;
     let fails = check (getOrder b 101 = None) ''id101 fully filled -> gone'' fails;
     c \<leftarrow> left_is b 4 60;
     let fails = check c ''id4 partially filled -> 60 left'' fails;
     let fails = check (getOrder b 102 = None) ''taker 102 fully filled -> did not rest'' fails;
     let fails = check (getBestBid b = 999 \<and> getActiveAsks b = 0) ''book: bid $9.99 only'' fails;
     Some (b, notCrossed b ''after trade3'' fails)
   }"

definition test_rest_100 :: "order_book \<Rightarrow> string list \<Rightarrow> (order_book \<times> string list) option" where
  "test_rest_100 b fails = do {
     (b, t) \<leftarrow> submitLimit b BUY 950 100 103;
     let fails = check (t = []) ''trade4: non-crossing limit produces no trades'' fails;
     c \<leftarrow> left_is b 103 100;
     let fails = check c ''id103 rested at $9.50'' fails;
     let fails = check (getBestBid b = 999) ''best bid still $9.99 (id4 better than id103)'' fails;
     Some (b, notCrossed b ''after trade4'' fails)
   }"

definition test_market_200 :: "order_book \<Rightarrow> string list \<Rightarrow> (order_book \<times> string list) option" where
  "test_market_200 b fails = do {
     (b, t) \<leftarrow> submitMarket b SELL 200 104;
     let fails = check (length t = 2) ''trade5: market sweeps both bid levels'' fails;
     c \<leftarrow> fill_is t 0 4 60 999;
     let fails = check c ''trade5[0]: id4 x60 @999'' fails;
     c \<leftarrow> fill_is t 1 103 100 950;
     let fails = check c ''trade5[1]: id103 x100 @950'' fails;
     let fails = check (getActiveBids b = 0 \<and> getActiveAsks b = 0) ''book fully empty after market sweep'' fails;
     let fails = check (getOrder b 104 = None) ''market order never rests'' fails;
     Some (b, notCrossed b ''after trade5'' fails)
   }"

definition test_matching :: "order_book program_exit option" where
  "test_matching = do {
     b \<leftarrow> mk_book 1 100000 65536;
     (b, fails) \<leftarrow> test_resting b [];
     (b, fails) \<leftarrow> test_buy_120 b fails;
     (b, fails) \<leftarrow> test_buy_250 b fails;
     (b, fails) \<leftarrow> test_sell_60 b fails;
     (b, fails) \<leftarrow> test_rest_100 b fails;
     (b, fails) \<leftarrow> test_market_200 b fails;
     Some \<lparr>x_status = (if fails = [] then 0 else 1),
       x_out = concat (map (\<lambda>m. ''FAIL: '' @ m @ line_end) fails)
         @ (if fails = [] then line_end @ ''MATCHING ENGINE OK'' @ line_end
            else line_end @ dec (length fails) @ '' FAILURES'' @ line_end), x_err = [], x_end = Some b\<rparr>
   }"

section \<open>A book by its resting orders\<close>

definition holds :: "order_book \<Rightarrow> entry list \<Rightarrow> entry list \<Rightarrow> bool" where
  "holds b bs as \<longleftrightarrow> api_inv b \<and> view b BUY = bs \<and> view b SELL = as \<and> min_price b = 1 \<and> max_price b = 100000"

text \<open>What the test looks at.\<close>

lemma holds_best:
  assumes "holds b bs as"
  shows "getBestBid b = (case bs of [] \<Rightarrow> 0 | e # _ \<Rightarrow> e_price e)" "getBestAsk b = (case as of [] \<Rightarrow> 0 | e # _ \<Rightarrow> e_price e)"
    "getActiveBids b = of_nat (card (e_price ` set bs))" "getActiveAsks b = of_nat (card (e_price ` set as))"
proof -
  obtain Q where rep: "book_rep b Q" and v: "view b BUY = bs" "view b SELL = as"
    using assms by (auto simp: holds_def api_inv_def book_wf_def)
  show "getBestBid b = (case bs of [] \<Rightarrow> 0 | e # _ \<Rightarrow> e_price e)" "getBestAsk b = (case as of [] \<Rightarrow> 0 | e # _ \<Rightarrow> e_price e)"
    using getBestBid_view [OF rep] getBestAsk_view [OF rep] v by simp_all
  show "getActiveBids b = of_nat (card (e_price ` set bs))" "getActiveAsks b = of_nat (card (e_price ` set as))"
    using level_count_view [OF rep, of BUY] level_count_view [OF rep, of SELL] v
    by (simp_all add: getActiveBids_def getActiveAsks_def)
qed

lemma holds_gone: "holds b bs as \<Longrightarrow> getOrder b i = None \<longleftrightarrow> i \<notin> e_id ` (set bs \<union> set as)"
  using view_ids_sides [of b _ i BUY] by (auto simp: holds_def api_inv_def book_wf_def getOrder_def resting_def)

lemma holds_left:
  assumes "holds b bs as" "e \<in> set bs \<union> set as"
  shows "left_is b (e_id e) (e_qty e) = Some True"
proof -
  have inv: "api_inv b" using assms(1) by (simp add: holds_def)
  obtain s where "e \<in> set (view b s)" using assms by (auto simp: holds_def)
  then have m: "order_map b (e_id e) = Some (s, e_price e, e_qty e)" by (rule view_order_map [OF inv])
  then obtain a where a: "getOrder b (e_id e) = Some a" using getOrder_map(1) [OF inv, of "e_id e"] by auto
  then show ?thesis using getOrder_map(2) [OF inv a] m by (auto simp: left_is_def)
qed

section \<open>The calls\<close>

lemma holds_add:
  assumes h: "holds b bs as" and p: "1 \<le> p" "p \<le> 100000" and i: "i \<notin> e_id ` (set bs \<union> set as)" and q: "unat q < 2 ^ 63"
  defines "e \<equiv> \<lparr>e_price = p, e_id = i, e_qty = q\<rparr>"
  shows "\<exists>b'. addOrder b s p q i = Some (b', i)
    \<and> holds b' (if s = BUY then insert_entry BUY e bs else bs) (if s = SELL then insert_entry SELL e as else as)"
proof -
  obtain Q where rep: "book_rep b Q" using h by (auto simp: holds_def api_inv_def book_wf_def)
  have fresh: "orders b i = None" using holds_gone [OF h, of i] i by (simp add: getOrder_def)
  have inr: "inRange b p" using h p by (simp add: holds_def inRange_def)
  obtain b' Q' where b': "addOrder b s p q i = Some (b', i)" "view b' s = insert_entry s e (view b s)"
    "\<forall>t. t \<noteq> s \<longrightarrow> view b' t = view b t" "min_price b' = min_price b" "max_price b' = max_price b"
    using addOrder_view [OF rep inr fresh, of s q] unfolding e_def by metis
  moreover have "api_inv b'" using addOrder_api [of b q i s p] h q fresh b'(1) by (auto simp: holds_def resting_def)
  ultimately show ?thesis using h by (cases s) (simp_all add: holds_def)
qed

lemma holds_limit:
  assumes h: "holds b bs as" and p: "1 \<le> p" "p \<le> 100000" and i: "i \<notin> e_id ` (set bs \<union> set as)" and q: "unat q < 2 ^ 63"
    and fill: "fill_entries s (\<lambda>p'. \<not> better s p' p) i q (if s = BUY then as else bs) = (others, r, trs)"
  defines "mine \<equiv> if r > 0 then insert_entry s \<lparr>e_price = p, e_id = i, e_qty = r\<rparr> (if s = BUY then bs else as)
    else (if s = BUY then bs else as)"
  shows "\<exists>b'. submitLimit b s p q i = Some (b', trs) \<and> holds b' (if s = BUY then mine else others) (if s = BUY then others else mine)"
proof -
  obtain Q where rep: "book_rep b Q" using h by (auto simp: holds_def api_inv_def book_wf_def)
  have fresh: "\<not> resting b i" using holds_gone [OF h, of i] i by (simp add: getOrder_def resting_def)
  have inr: "inRange b p" using h p by (simp add: holds_def inRange_def)
  have other: "view b (opp s) = (if s = BUY then as else bs)" "view b s = (if s = BUY then bs else as)"
    using h by (cases s; simp add: holds_def)+
  obtain b' where b': "submitLimit b s p q i = Some (b', trs)" "view b' (opp s) = others" "view b' s = mine"
    "min_price b' = min_price b" "max_price b' = max_price b"
    by (rule submitLimit_view [OF rep q fresh, of s p]) (use fill inr other in \<open>simp add: mine_def\<close>)
  moreover have "api_inv b'" using submitLimit_api [of b q i s p] h q fresh b'(1) by (auto simp: holds_def)
  ultimately show ?thesis using h by (cases s) (simp_all add: holds_def)
qed

lemma holds_market:
  assumes h: "holds b bs as" and q: "unat q < 2 ^ 63"
    and fill: "fill_entries SELL (\<lambda>_. True) i q bs = (others, r, trs)"
  shows "\<exists>b'. submitMarket b SELL q i = Some (b', trs) \<and> holds b' others as"
proof -
  obtain Q where rep: "book_rep b Q" using h by (auto simp: holds_def api_inv_def book_wf_def)
  have bs: "view b (opp SELL) = bs" using h by (simp add: holds_def)
  obtain b' where b': "submitMarket b SELL q i = Some (b', trs)" "matched_side BUY b b'" "view b' BUY = others"
    by (rule submitMarket_view [OF rep q, of SELL i]) (use fill bs in simp)
  moreover have "api_inv b'" using submitMarket_api [of b q SELL i] h q b'(1) by (auto simp: holds_def)
  ultimately show ?thesis using h by (auto simp: holds_def matched_side_def)
qed

section \<open>The run\<close>

lemma test_resting_passes:
  assumes "holds b [] []"
  shows "\<exists>b'. test_resting b [] = Some (b', []) \<and> holds b' [\<lparr>e_price = 999, e_id = 4, e_qty = 100\<rparr>]
    [\<lparr>e_price = 1000, e_id = 1, e_qty = 100\<rparr>, \<lparr>e_price = 1000, e_id = 2, e_qty = 50\<rparr>, \<lparr>e_price = 1001, e_id = 3, e_qty = 200\<rparr>]"
proof -
  obtain b1 where 1: "addOrder b SELL 1000 100 1 = Some (b1, 1)" "holds b1 [] [\<lparr>e_price = 1000, e_id = 1, e_qty = 100\<rparr>]"
    using holds_add [OF assms, of 1000 1 100 SELL] by (auto simp: insert_entry_def)
  obtain b2 where 2: "addOrder b1 SELL 1000 50 2 = Some (b2, 2)"
    "holds b2 [] [\<lparr>e_price = 1000, e_id = 1, e_qty = 100\<rparr>, \<lparr>e_price = 1000, e_id = 2, e_qty = 50\<rparr>]"
    using holds_add [OF 1(2), of 1000 2 50 SELL] by (auto simp: insert_entry_def)
  obtain b3 where 3: "addOrder b2 SELL 1001 200 3 = Some (b3, 3)"
    "holds b3 [] [\<lparr>e_price = 1000, e_id = 1, e_qty = 100\<rparr>, \<lparr>e_price = 1000, e_id = 2, e_qty = 50\<rparr>,
      \<lparr>e_price = 1001, e_id = 3, e_qty = 200\<rparr>]"
    using holds_add [OF 2(2), of 1001 3 200 SELL] by (auto simp: insert_entry_def)
  obtain b4 where 4: "addOrder b3 BUY 999 100 4 = Some (b4, 4)"
    "holds b4 [\<lparr>e_price = 999, e_id = 4, e_qty = 100\<rparr>] [\<lparr>e_price = 1000, e_id = 1, e_qty = 100\<rparr>,
      \<lparr>e_price = 1000, e_id = 2, e_qty = 50\<rparr>, \<lparr>e_price = 1001, e_id = 3, e_qty = 200\<rparr>]"
    using holds_add [OF 3(2), of 999 4 100 BUY] by (auto simp: insert_entry_def)
  show ?thesis using 4(2) holds_best(1,2) [OF 4(2)]
    by (intro exI [of _ b4]) (simp add: test_resting_def 1(1) 2(1) 3(1) 4(1) check_def notCrossed_def)
qed

lemmas test_steps = check_def notCrossed_def fill_is_def vec_get_def Let_def

lemma test_buy_120_passes:
  assumes "holds b [\<lparr>e_price = 999, e_id = 4, e_qty = 100\<rparr>]
    [\<lparr>e_price = 1000, e_id = 1, e_qty = 100\<rparr>, \<lparr>e_price = 1000, e_id = 2, e_qty = 50\<rparr>, \<lparr>e_price = 1001, e_id = 3, e_qty = 200\<rparr>]"
  shows "\<exists>b'. test_buy_120 b [] = Some (b', []) \<and> holds b' [\<lparr>e_price = 999, e_id = 4, e_qty = 100\<rparr>]
    [\<lparr>e_price = 1000, e_id = 2, e_qty = 30\<rparr>, \<lparr>e_price = 1001, e_id = 3, e_qty = 200\<rparr>]"
proof -
  obtain b' where b': "submitLimit b BUY 1000 120 100 = Some (b',
      [\<lparr>t_price = 1000, t_quantity = 100, t_makerId = 1, t_takerId = 100, t_takerSide = BUY\<rparr>,
       \<lparr>t_price = 1000, t_quantity = 20, t_makerId = 2, t_takerId = 100, t_takerSide = BUY\<rparr>])"
    and h: "holds b' [\<lparr>e_price = 999, e_id = 4, e_qty = 100\<rparr>]
      [\<lparr>e_price = 1000, e_id = 2, e_qty = 30\<rparr>, \<lparr>e_price = 1001, e_id = 3, e_qty = 200\<rparr>]"
    using holds_limit [OF assms, of 1000 100 120 BUY] by (auto simp: Let_def)
  have "left_is b' 2 30 = Some True" using holds_left [OF h, of "\<lparr>e_price = 1000, e_id = 2, e_qty = 30\<rparr>"] by simp
  then show ?thesis using h by (intro exI [of _ b']) (simp add: test_buy_120_def b' test_steps holds_best [OF h] holds_gone [OF h])
qed

lemma test_buy_250_passes:
  assumes "holds b [\<lparr>e_price = 999, e_id = 4, e_qty = 100\<rparr>]
    [\<lparr>e_price = 1000, e_id = 2, e_qty = 30\<rparr>, \<lparr>e_price = 1001, e_id = 3, e_qty = 200\<rparr>]"
  shows "\<exists>b'. test_buy_250 b [] = Some (b', [])
    \<and> holds b' [\<lparr>e_price = 1001, e_id = 101, e_qty = 20\<rparr>, \<lparr>e_price = 999, e_id = 4, e_qty = 100\<rparr>] []"
proof -
  obtain b' where b': "submitLimit b BUY 1001 250 101 = Some (b',
      [\<lparr>t_price = 1000, t_quantity = 30, t_makerId = 2, t_takerId = 101, t_takerSide = BUY\<rparr>,
       \<lparr>t_price = 1001, t_quantity = 200, t_makerId = 3, t_takerId = 101, t_takerSide = BUY\<rparr>])"
    and h: "holds b' [\<lparr>e_price = 1001, e_id = 101, e_qty = 20\<rparr>, \<lparr>e_price = 999, e_id = 4, e_qty = 100\<rparr>] []"
    using holds_limit [OF assms, of 1001 101 250 BUY] by (auto simp: Let_def insert_entry_def)
  have "left_is b' 101 20 = Some True" using holds_left [OF h, of "\<lparr>e_price = 1001, e_id = 101, e_qty = 20\<rparr>"] by simp
  then show ?thesis using h by (intro exI [of _ b']) (simp add: test_buy_250_def b' test_steps holds_best [OF h] holds_gone [OF h])
qed

lemma test_sell_60_passes:
  assumes "holds b [\<lparr>e_price = 1001, e_id = 101, e_qty = 20\<rparr>, \<lparr>e_price = 999, e_id = 4, e_qty = 100\<rparr>] []"
  shows "\<exists>b'. test_sell_60 b [] = Some (b', []) \<and> holds b' [\<lparr>e_price = 999, e_id = 4, e_qty = 60\<rparr>] []"
proof -
  obtain b' where b': "submitLimit b SELL 999 60 102 = Some (b',
      [\<lparr>t_price = 1001, t_quantity = 20, t_makerId = 101, t_takerId = 102, t_takerSide = SELL\<rparr>,
       \<lparr>t_price = 999, t_quantity = 40, t_makerId = 4, t_takerId = 102, t_takerSide = SELL\<rparr>])"
    and h: "holds b' [\<lparr>e_price = 999, e_id = 4, e_qty = 60\<rparr>] []"
    using holds_limit [OF assms, of 999 102 60 SELL] by (auto simp: Let_def)
  have "left_is b' 4 60 = Some True" using holds_left [OF h, of "\<lparr>e_price = 999, e_id = 4, e_qty = 60\<rparr>"] by simp
  then show ?thesis using h by (intro exI [of _ b']) (simp add: test_sell_60_def b' test_steps holds_best [OF h] holds_gone [OF h])
qed

lemma test_rest_100_passes:
  assumes "holds b [\<lparr>e_price = 999, e_id = 4, e_qty = 60\<rparr>] []"
  shows "\<exists>b'. test_rest_100 b [] = Some (b', [])
    \<and> holds b' [\<lparr>e_price = 999, e_id = 4, e_qty = 60\<rparr>, \<lparr>e_price = 950, e_id = 103, e_qty = 100\<rparr>] []"
proof -
  obtain b' where b': "submitLimit b BUY 950 100 103 = Some (b', [])"
    and h: "holds b' [\<lparr>e_price = 999, e_id = 4, e_qty = 60\<rparr>, \<lparr>e_price = 950, e_id = 103, e_qty = 100\<rparr>] []"
    using holds_limit [OF assms, of 950 103 100 BUY] by (auto simp: insert_entry_def)
  have "left_is b' 103 100 = Some True" using holds_left [OF h, of "\<lparr>e_price = 950, e_id = 103, e_qty = 100\<rparr>"] by simp
  then show ?thesis using h by (intro exI [of _ b']) (simp add: test_rest_100_def b' test_steps holds_best [OF h] holds_gone [OF h])
qed

lemma test_market_200_passes:
  assumes "holds b [\<lparr>e_price = 999, e_id = 4, e_qty = 60\<rparr>, \<lparr>e_price = 950, e_id = 103, e_qty = 100\<rparr>] []"
  shows "\<exists>b'. test_market_200 b [] = Some (b', []) \<and> holds b' [] []"
proof -
  obtain b' where b': "submitMarket b SELL 200 104 = Some (b',
      [\<lparr>t_price = 999, t_quantity = 60, t_makerId = 4, t_takerId = 104, t_takerSide = SELL\<rparr>,
       \<lparr>t_price = 950, t_quantity = 100, t_makerId = 103, t_takerId = 104, t_takerSide = SELL\<rparr>])"
    and h: "holds b' [] []"
    using holds_market [OF assms, of 200 104] by (auto simp: Let_def)
  then show ?thesis by (intro exI [of _ b']) (simp add: test_market_200_def b' test_steps holds_best [OF h] holds_gone [OF h])
qed

lemma test_matching_passes:
  "\<exists>b. test_matching = Some \<lparr>x_status = 0, x_out = line_end @ ''MATCHING ENGINE OK'' @ line_end, x_err = [], x_end = Some b\<rparr>
     \<and> view b BUY = [] \<and> view b SELL = []"
proof -
  obtain b where b: "mk_book 1 100000 65536 = Some b" by (simp add: mk_book_def int64_range_def Let_def)
  have "reachable b" by (rule reachable.new [OF b]) (simp_all add: int64_range_def)
  then have inv: "api_inv b" by (rule reachable_inv)
  have rep: "book_rep b (\<lambda>_ _. [])" by (rule mk_book_rep [OF b]) (simp_all add: int64_range_def)
  have "view b s = []" for s by (simp add: view_rep [OF rep] flat_def by_priority_def concat_eq_Nil_conv)
  moreover have "min_price b = 1" "max_price b = 100000" using b by (auto simp: mk_book_def Let_def split: if_splits)
  ultimately have "holds b [] []" using inv by (simp add: holds_def)
  from test_resting_passes [OF this] obtain b1 where 1: "test_resting b [] = Some (b1, [])" and h1: "holds b1
    [\<lparr>e_price = 999, e_id = 4, e_qty = 100\<rparr>] [\<lparr>e_price = 1000, e_id = 1, e_qty = 100\<rparr>, \<lparr>e_price = 1000, e_id = 2, e_qty = 50\<rparr>,
     \<lparr>e_price = 1001, e_id = 3, e_qty = 200\<rparr>]" by blast
  from test_buy_120_passes [OF h1] obtain b2 where 2: "test_buy_120 b1 [] = Some (b2, [])" and h2: "holds b2
    [\<lparr>e_price = 999, e_id = 4, e_qty = 100\<rparr>] [\<lparr>e_price = 1000, e_id = 2, e_qty = 30\<rparr>, \<lparr>e_price = 1001, e_id = 3, e_qty = 200\<rparr>]"
    by blast
  from test_buy_250_passes [OF h2] obtain b3 where 3: "test_buy_250 b2 [] = Some (b3, [])" and h3: "holds b3
    [\<lparr>e_price = 1001, e_id = 101, e_qty = 20\<rparr>, \<lparr>e_price = 999, e_id = 4, e_qty = 100\<rparr>] []" by blast
  from test_sell_60_passes [OF h3] obtain b4 where 4: "test_sell_60 b3 [] = Some (b4, [])"
    and h4: "holds b4 [\<lparr>e_price = 999, e_id = 4, e_qty = 60\<rparr>] []" by blast
  from test_rest_100_passes [OF h4] obtain b5 where 5: "test_rest_100 b4 [] = Some (b5, [])" and h5: "holds b5
    [\<lparr>e_price = 999, e_id = 4, e_qty = 60\<rparr>, \<lparr>e_price = 950, e_id = 103, e_qty = 100\<rparr>] []" by blast
  from test_market_200_passes [OF h5] obtain b6 where 6: "test_market_200 b5 [] = Some (b6, [])" and h6: "holds b6 [] []" by blast
  show ?thesis using h6 by (intro exI [of _ b6]) (simp add: test_matching_def b 1 2 3 4 5 6 holds_def)
qed

end
