(* ===== verification/Contract_Limits.thy ===== *)
theory Contract_Limits
  imports Market_Execution
begin

text \<open>
  What the operations do outside the contract that the code's callers keep: an id that is already in use, and a
  level whose total quantity is zero.
\<close>

section \<open>An id in use\<close>

text \<open>The book with another id map, which its entries do not depend on.\<close>

lemma view_orders [simp]: "view (b\<lparr>orders := om\<rparr>) s = view b s"
proof -
  have "queues (b\<lparr>orders := om\<rparr>) s i = queues b s i" for s i by (simp add: queues_def)
  then have "queues (b\<lparr>orders := om\<rparr>) = queues b" by blast
  then show ?thesis by (simp add: view_def)
qed

text \<open>An order with an id in use is taken; its cancellation leaves the older order, which no id leads to any more.\<close>

lemma add_cancel_orphans:
  assumes rep: "book_rep b Q" and i: "orders b i = Some a" and p: "inRange b p"
  obtains b1 b2 where "addOrder b s p q i = Some (b1, i)" "cancelOrder b1 i = Some (b2, True)"
    "book_rep (b2\<lparr>orders := orders b\<rparr>) Q" "payload (mem b2) = payload (mem b)" "orders b2 i = None"
    "num_levels b2 = num_levels b"
proof -
  let ?k = "nat (p - min_price b)"
  note heap = book_rep_heap [OF rep]
  obtain b1 c where one: "addOrder b s p q i = Some (b1, i)" "heap_rep b1 (Q(s := (Q s)(?k := Q s ?k @ [c])))"
    "load (mem b) c = None" "\<forall>d. d \<noteq> c \<longrightarrow> payload (mem b1) d = payload (mem b) d"
    "payload (mem b1) c = Some (mk_order i s p q 0 LIMIT)"
    "min_price b1 = min_price b" "max_price b1 = max_price b" "orders b1 = (orders b)(i \<mapsto> c)"
    by (rule heap_addOrder [OF heap p, of s q i]) blast
  obtain x where load: "load (mem b1) c = Some x" and "x\<lparr>o_next := None, o_prev := None\<rparr> = mk_order i s p q 0 LIMIT"
    using one(5) by (auto simp: payload_def)
  from arg_cong [OF this(2), of o_side] have x: "load (mem b1) c = Some x" "o_side x = s" using load by (simp_all add: mk_order_def)
  let ?Q1 = "Q(s := (Q s)(?k := Q s ?k @ [c]))"
  have same: "?Q1(s := (?Q1 s)(?k := Q s ?k @ [])) = Q" by (simp add: fun_eq_iff)
  obtain b2 where two: "cancelOrder b1 i = Some (b2, True)" "heap_rep b2 Q"
    "\<forall>d. payload (mem b2) d = (if d = c then None else payload (mem b1) d)"
    "min_price b2 = min_price b1" "max_price b2 = max_price b1" "orders b2 = (orders b1)(i := None)"
    by (rule heap_cancelOrder [OF one(2) _ x, of i ?k "Q s ?k" "[]", unfolded same]) (use one(8) in simp_all)
  have "payload (mem b) c = None" using one(3) by (simp add: payload_def)
  then have pay: "payload (mem b2) = payload (mem b)" using two(3) one(4) by (simp add: fun_eq_iff)
  have "orders b j = Some d \<longleftrightarrow> (\<exists>z. load (mem b2) d = Some z \<and> o_id z = j)" for j d
    unfolding id_payload pay using book_rep_orders [OF rep] id_payload by simp
  moreover have "heap_rep (b2\<lparr>orders := orders b\<rparr>) Q" using two(2) unfolding heap_rep_def by (elim conjE) simp
  ultimately have "book_rep (b2\<lparr>orders := orders b\<rparr>) Q" by (intro book_repI) simp_all
  moreover have "num_levels b2 = num_levels b"
    using heap_rep_parts(1) [OF two(2)] heap_rep_parts(1) [OF heap] two(4,5) one(6,7) by simp
  ultimately show ?thesis using that [OF one(1) two(1)] pay two(6) by simp
qed

lemma view_same_payload:
  assumes "book_rep b Q" "book_rep b' Q" "payload (mem b') = payload (mem b)" "num_levels b' = num_levels b"
  shows "view b' s = view b s"
proof -
  have "entry_of (mem b') = entry_of (mem b)" using assms(3) by (intro ext entry_of_payload) simp
  then show ?thesis using assms(4) by (simp add: view_rep [OF assms(1)] view_rep [OF assms(2)])
qed

text \<open>A level whose first order cannot be cancelled: that order is filled again and again.\<close>

lemma orphan_level:
  assumes rep: "book_rep (b\<lparr>orders := om\<rparr>) Q" and k: "k < num_levels b" "Q (opp s) k = a # as"
    and x: "load (mem b) a = Some x" "orders b (o_id x) = None" "o_quantity x \<noteq> 0"
  shows "n * unat (o_quantity x) < 2 ^ 64 \<Longrightarrow> match_level s (int k) p t b (of_nat n * o_quantity x) trs
    = Some (b, 0, trs @ replicate n \<lparr>t_price = p, t_quantity = o_quantity x, t_makerId = o_id x, t_takerId = t, t_takerSide = s\<rparr>)"
proof (induction n arbitrary: trs)
  case 0
  then show ?case by (subst match_level.simps) simp
next
  case (Suc n)
  let ?v = "o_quantity x" and ?rem = "of_nat (Suc n) * o_quantity x"
  have "unat ?rem = Suc n * unat ?v"
  proof -
    have "of_nat m * ?v = of_nat (m * unat ?v)" for m by simp
    then have "?rem = of_nat (Suc n * unat ?v)" .
    then show ?thesis using Suc.prems unat_of_nat_u64 by metis
  qed
  moreover have "0 < unat ?v" using x(3) by (simp add: unat_gt_0)
  ultimately have r: "?rem > 0" "min ?rem ?v = ?v" "?rem - ?v = of_nat n * ?v"
    by (simp_all add: word_gt_0 unat_gt_0 [symmetric] min_absorb2 word_le_nat_alt algebra_simps del: of_nat_Suc) (simp add: algebra_simps)
  have lv: "vec_get (levels (ladder_of (opp s) b)) (int k) = Some (levels (ladder_of (opp s) b) ! k)"
    "getHead (levels (ladder_of (opp s) b) ! k) = Some a" using level_of [OF rep, of k "opp s"] k by simp_all
  show ?case
    using r lv x cancelOrder_unknown [OF x(2)] Suc.IH Suc.prems
    by (subst match_level.simps) (simp add: Let_def replicate_append_same del: of_nat_Suc)
qed

lemma orphan_fills:
  assumes rep: "book_rep (b\<lparr>orders := om\<rparr>) Q" and e: "view b (opp s) = e # es" and gone: "orders b (e_id e) = None"
    and n: "n * unat (e_qty e) < 2 ^ 64" "e_qty e \<noteq> 0"
  shows "submitMarket b s (of_nat n * e_qty e) t = Some (b, replicate n
    \<lparr>t_price = e_price e, t_quantity = e_qty e, t_makerId = e_id e, t_takerId = t, t_takerSide = s\<rparr>)"
proof (cases "n = 0")
  case True
  then show ?thesis by (simp add: submitMarket_def match_order_def match_levels.simps [of s _ _ b 0])
next
  case False
  let ?b = "b\<lparr>orders := om\<rparr>" and ?limit = "case s of BUY \<Rightarrow> int64_max | SELL \<Rightarrow> int64_min"
  have v: "view ?b (opp s) = e # es" using e by simp
  have "\<not> best_idx (ladder_of (opp s) ?b) < 0" unfolding view_empty [OF rep] v by simp
  then obtain k where k: "best_idx (ladder_of (opp s) b) = int k" by (metis ladder_of_upd(2) not_less nonneg_int_cases)
  have k': "best_idx (ladder_of (opp s) ?b) = int k" using k by simp
  note best = view_best [OF rep k']
  obtain a as where q: "Q (opp s) k = a # as" using best(2) by (cases "Q (opp s) k") auto
  have ea: "e = entry_of (mem b) a" using best(3) q v by simp
  obtain x where x: "load (mem b) a = Some x" using book_rep_queued [OF rep, of a "opp s" k] q by auto
  have ex: "e_price e = o_price x" "e_id e = o_id x" "e_qty e = o_quantity x" by (simp_all add: ea entry_of_def x)
  have price: "indexToPrice b (int k) = e_price e"
    using best_price_view(2) [OF rep, of "opp s"] k v by (simp add: indexToPrice_def)
  have in_range: "int64_range (e_price e)" using book_price_int64 [OF rep, of e "opp s"] v by simp
  then have "\<not> better s (e_price e) ?limit" by (cases s) (auto simp: int64_range_def int64_max_def int64_min_def)
  have level: "match_level s (int k) (e_price e) t b (of_nat n * e_qty e) []
    = Some (b, 0, [] @ replicate n \<lparr>t_price = e_price e, t_quantity = e_qty e, t_makerId = e_id e, t_takerId = t, t_takerSide = s\<rparr>)"
    unfolding ex(2,3) using best(1) gone n unfolding ex(2,3) by (intro orphan_level [OF rep _ q x]) simp_all
  show ?thesis
  proof -
    have "match_levels s ?limit t b 0 trs = Some (b, 0, trs)" for trs by (subst match_levels.simps) simp
    then have "match_levels s ?limit t b (of_nat n * e_qty e) [] = Some (b, 0, replicate n
        \<lparr>t_price = e_price e, t_quantity = e_qty e, t_makerId = e_id e, t_takerId = t, t_takerSide = s\<rparr>)"
    proof (cases "of_nat n * e_qty e = 0")
      case True
      have "of_nat n * e_qty e = of_nat (n * unat (e_qty e))" by simp
      then have "n * unat (e_qty e) = 0" using n(1) True unat_of_nat_u64 [of "n * unat (e_qty e)"] by simp
      then show ?thesis using False n(2) by (simp add: unat_eq_zero)
    next
      case nz: False
      show ?thesis using nz k price \<open>\<not> better s (e_price e) ?limit\<close> level \<open>\<And>trs. match_levels s ?limit t b 0 trs = Some (b, 0, trs)\<close>
        by (subst match_levels.simps) (simp add: word_gt_0 Let_def)
    qed
    then show ?thesis by (simp add: submitMarket_def match_order_def Let_def)
  qed
qed

section \<open>A level of total quantity zero\<close>

lemma fill_entries_all:
  "fill_entries s (\<lambda>_. True) t rem es = (es', rem', trs) \<Longrightarrow> rem' \<noteq> 0 \<Longrightarrow> es' = []"
  by (induction es arbitrary: rem es' rem' trs) (auto simp: Let_def min_def split: prod.splits if_splits)

lemma fill_entries_amount:
  assumes "fill_entries s (\<lambda>_. True) t rem es = (es', rem', trs)"
  shows "traded_qty trs = min (unat rem) (total_qty es)"
  using fill_entries_conserves [OF assms] fill_entries_all [OF assms] by (cases "rem' = 0") auto

lemma empty_level_blocks:
  assumes rep: "book_rep b Q" and l: "price_groups (view b (opp s)) = l # ls" "dl_qty l = 0"
  shows "executeMarketOrder b s q = Some (b, 0)"
proof -
  have "view b (opp s) \<noteq> []" using l(1) by auto
  then have "\<not> best_idx (ladder_of (opp s) b) < 0" unfolding view_empty [OF rep] .
  then obtain k where k: "best_idx (ladder_of (opp s) b) = int k" by (metis not_less nonneg_int_cases)
  note best = view_best [OF rep k] and lv = level_of [OF rep view_best(1) [OF rep k], of "opp s"]
  have part: "view b (opp s) = part (entry_of (mem b)) (Q (opp s)) (k # levels_after (opp s) (num_levels b) k)"
    unfolding best(3) by simp
  have "k \<notin> set (levels_after (opp s) (num_levels b) k)" by (cases "opp s") (auto simp: levels_after_def)
  from price_groups_part [OF rep this, of "opp s"] have "dl_qty l = sum_list (map (qty (mem b)) (Q (opp s) k))"
    using l(1) best(2) unfolding part by auto
  then have zero: "getTotalQuantity (levels (ladder_of (opp s) b) ! k) = 0" using lv(3) l(2) by simp
  have "exec_level s (int k) 0 b 0 = Some (b, 0)" by (subst exec_level.simps) simp
  then have "exec_levels s b q = Some (b, q)"
    using k lv(1) zero by (subst exec_levels.simps) (simp add: Let_def)
  then show ?thesis by (simp add: executeMarketOrder_def)
qed

end
