(* ===== verification/Spec2Isabelle.thy ===== *)
theory Spec2Isabelle
  imports Sample_Feed Sample_Metrics Sample_Runs Console_View Feed_Program Bench_Programs Book_Text Matching_Test
    Contract_Limits
begin

text \<open>
  A verification library for a low-latency limit order book and its metrics pipeline.

  The program has four parts. The order book (\<^verbatim>\<open>include/\<close> and \<^verbatim>\<open>src/orderbook.cpp\<close>) keeps resting orders in
  price-time priority on two ladders of price levels and matches incoming orders against them. The
  feed handler (\<^verbatim>\<open>include/itch_parser.hpp\<close>, \<^verbatim>\<open>include/book_replay.hpp\<close>) parses NASDAQ ITCH 5.0 messages and
  replays one symbol on a book. The metrics pipeline (\<^verbatim>\<open>metrics/include/\<close>) records latencies, trades and
  quotes on the hot thread into a lock-free ring; a second thread drains it into histograms,
  renders a snapshot a few times a second, evaluates alert rules and publishes the snapshot as JSON. Programs
  (\<^verbatim>\<open>metrics/*.cpp\<close>, \<^verbatim>\<open>fpga/tools/itch_dump.cpp\<close>, \<^verbatim>\<open>benchmarks/itch_replay.cpp\<close>) put these together: demos in which one thread
  drives the book and another aggregates, a replay of a capture, a dump and a count of a capture, and two benchmarks.

  Conventions. \<open>None\<close> stands for undefined behaviour (a null or dangling access, an index outside a
  vector, a signed overflow, the wrong member of a union) and for a loop that does not end, so that
  \<open>f x = Some y\<close> says that \<open>f\<close> returns, safely. Machine integers are words of their width; prices and
  other signed values are integers, with \<open>require\<close> where the source could overflow (the spreads of the JSON text and of the
  console among them). What the code takes from its environment
  (clock readings, counter readings, results of system calls, the schedule) is an argument.

  Theories of the order book.
  \<^item> \<open>Prelude\<close>: types, the option monad, vector access and list facts used everywhere.
  \<^item> \<open>Order_Types\<close>: sides, order types, the order record (\<^verbatim>\<open>types.hpp\<close>, \<^verbatim>\<open>order.hpp\<close>) and the heap of slots;
    \<open>Price_Text\<close>: the conversions between prices and dollars. Printing cents is exact below \<open>2 ^ 38\<close>; reading may lose a cent.
  \<^item> \<open>Object_Pool\<close>: the chunked pool with its free list (\<^verbatim>\<open>object_pool.hpp\<close>); allocation never hands out a
    live slot.
  \<^item> \<open>C_Text\<close>: the functions of the C library that read and print numbers and search strings, and the outcome of a program.
  \<^item> \<open>Price_Level\<close>: the intrusive doubly linked list of a level (\<^verbatim>\<open>price_level.hpp\<close>) refines a list of orders.
  \<^item> \<open>Occupancy_Bitmap\<close>: the 64-bit words and the highest and lowest set bit scans (\<^verbatim>\<open>orderbook.hpp\<close>).
  \<^item> \<open>Ladder\<close>: one side of the book: levels, bitmap, best index, level count.
  \<^item> \<open>Order_Book\<close>: the book's state and add, cancel, modify and the queries, as in \<^verbatim>\<open>orderbook.cpp\<close>.
  \<^item> \<open>Book_Rep\<close>, \<open>Book_Spec\<close>: the representation invariant and the abstract book, a list of entries in
    priority order per side; insertion, removal and filling on that list.
  \<^item> \<open>Matching\<close>, \<open>Submission\<close>, \<open>Market_Execution\<close>, \<open>Market_Depth\<close>: the matching loops, \<open>submitLimit\<close>, \<open>submitMarket\<close>,
    \<open>executeMarketOrder\<close> and \<open>getDepth\<close> with their refinement lemmas. The loops are partial functions without fuel;
    that they return is part of each lemma.
  \<^item> \<open>Book_Text\<close>: printing orders and levels; a level of the book prints its entries in priority order.
  \<^item> \<open>Contract_Limits\<close>: what the operations do outside the contract that the code's callers keep: an id in use, and a level
    whose total quantity is zero.
  \<^item> \<open>Book_Api\<close>: the calls of a client as one step relation, the admissible calls, reachable books.

  Theories of the feed handler.
  \<^item> \<open>Itch_Parser\<close>: field readers, \<open>decode\<close> and \<open>parseBuffer\<close> on byte lists, the wire format as an encoder, and
    the framing.
  \<^item> \<open>Order_Store\<close>, \<open>Book_Replay\<close>: the locale \<open>order_store\<close> of the map operations the replay relies on, interpreted
    on the book, and \<open>onMessage\<close> with its effect on the map of live orders.

  Theories of the metrics pipeline.
  \<^item> \<open>Ieee_Double\<close>: doubles as an integer times a power of two, every operation rounded to 53 bits, ties to
    even, with the error bounds and the monotonicity of rounding. Exponent limits, infinities and NaN have no counterpart.
  \<^item> \<open>Event_Queue\<close>, \<open>Spsc_Ring\<close>: the locale \<open>event_queue\<close> and its interpretation on the ring (\<^verbatim>\<open>spsc_ring.hpp\<close>).
  \<^item> \<open>Ring_Interleaving\<close>: one producer and one consumer as an inductive step relation, one access to a shared
    field per step, with the reachable states' invariant.
  \<^item> \<open>Seqlock\<close>: the book view's sequence lock (\<^verbatim>\<open>book_view.hpp\<close>), alone and interleaved word by word.
  \<^item> \<open>Latency_Histogram\<close>: buckets, recording, merging and percentiles (\<^verbatim>\<open>latency_histogram.hpp\<close>).
  \<^item> \<open>Metrics_Snapshot\<close>, \<open>Metrics_Alerts\<close>: the snapshot, \<open>writeJson\<close> into a bounded buffer, and the alert rules.
  \<^item> \<open>Metrics_Recorder\<close>: events, sampling and the drop counter (\<^verbatim>\<open>metrics_recorder.hpp\<close>).
  \<^item> \<open>Aggregator\<close>: \<open>ingest\<close> and \<open>render\<close> (\<^verbatim>\<open>aggregator.hpp\<close>) over what the aggregator has seen.
  \<^item> \<open>Metrics_Pipeline\<close>: the run loop with the recorder at the other end, and its end-to-end accounts.
  \<^item> \<open>Udp_Publisher\<close>, \<open>Frame_Size\<close>, \<open>Console_View\<close>: \<open>send\<close>, the console readout, and the lengths of both texts.
  \<^item> \<open>Book_Metrics\<close>: the book with a recorder attached, which simulates the book without.
  \<^item> \<open>Tsc_Clock\<close>: calibration of the time stamp counter, conversion and percentiles (\<^verbatim>\<open>rdtsc_timer.hpp\<close>).
  \<^item> \<open>Sample_Books\<close>, \<open>Sample_Feed\<close>, \<open>Sample_Metrics\<close>, \<open>Sample_Runs\<close>: small concrete inputs.

  Theories of the programs.
  \<^item> \<open>Demo_Run\<close>: two threads, a hot one and the aggregator's loop, under any schedule, with the shutdown; the locale
    \<open>hot_thread\<close> says what an iteration of a hot thread must keep, for the inputs it admits, so that the accounts add up at the
    end. Each program below interprets it on its own loop.
  \<^item> \<open>Demo_Trader\<close>, \<open>Demo_Engine\<close>, \<open>Demo_Json\<close>, \<open>Demo_Dashboard\<close>, \<open>Demo_Aggregator\<close>: the hot threads of the demos and
    their runs; \<open>Demo_Programs\<close>: each demo from its command line to its report and exit code, bad targets included.
  \<^item> \<open>Feed_Metrics\<close>, \<open>Feed_Run\<close>: the replay of a capture with metrics and its pacing; \<open>Feed_Options\<close>: the option loop, and
    printed flags read back; \<open>Feed_Program\<close>: the whole program with its error exits and summary; \<open>Feed_Tools\<close>: the dump and
    the counts by type.
  \<^item> \<open>Bench_Ring\<close>, \<open>Bench_Overhead\<close>: the stream through the ring, and the timed adds with their percentiles;
    \<open>Bench_Programs\<close>: the two benchmarks with their command lines, timing and reports.
  \<^item> \<open>Matching_Test\<close>: the repository's test of the matching engine (\<^verbatim>\<open>test_matching.cpp\<close>), of which no check fails on the model.

  Bounds. Order quantities of a submission are below \<open>2 ^ 63\<close>, as the code adds and subtracts them as signed
  numbers; the level totals wrap and are exact modulo \<open>2 ^ 64\<close>. The scan of the bitmap is bounded by its words, a
  walk along a level by the pool's slots. The final drain has 65537 pops, one more than the ring holds. A read of
  the sequence lock is whole if fewer than \<open>2 ^ 31\<close> updates fall into it, as its counter has 32 bits and each update
  adds two. The event totals are compared as long as fewer than \<open>2 ^ 63\<close> calls were made.

  Memory order. The interleaved models take the accesses of a thread in program order, one at a time; the
  acquire and release orders of the source are what makes that adequate for the ring, where no slot is ever
  accessed by both sides at once (C18).

  Programs. A program's outcome is its exit status, what it writes to each stream, and the state it ends in (the record
  \<open>program_exit\<close>). A hot thread that is never told to stop and has no deadline is the value \<open>None\<close>. The lengths of runs are
  bounded (fewer than \<open>2 ^ 46\<close> to \<open>2 ^ 61\<close> iterations) so that order ids and event totals do not come round. Sinks run on the
  frames after the run, as they do not act on the aggregator. A paced replay needs a clock that reaches every target or a
  stop flag that is seen. The time stamp counter must have moved during its calibration, as its rate is a divisor; so must
  the clock during a repetition of the ring's benchmark.

  Not modelled. The order in which the frames painted by the aggregator's thread and the reports of \<open>main\<close> reach the same
  output: they are separate texts. Signals other than as run and stop flags that are inputs; thread creation and pinning; the
  system calls that map files and open sockets, the time stamp counter and the clock themselves, whose results are arguments.
  The recorder of the build without \<open>METRICS_ENABLED\<close>, whose functions are empty (the programs that use the book alone are
  those without a recorder). In the C library, hexadecimal numbers, infinities, NaN and negative zero of \<open>atof\<close>. Exhausted
  system memory. The remaining benchmarks and tests, the Verilog feed handler, and the browser dashboard.
\<close>

section \<open>The order book\<close>

text \<open>
  C1: No sequence of admissible calls on a new book ever reaches undefined behaviour (a null or
  dangling dereference, an index outside a vector, a signed overflow) or a loop that does not end:
  on every reachable book every admissible call returns, and the book it leaves is well formed.
\<close>

theorem book_calls_return:
  "reachable b \<Longrightarrow> admissible b c \<Longrightarrow> \<exists>b'. step c b = Some b' \<and> reachable b' \<and> book_wf b'"
  using step_api [OF reachable_inv] reachable.call reachable_wf by metis

theorem book_calls_return_witness:
  "\<exists>b'. step (Submit_Limit BUY 2 6 12) sample_book = Some b' \<and> reachable b' \<and> book_wf b'"
  by (rule book_calls_return [OF sample_reachable]) (simp add: sample_fresh)

text \<open>
  C2: A limit order trades against the other side's entries in priority order as far as its price
  allows, and what is left rests at its place in the priority order of its own side, if its price
  is one the book has (otherwise it is dropped).
\<close>

theorem submitLimit_refines:
  assumes "book_wf b" "unat q < 2 ^ 63" "\<not> resting b t"
  shows "\<exists>b' rem trs. submitLimit b s p q t = Some (b', trs) \<and> book_wf b'
    \<and> fill_entries s (\<lambda>p'. \<not> better s p' p) t q (view b (opp s)) = (view b' (opp s), rem, trs)
    \<and> view b' s = (if rem > 0 \<and> inRange b p
         then insert_entry s \<lparr>e_price = p, e_id = t, e_qty = rem\<rparr> (view b s) else view b s)"
proof -
  obtain Q where rep: "book_rep b Q" using assms(1) by (auto simp: book_wf_def)
  show ?thesis by (rule submitLimit_view [OF rep assms(2,3), of s p]) blast
qed

theorem submitLimit_refines_witness:
  "\<exists>b' rem trs. submitLimit sample_book BUY 2 6 12 = Some (b', trs) \<and> book_wf b'
    \<and> fill_entries BUY (\<lambda>p'. \<not> better BUY p' 2) 12 6 (view sample_book (opp BUY)) = (view b' (opp BUY), rem, trs)
    \<and> view b' BUY = (if rem > 0 \<and> inRange sample_book 2
         then insert_entry BUY \<lparr>e_price = 2, e_id = 12, e_qty = rem\<rparr> (view sample_book BUY)
         else view sample_book BUY)"
  by (rule submitLimit_refines [OF sample_wf]) (simp_all add: sample_fresh)

text \<open>
  C3: Price-time priority and conservation of a limit order's trades: the makers are the entries at
  the front of the other side, each at its own price, none beyond the limit; what the taker gets is
  what the makers lose.
\<close>

theorem submitLimit_trades:
  assumes "book_wf b" "unat q < 2 ^ 63" "\<not> resting b t" "submitLimit b s p q t = Some (b', trs)"
  shows "map t_makerId trs = map e_id (take (length trs) (view b (opp s)))
    \<and> map t_price trs = map e_price (take (length trs) (view b (opp s)))
    \<and> (\<forall>tr \<in> set trs. \<not> better s (t_price tr) p \<and> t_takerId tr = t \<and> t_takerSide tr = s)
    \<and> traded_qty trs \<le> unat q
    \<and> total_qty (view b (opp s)) = total_qty (view b' (opp s)) + traded_qty trs"
proof -
  obtain Q where rep: "book_rep b Q" using assms(1) by (auto simp: book_wf_def)
  obtain rem where f:
    "fill_entries s (\<lambda>p'. \<not> better s p' p) t q (view b (opp s)) = (view b' (opp s), rem, trs)"
    by (rule submitLimit_view [OF rep assms(2,3), of s p]) (use assms(4) in simp)
  show ?thesis
    using fill_entries_priority [OF f] fill_entries_trades [OF f] fill_entries_conserves [OF f] by auto
qed

theorem submitLimit_trades_witness:
  "\<exists>b' trs. map t_makerId trs = map e_id (take (length trs) (view sample_book (opp BUY)))
    \<and> map t_price trs = map e_price (take (length trs) (view sample_book (opp BUY)))
    \<and> (\<forall>tr \<in> set trs. \<not> better BUY (t_price tr) 2 \<and> t_takerId tr = 12 \<and> t_takerSide tr = BUY)
    \<and> traded_qty trs \<le> unat (6::u64)
    \<and> total_qty (view sample_book (opp BUY)) = total_qty (view b' (opp BUY)) + traded_qty trs"
proof -
  have q: "unat (6::u64) < 2 ^ 63" by simp
  obtain b' trs where "submitLimit sample_book BUY 2 6 12 = Some (b', trs)"
    using submitLimit_api [OF reachable_inv [OF sample_reachable] q sample_fresh] by blast
  from submitLimit_trades [OF sample_wf q sample_fresh this] show ?thesis by blast
qed

text \<open>
  C4: A book filled through \<open>submitLimit\<close> and \<open>submitMarket\<close> only is never crossed: starting from an
  uncrossed reachable book, no admissible call other than a bare \<open>addOrder\<close> can cross it.
\<close>

theorem matching_keeps_uncrossed:
  "reachable b \<Longrightarrow> uncrossed b \<Longrightarrow> admissible b c \<Longrightarrow> \<not> stores_unmatched c \<Longrightarrow> step c b = Some b' \<Longrightarrow>
     uncrossed b'"
  using step_uncrossed [OF reachable_inv] by blast

theorem matching_keeps_uncrossed_witness:
  "\<exists>b'. step (Submit_Limit BUY 2 20 12) sample_book = Some b' \<and> uncrossed b'"
proof -
  have ok: "admissible sample_book (Submit_Limit BUY 2 20 12)" by (simp add: sample_fresh)
  obtain b' where "step (Submit_Limit BUY 2 20 12) sample_book = Some b'"
    using step_api [OF reachable_inv [OF sample_reachable] ok] by blast
  with matching_keeps_uncrossed [OF sample_reachable sample_uncrossed ok] show ?thesis by auto
qed

text \<open>
  C5: A market order trades against the best entries of the other side whatever their price and never
  rests: its own side is unchanged.
\<close>

theorem submitMarket_refines:
  assumes "book_wf b" "unat q < 2 ^ 63"
  shows "\<exists>b' rem trs. submitMarket b s q t = Some (b', trs) \<and> book_wf b'
    \<and> fill_entries s (\<lambda>_. True) t q (view b (opp s)) = (view b' (opp s), rem, trs)
    \<and> view b' s = view b s"
proof -
  obtain Q where rep: "book_rep b Q" using assms(1) by (auto simp: book_wf_def)
  show ?thesis
    by (rule submitMarket_view [OF rep assms(2), of s t]) (auto simp: matched_side_def)
qed

theorem submitMarket_refines_witness:
  "\<exists>b' rem trs. submitMarket sample_book BUY 6 12 = Some (b', trs) \<and> book_wf b'
    \<and> fill_entries BUY (\<lambda>_. True) 12 6 (view sample_book (opp BUY)) = (view b' (opp BUY), rem, trs)
    \<and> view b' BUY = view sample_book BUY"
  by (rule submitMarket_refines [OF sample_wf]) simp

text \<open>
  C6: \<open>addOrder\<close> at a price of the book inserts the order behind every entry whose price is at least
  as good, touches nothing else, and returns the id.
\<close>

theorem addOrder_refines:
  assumes "book_wf b" "inRange b p" "\<not> resting b i"
  shows "\<exists>b'. addOrder b s p q i = Some (b', i) \<and> book_wf b'
    \<and> view b' s = insert_entry s \<lparr>e_price = p, e_id = i, e_qty = q\<rparr> (view b s)
    \<and> view b' (opp s) = view b (opp s) \<and> resting b' = (resting b)(i := True)"
proof -
  obtain Q where rep: "book_rep b Q" using assms(1) by (auto simp: book_wf_def)
  have "orders b i = None" using assms(3) by (simp add: resting_def)
  from addOrder_view [OF rep assms(2) this, of s q] show ?thesis by (metis book_wf_def opp_neq(1))
qed

theorem addOrder_refines_witness:
  "\<exists>b'. addOrder sample_book SELL 2 3 12 = Some (b', 12) \<and> book_wf b'
    \<and> view b' SELL = insert_entry SELL \<lparr>e_price = 2, e_id = 12, e_qty = 3\<rparr> (view sample_book SELL)
    \<and> view b' (opp SELL) = view sample_book (opp SELL)
    \<and> resting b' = (resting sample_book)(12 := True)"
  by (rule addOrder_refines [OF sample_wf sample_in_range(1) sample_fresh])

text \<open>
  C7: \<open>cancelOrder\<close> removes the order with the given id from wherever it rests, in any queue position,
  keeps the others in their order, and reports whether there was one.
\<close>

theorem cancelOrder_refines:
  assumes "book_wf b"
  shows "\<exists>b'. cancelOrder b i = Some (b', resting b i) \<and> book_wf b'
    \<and> (\<forall>s. view b' s = remove_entry i (view b s)) \<and> resting b' = (resting b)(i := False)"
proof -
  obtain Q where rep: "book_rep b Q" using assms by (auto simp: book_wf_def)
  show ?thesis
  proof (cases "orders b i")
    case None
    then have nr: "\<not> resting b i" by (simp add: resting_def)
    then have "remove_entry i (view b s) = view b s" for s
      using view_ids_sides [OF rep, of i s] by (force simp: remove_entry_def filter_id_conv)
    with nr assms cancelOrder_unknown [OF None] show ?thesis by (auto simp: fun_upd_idem)
  next
    case (Some a)
    obtain s k where a: "a \<in> set (Q s k)" by (rule orders_queued [OF rep Some])
    obtain b' where b': "cancelOrder b i = Some (b', True)" "book_rep b' (Q(s := (Q s)(k := remove1 a (Q s k))))"
      "\<forall>t. view b' t = remove_entry i (view b t)" "orders b' = (orders b)(i := None)"
      using cancelOrder_view [OF rep Some a] by metis
    then show ?thesis using Some by (auto simp: resting_def book_wf_def fun_eq_iff)
  qed
qed

theorem cancelOrder_refines_witness:
  "\<exists>b'. cancelOrder sample_book 10 = Some (b', resting sample_book 10) \<and> book_wf b'
    \<and> (\<forall>s. view b' s = remove_entry 10 (view sample_book s))
    \<and> resting b' = (resting sample_book)(10 := False)"
  by (rule cancelOrder_refines [OF sample_wf])

text \<open>
  C8: \<open>modifyOrder\<close> changes the quantity of the order with the given id in place: it keeps its queue
  position, even when the quantity grows.
\<close>

theorem modifyOrder_refines:
  assumes "book_wf b" "small_quantities b" "unat q < 2 ^ 63"
  shows "\<exists>b'. modifyOrder b i q = Some (b', resting b i) \<and> book_wf b'
    \<and> (\<forall>s. view b' s = requantify_entry i q (view b s)) \<and> resting b' = resting b"
proof -
  obtain Q where rep: "book_rep b Q" using assms by (auto simp: book_wf_def)
  show ?thesis
  proof (cases "orders b i")
    case None
    then have nr: "\<not> resting b i" by (simp add: resting_def)
    then have "requantify_entry i q (view b s) = view b s" for s
      using view_ids_sides [OF rep, of i s] by (force simp: requantify_entry_def intro!: map_idI)
    with nr assms modifyOrder_unknown [OF None] show ?thesis by auto
  next
    case (Some a)
    then obtain x where x: "load (mem b) a = Some x" using book_rep_orders [OF rep] by blast
    obtain b1 r where "modifyOrder b i q = Some (b1, r)"
      using modifyOrder_api [of b q i] assms by (auto simp: api_inv_def)
    then have "int64_range (sint q - sint (o_quantity x))"
      using Some x by (auto simp: modifyOrder_def)
    then obtain b' where b': "modifyOrder b i q = Some (b', True)" "book_rep b' Q"
      "\<forall>t. view b' t = requantify_entry i q (view b t)" "orders b' = orders b"
      using modifyOrder_view [OF rep Some x] by metis
    then show ?thesis using Some by (auto simp: resting_def book_wf_def fun_eq_iff)
  qed
qed

theorem modifyOrder_refines_witness:
  "\<exists>b'. modifyOrder sample_book 10 9 = Some (b', resting sample_book 10) \<and> book_wf b'
    \<and> (\<forall>s. view b' s = requantify_entry 10 9 (view sample_book s)) \<and> resting b' = resting sample_book"
proof (rule modifyOrder_refines [OF sample_wf])
  show "small_quantities sample_book"
    using reachable_inv [OF sample_reachable] by (simp add: api_inv_def)
qed simp

text \<open>
  C9: The cached values are those of the resting orders: the best prices are the highest bid and the lowest ask
  (0 on an empty side), the spread is their difference, and the counters count the orders and, per side, the
  non-empty levels (modulo the width of \<open>size_t\<close>).
\<close>

theorem cached_values:
  assumes "book_wf b"
  shows "getBestBid b = (if view b BUY = [] then 0 else Max (e_price ` set (view b BUY)))
    \<and> getBestAsk b = (if view b SELL = [] then 0 else Min (e_price ` set (view b SELL)))
    \<and> getSpread b = (if view b BUY = [] \<or> view b SELL = [] then 0 else getBestAsk b - getBestBid b)
    \<and> getTotalOrders b = of_nat (length (view b BUY) + length (view b SELL))
    \<and> getActiveBids b = of_nat (card (e_price ` set (view b BUY)))
    \<and> getActiveAsks b = of_nat (card (e_price ` set (view b SELL)))"
proof -
  obtain Q where rep: "book_rep b Q" using assms by (auto simp: book_wf_def)
  have "getBestBid b = Max (e_price ` set (view b BUY))" if "view b BUY \<noteq> []"
    using that view_sorted [OF rep, of BUY] unfolding getBestBid_view [OF rep]
    by (cases "view b BUY") (auto intro!: Max_eqI [symmetric])
  moreover have "getBestAsk b = Min (e_price ` set (view b SELL))" if "view b SELL \<noteq> []"
    using that view_sorted [OF rep, of SELL] unfolding getBestAsk_view [OF rep]
    by (cases "view b SELL") (auto intro!: Min_eqI [symmetric])
  moreover have "getTotalOrders b = of_nat (length (view b BUY) + length (view b SELL))"
    using book_rep_total [OF rep] card_entries [OF rep] by (simp add: getTotalOrders_def)
  ultimately show ?thesis
    using view_empty [OF rep, of BUY] view_empty [OF rep, of SELL]
      level_count_view [OF rep, of BUY] level_count_view [OF rep, of SELL]
    by (auto simp: getBestBid_def getBestAsk_def getSpread_def getActiveBids_def getActiveAsks_def)
qed

theorem cached_values_witness:
  "getBestBid sample_book = 1 \<and> getBestAsk sample_book = 2 \<and> getTotalOrders sample_book = 3
   \<and> getActiveBids sample_book = 1 \<and> getActiveAsks sample_book = 1"
  using cached_values [OF sample_wf] by (simp add: sample_view)

text \<open>
  C10: \<open>getDepth k\<close> is the first \<open>k\<close> price levels of each side in priority order, each with the sum of
  its orders' quantities; it never reads outside the vectors, whatever \<open>k\<close> is.
\<close>

theorem getDepth_refines:
  "book_wf b \<Longrightarrow>
     getDepth b k = Some (take (nat k) (price_groups (view b BUY)), take (nat k) (price_groups (view b SELL)))"
  unfolding book_wf_def using getDepth_view by blast

theorem getDepth_refines_witness:
  "getDepth sample_book 5 =
     Some ([\<lparr>dl_price = 1, dl_qty = 4\<rparr>], [\<lparr>dl_price = 2, dl_qty = 12\<rparr>])"
  unfolding getDepth_refines [OF sample_wf] by (simp add: sample_view)

text \<open>
  C11: When no order of the other side has quantity zero and its quantities add up to less than
  \<open>2 ^ 64\<close>, \<open>executeMarketOrder\<close> leaves the book that a market submission leaves, and returns the
  quantity that submission trades.
\<close>

theorem executeMarketOrder_refines:
  assumes "book_wf b" "\<forall>e \<in> set (view b (opp s)). e_qty e \<noteq> 0" "total_qty (view b (opp s)) < 2 ^ 64"
  shows "\<exists>b' rem trs. executeMarketOrder b s q = Some (b', q - rem) \<and> book_wf b'
    \<and> fill_entries s (\<lambda>_. True) t q (view b (opp s)) = (view b' (opp s), rem, trs)
    \<and> view b' s = view b s \<and> unat (q - rem) = traded_qty trs"
proof -
  obtain Q where rep: "book_rep b Q" using assms(1) by (auto simp: book_wf_def)
  obtain b' rem trs where ex: "exec_levels s b q = Some (b', rem)" "matched_side (opp s) b b'"
    "fill_entries s (\<lambda>_. True) t q (view b (opp s)) = (view b' (opp s), rem, trs)"
    using exec_levels_fills [OF rep assms(2,3)] by blast
  have "unat q = unat rem + traded_qty trs" using fill_entries_conserves [OF ex(3)] by simp
  then have "unat (q - rem) = traded_qty trs"
    using unat_diff [of rem q] by (simp add: word_le_nat_alt)
  then show ?thesis
    using ex by (intro exI [of _ b'] exI [of _ rem] exI [of _ trs])
      (simp add: executeMarketOrder_def matched_side_def)
qed

theorem executeMarketOrder_refines_witness:
  "\<exists>b' rem trs. executeMarketOrder sample_book BUY 6 = Some (b', 6 - rem) \<and> book_wf b'
    \<and> fill_entries BUY (\<lambda>_. True) 12 6 (view sample_book (opp BUY)) = (view b' (opp BUY), rem, trs)
    \<and> view b' BUY = view sample_book BUY \<and> unat (6 - rem) = traded_qty trs"
  by (rule executeMarketOrder_refines [OF sample_wf]) (simp_all add: sample_view)

section \<open>The market data feed\<close>

text \<open>
  C12: \<open>decode\<close> reads nothing but the \<open>len\<close> bytes it is given, whatever they are, and returns the fields of the
  ITCH 5.0 layout: it accepts exactly the seven modelled types in their full length, and no earlier
  content of the message shows through.
\<close>

theorem decode_reads_message:
  "len \<le> length b \<Longrightarrow> decode b len m = Some (decode_layout (take len b) m)"
  by (rule decode_as_layout)

theorem decode_reads_message_witness:
  "decode (encode [0, 0, 0, 0] [] sample_add) 20 new_message = Some (False, new_message\<lparr>m_type := 65\<rparr>)"
proof -
  have "20 \<le> length (encode [0, 0, 0, 0] [] sample_add)" by code_simp
  moreover have "decode_layout (take 20 (encode [0, 0, 0, 0] [] sample_add)) new_message
      = (False, new_message\<lparr>m_type := 65\<rparr>)" by code_simp
  ultimately show ?thesis using decode_reads_message by simp
qed

text \<open>
  C13: Decoding inverts the wire encoding, for each of the seven message types and all field values.
\<close>

theorem decode_inverts_encode:
  assumes "canonical m" "length loc = 4" "length ext = ext_length (m_type m)"
  shows "decode (encode loc ext m) (length (encode loc ext m)) m0 = Some (True, m)"
  using assms by (rule decode_encode)

theorem decode_inverts_encode_witness:
  "decode (encode [0, 1, 0, 2] [] sample_add) (length (encode [0, 1, 0, 2] [] sample_add)) new_message
     = Some (True, sample_add)"
  by (rule decode_inverts_encode [OF sample_add_canonical]) (simp_all add: ext_length_def sample_add_def)

text \<open>
  C14: On arbitrary bytes, a truncated or corrupt capture included, \<open>parseBuffer\<close> returns and never reads outside
  the buffer, keeps whatever the callback keeps, and counts at most one message per 21 bytes; on a buffer of
  length-prefixed messages it calls back on the modelled ones, each once, in order, and skips the others by their length.
\<close>

theorem parseBuffer_delivers:
  assumes "sz \<le> length data" "\<And>m s. I s \<Longrightarrow> \<exists>s'. fn m s = Some s' \<and> I s'" "I s"
  shows "\<exists>n s'. parseBuffer data sz fn s = Some (n, s') \<and> I s' \<and> 21 * n \<le> sz
    \<and> (\<forall>bodies. data = concat (map frame bodies) \<and> sz = length data
          \<and> (\<forall>body \<in> set bodies. 0 < length body \<and> length body < 65536) \<longrightarrow> deliver fn bodies 0 s = Some (n, s'))"
proof -
  have "\<exists>n s'. parseBuffer data sz fn s = Some (n, s') \<and> I s' \<and> 21 * n \<le> sz"
    using assms by (rule parseBuffer_safe)
  then obtain n s' where n: "parseBuffer data sz fn s = Some (n, s')" "I s'" "21 * n \<le> sz" by blast
  moreover have "deliver fn bodies 0 s = Some (n, s')" if "data = concat (map frame bodies)" "sz = length data"
    "\<forall>body \<in> set bodies. 0 < length body \<and> length body < 65536" for bodies
    using n(1) parseBuffer_framed [OF that(3), of fn s] unfolding that(1,2) by simp
  ultimately show ?thesis by blast
qed

theorem parseBuffer_delivers_witness:
  "\<exists>n s'. parseBuffer (concat (map frame sample_bodies)) (length (concat (map frame sample_bodies))) (\<lambda>m n. Some (n + 1)) (0::nat)
       = Some (n, s') \<and> 21 * n \<le> length (concat (map frame sample_bodies))
     \<and> deliver (\<lambda>m n. Some (n + 1)) sample_bodies 0 0 = Some (n, s')"
  using parseBuffer_delivers [of "length (concat (map frame sample_bodies))" "concat (map frame sample_bodies)"
      "\<lambda>n. n \<ge> (0::nat)" "\<lambda>m n. Some (n + 1)" 0] sample_bodies_framed by fastforce

text \<open>
  C15: A feed message does to the live orders of the symbol what ITCH says, provided a new reference is not in
  use: an add of the symbol stores the order, a delete removes it, an execution or partial cancel lowers its
  quantity and removes it at zero, a replacement moves it to a new reference on the same side; everything else,
  references to unknown orders and prices outside the book included, leaves them alone (a replacement at such a
  price removes the order).
\<close>

theorem onMessage_applies:
  assumes "api_inv (r_book r)" "fresh_refs m (order_map (r_book r))"
  shows "\<exists>r'. onMessage m r = Some r' \<and> api_inv (r_book r')
    \<and> order_map (r_book r') = apply_message (r_target r) (inRange (r_book r)) m (order_map (r_book r))
    \<and> r_seen r' = r_seen r + 1"
  using onMessage_refines [OF assms] by (auto simp: replay_ok_def)

theorem onMessage_applies_witness:
  "\<exists>r'. onMessage sample_add sample_replay = Some r' \<and> api_inv (r_book r')
    \<and> order_map (r_book r') = apply_message (r_target sample_replay) (inRange (r_book sample_replay)) sample_add
        (order_map (r_book sample_replay))
    \<and> r_seen r' = r_seen sample_replay + 1"
  by (rule onMessage_applies [OF sample_replay_inv sample_add_fresh])

text \<open>
  C16: A whole capture, parsed and replayed: the book ends with exactly the orders that applying its messages one
  after the other to the map of live orders leaves, and no message is missed.
\<close>

theorem replay_stream:
  assumes "\<forall>body \<in> set bodies. 0 < length body \<and> length body < 65536" "api_inv (r_book r)"
    and "fresh_stream (r_target r) (inRange (r_book r)) (modelled_messages bodies) (order_map (r_book r))"
  shows "\<exists>r'. parseBuffer (concat (map frame bodies)) (length (concat (map frame bodies))) onMessage r
        = Some (length (modelled_messages bodies), r')
    \<and> order_map (r_book r') = fold (apply_message (r_target r) (inRange (r_book r))) (modelled_messages bodies)
        (order_map (r_book r))
    \<and> r_seen r' = r_seen r + of_nat (length (modelled_messages bodies))"
  unfolding parseBuffer_def using parse_frames [of bodies 0 "concat (map frame bodies)" onMessage 0 r]
    deliver_onMessage [OF assms(2,3), of 0] assms(1) by (auto simp: replay_ok_def)

theorem replay_stream_witness:
  "\<exists>r'. parseBuffer (concat (map frame sample_bodies)) (length (concat (map frame sample_bodies))) onMessage sample_replay
        = Some (length (modelled_messages sample_bodies), r')
    \<and> order_map (r_book r') = fold (apply_message (r_target sample_replay) (inRange (r_book sample_replay)))
        (modelled_messages sample_bodies) (order_map (r_book sample_replay))
    \<and> r_seen r' = r_seen sample_replay + of_nat (length (modelled_messages sample_bodies))"
  by (rule replay_stream [OF sample_bodies_framed sample_replay_inv sample_stream_fresh])

section \<open>The metrics pipeline\<close>

text \<open>
  C17: The ring is a bounded first-in first-out queue: \<open>try_push\<close> appends its element unless the
  queue holds as many as the capacity, and \<open>try_pop\<close> takes the oldest one unless the queue is empty, across
  the wrap-around of the counters.
\<close>

theorem ring_is_queue:
  assumes "valid_cap cap" "ring_inv cap r"
  shows "\<exists>r1 r2. try_push cap v r = Some (r1, length (ring_contents cap r) < unat cap) \<and> ring_inv cap r1
    \<and> ring_contents cap r1 = ring_contents cap r @ (if length (ring_contents cap r) < unat cap then [v] else [])
    \<and> try_pop cap r = Some (r2, first_of (ring_contents cap r)) \<and> ring_inv cap r2
    \<and> ring_contents cap r2 = tl (ring_contents cap r)"
  using ring_push [OF assms, of v] ring_pop [OF assms] by blast

theorem ring_is_queue_witness:
  "\<exists>r1. try_push 2 5 (mk_ring 2 :: nat ring) = Some (r1, True) \<and> ring_inv 2 r1 \<and> ring_contents 2 r1 = [5]"
  using ring_is_queue [OF cap_2 ring_new [OF cap_2, THEN conjunct1], of "5 :: nat"] ring_new [OF cap_2, where ?'a = nat]
  by auto

text \<open>
  C18: One producer and one consumer, interleaved in any way at their accesses to the shared fields: the
  consumer has taken a prefix of what was pushed, never more than the capacity behind; the two never
  access one slot at the same time; and every slot read was written.
\<close>

theorem concurrent_ring_safe:
  assumes "valid_cap cap" "ring_reachable cap s"
  shows "(\<exists>rest. pushed s = popped s @ rest \<and> length rest \<le> unat cap)
    \<and> \<not> (\<exists>v h t. producer s = P_Write v h \<and> consumer s = C_Read t \<and> slot_index cap h = slot_index cap t)
    \<and> \<not> (\<exists>v h. producer s = P_Write v h \<and> store_slot cap h v (shared s) = None)
    \<and> \<not> (\<exists>t. consumer s = C_Read t \<and> fetch_slot cap t (shared s) = None)"
  using reachable_fifo [OF assms] reachable_race_free [OF assms] reachable_accesses [OF assms] by fastforce

theorem concurrent_ring_safe_witness:
  "producer sample_threads = P_Write 6 1 \<and> consumer sample_threads = C_Read 0 \<and> slot_index 2 1 \<noteq> slot_index 2 0"
  using concurrent_ring_safe [OF cap_2 sample_threads_reachable] by (auto simp: sample_threads_def)

text \<open>
  C19: Both calls are wait-free. In any run of the two threads from a reachable state, whatever the other thread does in
  between, a thread that has made four steps of its own has been outside a call: no call takes more than four further
  accesses once it has loaded its own counter, and none is ever started over. And no thread is ever blocked: inside a call
  it can always make its next step, in whatever state the other one is.
\<close>

theorem ring_calls_return:
  assumes "valid_cap cap" "ring_reachable cap s" "successively (ring_step cap) (s # ss)"
  shows "(4 \<le> own_steps producer (s # ss) \<longrightarrow> P_Idle \<in> producer ` set (s # ss))
    \<and> (4 \<le> own_steps consumer (s # ss) \<longrightarrow> C_Idle \<in> consumer ` set (s # ss))
    \<and> (\<forall>t \<in> set (s # ss).
         (producer t \<noteq> P_Idle \<longrightarrow> (\<exists>t'. ring_step cap t t' \<and> producer t' \<noteq> producer t \<and> consumer t' = consumer t))
       \<and> (consumer t \<noteq> C_Idle \<longrightarrow> (\<exists>t'. ring_step cap t t' \<and> consumer t' \<noteq> consumer t \<and> producer t' = producer t)))"
  using push_returns [OF assms(3)] pop_returns [OF assms(3)] never_blocked [OF assms(1) ring_run_reachable [OF assms(2,3)]] by blast

text \<open>The consumer reads its element, the producer writes its own, and the consumer returns and begins the next call.\<close>

theorem ring_calls_return_witness:
  "\<exists>ss. successively (ring_step 2) (sample_threads # ss) \<and> own_steps consumer (sample_threads # ss) = 4
     \<and> C_Idle \<in> consumer ` set (sample_threads # ss)
     \<and> (\<exists>t. ring_step 2 (last ss) t \<and> producer t \<noteq> P_Publish 6 1 \<and> consumer t = C_Recheck 1)"
proof -
  let ?r = "sample_ring\<lparr>ring_buf := [Some 5, Some 6]\<rparr>"
  let ?a = "sample_threads\<lparr>consumer := C_Publish 0 5\<rparr>"
  let ?b = "?a\<lparr>shared := ?r, producer := P_Publish 6 1\<rparr>"
  let ?c = "?b\<lparr>shared := ?r\<lparr>tail := 1\<rparr>, consumer := C_Idle, popped := [5]\<rparr>"
  let ?d = "?c\<lparr>consumer := C_Check 1\<rparr>"
  let ?e = "?d\<lparr>shared := ?r\<lparr>tail := 1, head_cache := 1\<rparr>, consumer := C_Recheck 1\<rparr>"
  let ?ss = "[?a, ?b, ?c, ?d, ?e]"
  have mem: "fetch_slot 2 0 (shared sample_threads) = Some 5" "store_slot 2 1 6 (shared ?a) = Some ?r" by code_simp+
  have "ring_step 2 sample_threads ?a" using mem(1) by (intro pop_read) (simp_all add: sample_threads_def)
  moreover have "ring_step 2 ?a ?b" using mem(2) by (intro push_write) (simp_all add: sample_threads_def)
  moreover have "ring_step 2 ?b ?c" using pop_publish [of ?b 0 5 2] by (simp add: sample_threads_def)
  moreover have "ring_step 2 ?c ?d" using pop_call [of ?c 2] by (simp add: sample_threads_def)
  moreover have "ring_step 2 ?d ?e" using pop_refresh [of ?d 1 2] by (simp add: sample_threads_def sample_ring_def)
  ultimately have run: "successively (ring_step 2) (sample_threads # ?ss)" by simp
  have own: "own_steps consumer (sample_threads # ?ss) = 4" by (simp add: sample_threads_def)
  note all = ring_calls_return [OF cap_2 sample_threads_reachable run]
  have "?e \<in> set (sample_threads # ?ss)" "producer ?e = P_Publish 6 1" "consumer ?e = C_Recheck 1" by simp_all
  then have "\<exists>t. ring_step 2 ?e t \<and> producer t \<noteq> P_Publish 6 1 \<and> consumer t = C_Recheck 1" using all by fastforce
  moreover have "last ?ss = ?e" by simp
  ultimately show ?thesis using run own all by (intro exI [of _ ?ss]) (simp only: order_refl simp_thms)
qed

text \<open>
  C20: A read of the book view that reports success returns one published view, whole, although the
  writer may have been changing it word by word meanwhile: the latest one that was complete when the reader
  took its counter, provided fewer than \<open>2 ^ 31\<close> updates happened during the read.
\<close>

theorem seqlock_reads_whole:
  assumes "lock_reachable n s" "view_reader s = R_Done out" "checked_at s < taken_at s + 2 ^ 31"
  shows "taken_at s < length (published s) \<and> out = published s ! taken_at s"
  using assms by (rule read_untorn)

theorem seqlock_reads_whole_witness: "published sample_lock ! taken_at sample_lock = [7]"
  using seqlock_reads_whole [OF sample_lock_reachable, of "[7]"] by (simp add: sample_lock_def lock_start_def)

text \<open>
  C21: Every 32-bit latency has a bucket of the array; the bucket's representative is at most the
  latency and at most 1/32 of it below; and buckets keep the order of the latencies.
\<close>

theorem bucket_error:
  assumes "v \<le> w"
  shows "unat (bucketOf v) < unat NB \<and> unat (valueOf (bucketOf v)) \<le> unat v
    \<and> 32 * (unat v - unat (valueOf (bucketOf v))) \<le> unat v \<and> bucketOf v \<le> bucketOf w"
  using bucketOf_bound [of v] valueOf_bucketOf [of v] bucketOf_mono [OF assms] by simp

theorem bucket_error_witness: "unat (valueOf (bucketOf 1000)) \<le> 1000 \<and> bucketOf 1000 \<le> bucketOf 4000000000"
  using bucket_error [of 1000 4000000000] by (simp add: word_le_nat_alt)

text \<open>
  C22: A percentile returns, and it is the representative of the sample at the computed rank of the
  recorded samples in order, the rank kept between 1 and their number; the median is exact up to the bucket:
  its rank is \<open>(n + 1) div 2\<close>, in spite of the floating-point rank.
\<close>

theorem percentile_is_sample:
  assumes "h_records xs h_reset = Some h" "xs \<noteq> []" "length xs < 2 ^ 53" "0 \<le> val p" "val p \<le> 100"
  shows "(\<exists>r. percentile_rank p (of_nat (length xs)) = Some r
      \<and> h_percentile p h = Some (valueOf (bucketOf (sort xs ! (kept_rank (length xs) (unat r) - 1)))))
    \<and> h_percentile (d_of_int 50) h = Some (valueOf (bucketOf (sort xs ! ((length xs - 1) div 2))))"
proof
  have n: "length xs < 2 ^ 64" "unat (of_nat (length xs) :: u64) = length xs" "0 < length xs"
    using assms(2,3) by (simp_all add: unat_of_nat_u64)
  note ranked = h_percentile_rank [OF h_records_hist_rep [OF assms(1)] assms(2) n(1)]
  have "unat (of_nat (length xs) :: u64) < 2 ^ 63" using n(2) assms(3) by simp
  from percentile_rank_defined [OF assms(4,5) this] obtain r where "percentile_rank p (of_nat (length xs)) = Some r" ..
  then show "\<exists>r. percentile_rank p (of_nat (length xs)) = Some r
      \<and> h_percentile p h = Some (valueOf (bucketOf (sort xs ! (kept_rank (length xs) (unat r) - 1))))"
    using ranked by blast
  let ?r = "of_nat ((length xs + 1) div 2) :: u64"
  have r: "percentile_rank (d_of_int 50) (of_nat (length xs)) = Some ?r"
    using median_rank [of "of_nat (length xs)"] n(2) assms(3) by simp
  have "unat ?r = (length xs + 1) div 2" using assms(3) by (intro unat_of_nat_u64) simp
  then have "kept_rank (length xs) (unat ?r) - 1 = (length xs - 1) div 2" using n(3) by (simp add: kept_rank_def)
  then show "h_percentile (d_of_int 50) h = Some (valueOf (bucketOf (sort xs ! ((length xs - 1) div 2))))"
    using ranked [OF r] by simp
qed

theorem percentile_is_sample_witness:
  "(\<exists>r. percentile_rank (d_of_int 99) 3 = Some r
     \<and> h_percentile (d_of_int 99) sample_hist = Some (valueOf (bucketOf ([9, 40, 70] ! (kept_rank 3 (unat r) - 1)))))
   \<and> h_percentile (d_of_int 50) sample_hist = Some (valueOf (bucketOf 40))"
  using percentile_is_sample [OF sample_hist_records sample_latencies_sorted(3), of "d_of_int 99"] percentages
  by (simp add: sample_latencies_sorted)

text \<open>
  C23: The recorder offers every snapshot and every trade to the ring and one latency in \<open>2 ^ k\<close>, beginning
  with the first; on a ring nobody drains the first 65536 of them are stored in order, and each further one
  is counted as a drop.
\<close>

theorem recorder_accounts:
  assumes "k \<le> 32"
  shows "\<exists>r. record_calls cs (mk_recorder (mask k)) = Some r
    \<and> ring_contents ring_cap (rec_ring r) = take 65536 (offered k 0 cs)
    \<and> rec_drops r = of_nat (length (offered k 0 cs) - 65536)"
  using record_calls_works [OF _ _ assms, of "mk_recorder (mask k)" 0 cs] new_recorder [of "mask k"] by auto

theorem recorder_accounts_witness:
  "\<exists>r. record_calls sample_calls (mk_recorder (mask 1)) = Some r
     \<and> ring_contents ring_cap (rec_ring r) = take 65536 (offered 1 0 sample_calls)
     \<and> rec_drops r = of_nat (length (offered 1 0 sample_calls) - 65536)"
  by (rule recorder_accounts) simp

text \<open>
  C24: A render cycle returns, rolls the current window into the totals, and shows what the aggregator has
  seen: the totals, the last quote and trade price, a row for each operation seen so far with the percentiles
  of the window and the all-time maximum, in ascending order after all roundings, the published book view if one was
  read, and the trades newest first.
\<close>

theorem render_shows:
  assumes "agg_rep a old new" "length (old @ new) < 2 ^ 63"
    and "\<forall>p bv. bookpub = Some p \<and> read_view p = Some bv \<longrightarrow> view_ok bv"
  shows "\<exists>a' snap. render t_now t_start final drops bookpub a = Some (a', snap) \<and> agg_rep a' (old @ new) []
    \<and> rendered a snap (seconds (t_now - t_start)) (seconds (t_now - ag_last_render a)) old new
    \<and> (\<forall>x \<in> set (take (s_num_ops snap) (s_ops snap)). row_ordered x)
    \<and> s_final snap = final \<and> s_drops snap = drops
    \<and> shows_view (case Option.bind bookpub read_view of None \<Rightarrow> empty_view | Some bv \<Rightarrow> bv) snap
    \<and> take (s_num_alerts snap) (s_alerts snap) = take CAP (due_alerts snap (ag_alert_cfg a) (ag_last_drops a))"
  using render_works [OF assms, of t_now t_start final drops] rendered_ordered [OF _ assms(2)] by blast

theorem render_shows_witness:
  "\<exists>a' snap. render 700 100 False 3 None sample_aggregator = Some (a', snap) \<and> agg_rep a' [] []
     \<and> s_drops snap = 3 \<and> s_ntape snap = 0"
  using render_shows [OF sample_aggregator_rep, of None 700 100 False 3] by (auto simp: rendered_def)

text \<open>
  C25: The alerts of a snapshot are those that are due, in the order of the rules, as far as the array
  has room: a crossed book, a spread above the threshold, new drops since the last cycle, and each operation
  whose window p99 exceeds the threshold; nothing else of the snapshot changes.
\<close>

theorem alerts_due:
  assumes "length (s_alerts s) = CAP" "s_num_ops s \<le> length (s_ops s)"
  shows "\<exists>s'. evaluateAlerts s cfg ld = Some (s', s_drops s) \<and> alerted s (due_alerts s cfg ld) s'"
  using assms by (rule evaluateAlerts_works)

theorem alerts_due_witness:
  "\<exists>s'. evaluateAlerts (new_snapshot\<lparr>s_drops := 9\<rparr>) default_config 2 = Some (s', 9)
     \<and> alerted (new_snapshot\<lparr>s_drops := 9\<rparr>) [drops_alert (new_snapshot\<lparr>s_drops := 9\<rparr>) 2] s'"
proof -
  have "due_alerts (new_snapshot\<lparr>s_drops := 9\<rparr>) default_config 2 = [drops_alert (new_snapshot\<lparr>s_drops := 9\<rparr>) 2]"
    by (simp add: due_alerts_def new_snapshot_def default_config_def word_less_nat_alt)
  then show ?thesis using alerts_due [of "new_snapshot\<lparr>s_drops := 9\<rparr>" default_config 2]
    by (simp add: new_snapshot_def CAP_def)
qed

text \<open>
  C26: \<open>writeJson\<close> returns, leaves in the buffer the snapshot's JSON text cut to what fits before the
  terminator, and returns the length of that; it writes nothing outside the buffer. The spread of the snapshot's two best
  prices must be a 64-bit number, as it is computed in \<^verbatim>\<open>int64_t\<close>; without that the call is undefined.
\<close>

theorem json_in_buffer:
  assumes "snapshot_ok s" "s_have_book s \<Longrightarrow> int64_range (s_best_ask s - s_best_bid s)" "0 < cap" "length buf = cap"
  shows "\<exists>t b n. json_text s = Some t \<and> writeJson s buf cap = Some (b, n) \<and> length b = cap
    \<and> n = min (length t) (cap - 1) \<and> take n b = take (cap - 1) t \<and> b ! n = CHR 0x00"
proof -
  have "spread_ok s" using assms(2) by (simp add: spread_ok_def)
  then show ?thesis using json_text_defined [OF assms(1)] writeJson_text [OF _ assms(3,4)] by blast
qed

theorem json_in_buffer_witness:
  "\<exists>b n. writeJson (new_snapshot\<lparr>s_have_book := True, s_best_bid := 99, s_best_ask := 101\<rparr>) (replicate 5 CHR ''x'') 5 = Some (b, n)
     \<and> length b = 5 \<and> b ! n = CHR 0x00"
  using json_in_buffer [of "new_snapshot\<lparr>s_have_book := True, s_best_bid := 99, s_best_ask := 101\<rparr>" 5 "replicate 5 CHR ''x''"]
  by (auto simp: snapshot_ok_def new_snapshot_def int64_range_def)

text \<open>
  C27: The whole pipeline: whatever the producer calls and however the consumer's turns fall, the run returns;
  at the end the ring is empty, the last frame is the final one, what was ingested is what the recorder
  offered, in order, without the dropped events, and events plus drops of that frame are all that was
  offered. Every earlier frame shows a prefix of the ingested events.
\<close>

theorem pipeline_accounts:
  assumes "mk_aggregator ns hz = Some a" "k \<le> 32" "length (turns_calls (turns @ [fin])) < 2 ^ 63"
    and "list_all views_ok (turns @ [fin])"
  shows "\<exists>pl s es d. Metrics_Pipeline.run t_start turns fin (mk_recorder (mask k)) a = Some pl
    \<and> ring_contents ring_cap (rec_ring (pl_rec pl)) = []
    \<and> subseq es (offered k 0 (turns_calls (turns @ [fin])))
    \<and> length es + d = length (offered k 0 (turns_calls (turns @ [fin])))
    \<and> pl_out pl \<noteq> [] \<and> last (pl_out pl) = s \<and> s_final s \<and> frame_of s es d \<and> frames_ok (pl_out pl) es"
  using assms by (rule run_works)

theorem pipeline_accounts_witness:
  "\<exists>pl s es d. Metrics_Pipeline.run 0 [(sample_calls, 300000000, None)] ([Rec_Trade 6 101 2 8], 400000000, None) (mk_recorder (mask 1))
        sample_aggregator = Some pl
    \<and> ring_contents ring_cap (rec_ring (pl_rec pl)) = [] \<and> length es + d = 5
    \<and> last (pl_out pl) = s \<and> s_final s \<and> frame_of s es d"
proof -
  let ?turns = "[(sample_calls, 300000000, None)]" and ?fin = "([Rec_Trade 6 101 2 8], 400000000, None)"
  have "length (turns_calls (?turns @ [?fin])) = 6" "length (offered 1 0 (turns_calls (?turns @ [?fin]))) = 5"
    by (simp_all add: turns_calls_def sample_calls_def)
  then show ?thesis
    using pipeline_accounts [OF sample_aggregator_made, of 1 ?turns ?fin 0] by (simp add: views_ok_def) blast
qed

text \<open>
  C28: A rendered frame is one whole datagram: its JSON text is shorter than the 4096-byte buffer, whatever the
  aggregator has seen, provided prices, quantities and the spreads of the quotes are 64-bit (the text prints the spread, which
  the code computes in 64 bits) and a tick is at most 1000 ns; \<open>send\<close> passes all of it to \<open>sendto\<close> and counts the outcome.
\<close>

theorem frame_is_one_datagram:
  assumes "agg_rep a old new" "length (old @ new) < 2 ^ 63"
    and "\<forall>e \<in> set (old @ new). payload_int64 (ev_payload e)" "val (ag_ns_per_tick a) \<le> 1000"
    and "\<forall>p bv. bookpub = Some p \<and> read_view p = Some bv \<longrightarrow> view_ok bv \<and> view_int64 bv"
    and "length buf = 4096" "u_ok u"
  shows "\<exists>a' snap t. render t_now t_start final drops bookpub a = Some (a', snap) \<and> json_text snap = Some t
    \<and> length t < 4096
    \<and> send sendto buf snap u = Some
        (if sendto (u_fd u) (u_dst u) t = int (length t) then u\<lparr>u_sent := u_sent u + 1\<rparr>
         else u\<lparr>u_errors := u_errors u + 1\<rparr>)"
  using assms by (rule frame_sent_whole)

theorem frame_is_one_datagram_witness:
  "\<exists>a' snap. render 700 100 False 3 None sample_aggregator = Some (a', snap)
     \<and> send (\<lambda>fd dst t. int (length t)) (replicate 4096 CHR 0x00) snap sample_udp
         = Some (sample_udp\<lparr>u_sent := u_sent sample_udp + 1\<rparr>)"
  using frame_is_one_datagram [OF sample_aggregator_rep _ _ _ _ _ sample_udp_ok, of None "replicate 4096 CHR 0x00"
      700 100 False 3 "\<lambda>fd dst t. int (length t)"]
  by (simp add: sample_aggregator_ticks) blast

text \<open>
  C29: A whole render cycle of the aggregator returns, and the console readout that it prints, if the console is on,
  fits in its 4096-byte buffer whatever the aggregator has seen, so no call of \<open>snprintf\<close> starts outside it; prices and
  the spreads of the quotes must be 64-bit, as the readout computes the spread in 64 bits, and the render rate positive.
\<close>

theorem readout_fits:
  assumes "agg_rep a old new" "length (old @ new) < 2 ^ 63" "0 < ag_render_ns a"
    and "\<forall>e \<in> set (old @ new). payload_int64 (ev_payload e)"
    and "\<forall>p bv. bookpub = Some p \<and> read_view p = Some bv \<longrightarrow> view_ok bv"
  shows "\<exists>a' snap t. render_cycle console ansi t_now t_start final drops bookpub a = Some (a', snap, t)
    \<and> render t_now t_start final drops bookpub a = Some (a', snap) \<and> length t < 4096"
  using assms by (rule cycle_works)

theorem readout_fits_witness:
  "\<exists>a' snap t. render_cycle True True 700 100 False 3 None sample_aggregator = Some (a', snap, t) \<and> length t < 4096"
  using readout_fits [OF sample_aggregator_rep, of None True True 700 100 False 3] sample_aggregator_hz by auto

text \<open>
  C30: Attaching a recorder changes neither the book nor the trades of a submission, whatever the time stamp
  counter reads; recorded are one cancellation for each maker filled whole and one add if a remainder is left, and
  nothing else: as many cancellations as trades, or one fewer when the last maker keeps some quantity.
\<close>

theorem recorder_is_transparent:
  assumes "book_wf (mb_book st)" "unat q < 2 ^ 63" "\<not> resting (mb_book st) t" "recorder_ok (mb_rec st)"
  shows "\<exists>st' trs n. submitLimit (mb_book st) s p q t = Some (mb_book st', trs)
    \<and> m_submitLimit clock st s p q t = Some (st', trs) \<and> recorder_ok (mb_rec st')
    \<and> meters (mb_rec st) (mb_rec st') (replicate n Op_Cancel @ (if traded_qty trs < unat q then [Op_Add] else []))
    \<and> (n = length trs \<or> Suc n = length trs \<and> traded_qty trs = unat q)"
  using assms by (rule m_submitLimit_works)

theorem recorder_is_transparent_witness:
  "\<exists>st' trs. submitLimit sample_book BUY 2 6 12 = Some (mb_book st', trs)
     \<and> m_submitLimit (\<lambda>n. of_nat (10 * n)) sample_metered BUY 2 6 12 = Some (st', trs)"
  using recorder_is_transparent [of sample_metered 6 12 BUY 2 "\<lambda>n. of_nat (10 * n)"] sample_metered_ok sample_wf sample_fresh
  by (simp add: sample_metered_ok) blast

section \<open>The programs\<close>

text \<open>
  C31: \<^verbatim>\<open>engine_metrics_demo\<close> passes its own check: for all random draws, clock readings and schedules of the two
  threads in which the run flag is cleared at some point (a thread whose time was over before does nothing more), the program
  ends with exit code 0 and prints its report; all events produced were consumed or counted as drops, the ring is empty, and
  the book is well formed and uncrossed. The ids resting in the book are exactly those of the driver's live vector, each once
  there, at most 32769, and the book's counter is their number. In every frame the spread is a 64-bit number, so that printing it is defined.
\<close>

theorem engine_demo_accounts:
  assumes "seconds_arg argv 8 = Some secs" "val secs \<le> 1000000000" "mk_clock cal = Some hz"
    and "\<exists>x \<in> set (inputs_of turns). \<not> in_run x" "length (inputs_of turns) < 2 ^ 61"
  shows "\<exists>st pl. engine_program argv cal clock t_hot t_start turns t_end
      = Some \<lparr>x_status = 0, x_out = engine_report st pl, x_err = [], x_end = Some (st, pl)\<rparr>
    \<and> et_produced st = ag_consumed (pl_agg pl) + rec_drops (pl_rec pl)
    \<and> ring_contents ring_cap (rec_ring (pl_rec pl)) = []
    \<and> book_wf (mb_book (tr_sys (dt_trader st))) \<and> uncrossed (mb_book (tr_sys (dt_trader st)))
    \<and> dom (order_map (mb_book (tr_sys (dt_trader st)))) = set (tr_live (dt_trader st)) \<and> distinct (tr_live (dt_trader st))
    \<and> getTotalOrders (mb_book (tr_sys (dt_trader st))) = of_nat (length (tr_live (dt_trader st)))
    \<and> (\<forall>s \<in> set (pl_out pl). s_have_book s \<longrightarrow> int64_range (s_best_ask s - s_best_bid s))
    \<and> length (tr_live (dt_trader st)) \<le> 2 ^ 15 + 1"
  using engine_program_works [OF assms] unfolding holds_live_def spread_ok_def by blast

theorem engine_demo_accounts_witness:
  "\<exists>st pl. engine_program [''engine_metrics_demo''] sample_calibration (\<lambda>n. of_nat n) 0 0
       [([\<lparr>in_run = True, in_draws = \<lambda>n. of_nat n, in_now = 1\<rparr>], 300000000),
        ([\<lparr>in_run = False, in_draws = \<lambda>n. 0, in_now = 2\<rparr>], 600000000)] 900000000
     = Some \<lparr>x_status = 0, x_out = engine_report st pl, x_err = [], x_end = Some (st, pl)\<rparr>"
  using engine_demo_accounts [OF default_args(1) _ sample_calibration_hz, of "[''engine_metrics_demo'']"
      "[([\<lparr>in_run = True, in_draws = \<lambda>n. of_nat n, in_now = 1\<rparr>], 300000000),
        ([\<lparr>in_run = False, in_draws = \<lambda>n. 0, in_now = 2\<rparr>], 600000000)]" "\<lambda>n. of_nat n" 0 0 900000000]
  by (simp add: val_d_of_int) blast

text \<open>
  C32: \<^verbatim>\<open>book_dashboard_demo\<close>, in which market orders trade with the resting ones and the depth is published through
  the sequence lock, given a target that can be opened: it ends with exit code 0, every frame is sent or counted as an error,
  the last frame has the totals of the run, the book is well formed and uncrossed, and in the published view every bid is
  below every ask.
\<close>

theorem dashboard_demo_accounts:
  assumes "seconds_arg argv 30 = Some secs" "val secs \<le> 1000000000" "host_arg argv = Some host" "port_arg argv = Some port"
    and "mk_clock cal = Some hz" "0 \<le> sock" "pton host = 1"
    and "\<exists>x \<in> set (inputs_of turns). \<not> in_run x" "length (inputs_of turns) < 2 ^ 46" "length buf = 4096"
  shows "\<exists>err st pl u bv. dash_program argv cal clock t_hot t_start turns t_end sock pton sendto buf
      = Some \<lparr>x_status = 0, x_out = [], x_err = err @ dash_report u pl, x_end = Some (st, pl, u)\<rparr>
    \<and> u_sent u + u_errors u = of_nat (length (pl_out pl))
    \<and> ring_contents ring_cap (rec_ring (pl_rec pl)) = [] \<and> s_final (last (pl_out pl))
    \<and> s_events (last (pl_out pl)) = ag_consumed (pl_agg pl) \<and> s_drops (last (pl_out pl)) = rec_drops (pl_rec pl)
    \<and> book_wf (mb_book (tr_sys (dt_trader st))) \<and> uncrossed (mb_book (tr_sys (dt_trader st)))
    \<and> read_view (da_pub st) = Some bv
    \<and> (\<forall>x \<in> set (take (bv_nbids bv) (bv_bids bv)). \<forall>y \<in> set (take (bv_nasks bv) (bv_asks bv)). dr_px x < dr_px y)"
proof -
  obtain err st pl u bv cs es d where run: "dash_program argv cal clock t_hot t_start turns t_end sock pton sendto buf
      = Some \<lparr>x_status = 0, x_out = [], x_err = err @ dash_report u pl, x_end = Some (st, pl, u)\<rparr>"
    "settled 0 cs pl es d" "u_sent u + u_errors u = of_nat (length (pl_out pl))"
    "book_wf (mb_book (tr_sys (dt_trader st)))" "uncrossed (mb_book (tr_sys (dt_trader st)))" "read_view (da_pub st) = Some bv"
    "\<forall>x \<in> set (take (bv_nbids bv) (bv_bids bv)). \<forall>y \<in> set (take (bv_nasks bv) (bv_asks bv)). dr_px x < dr_px y"
    using dash_program_works [where pton = pton, OF assms] by metis
  have "ring_contents ring_cap (rec_ring (pl_rec pl)) = [] \<and> s_final (last (pl_out pl))" using run(2) by (simp add: settled_def)
  then show ?thesis using run settled_frame [OF run(2)] by blast
qed

theorem dashboard_demo_accounts_witness:
  "\<exists>err st pl u. dash_program [''book_dashboard_demo''] sample_calibration (\<lambda>n. of_nat n) 0 0
       [([\<lparr>in_run = True, in_draws = \<lambda>n. of_nat n, in_now = 1\<rparr>], 300000000),
        ([\<lparr>in_run = False, in_draws = \<lambda>n. 0, in_now = 2\<rparr>], 600000000)] 900000000 3 (\<lambda>host. 1) (\<lambda>fd dst t. int (length t))
       (replicate 4096 CHR 0x00) = Some \<lparr>x_status = 0, x_out = [], x_err = err @ dash_report u pl, x_end = Some (st, pl, u)\<rparr>
     \<and> u_sent u + u_errors u = of_nat (length (pl_out pl))"
  using dashboard_demo_accounts [OF default_args(1) _ default_args(2,3) sample_calibration_hz, of "[''book_dashboard_demo'']" 3
      "\<lambda>host. 1" "[([\<lparr>in_run = True, in_draws = \<lambda>n. of_nat n, in_now = 1\<rparr>], 300000000),
        ([\<lparr>in_run = False, in_draws = \<lambda>n. 0, in_now = 2\<rparr>], 600000000)]" "replicate 4096 CHR 0x00"
      "\<lambda>n. of_nat n" 0 0 900000000 "\<lambda>fd dst t. int (length t)"]
  by (simp add: val_d_of_int) blast

text \<open>
  C33: \<^verbatim>\<open>itch_metrics_replay\<close>, not interrupted: a framed capture whose references are new when they are added is parsed
  and replayed with the recorder attached, at full speed or at a pace of at least a 10000th of real time by a clock that goes
  on, whatever the schedule; the program ends with exit code 0, the live orders are those that the messages describe, the ring
  is empty and the last frame final. No event is lost: those consumed and those counted as drops are together one for each
  call of the book that the messages of the symbol cause, one quote for every so many messages, and the last quote; and with a
  UDP target every frame was sent or counted as an error.
\<close>

theorem feed_replay_accounts:
  assumes "\<forall>body \<in> set bodies. 0 < length body \<and> length body < 65536" "bodies \<noteq> []"
    and "fresh_stream (pack8 (padded (raw_bytes symb))) (\<lambda>p. 1 \<le> p \<and> p \<le> 500000) (modelled_messages bodies) Map.empty"
    and "length (modelled_messages bodies) < length (inputs_of turns)" "length (inputs_of turns) < 2 ^ 60"
    and "\<forall>x \<in> set (inputs_of turns). \<not> fi_stop x \<and> ticking x" "length buf = 4096"
    and "feed_option_loop opts feed_defaults = Some (Inr g)" "pace_ok (fo_pace (feed_checked g))"
    and "fy_file y path = Some (concat (map frame bodies))" "fy_maps y" "mk_clock cal = Some hz"
    and "fo_udp g \<Longrightarrow> 0 \<le> fy_socket y \<and> fy_pton y (c_string (fo_host g)) = 1"
  shows "\<exists>out st pl pub. feed_program y (name # path # symb # opts) cal clock t_start turns t_end buf
      = Some \<lparr>x_status = 0,
          x_out = out @ feed_summary symb (ft_stop st \<or> fy_late_stop y) (length (modelled_messages bodies)) st pl pub,
          x_err = [], x_end = Some (st, pl, pub)\<rparr>
    \<and> book_wf (mb_book (fr_sys (ft_replay st)))
    \<and> order_map (mb_book (fr_sys (ft_replay st)))
        = fold (apply_message (pack8 (padded (raw_bytes symb))) (\<lambda>p. 1 \<le> p \<and> p \<le> 500000)) (modelled_messages bodies) Map.empty
    \<and> ring_contents ring_cap (rec_ring (pl_rec pl)) = [] \<and> s_final (last (pl_out pl))
    \<and> s_events (last (pl_out pl)) = ag_consumed (pl_agg pl) \<and> s_drops (last (pl_out pl)) = rec_drops (pl_rec pl)
    \<and> unat (ag_consumed (pl_agg pl)) + unat (rec_drops (pl_rec pl))
        = stream_calls (pack8 (padded (raw_bytes symb))) (\<lambda>p. 1 \<le> p \<and> p \<le> 500000) (modelled_messages bodies) Map.empty
          + length (modelled_messages bodies) div unat (fo_snap (feed_checked g)) + 1
    \<and> (pub = None \<longleftrightarrow> \<not> fo_udp g) \<and> (\<forall>u. pub = Some u \<longrightarrow> u_sent u + u_errors u = of_nat (length (pl_out pl)))"
  using assms by (rule feed_program_works)

theorem feed_replay_accounts_witness:
  "\<exists>x. feed_program sample_system [''itch_metrics_replay'', ''day.itch'', ''AB'', ''--pace=1'', ''--udp''] sample_calibration
       (\<lambda>n. of_nat n) 0 [(replicate 4 sample_turn, 300000000)] 600000000 (replicate 4096 CHR 0x00) = Some x \<and> x_status x = 0"
proof -
  obtain g where g: "feed_option_loop [''--pace=1'', ''--udp''] feed_defaults = Some (Inr g)"
    "pace_ok (fo_pace (feed_checked g))" "c_string (fo_host g) = ''127.0.0.1''" by (rule sample_flags_read)
  have symb: "raw_bytes ''AB'' = sample_symbol" by code_simp
  show ?thesis
    using feed_replay_accounts [OF sample_bodies_framed _ _ _ _ _ _ g(1,2) _ _ sample_calibration_hz, of "''AB''"
        "[(replicate 4 sample_turn, 300000000)]" "replicate 4096 CHR 0x00" sample_system "''day.itch''" "''itch_metrics_replay''"
        "\<lambda>n. of_nat n" 0 600000000] sample_stream_from_empty sample_turn_ok
    by (simp add: symb sample_system_def g(3) sample_messages) (force simp: sample_bodies_def)
qed

text \<open>
  C34: The options of the replay are read as they are meant: from any list of flags in their printed form the loop makes
  the options that the flags ask for, later ones overriding, with a host cut to 63 characters; and whatever the options, the
  64-character host buffer stays a string, the snapshot period is not zero and the pace is not negative.
\<close>

theorem options_read_back:
  assumes "\<forall>a \<in> set as. flag_ok a"
  shows "(\<exists>f. feed_option_loop (map flag_text as) feed_defaults = Some (Inr f)
      \<and> means (feed_checked f) (fold apply_flag as default_request))
    \<and> (\<forall>opts f. feed_option_loop opts feed_defaults = Some (Inr f) \<longrightarrow>
        options_ok (feed_checked f) \<and> fo_snap (feed_checked f) \<noteq> 0 \<and> 0 \<le> val (fo_pace (feed_checked f)))"
  using options_read [OF assms] option_loop_ok [OF _ defaults_ok] feed_checked_ok by blast

theorem options_read_back_witness:
  "\<exists>f. feed_option_loop [''--pace=10'', ''--udp=10.0.0.1:80''] feed_defaults = Some (Inr f)
     \<and> val (fo_pace (feed_checked f)) = 10 \<and> c_string (fo_host (feed_checked f)) = ''10.0.0.1'' \<and> fo_port (feed_checked f) = 80"
proof -
  have flags: "map flag_text [Pace 10, Udp_Target ''10.0.0.1'' 80] = [''--pace=10'', ''--udp=10.0.0.1:80'']" by code_simp
  show ?thesis
    using options_read_back [of "[Pace 10, Udp_Target ''10.0.0.1'' 80]"] unfolding flags
    by (auto simp: means_def default_request_def)
qed

text \<open>
  C35: \<^verbatim>\<open>itch_dump\<close>, the reference of the hardware parser's tests, prints one line for each message of a framed capture,
  modelled or not, in order, up to the number given as its second argument; on any other file the walk ends as well and never
  reads outside it.
\<close>

theorem itch_dump_reports:
  assumes "\<forall>body \<in> set bodies. 0 < length body \<and> length body < 65536"
    and "files path = Some (concat (map frame bodies), length (concat (map frame bodies)))"
  shows "dump_main files err (name # path # (case asked of None \<Rightarrow> [] | Some k \<Rightarrow> [fmt_llu k]))
      = Some \<lparr>x_status = 0, x_out = concat (map line_of (take (unat (case asked of None \<Rightarrow> - 1 | Some k \<Rightarrow> k)) bodies)), x_err = [],
          x_end = Some (min (length bodies) (unat (case asked of None \<Rightarrow> - 1 | Some k \<Rightarrow> k)))\<rparr>
    \<and> itch_dump data maxn \<noteq> None"
  using dump_main_works [OF assms(1), of files path] assms(2) dump_from_safe [of data maxn 0 0 "[]"] by (auto simp: itch_dump_def)

theorem itch_dump_reports_witness:
  "dump_main (\<lambda>path. Some (concat (map frame sample_bodies), length (concat (map frame sample_bodies)))) (\<lambda>path. [])
     [''itch_dump'', ''day.itch'', ''2'']
   = Some \<lparr>x_status = 0, x_out = concat (map line_of (take 2 sample_bodies)), x_err = [], x_end = Some 2\<rparr>"
proof -
  have "[fmt_llu 2] = [''2'']" "length sample_bodies = 4" by code_simp+
  then show ?thesis
    using itch_dump_reports [OF sample_bodies_framed, of "\<lambda>path. Some (concat (map frame sample_bodies),
        length (concat (map frame sample_bodies)))" "''day.itch''" "\<lambda>path. []" "''itch_dump''" "Some 2"] by simp
qed

text \<open>
  C36: The ring's benchmark, in either layout: if in each of the five repetitions both threads come to run in \<open>2 * N\<close> rounds
  and the clock has moved, the program ends with exit code 0; the consumer has added up the time stamps of all \<open>N\<close> items of each
  repetition, five throughputs were measured, and the ring is left empty.
\<close>

theorem stream_delivers_all:
  assumes "arg_or argv 1 atoi 2 = Some pcore" "arg_or argv 2 atoi 3 = Some ccore"
    and "arg_or argv 3 (\<lambda>s. Some (strtoull s)) 50000000 = Some N" "N \<noteq> 0"
    and "\<forall>i < 5. ru_finish (runs i) \<noteq> ru_begin (runs i) \<and> (\<exists>rounds. ru_moves (runs i) = concat rounds
       \<and> 2 * unat N \<le> length rounds \<and> (\<forall>ms \<in> set rounds. {Send, Receive} \<subseteq> set ms))"
  shows "\<exists>tot out. fs_main no_pad argv runs = Some \<lparr>x_status = 0, x_out = out, x_err = [], x_end = Some tot\<rparr>
    \<and> ring_contents fs_ring_cap (tt_ring tot) = [] \<and> tt_sink tot = of_nat (5 * (\<Sum>{..<unat N})) \<and> length (tt_mops tot) = 5"
  using assms by (rule fs_main_works)

theorem stream_delivers_all_witness:
  "\<exists>tot out. fs_main True [''bench'', ''0'', ''1'', ''3'']
       (\<lambda>i. \<lparr>ru_moves = concat (replicate 6 [Send, Receive, Receive]), ru_begin = 5, ru_finish = 905\<rparr>)
       = Some \<lparr>x_status = 0, x_out = out, x_err = [], x_end = Some tot\<rparr> \<and> tt_sink tot = 15"
proof -
  have texts: "fmt_u 0 = ''0''" "fmt_u 1 = ''1''" "fmt_llu 3 = ''3''" by code_simp+
  have args: "arg_or [''bench'', ''0'', ''1'', ''3''] 1 atoi 2 = Some 0" "arg_or [''bench'', ''0'', ''1'', ''3''] 2 atoi 3 = Some 1"
    "arg_or [''bench'', ''0'', ''1'', ''3''] 3 (\<lambda>s. Some (strtoull s)) 50000000 = Some 3"
    using atoi_u [of 0] atoi_u [of 1] strtoull_llu [of 3] by (simp_all add: arg_or_def vec_get_def texts)
  have rounds: "\<exists>rounds. concat (replicate 6 [Send, Receive, Receive]) = concat rounds \<and> 2 * unat (3 :: u64) \<le> length rounds
      \<and> (\<forall>ms \<in> set rounds. {Send, Receive} \<subseteq> set ms)" by (rule exI [of _ "replicate 6 [Send, Receive, Receive]"]) simp
  have sum: "(\<Sum>{..<unat (3 :: u64)}) = 3" by (simp add: lessThan_nat_numeral)
  let ?runs = "\<lambda>i :: nat. \<lparr>ru_moves = concat (replicate 6 [Send, Receive, Receive]), ru_begin = 5, ru_finish = 905\<rparr>"
  have "\<forall>i < 5. ru_finish (?runs i) \<noteq> ru_begin (?runs i) \<and> (\<exists>rounds. ru_moves (?runs i) = concat rounds
      \<and> 2 * unat (3 :: u64) \<le> length rounds \<and> (\<forall>ms \<in> set rounds. {Send, Receive} \<subseteq> set ms))"
    unfolding fs_run.simps using rounds by simp
  from stream_delivers_all [OF args _ this, of True] obtain tot out where
    "fs_main True [''bench'', ''0'', ''1'', ''3''] ?runs = Some \<lparr>x_status = 0, x_out = out, x_err = [], x_end = Some tot\<rparr>"
    "tt_sink tot = of_nat (5 * (\<Sum>{..<unat (3 :: u64)}))" by auto
  then show ?thesis unfolding sum by (intro exI conjI) (assumption, simp)
qed

text \<open>
  C37: The overhead benchmark: for inputs in the ranges of its distributions and batches that take time both measurements end,
  without a recorder and with one that another thread drains, in the contract of the book. The program prints its banner, the
  two reports and the drops counted in the second measurement. In each report the mean is that of the batch, and p50, p99,
  p99.9 and the maximum are the medians, over seven repetitions, of the places 100000, 198000, 199800 and 199999 of the
  200000 sorted times, each in nanoseconds and less the overhead of the timer; they are in ascending order.
\<close>

theorem overhead_benchmark_ordered:
  assumes "bench_core hw argv = Some core" "mk_clock cal = Some hz"
    and "\<forall>n. case draw n of (s, p, q) \<Rightarrow> 9000 \<le> p \<and> p \<le> 11000 \<and> 100 \<le> q \<and> q \<le> 1000"
    and "fst (be_batch env) \<noteq> snd (be_batch env)" "fst (be_batch env') \<noteq> snd (be_batch env')"
  shows "\<exists>det att drops t1 t2. overhead_program hw argv cal readings draw env env'
      = Some \<lparr>x_status = 0, x_out = overhead_banner core hz (measureTimerOverhead (map readings [0..<200000]))
          @ ''BUILD         : METRICS_ENABLED=1 (instrumented)'' @ line_end @ line_end @ t1
          @ ''consumer core : '' @ fmt_lld (consumer_core hw core) @ ''   drops during attached run: '' @ fmt_llu drops
          @ line_end @ line_end @ t2, x_err = [], x_end = Some (det, att)\<rparr>
    \<and> overhead_main hz (map readings [0..<200000]) (map draw [0..<200000]) env env' = Some (det, att, drops)
    \<and> overhead_report ''detached  (instrumentation compiled in, no recorder attached)'' det = Some t1
    \<and> overhead_report ''attached  (rdtsc x2 + build 32B event + ring push, every op)'' att = Some t2
    \<and> summarises hz (measureTimerOverhead (map readings [0..<200000])) env 200000 (100000, 198000, 199800) det
    \<and> summarises hz (measureTimerOverhead (map readings [0..<200000])) env' 200000 (100000, 198000, 199800) att"
  using assms by (rule overhead_program_works)

theorem overhead_benchmark_ordered_witness:
  "\<exists>out det att. overhead_program 8 [''bench''] sample_calibration (\<lambda>n. (0, 20)) (\<lambda>n. (int n mod 2, 9500 + int n mod 500, 100))
       \<lparr>be_clock = \<lambda>i n. of_nat n, be_sched = \<lambda>i n. 0, be_batch = (0, 900), be_ops = \<lambda>i n. (0, 50)\<rparr>
       \<lparr>be_clock = \<lambda>i n. of_nat n, be_sched = \<lambda>i n. 1, be_batch = (0, 900), be_ops = \<lambda>i n. (0, 70)\<rparr>
       = Some \<lparr>x_status = 0, x_out = out, x_err = [], x_end = Some (det, att)\<rparr> \<and> val (br_p50 att) \<le> val (br_p99 att)"
proof -
  have core: "bench_core 8 [''bench''] = Some 7" by code_simp
  have draw: "\<forall>n. case (int n mod 2, 9500 + int n mod 500, 100 :: int) of (s, p, q) \<Rightarrow> 9000 \<le> p \<and> p \<le> 11000 \<and> 100 \<le> q \<and> q \<le> 1000"
  proof
    fix n
    have "0 \<le> int n mod 500" "int n mod 500 < 500" by simp_all
    then show "case (int n mod 2, 9500 + int n mod 500, 100 :: int) of (s, p, q) \<Rightarrow> 9000 \<le> p \<and> p \<le> 11000 \<and> 100 \<le> q \<and> q \<le> 1000" by simp
  qed
  have batch: "fst (be_batch \<lparr>be_clock = \<lambda>i n. of_nat n, be_sched = \<lambda>i n. 0, be_batch = (0, 900), be_ops = \<lambda>i n. (0, 50)\<rparr>)
      \<noteq> snd (be_batch \<lparr>be_clock = \<lambda>i n. of_nat n, be_sched = \<lambda>i n. 0, be_batch = (0, 900), be_ops = \<lambda>i n. (0, 50)\<rparr>)"
    "fst (be_batch \<lparr>be_clock = \<lambda>i n. of_nat n, be_sched = \<lambda>i n. 1, be_batch = (0, 900), be_ops = \<lambda>i n. (0, 70)\<rparr>)
      \<noteq> snd (be_batch \<lparr>be_clock = \<lambda>i n. of_nat n, be_sched = \<lambda>i n. 1, be_batch = (0, 900), be_ops = \<lambda>i n. (0, 70)\<rparr>)" by simp_all
  show ?thesis
    using overhead_benchmark_ordered [OF core sample_calibration_hz draw batch, of "\<lambda>n. (0, 20)"]
    by (elim exE conjE) (intro exI conjI, assumption, erule summarises_ordered)
qed

section \<open>Outside the contract\<close>

text \<open>
  C38: \<open>addOrder\<close> does not check that an id is new. On any book, an add with an id that rests and the cancellation of that id
  both succeed and leave all entries as they were, the older order included, but no call can cancel or modify that one any
  more. Matching removes a filled maker through its id, so once such an order is at the front of its side it is never used up:
  a market order for \<open>n\<close> times its quantity is filled by it \<open>n\<close> times over, and the book does not change.
\<close>

theorem duplicate_id_orphans:
  assumes "book_wf b" "resting b i" "inRange b p"
  shows "\<exists>b1 b2. addOrder b s p q i = Some (b1, i) \<and> cancelOrder b1 i = Some (b2, True)
    \<and> (\<forall>u. view b2 u = view b u) \<and> cancelOrder b2 i = Some (b2, False) \<and> (\<forall>q'. modifyOrder b2 i q' = Some (b2, False))
    \<and> (\<forall>u e es n t. view b (opp u) = e # es \<and> e_id e = i \<and> e_qty e \<noteq> 0 \<and> n * unat (e_qty e) < 2 ^ 63 \<longrightarrow>
         submitMarket b2 u (of_nat n * e_qty e) t = Some (b2, replicate n
           \<lparr>t_price = e_price e, t_quantity = e_qty e, t_makerId = i, t_takerId = t, t_takerSide = u\<rparr>))"
proof -
  obtain Q a where rep: "book_rep b Q" and a: "orders b i = Some a" using assms(1,2) by (auto simp: book_wf_def resting_def)
  obtain b1 b2 where calls: "addOrder b s p q i = Some (b1, i)" "cancelOrder b1 i = Some (b2, True)"
    and rep2: "book_rep (b2\<lparr>orders := orders b\<rparr>) Q" and same: "payload (mem b2) = payload (mem b)" "num_levels b2 = num_levels b"
    and gone: "orders b2 i = None" by (rule add_cancel_orphans [OF rep a assms(3), of s q])
  have v: "view b2 u = view b u" for u using view_same_payload [OF rep rep2, of u] same by simp
  have "submitMarket b2 u (of_nat n * e_qty e) t = Some (b2, replicate n
      \<lparr>t_price = e_price e, t_quantity = e_qty e, t_makerId = i, t_takerId = t, t_takerSide = u\<rparr>)"
    if "view b (opp u) = e # es" "e_id e = i" "e_qty e \<noteq> 0" "n * unat (e_qty e) < 2 ^ 63" for u e es n t
    using orphan_fills [OF rep2, of u e es n t] that gone by (simp add: v)
  then show ?thesis using calls v cancelOrder_unknown [OF gone] modifyOrder_unknown [OF gone] by blast
qed

theorem duplicate_id_orphans_witness:
  "\<exists>b1 b2. addOrder sample_book SELL 3 1 10 = Some (b1, 10) \<and> cancelOrder b1 10 = Some (b2, True)
    \<and> submitMarket b2 BUY 20 99 = Some (b2, replicate 4
        \<lparr>t_price = 2, t_quantity = 5, t_makerId = 10, t_takerId = 99, t_takerSide = BUY\<rparr>)"
proof -
  have "inRange sample_book 3" by code_simp
  from duplicate_id_orphans [OF sample_wf sample_resting this, of SELL 1] obtain b1 b2 where
    b: "addOrder sample_book SELL 3 1 10 = Some (b1, 10)" "cancelOrder b1 10 = Some (b2, True)"
    and fills: "\<forall>u e es n t. view sample_book (opp u) = e # es \<and> e_id e = 10 \<and> e_qty e \<noteq> 0 \<and> n * unat (e_qty e) < 2 ^ 63 \<longrightarrow>
      submitMarket b2 u (of_nat n * e_qty e) t = Some (b2, replicate n
        \<lparr>t_price = e_price e, t_quantity = e_qty e, t_makerId = 10, t_takerId = t, t_takerSide = u\<rparr>)" by blast
  from fills [rule_format, of BUY "\<lparr>e_price = 2, e_id = 10, e_qty = 5\<rparr>" "[\<lparr>e_price = 2, e_id = 11, e_qty = 7\<rparr>]" 4 99]
  show ?thesis using b by (simp add: sample_view)
qed

text \<open>
  C39: A best level whose orders have total quantity zero stops \<open>executeMarketOrder\<close>: it reports nothing filled and changes
  nothing, whatever is offered one level further, whereas a market submission of the same quantity trades as much as the side offers.
\<close>

theorem zero_quantity_blocks:
  assumes "book_wf b" "price_groups (view b (opp s)) = l # ls" "dl_qty l = 0" "unat q < 2 ^ 63"
  shows "executeMarketOrder b s q = Some (b, 0)
    \<and> (\<exists>b' trs. submitMarket b s q t = Some (b', trs) \<and> traded_qty trs = min (unat q) (total_qty (view b (opp s))))"
proof -
  obtain Q where rep: "book_rep b Q" using assms(1) by (auto simp: book_wf_def)
  obtain b' rem trs where "submitMarket b s q t = Some (b', trs)"
    "fill_entries s (\<lambda>_. True) t q (view b (opp s)) = (view b' (opp s), rem, trs)"
    by (rule submitMarket_view [OF rep assms(4), of s t]) blast
  then show ?thesis using empty_level_blocks [OF rep assms(2,3)] fill_entries_amount by blast
qed

theorem zero_quantity_blocks_witness:
  "executeMarketOrder zero_book BUY 5 = Some (zero_book, 0)
    \<and> (\<exists>b' trs. submitMarket zero_book BUY 5 99 = Some (b', trs) \<and> traded_qty trs = 5)"
proof -
  have "price_groups (view zero_book (opp BUY)) = [\<lparr>dl_price = 2, dl_qty = 0\<rparr>, \<lparr>dl_price = 3, dl_qty = 5\<rparr>]"
    by (simp add: zero_view)
  from zero_quantity_blocks [OF zero_book_wf this, of 5 99] show ?thesis by (simp add: zero_view)
qed

text \<open>
  C40: The rank of the 99.9th percentile is computed in doubles, where \<open>99.9 * 0.01\<close> is a little more than
  0.999: of 1000 samples the code reports the bucket of the largest, not of the 999th.
\<close>

theorem p999_is_maximum:
  assumes "h_records xs h_reset = Some h" "length xs = 1000"
  shows "h_percentile (round_frac 999 10) h = Some (valueOf (bucketOf (sort xs ! 999)))"
proof -
  have "percentile_rank (round_frac 999 10) (of_nat (length xs)) = Some 1000" using p999_rank assms(2) by simp
  moreover have "xs \<noteq> []" using assms(2) by auto
  ultimately show ?thesis using h_percentile_rank [OF h_records_hist_rep [OF assms(1)]] assms(2)
    by (fastforce simp: kept_rank_def)
qed

theorem p999_is_maximum_witness:
  "\<exists>h. h_records (replicate 999 9 @ [5000]) h_reset = Some h
     \<and> h_percentile (round_frac 999 10) h = Some (valueOf (bucketOf (sort (replicate 999 9 @ [5000]) ! 999)))"
proof -
  obtain h where "h_records (replicate 999 9 @ [5000]) h_reset = Some h" using h_records_rep by blast
  then show ?thesis using p999_is_maximum [of "replicate 999 9 @ [5000]" h] by (intro exI [of _ h]) simp
qed

end
